(* ===== verification/Gravel_Prelude.thy ===== *)
theory Gravel_Prelude
  imports Main "HOL-Library.Word" "HOL-Library.Multiset"
begin

text \<open>
  Shared vocabulary of the GravelDB development: the machine integer types of the C code, the
  status codes of \<^verbatim>\<open>include/graveldb.h\<close>, and the generic facts about lists, masks and circular
  indices that the components use.

  Conventions kept by every theory of the development:
  \<^item> a C struct is a \<^theory_text>\<open>record\<close> with the same fields, prefixed by the component;
  \<^item> an unsigned C integer whose width matters is a word (\<open>u8\<close>, \<open>u16\<close>, \<open>u32\<close>, \<open>u64\<close>);
  \<^item> a heap array is a list; a pointer that may be NULL is an \<open>option\<close>;
  \<^item> an allocation that may fail takes its outcome as a boolean argument, so that every
    out-of-memory branch of the code is a branch of the model;
  \<^item> a loop that the code does not bound carries fuel, and \<open>None\<close> means that the loop does not
    stop within that fuel.
\<close>

unbundle bit_operations_syntax

subsection \<open>Machine integers and status codes\<close>

type_synonym u8 = "8 word"
type_synonym u16 = "16 word"
type_synonym u32 = "32 word"
type_synonym u64 = "64 word"

datatype graveldb_status =
    GRAVELDB_OK | GRAVELDB_AGAIN | GRAVELDB_FLUSH_NEEDED
  | GRAVELDB_ERR_IO | GRAVELDB_ERR_OOM | GRAVELDB_ERR_NOT_FOUND | GRAVELDB_ERR_CORRUPT
  | GRAVELDB_ERR_FULL | GRAVELDB_ERR_INVALID | GRAVELDB_ERR_BUSY | GRAVELDB_ERR_DIM_MISMATCH

definition UINT32_MAX :: u32 where
  "UINT32_MAX = 0xFFFFFFFF"

named_theorems idx_simps \<open>rewriting of circular indices and masks to arithmetic modulo the capacity\<close>
named_theorems oa_intros \<open>introduction rules for the invariants of open-addressing tables\<close>

subsection \<open>Masks\<close>

text \<open>A table of capacity \<open>2 ^ k\<close> is indexed through the mask \<open>2 ^ k - 1\<close>.\<close>

definition pow2_mask :: "nat \<Rightarrow> u32 \<Rightarrow> bool" where
  "pow2_mask n m \<longleftrightarrow> (\<exists>k < 32. n = 2 ^ k \<and> m = 2 ^ k - 1)"

lemma pow2_maskI: "k < 32 \<Longrightarrow> n = 2 ^ k \<Longrightarrow> m = 2 ^ k - 1 \<Longrightarrow> pow2_mask n m"
  by (auto simp: pow2_mask_def)

lemma unat_and_mask32: "k < 32 \<Longrightarrow> unat ((x :: u32) AND (2 ^ k - 1)) = unat x mod 2 ^ k"
proof -
  have "x AND (2 ^ k - 1) = take_bit k x"
    by (simp add: take_bit_eq_mask mask_eq_exp_minus_1)
  then show ?thesis
    by (simp add: unsigned_take_bit_eq flip: take_bit_eq_mod)
qed

lemma pow2_mask_pos: "pow2_mask n m \<Longrightarrow> 0 < n"
  by (auto simp: pow2_mask_def)

lemma pow2_mask_and: "pow2_mask n m \<Longrightarrow> unat (x AND m) = unat x mod n"
  by (auto simp: pow2_mask_def unat_and_mask32)

lemma pow2_mask_and_less: "pow2_mask n m \<Longrightarrow> unat (x AND m) < n"
  using pow2_mask_pos [of n m] by (simp add: pow2_mask_and)

lemma pow2_mask_le: "pow2_mask n m \<Longrightarrow> n \<le> 2 ^ 31"
  using power_increasing [of _ 31 "2 :: nat"] by (fastforce simp: pow2_mask_def)

lemma pow2_mask_succ:
  assumes "pow2_mask n m" and "unat h < n"
  shows "unat ((h + 1) AND m) = (unat h + 1) mod n"
proof -
  have "unat h + 1 < 2 ^ 32"
    using assms pow2_mask_le [OF assms(1)] by simp
  then have "unat (h + 1) = unat h + 1"
    by (simp add: unat_word_ariths)
  then show ?thesis
    using assms(1) by (simp add: pow2_mask_and)
qed

lemma pow2_mask_unat: "pow2_mask n m \<Longrightarrow> Suc (unat m) = n"
proof -
  assume "pow2_mask n m"
  then obtain k where k: "k < 32" "n = 2 ^ k" "m = 2 ^ k - 1"
    by (auto simp: pow2_mask_def)
  have "unat ((2 :: u32) ^ k) = 2 ^ k"
    using k(1) unat_of_nat [where ?'a = 32, of "2 ^ k"]
      power_strict_increasing [of k 32 "2 :: nat"] by simp
  moreover from this have "(2 :: u32) ^ k \<noteq> 0"
    by (metis power_not_zero unsigned_0 zero_neq_numeral)
  ultimately show ?thesis
    using k(2,3) by (simp add: unat_minus_one)
qed

lemma unat_exp: "k < LENGTH('a) \<Longrightarrow> unat (2 ^ k :: 'a :: len word) = 2 ^ k"
  using unat_of_nat [where ?'a = 'a, of "2 ^ k"] power_strict_increasing [of k "LENGTH('a)" "2 :: nat"]
  by (simp add: take_bit_nat_def)

lemma unat_exp_minus_1: "k < LENGTH('a) \<Longrightarrow> unat (2 ^ k - 1 :: 'a :: len word) = 2 ^ k - 1"
  by (subst unat_minus_one) (auto simp: unat_exp simp flip: unat_eq_zero)

lemma unat_succ_less: "(c :: 'a :: len word) < d \<Longrightarrow> unat (c + 1) = Suc (unat c)"
proof -
  assume "c < d"
  then have "unat c < unat d"
    by (simp add: word_less_nat_alt)
  then have "Suc (unat c) < 2 ^ LENGTH('a)"
    using unsigned_less [of d, where ?'a = nat] by linarith
  then show ?thesis
    by (simp add: unat_word_ariths)
qed

lemma unat_succ_diff_less: "(c :: 'a :: len word) < d \<Longrightarrow> unat d - unat (c + 1) < unat d - unat c"
  by (simp add: unat_succ_less word_less_nat_alt)

subsection \<open>Circular indices\<close>

definition cdist :: "nat \<Rightarrow> nat \<Rightarrow> nat \<Rightarrow> nat" where
  "cdist n a b = (b + n - a) mod n"

lemma cdist_less [simp]: "0 < n \<Longrightarrow> cdist n a b < n"
  by (simp add: cdist_def)

lemma cdist_add [idx_simps]: "a < n \<Longrightarrow> b < n \<Longrightarrow> (a + cdist n a b) mod n = b"
  by (simp add: cdist_def mod_add_right_eq)

lemma mod_add_cancel_less [idx_simps]:
  assumes "i < n" and "j < n"
  shows "(a + i) mod n = (a + j) mod n \<longleftrightarrow> i = (j :: nat)"
proof
  assume eq: "(a + i) mod n = (a + j) mod n"
  have "\<bar>int i - int j\<bar> < int n"
    using assms by linarith
  moreover have "int n dvd int i - int j"
    using eq by (metis add_diff_cancel_left mod_eq_dvd_iff of_nat_add zmod_int)
  ultimately show "i = j"
    using zdvd_not_zless by (metis abs_ge_zero dvd_abs_iff eq_iff_diff_eq_0 of_nat_eq_iff
        abs_0_eq less_le)
qed simp

lemma option_eqI: "(\<And>v. x = Some v \<longleftrightarrow> y = Some v) \<Longrightarrow> x = y"
  by (cases x; cases y) auto

subsection \<open>Binary search\<close>

text \<open>
  The search loop over an ascending array that the program writes out several times:
  \<open>Inl\<close> the index of the key, or \<open>Inr\<close> the insertion point.
\<close>

function bin_search :: "('a \<Rightarrow> 'k :: linorder) \<Rightarrow> 'a list \<Rightarrow> 'k \<Rightarrow> int \<Rightarrow> int \<Rightarrow> nat + nat" where
  "bin_search key xs k lo hi =
     (if lo \<le> hi then
        let m = (lo + hi) div 2;
            km = key (xs ! nat m)
        in if km = k then Inl (nat m)
           else if km < k then bin_search key xs k (m + 1) hi
           else bin_search key xs k lo (m - 1)
      else Inr (nat lo))"
  by pat_completeness auto
termination
  by (relation "measure (\<lambda>(key, xs, k, lo, hi). nat (hi - lo + 1))") auto

declare bin_search.simps [simp del]

lemma bin_search_spec:
  assumes "sorted_wrt (<) (map key xs)" and "0 \<le> lo" and "hi < int (length xs)" and "lo \<le> hi + 1"
    and "\<And>j. int j < lo \<Longrightarrow> key (xs ! j) < k"
    and "\<And>j. hi < int j \<Longrightarrow> j < length xs \<Longrightarrow> k < key (xs ! j)"
  shows "case bin_search key xs k lo hi of
      Inl i \<Rightarrow> i < length xs \<and> key (xs ! i) = k
    | Inr i \<Rightarrow> i \<le> length xs \<and> (\<forall>p \<in> set (take i xs). key p < k) \<and> (\<forall>p \<in> set (drop i xs). k < key p)"
  using assms
proof (induction key xs k lo hi rule: bin_search.induct)
  case (1 key xs k lo hi)
  have mono: "key (xs ! i) < key (xs ! j)" if "i < j" "j < length xs" for i j
    using "1.prems"(1) that by (simp add: sorted_wrt_iff_nth_less)
  show ?case
  proof (cases "lo \<le> hi")
    case False
    then have lo: "lo = hi + 1"
      using "1.prems"(4) by simp
    have "key p < k" if p: "p \<in> set (take (nat lo) xs)" for p
    proof -
      obtain j where j: "j < nat lo" "p = xs ! j"
        using p by (auto simp: in_set_conv_nth)
      show ?thesis
        using "1.prems"(5) [of j] j by auto
    qed
    moreover have "k < key p" if p: "p \<in> set (drop (nat lo) xs)" for p
    proof -
      obtain j where j: "nat lo + j < length xs" "p = xs ! (nat lo + j)"
        using p by (auto simp: in_set_conv_nth less_diff_conv add.commute)
      show ?thesis
        using "1.prems"(6) [of "nat lo + j"] j lo "1.prems"(2) by auto
    qed
    ultimately show ?thesis
      using False "1.prems" lo by (subst bin_search.simps) auto
  next
    case True
    define m where "m = (lo + hi) div 2"
    have m: "lo \<le> m" "m \<le> hi" "nat m < length xs" "0 \<le> m"
      using True "1.prems"(2,3) by (auto simp: m_def)
    consider "key (xs ! nat m) = k" | "key (xs ! nat m) < k" | "k < key (xs ! nat m)"
      by fastforce
    then show ?thesis
    proof cases
      case 1
      then show ?thesis
        using True m by (subst bin_search.simps) (simp add: Let_def flip: m_def)
    next
      case 2
      have eq: "bin_search key xs k lo hi = bin_search key xs k (m + 1) hi"
        using True 2 by (subst bin_search.simps) (auto simp add: Let_def simp flip: m_def)
      have "key (xs ! j) < k" if "int j < m + 1" for j
      proof (cases "j = nat m")
        case False
        then have "j < nat m"
          using that m(4) by linarith
        then show ?thesis
          using mono [of j "nat m"] m(3) 2 by auto
      qed (use 2 in simp)
      moreover have ne: "key (xs ! nat m) \<noteq> k"
        using 2 by simp
      ultimately show ?thesis
        unfolding eq using m "1.prems"(1-4,6)
        by (intro "1.IH"(1) [OF True m_def refl ne 2]) auto
    next
      case 3
      have eq: "bin_search key xs k lo hi = bin_search key xs k lo (m - 1)"
        using True 3 by (subst bin_search.simps) (auto simp add: Let_def simp flip: m_def)
      have "k < key (xs ! j)" if "m - 1 < int j" "j < length xs" for j
      proof (cases "j = nat m")
        case False
        then have "nat m < j"
          using that m(4) by linarith
        then show ?thesis
          using mono [of "nat m" j] that(2) 3 by auto
      qed (use 3 in simp)
      moreover have ne: "key (xs ! nat m) \<noteq> k" "\<not> key (xs ! nat m) < k"
        using 3 by auto
      ultimately show ?thesis
        unfolding eq using m "1.prems"(1-3,5)
        by (intro "1.IH"(2) [OF True m_def refl ne]) auto
    qed
  qed
qed

end
