(* ===== verification/Open_Addressing.thy ===== *)
theory Open_Addressing
  imports Gravel_Prelude
begin

text \<open>
  Linear probing, shared by the feature index (\<^verbatim>\<open>src/hash_index.c\<close>), the checkpoint overlay
  (\<^verbatim>\<open>src/overlay.c\<close>) and the page map of the write buffer (\<^verbatim>\<open>src/dimbin.h\<close>). The three tables are
  arrays of slots of capacity \<open>2 ^ k\<close> indexed through a mask; they differ in the slot type, in the
  sentinel that marks a free slot and in the hash function. This theory holds the two probe loops
  that all of them run and the invariant that makes the loops correct; the locale
  \<open>oa_table\<close> is the interface through which the components use it.
\<close>

subsection \<open>The probe loops\<close>

text \<open>
  \<open>probe\<close> is \<^verbatim>\<open>while (!stop(slots[h])) h = (h + 1) & mask;\<close>. The C loop has no bound, so the model
  carries fuel: with \<open>capacity\<close> units it has looked at every slot, and \<open>None\<close> means that the C loop
  runs forever.
\<close>

fun probe :: "('s \<Rightarrow> bool) \<Rightarrow> 's list \<Rightarrow> u32 \<Rightarrow> nat \<Rightarrow> u32 \<Rightarrow> u32 option" where
  "probe stop xs m 0 h = None"
| "probe stop xs m (Suc f) h =
     (if stop (xs ! unat h) then Some h else probe stop xs m f ((h + 1) AND m))"

text \<open>
  \<open>probe_round\<close> is the same loop with the guard \<^verbatim>\<open>if (h == start) break;\<close> at the end of its body;
  \<open>None\<close> means that the loop was left through the guard.
\<close>

fun probe_round :: "('s \<Rightarrow> bool) \<Rightarrow> 's list \<Rightarrow> u32 \<Rightarrow> u32 \<Rightarrow> nat \<Rightarrow> u32 \<Rightarrow> u32 option" where
  "probe_round stop xs m start 0 h = None"
| "probe_round stop xs m start (Suc f) h =
     (if stop (xs ! unat h) then Some h
      else let h' = (h + 1) AND m in
        if h' = start then None else probe_round stop xs m start f h')"

lemma probe_step_index:
  assumes "pow2_mask n m" and "unat h < n"
  shows "(unat ((h + 1) AND m) + i) mod n = (unat h + Suc i) mod n"
  using assms by (simp add: pow2_mask_succ mod_add_left_eq)

lemma probe_None_iff:
  assumes "pow2_mask (length xs) m" and "unat h < length xs"
  shows "probe stop xs m f h = None \<longleftrightarrow> (\<forall>i<f. \<not> stop (xs ! ((unat h + i) mod length xs)))"
  using assms(2)
proof (induction f arbitrary: h)
  case (Suc f)
  have lt: "unat ((h + 1) AND m) < length xs"
    using assms(1) by (rule pow2_mask_and_less)
  have eq: "xs ! ((unat ((h + 1) AND m) + i) mod length xs) = xs ! ((unat h + Suc i) mod length xs)"
    for i using probe_step_index [OF assms(1) Suc.prems] by simp
  show ?case
    using Suc.prems by (simp add: Suc.IH [OF lt] eq All_less_Suc2 del: add_Suc_right)
qed simp

lemma probe_Some_iff:
  assumes "pow2_mask (length xs) m" and "unat h < length xs"
  shows "probe stop xs m f h = Some p \<longleftrightarrow>
    (\<exists>i<f. unat p = (unat h + i) mod length xs \<and> stop (xs ! ((unat h + i) mod length xs)) \<and>
      (\<forall>j<i. \<not> stop (xs ! ((unat h + j) mod length xs))))"
  using assms(2)
proof (induction f arbitrary: h)
  case (Suc f)
  have lt: "unat ((h + 1) AND m) < length xs"
    using assms(1) by (rule pow2_mask_and_less)
  have eq: "(unat ((h + 1) AND m) + i) mod length xs = (unat h + Suc i) mod length xs" for i
    using probe_step_index [OF assms(1) Suc.prems] by simp
  show ?case
  proof (cases "stop (xs ! unat h)")
    case True
    show ?thesis
    proof
      assume "probe stop xs m (Suc f) h = Some p"
      then show "\<exists>i<Suc f. unat p = (unat h + i) mod length xs \<and>
          stop (xs ! ((unat h + i) mod length xs)) \<and>
          (\<forall>j<i. \<not> stop (xs ! ((unat h + j) mod length xs)))"
        using True Suc.prems by (intro exI [of _ 0]) auto
    next
      assume "\<exists>i<Suc f. unat p = (unat h + i) mod length xs \<and>
          stop (xs ! ((unat h + i) mod length xs)) \<and>
          (\<forall>j<i. \<not> stop (xs ! ((unat h + j) mod length xs)))"
      then obtain i where "unat p = (unat h + i) mod length xs"
        and "\<forall>j<i. \<not> stop (xs ! ((unat h + j) mod length xs))"
        by blast
      moreover from this(2) have "i = 0"
        using True Suc.prems by (metis add.right_neutral gr0I mod_less)
      ultimately show "probe stop xs m (Suc f) h = Some p"
        using True Suc.prems by (simp add: word_unat_eq_iff)
    qed
  next
    case False
    then show ?thesis
      using Suc.prems
      by (simp add: Suc.IH [OF lt] eq Ex_less_Suc2 All_less_Suc2 del: add_Suc_right)
  qed
qed simp

lemma probe_round_eq_probe_aux:
  assumes "pow2_mask (length xs) m" and "unat start < length xs"
    and "i < length xs" and "unat h = (unat start + i) mod length xs" and "f = length xs - i"
  shows "probe_round stop xs m start f h = probe stop xs m f h"
  using assms(3-5)
proof (induction f arbitrary: h i)
  case (Suc f)
  let ?h' = "(h + 1) AND m"
  have h: "unat h < length xs"
    using Suc.prems(2) pow2_mask_pos [OF assms(1)] by simp
  have h': "unat ?h' = (unat start + Suc i) mod length xs"
    using pow2_mask_succ [OF assms(1) h] Suc.prems(2) by (simp add: mod_Suc_eq)
  show ?case
  proof (cases "Suc i = length xs")
    case True
    then have "unat ?h' = unat start"
      using h' assms(2) by simp
    then have "?h' = start"
      by (simp add: word_unat_eq_iff)
    moreover have "f = 0"
      using True Suc.prems(3) by simp
    ultimately show ?thesis
      by (simp add: Let_def)
  next
    case False
    then have lt: "Suc i < length xs"
      using Suc.prems(1) by simp
    have "unat ?h' \<noteq> unat start"
      using h' assms(2) mod_add_cancel_less [of "Suc i" "length xs" 0 "unat start"] lt by fastforce
    then have "?h' \<noteq> start"
      by auto
    moreover have "probe_round stop xs m start f ?h' = probe stop xs m f ?h'"
      by (rule Suc.IH [OF lt h']) (use Suc.prems(3) in simp)
    ultimately show ?thesis
      by (simp add: Let_def)
  qed
qed simp

text \<open>The guarded and the unguarded loop agree: one full round is all either of them needs.\<close>

lemma probe_round_eq_probe:
  assumes "pow2_mask (length xs) m" and "unat start < length xs"
  shows "probe_round stop xs m start (length xs) start = probe stop xs m (length xs) start"
  using assms by (intro probe_round_eq_probe_aux [where i = 0]) auto

lemma probe_cong:
  assumes "pow2_mask (length xs) m" and "unat h < length xs"
    and "\<And>s. s \<in> set xs \<Longrightarrow> stop s = stop' s"
  shows "probe stop xs m f h = probe stop' xs m f h"
  using assms(2)
proof (induction f arbitrary: h)
  case (Suc f)
  then show ?case
    using assms(3) [of "xs ! unat h"] pow2_mask_and_less [OF assms(1)] by simp
qed simp

subsection \<open>The table invariant\<close>

text \<open>
  \<open>home\<close> is the ideal slot of a key. A table is well formed when every occupied slot is reached from
  the ideal slot of its key without crossing a free slot, and no key occupies two slots.
\<close>

definition home :: "('k \<Rightarrow> u32) \<Rightarrow> u32 \<Rightarrow> 'k \<Rightarrow> nat" where
  "home hash m k = unat (hash k AND m)"

definition reaches :: "('s \<Rightarrow> bool) \<Rightarrow> 's list \<Rightarrow> nat \<Rightarrow> nat \<Rightarrow> bool" where
  "reaches occ xs a p \<longleftrightarrow> (\<forall>i < cdist (length xs) a p. occ (xs ! ((a + i) mod length xs)))"

definition chain_ok :: "('s \<Rightarrow> bool) \<Rightarrow> ('s \<Rightarrow> nat) \<Rightarrow> 's list \<Rightarrow> bool" where
  "chain_ok occ at xs \<longleftrightarrow> (\<forall>p < length xs. occ (xs ! p) \<longrightarrow> reaches occ xs (at (xs ! p)) p)"

definition uniq_keys :: "('s \<Rightarrow> bool) \<Rightarrow> ('s \<Rightarrow> 'k) \<Rightarrow> 's list \<Rightarrow> bool" where
  "uniq_keys occ key xs \<longleftrightarrow>
     (\<forall>p < length xs. \<forall>q < length xs.
        occ (xs ! p) \<and> occ (xs ! q) \<and> key (xs ! p) = key (xs ! q) \<longrightarrow> p = q)"

definition oa_inv :: "('s \<Rightarrow> bool) \<Rightarrow> ('s \<Rightarrow> 'k) \<Rightarrow> ('k \<Rightarrow> u32) \<Rightarrow> u32 \<Rightarrow> 's list \<Rightarrow> bool" where
  "oa_inv occ key hash m xs \<longleftrightarrow>
     pow2_mask (length xs) m \<and> chain_ok occ (home hash m \<circ> key) xs \<and> uniq_keys occ key xs"

definition oa_keys :: "('s \<Rightarrow> bool) \<Rightarrow> ('s \<Rightarrow> 'k) \<Rightarrow> 's list \<Rightarrow> 'k set" where
  "oa_keys occ key xs = key ` {s \<in> set xs. occ s}"

definition oa_map :: "('s \<Rightarrow> bool) \<Rightarrow> ('s \<Rightarrow> 'k) \<Rightarrow> ('s \<Rightarrow> 'v) \<Rightarrow> 's list \<Rightarrow> ('k \<rightharpoonup> 'v)" where
  "oa_map occ key val xs = map_of (map (\<lambda>s. (key s, val s)) (filter occ xs))"

definition n_occ :: "('s \<Rightarrow> bool) \<Rightarrow> 's list \<Rightarrow> nat" where
  "n_occ occ xs = length (filter occ xs)"

lemma home_less: "pow2_mask n m \<Longrightarrow> home hash m k < n"
  by (simp add: home_def pow2_mask_and_less)

lemma oa_keys_iff: "k \<in> oa_keys occ key xs \<longleftrightarrow> (\<exists>p < length xs. occ (xs ! p) \<and> key (xs ! p) = k)"
  by (auto simp: oa_keys_def image_iff in_set_conv_nth)

lemma oa_map_None_iff: "oa_map occ key val xs k = None \<longleftrightarrow> k \<notin> oa_keys occ key xs"
  by (auto simp: oa_map_def oa_keys_def map_of_eq_None_iff image_image)

lemma dom_oa_map: "dom (oa_map occ key val xs) = oa_keys occ key xs"
  using oa_map_None_iff [of occ key val xs] by (auto simp: dom_def)

lemma oa_map_Some_iff:
  assumes "uniq_keys occ key xs"
  shows "oa_map occ key val xs k = Some v \<longleftrightarrow>
    (\<exists>p < length xs. occ (xs ! p) \<and> key (xs ! p) = k \<and> val (xs ! p) = v)" (is "_ \<longleftrightarrow> ?R v")
proof
  assume "oa_map occ key val xs k = Some v"
  then have "(k, v) \<in> set (map (\<lambda>s. (key s, val s)) (filter occ xs))"
    unfolding oa_map_def by (rule map_of_SomeD)
  then show "?R v"
    by (auto simp: in_set_conv_nth)
next
  assume R: "?R v"
  then have "k \<in> oa_keys occ key xs"
    by (auto simp: oa_keys_iff)
  then obtain v' where v': "oa_map occ key val xs k = Some v'"
    by (metis domD dom_oa_map)
  then have "(k, v') \<in> set (map (\<lambda>s. (key s, val s)) (filter occ xs))"
    unfolding oa_map_def by (rule map_of_SomeD)
  then have "?R v'"
    by (auto simp: in_set_conv_nth)
  with R assms have "v = v'"
    unfolding uniq_keys_def by metis
  with v' show "oa_map occ key val xs k = Some v"
    by simp
qed

lemma n_occ_le: "n_occ occ xs \<le> length xs"
  by (simp add: n_occ_def)

lemma n_occ_free: "n_occ occ xs < length xs \<longleftrightarrow> (\<exists>p < length xs. \<not> occ (xs ! p))"
proof -
  have "n_occ occ xs < length xs \<longleftrightarrow> \<not> (\<forall>s \<in> set xs. occ s)"
    by (metis filter_True length_filter_less n_occ_def order_less_irrefl)
  then show ?thesis
    by (metis in_set_conv_nth)
qed

lemma n_occ_update:
  assumes "p < length xs"
  shows "n_occ occ (xs[p := s]) + (if occ (xs ! p) then 1 else 0) =
    n_occ occ xs + (if occ s then 1 else 0)"
proof -
  have upd: "xs[p := s] = take p xs @ s # drop (Suc p) xs"
    using assms by (rule upd_conv_take_nth_drop)
  have "xs = take p xs @ xs ! p # drop (Suc p) xs"
    using assms by (rule id_take_nth_drop)
  then have "n_occ occ xs = n_occ occ (take p xs @ xs ! p # drop (Suc p) xs)"
    by simp
  then show ?thesis
    unfolding upd by (simp add: n_occ_def)
qed

subsection \<open>Lookup and insertion\<close>

text \<open>
  A slot type is usable with linear probing when it has a value that marks a free slot. The locale
  fixes what differs between the tables of the program and proves the probe loops correct once.
\<close>

locale oa_table =
  fixes occ :: "'s \<Rightarrow> bool" and key :: "'s \<Rightarrow> 'k" and hash :: "'k \<Rightarrow> u32" and free_slot :: 's
  assumes free_slot: "\<not> occ free_slot"
begin

lemma inv_fresh: "pow2_mask n m \<Longrightarrow> oa_inv occ key hash m (replicate n free_slot)"
  by (simp add: oa_inv_def chain_ok_def uniq_keys_def free_slot)

lemma map_fresh: "oa_map occ key val (replicate n free_slot) = Map.empty"
  by (simp add: oa_map_def free_slot)

lemma n_occ_fresh: "n_occ occ (replicate n free_slot) = 0"
  by (simp add: n_occ_def free_slot)

text \<open>A key that is in the table is found at its slot, and probing stops nowhere before it.\<close>

lemma find_hit:
  assumes inv: "oa_inv occ key hash m xs" and p: "p < length xs"
    and o: "occ (xs ! p)" and k: "key (xs ! p) = k"
  shows "probe (\<lambda>s. \<not> occ s \<or> key s = k) xs m (length xs) (hash k AND m) = Some (of_nat p)"
proof -
  let ?n = "length xs" and ?a = "home hash m k"
  let ?i = "cdist ?n ?a p"
  have pm: "pow2_mask ?n m" and uk: "uniq_keys occ key xs" and ch: "reaches occ xs ?a p"
    using inv p o k by (auto simp: oa_inv_def chain_ok_def)
  have a: "?a < ?n"
    using pm by (rule home_less)
  have at: "(?a + ?i) mod ?n = p"
    using a p by (rule cdist_add)
  have ilt: "?i < ?n"
    using pow2_mask_pos [OF pm] by (rule cdist_less)
  have "\<not> (\<not> occ (xs ! ((?a + j) mod ?n)) \<or> key (xs ! ((?a + j) mod ?n)) = k)" if j: "j < ?i" for j
  proof -
    have oj: "occ (xs ! ((?a + j) mod ?n))"
      using ch j by (simp add: reaches_def)
    have "(?a + j) mod ?n \<noteq> p"
      using mod_add_cancel_less [of j ?n ?i ?a] j ilt at by auto
    then have "key (xs ! ((?a + j) mod ?n)) \<noteq> k"
      using uk oj p o k pm unfolding uniq_keys_def by (metis mod_less_divisor pow2_mask_pos)
    with oj show ?thesis
      by simp
  qed
  moreover have "unat (of_nat p :: u32) = p"
    using p pow2_mask_le [OF pm] by (simp add: unat_of_nat)
  ultimately show ?thesis
    using ilt at a o k pm
    by (subst probe_Some_iff) (auto simp: home_def intro!: exI [of _ ?i])
qed

text \<open>
  What the loop returns in general: the slot it stops at is either the key's own slot or a free slot
  that is reached from the key's ideal slot, and in both cases every slot before it is occupied by
  another key.
\<close>

lemma find_SomeD:
  assumes pm: "pow2_mask (length xs) m"
    and "probe (\<lambda>s. \<not> occ s \<or> key s = k) xs m (length xs) (hash k AND m) = Some h"
  shows "unat h < length xs" and "reaches occ xs (home hash m k) (unat h)"
    and "\<not> occ (xs ! unat h) \<or> key (xs ! unat h) = k"
proof -
  let ?n = "length xs" and ?a = "home hash m k"
  have a: "?a < ?n"
    using pm by (rule home_less)
  from assms(2) a obtain i where i: "i < ?n" "unat h = (?a + i) mod ?n"
      "\<not> occ (xs ! ((?a + i) mod ?n)) \<or> key (xs ! ((?a + i) mod ?n)) = k"
      "\<forall>j<i. \<not> (\<not> occ (xs ! ((?a + j) mod ?n)) \<or> key (xs ! ((?a + j) mod ?n)) = k)"
    by (subst (asm) probe_Some_iff [OF pm]) (auto simp: home_def)
  show h: "unat h < ?n"
    using i(2) pow2_mask_pos [OF pm] by simp
  have "cdist ?n ?a (unat h) = i"
    using mod_add_cancel_less [of "cdist ?n ?a (unat h)" ?n i ?a] cdist_add [OF a h] i(1,2)
      cdist_less [OF pow2_mask_pos [OF pm]] by auto
  then show "reaches occ xs ?a (unat h)"
    using i(4) by (simp add: reaches_def)
  show "\<not> occ (xs ! unat h) \<or> key (xs ! unat h) = k"
    using i(2,3) by simp
qed

text \<open>The loop ends as soon as one slot of the table is free or holds the key.\<close>

lemma find_terminates:
  assumes pm: "pow2_mask (length xs) m" and p: "p < length xs" and stop: "stop (xs ! p)"
    and h: "unat h < length xs"
  shows "\<exists>q. probe stop xs m (length xs) h = Some q"
proof (rule ccontr)
  assume "\<nexists>q. probe stop xs m (length xs) h = Some q"
  then have "probe stop xs m (length xs) h = None"
    by simp
  then have "\<not> stop (xs ! ((unat h + cdist (length xs) (unat h) p) mod length xs))"
    using h cdist_less [OF pow2_mask_pos [OF pm]] by (subst (asm) probe_None_iff [OF pm]) auto
  with stop show False
    using h p by (simp add: cdist_add)
qed

lemma find_miss:
  assumes inv: "oa_inv occ key hash m xs" and k: "k \<notin> oa_keys occ key xs"
    and find: "probe (\<lambda>s. \<not> occ s \<or> key s = k) xs m (length xs) (hash k AND m) = Some h"
  shows "\<not> occ (xs ! unat h)"
  using find_SomeD [OF _ find] inv k by (auto simp: oa_inv_def oa_keys_iff)

text \<open>A probe for a free slot is the probe for a key that the table does not hold.\<close>

lemma probe_free_eq:
  assumes inv: "oa_inv occ key hash m xs" and k: "k \<notin> oa_keys occ key xs"
  shows "probe (\<lambda>s. \<not> occ s) xs m (length xs) (hash k AND m) =
    probe (\<lambda>s. \<not> occ s \<or> key s = k) xs m (length xs) (hash k AND m)"
proof (rule probe_cong)
  show "pow2_mask (length xs) m" and "unat (hash k AND m) < length xs"
    using inv by (auto simp: oa_inv_def pow2_mask_and_less)
  show "\<And>s. s \<in> set xs \<Longrightarrow> (\<not> occ s) = (\<not> occ s \<or> key s = k)"
    using k by (auto simp: oa_keys_def)
qed

text \<open>
  Storing an occupied slot for the key where the loop stopped keeps the table well formed, whether
  the slot was free (insertion) or held the key already (update).
\<close>

lemma inv_store:
  assumes inv: "oa_inv occ key hash m xs"
    and find: "probe (\<lambda>s. \<not> occ s \<or> key s = k) xs m (length xs) (hash k AND m) = Some h"
    and s: "occ s" "key s = k"
  shows "oa_inv occ key hash m (xs[unat h := s])"
proof -
  let ?n = "length xs" and ?xs = "xs[unat h := s]"
  have pm: "pow2_mask ?n m" and ch: "chain_ok occ (home hash m \<circ> key) xs"
    and uk: "uniq_keys occ key xs"
    using inv by (auto simp: oa_inv_def)
  note f = find_SomeD [OF pm find]
  have occ_mono: "occ (?xs ! q)" if "occ (xs ! q)" "q < ?n" for q
    using that s by (cases "q = unat h") auto
  have r_mono: "reaches occ ?xs a q" if "reaches occ xs a q" for a q
    using that pow2_mask_pos [OF pm] by (auto simp: reaches_def intro!: occ_mono)
  have "chain_ok occ (home hash m \<circ> key) ?xs"
    unfolding chain_ok_def
  proof (intro allI impI)
    fix q assume q: "q < length ?xs" "occ (?xs ! q)"
    show "reaches occ ?xs ((home hash m \<circ> key) (?xs ! q)) q"
      using q f s ch by (cases "q = unat h") (auto simp: chain_ok_def intro!: r_mono)
  qed
  moreover have "uniq_keys occ key ?xs"
  proof -
    have "q = unat h" if q: "q < ?n" "occ (xs ! q)" "key (xs ! q) = k" for q
    proof -
      have "probe (\<lambda>s. \<not> occ s \<or> key s = k) xs m (length xs) (hash k AND m) = Some (of_nat q)"
        using inv q by (rule find_hit)
      with find have "h = of_nat q"
        by simp
      then show ?thesis
        using q(1) pow2_mask_le [OF pm] by (simp add: unat_of_nat)
    qed
    note only = this
    show ?thesis
      unfolding uniq_keys_def
    proof (intro allI impI)
      fix p q
      assume pq: "p < length ?xs" "q < length ?xs"
        and e: "occ (?xs ! p) \<and> occ (?xs ! q) \<and> key (?xs ! p) = key (?xs ! q)"
      consider "p = unat h" "q = unat h" | "p = unat h" "q \<noteq> unat h"
        | "p \<noteq> unat h" "q = unat h" | "p \<noteq> unat h" "q \<noteq> unat h"
        by blast
      then show "p = q"
      proof cases
        case 2
        then have "occ (xs ! q)" "key (xs ! q) = k"
          using e s f(1) by auto
        then show ?thesis
          using only [of q] pq 2 by simp
      next
        case 3
        then have "occ (xs ! p)" "key (xs ! p) = k"
          using e s f(1) by auto
        then show ?thesis
          using only [of p] pq 3 by simp
      next
        case 4
        then have "occ (xs ! p) \<and> occ (xs ! q) \<and> key (xs ! p) = key (xs ! q)"
          using e by simp
        then show ?thesis
          using uk pq unfolding uniq_keys_def by (metis length_list_update)
      qed simp
    qed
  qed
  ultimately show ?thesis
    using pm by (simp add: oa_inv_def)
qed

lemma map_store:
  assumes inv: "oa_inv occ key hash m xs"
    and find: "probe (\<lambda>s. \<not> occ s \<or> key s = k) xs m (length xs) (hash k AND m) = Some h"
    and s: "occ s" "key s = k"
  shows "oa_map occ key val (xs[unat h := s]) = (oa_map occ key val xs)(k \<mapsto> val s)"
proof -
  let ?xs = "xs[unat h := s]"
  have pm: "pow2_mask (length xs) m" and uk: "uniq_keys occ key xs"
    using inv by (auto simp: oa_inv_def)
  have uk': "uniq_keys occ key ?xs"
    using inv_store [OF inv find s] by (simp add: oa_inv_def)
  note f = find_SomeD [OF pm find]
  show ?thesis
  proof
    fix k'
    show "oa_map occ key val ?xs k' = ((oa_map occ key val xs)(k \<mapsto> val s)) k'"
    proof (cases "k' = k")
      case True
      have "oa_map occ key val ?xs k = Some (val s)"
        using f(1) s by (subst oa_map_Some_iff [OF uk']) (auto intro!: exI [of _ "unat h"])
      with True show ?thesis
        by simp
    next
      case False
      have same: "(p < length xs \<and> occ (?xs ! p) \<and> key (?xs ! p) = k') \<longleftrightarrow>
          (p < length xs \<and> occ (xs ! p) \<and> key (xs ! p) = k')" for p
        using False f(1,3) s(2) by (cases "p = unat h") auto
      have "?xs ! p = xs ! p" if "p < length xs" "occ (xs ! p)" "key (xs ! p) = k'" for p
        using False f(1,3) s(2) that by (cases "p = unat h") auto
      then have "oa_map occ key val ?xs k' = Some v \<longleftrightarrow> oa_map occ key val xs k' = Some v" for v
        unfolding oa_map_Some_iff [OF uk] oa_map_Some_iff [OF uk'] using same by fastforce
      then have "oa_map occ key val ?xs k' = oa_map occ key val xs k'"
        by (metis not_None_eq)
      with False show ?thesis
        by simp
    qed
  qed
qed

lemma n_occ_store:
  assumes inv: "oa_inv occ key hash m xs"
    and find: "probe (\<lambda>s. \<not> occ s \<or> key s = k) xs m (length xs) (hash k AND m) = Some h"
    and s: "occ s"
  shows "n_occ occ (xs[unat h := s]) = n_occ occ xs + (if occ (xs ! unat h) then 0 else 1)"
  using n_occ_update [of "unat h" xs occ s] find_SomeD(1) [OF _ find] inv s
  by (auto simp: oa_inv_def split: if_splits)

text \<open>What a lookup reads off the slot where the loop stopped.\<close>

lemma map_find:
  assumes inv: "oa_inv occ key hash m xs"
    and find: "probe (\<lambda>s. \<not> occ s \<or> key s = k) xs m (length xs) (hash k AND m) = Some h"
  shows "oa_map occ key val xs k = (if occ (xs ! unat h) then Some (val (xs ! unat h)) else None)"
proof -
  have pm: "pow2_mask (length xs) m" and uk: "uniq_keys occ key xs"
    using inv by (auto simp: oa_inv_def)
  note f = find_SomeD [OF pm find]
  show ?thesis
  proof (cases "occ (xs ! unat h)")
    case True
    then show ?thesis
      using f by (subst oa_map_Some_iff [OF uk, THEN iffD2]) (auto intro!: exI [of _ "unat h"])
  next
    case False
    have "k \<notin> oa_keys occ key xs"
    proof
      assume "k \<in> oa_keys occ key xs"
      then obtain q where q: "q < length xs" "occ (xs ! q)" "key (xs ! q) = k"
        by (auto simp: oa_keys_iff)
      then have "h = of_nat q"
        using find_hit [OF inv q] find by simp
      then have "unat h = q"
        using q(1) pow2_mask_le [OF pm] by (simp add: unat_of_nat)
      with q False show False
        by simp
    qed
    with False show ?thesis
      by (simp add: oa_map_None_iff)
  qed
qed

text \<open>A probe that leaves a full table has seen every key.\<close>

lemma map_find_full:
  assumes inv: "oa_inv occ key hash m xs"
    and find: "probe (\<lambda>s. \<not> occ s \<or> key s = k) xs m (length xs) (hash k AND m) = None"
  shows "oa_map occ key val xs k = None"
proof -
  have pm: "pow2_mask (length xs) m"
    using inv by (simp add: oa_inv_def)
  have "k \<notin> oa_keys occ key xs"
    using find_terminates [OF pm _ _ pow2_mask_and_less [OF pm], of _ "\<lambda>s. \<not> occ s \<or> key s = k" "hash k"]
      find by (auto simp: oa_keys_iff)
  then show ?thesis
    by (simp add: oa_map_None_iff)
qed

end

end
