(* ===== verification/Probe_Deletion.thy ===== *)
theory Probe_Deletion
  imports Open_Addressing
begin

text \<open>
  Deletion from a linear-probing table. Positions are measured from a slot \<open>e\<close> that is free during
  the whole deletion, so that the cyclic probe chains become intervals of a line. \<open>lin_ok\<close> states
  that every chain is unbroken except at the pairs (slot, gap) that \<open>bad\<close> admits; a deletion starts
  with a gap that may break the chains of all later slots and ends with no exception left.
\<close>

definition slot_at :: "'s list \<Rightarrow> nat \<Rightarrow> nat \<Rightarrow> 's" where
  "slot_at xs e i = xs ! ((e + i) mod length xs)"

definition lin_ok ::
  "('s \<Rightarrow> bool) \<Rightarrow> ('s \<Rightarrow> nat) \<Rightarrow> nat \<Rightarrow> (nat \<Rightarrow> nat \<Rightarrow> bool) \<Rightarrow> 's list \<Rightarrow> bool" where
  "lin_ok occ at e bad xs \<longleftrightarrow>
     (\<forall>i < length xs. occ (slot_at xs e i) \<longrightarrow>
        (let a = cdist (length xs) e (at (slot_at xs e i)) in
         a \<le> i \<and> (\<forall>q < i. a \<le> q \<longrightarrow> occ (slot_at xs e q) \<or> bad i q)))"

lemma cdist_unique:
  assumes "a < n" and "b < n" and "t < n" and "(a + t) mod n = b"
  shows "cdist n a b = t"
proof -
  have "(a + cdist n a b) mod n = (a + t) mod n"
    using assms by (simp add: cdist_add)
  then show ?thesis
    using mod_add_cancel_less [of "cdist n a b" n t a] assms by (simp add: cdist_less)
qed

lemma cdist_shift:
  assumes "c < n" and "d < n"
  shows "cdist n ((e + c) mod n) ((e + d) mod n) = (if c \<le> d then d - c else n + d - c)"
proof (rule cdist_unique)
  show "((e + c) mod n + (if c \<le> d then d - c else n + d - c)) mod n = (e + d) mod n"
  proof -
    have "((e + c) mod n + (if c \<le> d then d - c else n + d - c)) mod n =
        ((e + c) + (if c \<le> d then d - c else n + d - c)) mod n"
      by (rule mod_add_left_eq)
    also have "(e + c) + (if c \<le> d then d - c else n + d - c) = (if c \<le> d then e + d else e + d + n)"
      using assms by simp
    finally show ?thesis
      by simp
  qed
qed (use assms in auto)

lemma reaches_line:
  assumes e: "e < length xs" "\<not> occ (xs ! e)" and a: "a < length xs"
    and i: "i < length xs" "occ (slot_at xs e i)"
  shows "reaches occ xs a ((e + i) mod length xs) \<longleftrightarrow>
    (let c = cdist (length xs) e a in c \<le> i \<and> (\<forall>q < i. c \<le> q \<longrightarrow> occ (slot_at xs e q)))"
proof -
  let ?n = "length xs" and ?c = "cdist (length xs) e a"
  have c: "?c < ?n"
    using a by (intro cdist_less) auto
  have ac: "a = (e + ?c) mod ?n"
    using cdist_add [OF e(1) a] by simp
  have i0: "0 < i"
    using e i by (cases i) (auto simp: slot_at_def)
  have at: "xs ! ((a + t) mod ?n) = slot_at xs e (?c + t)" for t
    by (subst ac) (simp add: slot_at_def mod_add_left_eq add.assoc)
  have d: "cdist ?n a ((e + i) mod ?n) = (if ?c \<le> i then i - ?c else ?n + i - ?c)"
    using cdist_shift [OF c i(1), of e] ac by simp
  show ?thesis
  proof (cases "?c \<le> i")
    case True
    have "(\<forall>t < i - ?c. occ (slot_at xs e (?c + t))) \<longleftrightarrow> (\<forall>q < i. ?c \<le> q \<longrightarrow> occ (slot_at xs e q))"
      (is "?L \<longleftrightarrow> ?R")
    proof
      assume L: ?L
      show ?R
      proof (intro allI impI)
        fix q assume "q < i" "?c \<le> q"
        then show "occ (slot_at xs e q)"
          using L [rule_format, of "q - ?c"] by simp
      qed
    qed auto
    then show ?thesis
      using True by (simp add: reaches_def d at Let_def)
  next
    case False
    have "slot_at xs e (?c + (?n - ?c)) = xs ! e"
      using c e(1) by (simp add: slot_at_def)
    moreover have "?n - ?c < ?n + i - ?c"
      using c i0 by simp
    ultimately have "\<exists>t < cdist ?n a ((e + i) mod ?n). \<not> occ (xs ! ((a + t) mod ?n))"
      using e(2) False by (intro exI [of _ "?n - ?c"]) (simp only: d at if_False simp_thms)
    then have "\<not> reaches occ xs a ((e + i) mod ?n)"
      by (auto simp: reaches_def)
    then show ?thesis
      using False by simp
  qed
qed

lemma chain_ok_line:
  assumes e: "e < length xs" "\<not> occ (xs ! e)" and at: "\<And>s. at s < length xs"
  shows "chain_ok occ at xs \<longleftrightarrow> lin_ok occ at e (\<lambda>_ _. False) xs"
proof -
  let ?n = "length xs"
  have idx: "(\<forall>p < ?n. P p) \<longleftrightarrow> (\<forall>i < ?n. P ((e + i) mod ?n))" for P
  proof
    assume R: "\<forall>i < ?n. P ((e + i) mod ?n)"
    show "\<forall>p < ?n. P p"
    proof (intro allI impI)
      fix p assume "p < ?n"
      then show "P p"
        using R [rule_format, of "cdist ?n e p"] cdist_add [OF e(1), of p] cdist_less [of ?n e p]
        by fastforce
    qed
  next
    assume "\<forall>p < ?n. P p"
    moreover have "(e + i) mod ?n < ?n" for i
      using e(1) by (intro mod_less_divisor) linarith
    ultimately show "\<forall>i < ?n. P ((e + i) mod ?n)"
      by blast
  qed
  have "(occ (xs ! ((e + i) mod ?n)) \<longrightarrow>
         reaches occ xs (at (xs ! ((e + i) mod ?n))) ((e + i) mod ?n)) \<longleftrightarrow>
      (occ (slot_at xs e i) \<longrightarrow> (let a = cdist ?n e (at (slot_at xs e i)) in
         a \<le> i \<and> (\<forall>q < i. a \<le> q \<longrightarrow> occ (slot_at xs e q) \<or> False)))" if "i < ?n" for i
    using reaches_line [where occ = occ, OF e at that, of "xs ! ((e + i) mod ?n)"]
    by (simp add: slot_at_def [of xs e i])
  then show ?thesis
    unfolding chain_ok_def lin_ok_def by (subst idx) blast
qed

subsection \<open>The contents of a table as a multiset\<close>

definition occ_mset :: "('s \<Rightarrow> bool) \<Rightarrow> 's list \<Rightarrow> 's multiset" where
  "occ_mset occ xs = filter_mset occ (mset xs)"

lemma uniq_keys_distinct: "uniq_keys occ key xs \<longleftrightarrow> distinct (map key (filter occ xs))"
proof (induction xs)
  case (Cons x xs)
  have "uniq_keys occ key (x # xs) \<longleftrightarrow>
      uniq_keys occ key xs \<and> (occ x \<longrightarrow> (\<forall>q < length xs. occ (xs ! q) \<longrightarrow> key (xs ! q) \<noteq> key x))"
    unfolding uniq_keys_def by (auto simp: All_less_Suc2 nth_Cons split: nat.splits)
  then show ?case
    using Cons.IH by (auto simp: in_set_conv_nth image_iff)
qed (simp add: uniq_keys_def)

lemma occ_mset_eqD:
  assumes eq: "occ_mset occ xs = occ_mset occ ys" and uk: "uniq_keys occ key ys"
  shows "uniq_keys occ key xs" and "oa_map occ key val xs = oa_map occ key val ys"
    and "n_occ occ xs = n_occ occ ys"
proof -
  have m: "mset (filter occ xs) = mset (filter occ ys)"
    using eq by (simp add: occ_mset_def mset_filter)
  then have km: "mset (map key (filter occ xs)) = mset (map key (filter occ ys))"
    by (simp add: mset_map)
  then show uk': "uniq_keys occ key xs"
    using uk mset_eq_imp_distinct_iff [OF km] by (simp add: uniq_keys_distinct)
  let ?f = "\<lambda>zs. map (\<lambda>s. (key s, val s)) (filter occ zs)"
  have "set (?f xs) = set (?f ys)"
    using m by (metis mset_eq_setD set_map)
  moreover have "distinct (map fst (?f xs))" "distinct (map fst (?f ys))"
    using uk uk' by (simp_all add: uniq_keys_distinct comp_def)
  ultimately show "oa_map occ key val xs = oa_map occ key val ys"
    unfolding oa_map_def by (metis map_of_inject_set)
  show "n_occ occ xs = n_occ occ ys"
    using m by (metis n_occ_def size_mset)
qed

lemma oa_map_clear:
  assumes uk: "uniq_keys occ key xs" and p: "p < length xs" "occ (xs ! p)" and f: "\<not> occ f"
  shows "uniq_keys occ key (xs[p := f])"
    and "oa_map occ key val (xs[p := f]) = (oa_map occ key val xs)(key (xs ! p) := None)"
    and "n_occ occ (xs[p := f]) = n_occ occ xs - 1"
proof -
  define A B x where "A = take p xs" and "B = drop (Suc p) xs" and "x = xs ! p"
  have xs: "xs = A @ x # B" and upd: "xs[p := f] = A @ f # B"
    using p(1) by (simp_all add: A_def B_def x_def id_take_nth_drop upd_conv_take_nth_drop)
  have occ: "occ x"
    using p by (simp add: x_def)
  have d: "distinct (map key (filter occ A @ x # filter occ B))"
    using uk occ by (simp add: uniq_keys_distinct xs)
  then show "uniq_keys occ key (xs[p := f])"
    using f by (simp add: uniq_keys_distinct upd)
  have "map_of (map (\<lambda>s. (key s, val s)) (filter occ A)) (key x) = None"
    "map_of (map (\<lambda>s. (key s, val s)) (filter occ B)) (key x) = None"
    using d by (auto simp: map_of_eq_None_iff image_image)
  then show "oa_map occ key val (xs[p := f]) = (oa_map occ key val xs)(key (xs ! p) := None)"
    using f occ unfolding x_def [symmetric] oa_map_def upd
    by (subst xs) (auto simp: fun_eq_iff map_add_def split: option.splits)
  show "n_occ occ (xs[p := f]) = n_occ occ xs - 1"
    using f occ unfolding n_occ_def upd by (subst xs) simp
qed

subsection \<open>Steps of a deletion\<close>

lemma slot_at_update:
  assumes "i < length xs" and "j < length xs"
  shows "slot_at (xs[(e + i) mod length xs := s]) e j = (if i = j then s else slot_at xs e j)"
proof -
  have "(e + i) mod length xs < length xs"
    using assms by (intro mod_less_divisor) linarith
  then show ?thesis
    using mod_add_cancel_less [OF assms, of e]
    by (cases "i = j") (simp_all add: slot_at_def)
qed

lemma lin_okD:
  assumes "lin_ok occ at e bad xs" and "i < length xs" and "occ (slot_at xs e i)"
  shows "cdist (length xs) e (at (slot_at xs e i)) \<le> i"
    and "\<And>q. q < i \<Longrightarrow> cdist (length xs) e (at (slot_at xs e i)) \<le> q \<Longrightarrow> occ (slot_at xs e q) \<or> bad i q"
  using assms by (auto simp: lin_ok_def Let_def)

lemma lin_okI:
  assumes "\<And>i. i < length xs \<Longrightarrow> occ (slot_at xs e i) \<Longrightarrow> cdist (length xs) e (at (slot_at xs e i)) \<le> i"
    and "\<And>i q. i < length xs \<Longrightarrow> occ (slot_at xs e i) \<Longrightarrow> q < i \<Longrightarrow>
      cdist (length xs) e (at (slot_at xs e i)) \<le> q \<Longrightarrow> occ (slot_at xs e q) \<or> bad i q"
  shows "lin_ok occ at e bad xs"
  using assms by (auto simp: lin_ok_def Let_def)

text \<open>Deletion may stop at a free slot: no chain crosses it, so none reaches back to the gap.\<close>

lemma lin_ok_stop:
  assumes ok: "lin_ok occ at e bad xs" and i: "i \<le> length xs"
    and free: "i < length xs \<Longrightarrow> \<not> occ (slot_at xs e i)"
    and bad: "\<And>p q. bad p q \<Longrightarrow> q < i \<and> i \<le> p"
  shows "lin_ok occ at e (\<lambda>_ _. False) xs"
proof (rule lin_okI)
  fix p q
  assume p: "p < length xs" "occ (slot_at xs e p)" and q: "q < p"
    "cdist (length xs) e (at (slot_at xs e p)) \<le> q"
  have "\<not> bad p q"
  proof
    assume "bad p q"
    then have "q < i" "i \<le> p"
      using bad by auto
    moreover then have "i \<noteq> p"
      using free p by auto
    ultimately have "occ (slot_at xs e i) \<or> bad p i"
      using lin_okD(2) [OF ok p, of i] q by simp
    then show False
      using free bad [of p i] \<open>i \<le> p\<close> p(1) by auto
  qed
  then show "occ (slot_at xs e q) \<or> False"
    using lin_okD(2) [OF ok p q] by simp
qed (rule lin_okD(1) [OF ok])

definition shift_bad :: "nat \<Rightarrow> nat \<Rightarrow> nat \<Rightarrow> nat \<Rightarrow> bool" where
  "shift_bad d i p q \<longleftrightarrow> q = d \<and> i \<le> p"

lemma shift_start:
  assumes ok: "lin_ok occ at e (\<lambda>_ _. False) xs" and d: "d < length xs" and f: "\<not> occ f"
  shows "lin_ok occ at e (shift_bad d (Suc d)) (xs[(e + d) mod length xs := f])"
proof (rule lin_okI)
  fix i
  assume i: "i < length (xs[(e + d) mod length xs := f])"
    "occ (slot_at (xs[(e + d) mod length xs := f]) e i)"
  then have ne: "i \<noteq> d" and i': "i < length xs" "occ (slot_at xs e i)"
    using f slot_at_update [OF d, of i e f] by (auto split: if_splits)
  show "cdist (length (xs[(e + d) mod length xs := f])) e
      (at (slot_at (xs[(e + d) mod length xs := f]) e i)) \<le> i"
    using lin_okD(1) [OF ok i'] ne slot_at_update [OF d i'(1), of e f] by simp
  fix q
  assume "q < i" "cdist (length (xs[(e + d) mod length xs := f])) e
      (at (slot_at (xs[(e + d) mod length xs := f]) e i)) \<le> q"
  then show "occ (slot_at (xs[(e + d) mod length xs := f]) e q) \<or> shift_bad d (Suc d) i q"
    using lin_okD(2) [OF ok i', of q] ne slot_at_update [OF d i'(1), of e f]
      slot_at_update [OF d, of q e f] i'(1) by (auto simp: shift_bad_def)
qed

lemma shift_keep:
  assumes ok: "lin_ok occ at e (shift_bad d i) xs" and i: "i < length xs" "occ (slot_at xs e i)"
    and a: "d < cdist (length xs) e (at (slot_at xs e i))"
  shows "lin_ok occ at e (shift_bad d (Suc i)) xs"
proof (rule lin_okI)
  fix p q
  assume p: "p < length xs" "occ (slot_at xs e p)" and q: "q < p"
    "cdist (length xs) e (at (slot_at xs e p)) \<le> q"
  show "occ (slot_at xs e q) \<or> shift_bad d (Suc i) p q"
    using lin_okD(2) [OF ok p q] a q by (cases "p = i") (auto simp: shift_bad_def)
qed (rule lin_okD(1) [OF ok])

lemma shift_move:
  assumes ok: "lin_ok occ at e (shift_bad d i) xs" and d: "d < i" "\<not> occ (slot_at xs e d)"
    and i: "i < length xs" "occ (slot_at xs e i)" and f: "\<not> occ f"
    and a: "cdist (length xs) e (at (slot_at xs e i)) \<le> d"
  defines "ys \<equiv> xs[(e + d) mod length xs := slot_at xs e i, (e + i) mod length xs := f]"
  shows "lin_ok occ at e (shift_bad i (Suc i)) ys"
proof -
  have len: "length ys = length xs"
    by (simp add: ys_def)
  have at: "slot_at ys e p = (if p = i then f else if p = d then slot_at xs e i else slot_at xs e p)"
    if "p < length xs" for p
    using that d(1) i(1) slot_at_update [of i "xs[(e + d) mod length xs := slot_at xs e i]" p e f]
      slot_at_update [of d xs p e "slot_at xs e i"] by (simp add: ys_def)
  show ?thesis
  proof (rule lin_okI)
    fix p
    assume p: "p < length ys" "occ (slot_at ys e p)"
    then have p': "p < length xs" "p \<noteq> i"
      using f by (auto simp: len at)
    show "cdist (length ys) e (at (slot_at ys e p)) \<le> p"
      using p p' a lin_okD(1) [OF ok, of p] by (auto simp: len at split: if_splits)
    fix q
    assume q: "q < p" "cdist (length ys) e (at (slot_at ys e p)) \<le> q"
    show "occ (slot_at ys e q) \<or> shift_bad i (Suc i) p q"
    proof (cases "p = d")
      case True
      then show ?thesis
        using lin_okD(2) [OF ok i, of q] q d(1) p' by (auto simp: len at shift_bad_def)
    next
      case False
      then have "occ (slot_at xs e q) \<or> shift_bad d i p q"
        using lin_okD(2) [OF ok, of p q] p p' q by (auto simp: len at)
      then show ?thesis
        using p' q i(2) by (auto simp: at shift_bad_def)
    qed
  qed
qed

lemma displaced_iff:
  fixes n :: nat
  assumes "e < n" and "d < i" and "i < n" and "a \<le> i"
  shows "(if (e + d) mod n < (e + i) mod n
          then (e + a) mod n \<le> (e + d) mod n \<or> (e + a) mod n > (e + i) mod n
          else (e + a) mod n \<le> (e + d) mod n \<and> (e + a) mod n > (e + i) mod n) \<longleftrightarrow> a \<le> d"
proof -
  have "(e + x) mod n = (if e + x < n then e + x else e + x - n)" if "x < n" for x
    using assms(1) that by (simp add: mod_if)
  from this [of d] this [of i] this [of a] show ?thesis
    using assms by (auto split: if_splits)
qed

text \<open>
  The other deletion takes every slot after the gap out of the table and inserts it again. The
  exceptions are then the slots before the current one that were vacated on the way.
\<close>

definition vacated_bad :: "nat \<Rightarrow> nat \<Rightarrow> nat \<Rightarrow> nat \<Rightarrow> bool" where
  "vacated_bad d i p q \<longleftrightarrow> d \<le> q \<and> q < i \<and> i \<le> p"

lemma vacated_start:
  assumes "lin_ok occ at e (\<lambda>_ _. False) xs" and "d < length xs" and "\<not> occ f"
  shows "lin_ok occ at e (vacated_bad d (Suc d)) (xs[(e + d) mod length xs := f])"
  using shift_start [OF assms] unfolding lin_ok_def Let_def
  by (fastforce simp: shift_bad_def vacated_bad_def)

lemma reinsert_step:
  assumes ok: "lin_ok occ at e (vacated_bad d i) xs" and i: "i < length xs" "occ (slot_at xs e i)"
    and d: "d < i"
    and r: "r \<le> i" "cdist (length xs) e (at (slot_at xs e i)) \<le> r"
    and run: "\<And>q. q < r \<Longrightarrow> cdist (length xs) e (at (slot_at xs e i)) \<le> q \<Longrightarrow> occ (slot_at xs e q)"
    and f: "\<not> occ f"
  defines "ys \<equiv> xs[(e + i) mod length xs := f, (e + r) mod length xs := slot_at xs e i]"
  shows "lin_ok occ at e (vacated_bad d (Suc i)) ys"
proof -
  have len: "length ys = length xs"
    by (simp add: ys_def)
  have at: "slot_at ys e p = (if p = r then slot_at xs e i else if p = i then f else slot_at xs e p)"
    if "p < length xs" for p
    using that r(1) i(1) slot_at_update [of r "xs[(e + i) mod length xs := f]" p e "slot_at xs e i"]
      slot_at_update [of i xs p e f] by (simp add: ys_def)
  show ?thesis
  proof (rule lin_okI)
    fix p
    assume p: "p < length ys" "occ (slot_at ys e p)"
    then have p': "p < length xs" "p \<noteq> r \<Longrightarrow> p \<noteq> i"
      using f by (auto simp: len at)
    show "cdist (length ys) e (at (slot_at ys e p)) \<le> p"
      using p p' r lin_okD(1) [OF ok, of p] by (auto simp: len at split: if_splits)
    fix q
    assume q: "q < p" "cdist (length ys) e (at (slot_at ys e p)) \<le> q"
    show "occ (slot_at ys e q) \<or> vacated_bad d (Suc i) p q"
    proof (cases "p = r")
      case True
      then show ?thesis
        using run [of q] q p' r(1) by (auto simp: len at vacated_bad_def)
    next
      case False
      then have "occ (slot_at xs e q) \<or> vacated_bad d i p q"
        using lin_okD(2) [OF ok, of p q] p p' q by (auto simp: len at)
      then show ?thesis
        using p' q i(2) d False by (auto simp: at vacated_bad_def)
    qed
  qed
qed

lemma lin_ok_free_eq:
  assumes "\<not> occ f" and "\<not> occ g" and "p < length xs"
  shows "lin_ok occ at e bad (xs[p := f]) \<longleftrightarrow> lin_ok occ at e bad (xs[p := g])"
proof -
  have "occ (slot_at (xs[p := f]) e q) = occ (slot_at (xs[p := g]) e q)" for q
    using assms by (cases "(e + q) mod length xs = p") (auto simp: slot_at_def)
  moreover have "slot_at (xs[p := f]) e q = slot_at (xs[p := g]) e q"
    if "occ (slot_at (xs[p := f]) e q)" for q
    using that assms by (cases "(e + q) mod length xs = p") (auto simp: slot_at_def)
  ultimately show ?thesis
    unfolding lin_ok_def Let_def by (metis length_list_update)
qed

end
