(* ===== verification/Rehash.thy ===== *)
theory Rehash
  imports Open_Addressing Probe_Deletion
begin

text \<open>
  Tables that grow by an incremental rehash. The feature index (\<^verbatim>\<open>src/hash_index.c\<close>) and the
  checkpoint overlay (\<^verbatim>\<open>src/overlay.c\<close>) are the same machine over different slots: a current table and,
  while a rehash is in progress, the old table with a cursor. Every operation first migrates up to 16
  occupied slots of the old table. The functions of this theory take what differs as arguments: the
  test for an occupied slot, its key, the hash function and what clearing a migrated slot leaves behind.
\<close>

subsection \<open>Data and operations\<close>

definition RT_BATCH :: nat where
  "RT_BATCH = 16"

record 's RehashTable =
  rt_slots :: "'s list"
  rt_capacity :: u32
  rt_count :: u32
  rt_mask :: u32
  rt_old_slots :: "'s list option"
  rt_old_capacity :: u32
  rt_old_mask :: u32
  rt_rehash_cursor :: u32

definition rt_insert ::
  "('s \<Rightarrow> bool) \<Rightarrow> ('s \<Rightarrow> 'k) \<Rightarrow> ('k \<Rightarrow> u32) \<Rightarrow> 's list \<Rightarrow> u32 \<Rightarrow> 's \<Rightarrow> 's list option" where
  "rt_insert occ key hash slots msk s =
     (case probe (\<lambda>s. \<not> occ s) slots msk (length slots) (hash (key s) AND msk) of
        None \<Rightarrow> None
      | Some h \<Rightarrow> Some (slots[unat h := s]))"

function rt_migrate ::
  "('s \<Rightarrow> bool) \<Rightarrow> ('s \<Rightarrow> 'k) \<Rightarrow> ('k \<Rightarrow> u32) \<Rightarrow> ('s \<Rightarrow> 's) \<Rightarrow> u32 \<Rightarrow> u32 \<Rightarrow> 's list \<Rightarrow> 's list \<Rightarrow> u32 \<Rightarrow> nat
     \<Rightarrow> ('s list \<times> 's list \<times> u32) option" where
  "rt_migrate occ key hash clear msk old_capacity slots old_slots cursor migrated =
     (if cursor < old_capacity \<and> migrated < RT_BATCH then
        let slot = old_slots ! unat cursor in
        if occ slot then
          (case rt_insert occ key hash slots msk slot of
             None \<Rightarrow> None
           | Some slots' \<Rightarrow>
               rt_migrate occ key hash clear msk old_capacity slots'
                 (old_slots[unat cursor := clear slot]) (cursor + 1) (Suc migrated))
        else rt_migrate occ key hash clear msk old_capacity slots old_slots (cursor + 1) migrated
      else Some (slots, old_slots, cursor))"
  by pat_completeness auto
termination
  by (relation "measure (\<lambda>(occ, key, hash, clear, m, oc, sl, ol, cur, mi). unat oc - unat cur)")
     (auto intro: unat_succ_diff_less)

declare rt_migrate.simps [simp del]

definition rt_step ::
  "('s \<Rightarrow> bool) \<Rightarrow> ('s \<Rightarrow> 'k) \<Rightarrow> ('k \<Rightarrow> u32) \<Rightarrow> ('s \<Rightarrow> 's) \<Rightarrow> ('s, 'z) RehashTable_scheme
     \<Rightarrow> ('s, 'z) RehashTable_scheme option" where
  "rt_step occ key hash clear idx =
     (case rt_old_slots idx of
        None \<Rightarrow> Some idx
      | Some old \<Rightarrow>
          (case rt_migrate occ key hash clear (rt_mask idx) (rt_old_capacity idx) (rt_slots idx) old
                  (rt_rehash_cursor idx) 0 of
             None \<Rightarrow> None
           | Some (slots', old', cursor') \<Rightarrow>
               if cursor' \<ge> rt_old_capacity idx
               then Some (idx\<lparr>rt_slots := slots', rt_old_slots := None, rt_old_capacity := 0,
                              rt_old_mask := 0, rt_rehash_cursor := 0\<rparr>)
               else Some (idx\<lparr>rt_slots := slots', rt_old_slots := Some old',
                              rt_rehash_cursor := cursor'\<rparr>)))"

definition rt_grow :: "'s \<Rightarrow> bool \<Rightarrow> ('s, 'z) RehashTable_scheme \<Rightarrow> graveldb_status \<times> ('s, 'z) RehashTable_scheme" where
  "rt_grow free_slot alloc_ok idx =
     (let new_cap = rt_capacity idx * 2 in
      if \<not> alloc_ok then (GRAVELDB_ERR_OOM, idx)
      else (GRAVELDB_OK,
        idx\<lparr>rt_old_slots := Some (rt_slots idx), rt_old_capacity := rt_capacity idx,
            rt_old_mask := rt_mask idx, rt_rehash_cursor := 0,
            rt_slots := replicate (unat new_cap) free_slot, rt_capacity := new_cap,
            rt_mask := new_cap - 1\<rparr>))"

text \<open>The loop of a lookup in one table: the slot that holds the key, if the loop meets it.\<close>

definition rt_find ::
  "('s \<Rightarrow> bool) \<Rightarrow> ('s \<Rightarrow> 'k) \<Rightarrow> ('k \<Rightarrow> u32) \<Rightarrow> 's list \<Rightarrow> u32 \<Rightarrow> 'k \<Rightarrow> u32 option" where
  "rt_find occ key hash slots msk k =
     (let start = hash k AND msk in
      case probe_round (\<lambda>s. \<not> occ s \<or> key s = k) slots msk start (length slots) start of
        None \<Rightarrow> None
      | Some h \<Rightarrow> if occ (slots ! unat h) then Some h else None)"

text \<open>A lookup in the current table and then in the old one: the slot that is found.\<close>

definition rt_get ::
  "('s \<Rightarrow> bool) \<Rightarrow> ('s \<Rightarrow> 'k) \<Rightarrow> ('k \<Rightarrow> u32) \<Rightarrow> ('s, 'z) RehashTable_scheme \<Rightarrow> 'k \<Rightarrow> 's option" where
  "rt_get occ key hash idx k =
     (case rt_find occ key hash (rt_slots idx) (rt_mask idx) k of
        Some h \<Rightarrow> Some (rt_slots idx ! unat h)
      | None \<Rightarrow>
          (case rt_old_slots idx of
             None \<Rightarrow> None
           | Some old \<Rightarrow> map_option (\<lambda>h. old ! unat h) (rt_find occ key hash old (rt_old_mask idx) k)))"

text \<open>Where a put stores a key: over its slot in one of the two tables, or in a free slot.\<close>

datatype place = In_New u32 | In_Old u32 | At_Free u32

definition rt_locate ::
  "('s \<Rightarrow> bool) \<Rightarrow> ('s \<Rightarrow> 'k) \<Rightarrow> ('k \<Rightarrow> u32) \<Rightarrow> ('s, 'z) RehashTable_scheme \<Rightarrow> 'k \<Rightarrow> place option" where
  "rt_locate occ key hash idx k =
     (case probe (\<lambda>s. \<not> occ s \<or> key s = k) (rt_slots idx) (rt_mask idx) (length (rt_slots idx))
             (hash k AND rt_mask idx) of
        None \<Rightarrow> None
      | Some h \<Rightarrow>
          if occ (rt_slots idx ! unat h) then Some (In_New h)
          else
            (case rt_old_slots idx of
               None \<Rightarrow> Some (At_Free h)
             | Some old \<Rightarrow>
                 (case rt_find occ key hash old (rt_old_mask idx) k of
                    Some oh \<Rightarrow> Some (In_Old oh)
                  | None \<Rightarrow> Some (At_Free h))))"

definition rt_store :: "('s, 'z) RehashTable_scheme \<Rightarrow> place \<Rightarrow> 's \<Rightarrow> ('s, 'z) RehashTable_scheme" where
  "rt_store idx pl s =
     (case pl of
        In_New h \<Rightarrow> idx\<lparr>rt_slots := (rt_slots idx)[unat h := s]\<rparr>
      | In_Old h \<Rightarrow> idx\<lparr>rt_old_slots := map_option (\<lambda>old. old[unat h := s]) (rt_old_slots idx)\<rparr>
      | At_Free h \<Rightarrow> idx\<lparr>rt_slots := (rt_slots idx)[unat h := s], rt_count := rt_count idx + 1\<rparr>)"

subsection \<open>Contents and invariants\<close>

text \<open>
  \<open>rt_wf\<close> is the structural invariant, which holds even of a table that stores a key twice: the arrays
  have the recorded capacities, \<open>count\<close> counts the occupied slots of both tables, and the load leaves a
  free slot in the table that receives insertions. While a rehash runs, every call migrates 16 slots,
  which is what bounds the load. \<open>rt_inv\<close> adds what makes the contents a finite map.
\<close>

definition rt_wf :: "('s \<Rightarrow> bool) \<Rightarrow> ('s, 'z) RehashTable_scheme \<Rightarrow> bool" where
  "rt_wf occ idx \<longleftrightarrow>
     length (rt_slots idx) = unat (rt_capacity idx) \<and>
     pow2_mask (unat (rt_capacity idx)) (rt_mask idx) \<and>
     4 \<le> unat (rt_capacity idx) \<and> unat (rt_capacity idx) \<le> 2 ^ 29 \<and>
     (case rt_old_slots idx of
        None \<Rightarrow> unat (rt_count idx) = n_occ occ (rt_slots idx) \<and>
          10 * unat (rt_count idx) \<le> 7 * unat (rt_capacity idx) + 10
      | Some old \<Rightarrow>
          length old = unat (rt_old_capacity idx) \<and> pow2_mask (length old) (rt_old_mask idx) \<and>
          unat (rt_capacity idx) = 2 * length old \<and> rt_rehash_cursor idx < rt_old_capacity idx \<and>
          unat (rt_count idx) = n_occ occ (rt_slots idx) + n_occ occ old \<and>
          160 * unat (rt_count idx) + 10 * n_occ occ old \<le> 119 * length old + 330 \<and>
          (\<forall>p < unat (rt_rehash_cursor idx). \<not> occ (old ! p)))"

definition rt_inv :: "('s \<Rightarrow> bool) \<Rightarrow> ('s \<Rightarrow> 'k) \<Rightarrow> ('k \<Rightarrow> u32) \<Rightarrow> ('s, 'z) RehashTable_scheme \<Rightarrow> bool" where
  "rt_inv occ key hash idx \<longleftrightarrow> rt_wf occ idx \<and> oa_inv occ key hash (rt_mask idx) (rt_slots idx) \<and>
     (case rt_old_slots idx of
        None \<Rightarrow> True
      | Some old \<Rightarrow> uniq_keys occ key old \<and> oa_keys occ key old \<inter> oa_keys occ key (rt_slots idx) = {})"

definition rt_map :: "('s \<Rightarrow> bool) \<Rightarrow> ('s \<Rightarrow> 'k) \<Rightarrow> ('s \<Rightarrow> 'v) \<Rightarrow> ('s, 'z) RehashTable_scheme \<Rightarrow> 'k \<rightharpoonup> 'v" where
  "rt_map occ key val idx =
     (case rt_old_slots idx of None \<Rightarrow> Map.empty | Some old \<Rightarrow> oa_map occ key val old) ++
     oa_map occ key val (rt_slots idx)"

text \<open>A key of the old table that the lookup loop does not meet.\<close>

definition rt_hidden :: "('s \<Rightarrow> bool) \<Rightarrow> ('s \<Rightarrow> 'k) \<Rightarrow> ('k \<Rightarrow> u32) \<Rightarrow> ('s, 'z) RehashTable_scheme \<Rightarrow> 'k \<Rightarrow> bool" where
  "rt_hidden occ key hash idx k =
     (case rt_old_slots idx of
        None \<Rightarrow> False
      | Some old \<Rightarrow> k \<in> oa_keys occ key old \<and> rt_find occ key hash old (rt_old_mask idx) k = None)"

text \<open>Room for one more insertion before the next migration step.\<close>

definition rt_slack :: "('s \<Rightarrow> bool) \<Rightarrow> ('s, 'z) RehashTable_scheme \<Rightarrow> bool" where
  "rt_slack occ idx =
     (case rt_old_slots idx of
        None \<Rightarrow> 10 * unat (rt_count idx) \<le> 7 * unat (rt_capacity idx)
      | Some old \<Rightarrow> 160 * Suc (unat (rt_count idx)) + 10 * n_occ occ old \<le> 119 * length old + 330)"

lemma pow2_mask_double:
  assumes "pow2_mask (unat (c :: u32)) m" and "unat c \<le> 2 ^ 28"
  shows "pow2_mask (unat (c * 2)) (c * 2 - 1)" and "unat (c * 2) = 2 * unat c"
proof -
  show u: "unat (c * 2) = 2 * unat c"
    using assms(2) by (simp add: unat_word_ariths)
  from assms(1) obtain j where j: "j < 32" "unat c = 2 ^ j" "m = 2 ^ j - 1"
    by (auto simp: pow2_mask_def)
  have "j \<le> 28"
    using j(2) assms(2) power_le_imp_le_exp [of "2 :: nat" j 28] by simp
  then have "Suc j < 32"
    by simp
  moreover have "of_nat (unat c) = c"
    by simp
  then have "c = 2 ^ j"
    unfolding j(2) by simp
  ultimately show "pow2_mask (unat (c * 2)) (c * 2 - 1)"
    using u j(2) unfolding pow2_mask_def by (intro exI [of _ "Suc j"]) simp
qed

subsection \<open>One table\<close>

text \<open>
  A slot is a key and a value, and one key marks the free slots.
\<close>

locale kv_table = oa_table occ key hash free_slot
  for occ :: "'s \<Rightarrow> bool" and key :: "'s \<Rightarrow> 'k" and hash :: "'k \<Rightarrow> u32" and free_slot :: 's +
  fixes nokey :: 'k and val :: "'s \<Rightarrow> 'v" and mk :: "'k \<Rightarrow> 'v \<Rightarrow> 's" and clear :: "'s \<Rightarrow> 's"
  assumes occ_key: "occ s \<longleftrightarrow> key s \<noteq> nokey"
    and key_mk [simp]: "key (mk k v) = k"
    and val_mk [simp]: "val (mk k v) = v"
    and clear_free [simp]: "\<not> occ (clear s)"
begin

abbreviation ins :: "'s list \<Rightarrow> u32 \<Rightarrow> 's \<Rightarrow> 's list option" where
  "ins \<equiv> rt_insert occ key hash"

abbreviation migrate ::
  "u32 \<Rightarrow> u32 \<Rightarrow> 's list \<Rightarrow> 's list \<Rightarrow> u32 \<Rightarrow> nat \<Rightarrow> ('s list \<times> 's list \<times> u32) option" where
  "migrate \<equiv> rt_migrate occ key hash clear"

abbreviation step :: "('s, 'z) RehashTable_scheme \<Rightarrow> ('s, 'z) RehashTable_scheme option" where
  "step \<equiv> rt_step occ key hash clear"

abbreviation lookup :: "'s list \<Rightarrow> u32 \<Rightarrow> 'k \<Rightarrow> u32 option" where
  "lookup \<equiv> rt_find occ key hash"

abbreviation oinv :: "u32 \<Rightarrow> 's list \<Rightarrow> bool" where
  "oinv \<equiv> oa_inv occ key hash"

abbreviation omap :: "'s list \<Rightarrow> 'k \<rightharpoonup> 'v" where
  "omap \<equiv> oa_map occ key val"

abbreviation okeys :: "'s list \<Rightarrow> 'k set" where
  "okeys \<equiv> oa_keys occ key"

abbreviation used :: "'s list \<Rightarrow> nat" where
  "used \<equiv> n_occ occ"

abbreviation twf :: "('s, 'z) RehashTable_scheme \<Rightarrow> bool" where
  "twf \<equiv> rt_wf occ"

abbreviation tinv :: "('s, 'z) RehashTable_scheme \<Rightarrow> bool" where
  "tinv \<equiv> rt_inv occ key hash"

abbreviation tmap :: "('s, 'z) RehashTable_scheme \<Rightarrow> 'k \<rightharpoonup> 'v" where
  "tmap \<equiv> rt_map occ key val"

abbreviation hidden :: "('s, 'z) RehashTable_scheme \<Rightarrow> 'k \<Rightarrow> bool" where
  "hidden \<equiv> rt_hidden occ key hash"

abbreviation slack :: "('s, 'z) RehashTable_scheme \<Rightarrow> bool" where
  "slack \<equiv> rt_slack occ"

lemmas find_terminates_home =
  find_terminates [OF _ _ _ pow2_mask_and_less]

lemma lookup_probe:
  assumes "pow2_mask (length xs) msk"
  shows "lookup xs msk k =
    (case probe (\<lambda>s. \<not> occ s \<or> key s = k) xs msk (length xs) (hash k AND msk) of
       None \<Rightarrow> None | Some h \<Rightarrow> if occ (xs ! unat h) then Some h else None)"
  using assms
  by (simp add: rt_find_def Let_def probe_round_eq_probe pow2_mask_and_less split: option.splits)

lemma lookup_SomeD:
  assumes pm: "pow2_mask (length xs) msk" and "lookup xs msk k = Some h" and "k \<noteq> nokey"
  shows "unat h < length xs" and "occ (xs ! unat h)" and "key (xs ! unat h) = k"
    and "probe (\<lambda>s. \<not> occ s \<or> key s = k) xs msk (length xs) (hash k AND msk) = Some h"
proof -
  show p: "probe (\<lambda>s. \<not> occ s \<or> key s = k) xs msk (length xs) (hash k AND msk) = Some h"
    and o: "occ (xs ! unat h)"
    using assms(2) unfolding lookup_probe [OF pm] by (auto split: option.splits if_splits)
  show "unat h < length xs" and "key (xs ! unat h) = k"
    using find_SomeD [OF pm p] o by auto
qed

lemma lookup_map:
  assumes inv: "oinv msk xs"
  shows "omap xs k = map_option (\<lambda>h. val (xs ! unat h)) (lookup xs msk k)"
proof -
  have pm: "pow2_mask (length xs) msk"
    using inv by (simp add: oa_inv_def)
  show ?thesis
  proof (cases "probe (\<lambda>s. \<not> occ s \<or> key s = k) xs msk (length xs) (hash k AND msk)")
    case None
    then show ?thesis
      unfolding lookup_probe [OF pm] using map_find_full [OF inv None, of val] by simp
  next
    case (Some h)
    then show ?thesis
      unfolding lookup_probe [OF pm] using map_find [OF inv Some, of val] by simp
  qed
qed

lemma lookup_sound:
  assumes pm: "pow2_mask (length xs) msk" and uk: "uniq_keys occ key xs"
    and f: "lookup xs msk k = Some h" and k: "k \<noteq> nokey"
  shows "omap xs k = Some (val (xs ! unat h))"
  using lookup_SomeD [OF pm f k] by (subst oa_map_Some_iff [OF uk]) blast

lemma free_probe:
  assumes pm: "pow2_mask (length xs) msk" and room: "used xs < length xs"
  obtains h where "probe (\<lambda>s. \<not> occ s) xs msk (length xs) (hash k AND msk) = Some h"
    and "unat h < length xs" and "\<not> occ (xs ! unat h)"
proof -
  obtain p where "p < length xs" "\<not> occ (xs ! p)"
    using room by (auto simp: n_occ_free)
  then obtain h where h: "probe (\<lambda>s. \<not> occ s) xs msk (length xs) (hash k AND msk) = Some h"
    using find_terminates_home [OF pm _ _ pm, of p "\<lambda>s. \<not> occ s"] by auto
  moreover from h have "unat h < length xs" "\<not> occ (xs ! unat h)"
    using pow2_mask_pos [OF pm] pow2_mask_and_less [OF pm, of "hash k"]
    by (auto simp: probe_Some_iff [OF pm])
  ultimately show thesis
    using that by blast
qed

lemma ins_total:
  assumes "pow2_mask (length xs) msk" and "used xs < length xs" and "occ s"
  obtains xs' where "ins xs msk s = Some xs'" and "length xs' = length xs" and "used xs' = Suc (used xs)"
proof -
  from free_probe [OF assms(1,2), of "key s"] obtain h where
    h: "probe (\<lambda>s. \<not> occ s) xs msk (length xs) (hash (key s) AND msk) = Some h"
      "unat h < length xs" "\<not> occ (xs ! unat h)" .
  have "ins xs msk s = Some (xs[unat h := s])"
    using h(1) by (simp add: rt_insert_def)
  moreover have "used (xs[unat h := s]) = Suc (used xs)"
    using n_occ_update [OF h(2), of occ s] h(3) assms(3) by simp
  ultimately show thesis
    using that by simp
qed

lemma ins_sem:
  assumes inv: "oinv msk xs" and s: "occ s" "key s \<notin> okeys xs" and ins: "ins xs msk s = Some xs'"
  shows "oinv msk xs'" and "omap xs' = (omap xs)(key s \<mapsto> val s)"
proof -
  from ins probe_free_eq [OF inv s(2)] obtain h where
    h: "probe (\<lambda>x. \<not> occ x \<or> key x = key s) xs msk (length xs) (hash (key s) AND msk) = Some h"
    and xs': "xs' = xs[unat h := s]"
    by (auto simp: rt_insert_def split: option.splits)
  show "oinv msk xs'"
    unfolding xs' using inv h s(1) by (intro inv_store) auto
  show "omap xs' = (omap xs)(key s \<mapsto> val s)"
    unfolding xs' using map_store [OF inv h, of s val] s(1) by simp
qed

lemma okeys_map: "okeys xs = dom (omap xs)"
  by (simp add: dom_oa_map)


subsection \<open>The index\<close>

lemma twf_room: "twf idx \<Longrightarrow> used (rt_slots idx) < length (rt_slots idx)"
  by (auto simp: rt_wf_def split: option.splits)

text \<open>Every step of the migration moves the cursor up by one.\<close>

lemma migrate_induct [case_names 1]:
  fixes oc :: u32
  assumes "\<And>slots old cursor mi. (\<And>slots' old' mi'. cursor < oc \<Longrightarrow> P slots' old' (cursor + 1) mi') \<Longrightarrow>
    P slots old cursor mi"
  shows "P slots old cursor mi"
proof (induction "unat oc - unat cursor" arbitrary: slots old cursor mi rule: less_induct)
  case less
  show ?case
    by (rule assms, rule less) (rule unat_succ_diff_less)
qed

lemma migrate_total:
  assumes "pow2_mask (length slots) msk" and "length old = unat oc"
    and "used slots + used old < length slots" and "cursor \<le> oc" and "mi \<le> RT_BATCH"
    and "\<forall>p < unat cursor. \<not> occ (old ! p)"
  shows "\<exists>slots' old' cursor'. migrate msk oc slots old cursor mi = Some (slots', old', cursor') \<and>
    length slots' = length slots \<and> length old' = length old \<and>
    used slots' + used old' = used slots + used old \<and> cursor \<le> cursor' \<and> cursor' \<le> oc \<and>
    (cursor < oc \<and> mi < RT_BATCH \<longrightarrow> cursor < cursor') \<and>
    (\<forall>p < unat cursor'. \<not> occ (old' ! p)) \<and>
    (cursor' < oc \<longrightarrow> used old' + RT_BATCH = used old + mi)"
  using assms
proof (induction slots old cursor mi rule: migrate_induct [where oc = oc])
  case (1 slots old cursor mi)
  let ?slot = "old ! unat cursor"
  show ?case
  proof (cases "cursor < oc \<and> mi < RT_BATCH")
    case False
    then show ?thesis
      using "1.prems" by (subst rt_migrate.simps) auto
  next
    case True
    then have cu: "unat cursor < length old" and suc: "unat (cursor + 1) = Suc (unat cursor)"
      using "1.prems"(2) unat_succ_less [of cursor oc] by (auto simp: word_less_nat_alt)
    then have le: "cursor + 1 \<le> oc" and lt: "cursor < cursor + 1"
      using "1.prems"(2) by (auto simp: word_le_nat_alt word_less_nat_alt)
    show ?thesis
    proof (cases "occ ?slot")
      case occ: True
      let ?old = "old[unat cursor := clear ?slot]"
      have n_old: "Suc (used ?old) = used old"
        using n_occ_update [OF cu, of occ "clear ?slot"] occ by simp
      obtain slots' where ins: "ins slots msk ?slot = Some slots'" "length slots' = length slots" "used slots' = Suc (used slots)"
        using ins_total [OF "1.prems"(1) _ occ] "1.prems"(3) by auto
      have "\<forall>p < unat (cursor + 1). \<not> occ (?old ! p)"
        using "1.prems"(6) cu suc by (auto simp: nth_list_update less_Suc_eq)
      from "1.IH" [OF conjunct1 [OF True] _ _ _ _ _ this, of slots' "Suc mi"] occ ins(2,3) n_old "1.prems" True le
      show ?thesis
        using ins(1) lt by (subst rt_migrate.simps) (fastforce simp: Let_def)
    next
      case free: False
      have "\<forall>p < unat (cursor + 1). \<not> occ (old ! p)"
        using "1.prems"(6) free suc by (auto simp: less_Suc_eq)
      from "1.IH" [OF conjunct1 [OF True] _ _ _ _ _ this, of slots mi] free "1.prems" True le
      show ?thesis
        using lt by (subst rt_migrate.simps) (fastforce simp: Let_def)
    qed
  qed
qed

lemma migrate_sem:
  assumes "migrate msk oc slots old cursor mi = Some (slots', old', cursor')"
    and "oinv msk slots" and "uniq_keys occ key old"
    and "okeys old \<inter> okeys slots = {}" and "length old = unat oc"
  shows "oinv msk slots' \<and> uniq_keys occ key old' \<and> okeys old' \<inter> okeys slots' = {} \<and>
    omap old' ++ omap slots' = omap old ++ omap slots"
  using assms
proof (induction slots old cursor mi rule: migrate_induct [where oc = oc])
  case (1 slots old cursor mi)
  let ?slot = "old ! unat cursor"
  show ?case
  proof (cases "cursor < oc \<and> mi < RT_BATCH")
    case False
    then show ?thesis
      using "1.prems" by (subst (asm) rt_migrate.simps) auto
  next
    case True
    then have cu: "unat cursor < length old"
      using "1.prems"(5) by (simp add: word_less_nat_alt)
    show ?thesis
    proof (cases "occ ?slot")
      case occ: True
      let ?old = "old[unat cursor := clear ?slot]" and ?k = "key ?slot"
      from "1.prems"(1) True occ obtain ns where
        ins: "ins slots msk ?slot = Some ns"
        and rec: "migrate msk oc ns ?old (cursor + 1) (Suc mi) = Some (slots', old', cursor')"
        by (subst (asm) rt_migrate.simps) (simp add: Let_def split: option.splits)
      have kin: "?k \<in> okeys old"
        using cu occ by (auto simp: oa_keys_iff)
      then have kn: "?k \<notin> okeys slots"
        using "1.prems"(4) by auto
      note ns = ins_sem [OF "1.prems"(2) occ kn ins]
      note cl = oa_map_clear [where f = "clear ?slot",
          OF "1.prems"(3) cu occ]
      have mo: "omap old ?k = Some (val ?slot)"
        using cu occ by (subst oa_map_Some_iff [OF "1.prems"(3)]) auto
      have dis: "okeys ?old \<inter> okeys ns = {}"
        using "1.prems"(4) cl(2) [where val = val] ns(2) by (auto simp: okeys_map)
      have ms: "omap slots ?k = None"
        using kn by (simp add: oa_map_None_iff)
      have "omap ?old ++ omap ns = omap old ++ omap slots"
        using cl(2) [where val = val] ns(2) mo ms by (auto simp: fun_eq_iff map_add_def split: option.splits)
      then show ?thesis
        using "1.IH" [OF conjunct1 [OF True] rec ns(1) _ dis] cl(1) "1.prems"(5) by simp
    next
      case free: False
      then have "migrate msk oc slots old (cursor + 1) mi = Some (slots', old', cursor')"
        using "1.prems"(1) True by (subst (asm) rt_migrate.simps) (auto simp: Let_def)
      from "1.IH" [OF conjunct1 [OF True] this] free "1.prems"(2-) show ?thesis
        by simp
    qed
  qed
qed

lemma twf_mask:
  "twf idx \<Longrightarrow> pow2_mask (length (rt_slots idx)) (rt_mask idx)"
  by (simp add: rt_wf_def)

lemma twf_old:
  assumes "twf idx" and "rt_old_slots idx = Some old"
  shows "length old = unat (rt_old_capacity idx)" and "pow2_mask (length old) (rt_old_mask idx)"
    and "used (rt_slots idx) + used old < length (rt_slots idx)"
    and "rt_rehash_cursor idx < rt_old_capacity idx"
    and "\<forall>p < unat (rt_rehash_cursor idx). \<not> occ (old ! p)"
  using assms by (auto simp: rt_wf_def)

text \<open>A migration step ends, keeps the structure and moves the cursor on.\<close>

lemma step_total:
  assumes wf: "twf idx"
  obtains idx' where "step idx = Some idx'" and "twf idx'"
    and "rt_count idx' = rt_count idx" and "rt_capacity idx' = rt_capacity idx"
    and "rt_old_slots idx = None \<Longrightarrow> idx' = idx"
    and "\<And>old old'. rt_old_slots idx = Some old \<Longrightarrow> rt_old_slots idx' = Some old' \<Longrightarrow>
      used old' + 16 = used old \<and> rt_rehash_cursor idx < rt_rehash_cursor idx' \<and>
      rt_old_capacity idx' = rt_old_capacity idx"
proof (cases "rt_old_slots idx")
  case None
  then show thesis
    using that [of idx] wf by (simp add: rt_step_def)
next
  case (Some old)
  note w = twf_old [OF wf Some]
  have "rt_rehash_cursor idx \<le> rt_old_capacity idx"
    using w(4) by simp
  from migrate_total [OF twf_mask [OF wf] w(1,3) this _ w(5), of 0]
  obtain slots' old' cursor' where r:
    "migrate (rt_mask idx) (rt_old_capacity idx) (rt_slots idx) old (rt_rehash_cursor idx) 0 =
       Some (slots', old', cursor')"
    "length slots' = length (rt_slots idx)" "length old' = length old"
    "used slots' + used old' = used (rt_slots idx) + used old"
    "rt_rehash_cursor idx < cursor'" "cursor' \<le> rt_old_capacity idx"
    "\<forall>p < unat cursor'. \<not> occ (old' ! p)"
    "cursor' < rt_old_capacity idx \<longrightarrow> used old' + 16 = used old"
    using w(4) by (auto simp: RT_BATCH_def)
  show thesis
  proof (cases "cursor' < rt_old_capacity idx")
    case True
    show thesis
    proof (rule that)
      show "step idx = Some (idx\<lparr>rt_slots := slots', rt_old_slots := Some old',
          rt_rehash_cursor := cursor'\<rparr>)"
        using r(1) Some True by (simp add: rt_step_def)
    qed (use wf r Some True in \<open>auto simp: rt_wf_def\<close>)
  next
    case False
    then have "unat cursor' = length old'"
      using r(3,6) w(1) by (simp add: word_less_nat_alt word_le_nat_alt)
    then have "used old' = 0"
      using r(7) by (auto simp: n_occ_def filter_empty_conv in_set_conv_nth)
    show thesis
    proof (rule that)
      show "step idx = Some (idx\<lparr>rt_slots := slots', rt_old_slots := None,
          rt_old_capacity := 0, rt_old_mask := 0, rt_rehash_cursor := 0\<rparr>)"
        using r(1) Some False by (simp add: rt_step_def)
    qed (use wf r Some \<open>used old' = 0\<close> in \<open>auto simp: rt_wf_def\<close>)
  qed
qed

lemma no_occ_map: "used xs = 0 \<Longrightarrow> omap xs = Map.empty"
  by (simp add: n_occ_def oa_map_def)

lemma step_sem:
  assumes inv: "tinv idx" and step: "step idx = Some idx'"
  shows "tinv idx'" and "tmap idx' = tmap idx"
proof -
  have wf: "twf idx"
    using inv by (simp add: rt_inv_def)
  from step_total [OF wf] step have wf': "twf idx'"
    by (metis option.inject)
  have "tinv idx' \<and> tmap idx' = tmap idx"
  proof (cases "rt_old_slots idx")
    case None
    then show ?thesis
      using step inv by (simp add: rt_step_def)
  next
    case (Some old)
    note w = twf_old [OF wf Some]
    obtain slots' old' cursor' where r:
      "migrate (rt_mask idx) (rt_old_capacity idx) (rt_slots idx) old (rt_rehash_cursor idx) 0 =
         Some (slots', old', cursor')"
      and idx': "idx' = (if cursor' \<ge> rt_old_capacity idx
               then idx\<lparr>rt_slots := slots', rt_old_slots := None, rt_old_capacity := 0,
                              rt_old_mask := 0, rt_rehash_cursor := 0\<rparr>
               else idx\<lparr>rt_slots := slots', rt_old_slots := Some old', rt_rehash_cursor := cursor'\<rparr>)"
      using step Some by (auto simp: rt_step_def split: option.splits if_splits)
    have cu: "rt_rehash_cursor idx \<le> rt_old_capacity idx"
      using w(4) by simp
    note t = migrate_total [OF twf_mask [OF wf] w(1,3) cu _ w(5), of 0, unfolded r(1)]
    have s: "oinv (rt_mask idx) slots'" "uniq_keys occ key old'"
        "okeys old' \<inter> okeys slots' = {}"
        "omap old' ++ omap slots' = omap old ++ omap (rt_slots idx)"
      using migrate_sem [OF r(1) _ _ _ w(1)] inv Some by (auto simp: rt_inv_def)
    have "omap old' = Map.empty" if "cursor' \<ge> rt_old_capacity idx"
    proof (rule no_occ_map)
      have "unat cursor' = length old'"
        using t that w(1) by (auto simp: word_less_nat_alt word_le_nat_alt)
      then show "used old' = 0"
        using t by (auto simp: n_occ_def filter_empty_conv in_set_conv_nth)
    qed
    then show ?thesis
      using s wf' Some unfolding rt_inv_def idx' by (auto simp: rt_map_def)
  qed
  then show "tinv idx'" and "tmap idx' = tmap idx"
    by auto
qed

text \<open>A migration step that does not finish the rehash moves the cursor on.\<close>

lemma step_progress:
  assumes "tinv idx" and "rt_old_slots idx = Some old" and "step idx = Some i1" and "rt_old_slots i1 \<noteq> None"
  shows "rt_rehash_cursor idx < rt_rehash_cursor i1" and "rt_old_capacity i1 = rt_old_capacity idx"
proof -
  have "twf idx"
    using assms(1) by (simp add: rt_inv_def)
  from step_total [OF this] assms(2-4)
  show "rt_rehash_cursor idx < rt_rehash_cursor i1" "rt_old_capacity i1 = rt_old_capacity idx"
    by (metis option.exhaust option.inject)+
qed

subsection \<open>Lookup, insertion and removal\<close>

lemma tmap_eq:
  assumes "tinv idx" and "k \<noteq> nokey"
  shows "tmap idx k =
    (case lookup (rt_slots idx) (rt_mask idx) k of
       Some h \<Rightarrow> Some (val (rt_slots idx ! unat h))
     | None \<Rightarrow> (case rt_old_slots idx of None \<Rightarrow> None | Some old \<Rightarrow> omap old k))"
  using lookup_map [of "rt_mask idx" "rt_slots idx" k] assms
  by (auto simp: rt_inv_def rt_map_def map_add_def split: option.splits)

lemma old_find_map:
  assumes "tinv idx" and "rt_old_slots idx = Some old" and "k \<noteq> nokey" and "\<not> hidden idx k"
  shows "omap old k = map_option (\<lambda>h. val (old ! unat h)) (lookup old (rt_old_mask idx) k)"
proof (cases "lookup old (rt_old_mask idx) k")
  case None
  then show ?thesis
    using assms by (simp add: rt_hidden_def oa_map_None_iff)
next
  case (Some h)
  then show ?thesis
    using assms lookup_sound [of old "rt_old_mask idx" k h] twf_old(2) [of idx old]
    by (simp add: rt_inv_def)
qed

lemma get_map:
  assumes inv: "tinv idx" and k: "k \<noteq> nokey"
  shows "map_option val (rt_get occ key hash idx k) = (if hidden idx k then None else tmap idx k)"
proof (cases "hidden idx k")
  case True
  then obtain old where old: "rt_old_slots idx = Some old" "k \<in> okeys old" "lookup old (rt_old_mask idx) k = None"
    by (auto simp: rt_hidden_def split: option.splits)
  then have "k \<notin> okeys (rt_slots idx)"
    using inv by (auto simp: rt_inv_def)
  then have "lookup (rt_slots idx) (rt_mask idx) k = None"
    using lookup_map [of "rt_mask idx" "rt_slots idx" k] inv
    by (simp add: rt_inv_def flip: oa_map_None_iff [of occ key val])
  then show ?thesis
    using True old by (simp add: rt_get_def)
next
  case False
  then show ?thesis
    using tmap_eq [OF inv k] old_find_map [OF inv _ k False]
    by (auto simp: rt_get_def option.map_comp o_def split: option.splits)
qed

lemma put_slot_stop:
  assumes wf: "twf idx"
  obtains h where "probe (\<lambda>s. \<not> occ s \<or> key s = k) (rt_slots idx) (rt_mask idx)
      (length (rt_slots idx)) (hash k AND rt_mask idx) = Some h" and "unat h < length (rt_slots idx)"
proof -
  note pm = twf_mask [OF wf]
  obtain p where "p < length (rt_slots idx)" "\<not> occ (rt_slots idx ! p)"
    using twf_room [OF wf] by (auto simp: n_occ_free)
  then obtain h where h: "probe (\<lambda>s. \<not> occ s \<or> key s = k) (rt_slots idx) (rt_mask idx)
      (length (rt_slots idx)) (hash k AND rt_mask idx) = Some h"
    using find_terminates_home [OF pm _ _ pm, of p "\<lambda>s. \<not> occ s \<or> key s = k"] by auto
  then show thesis
    using that find_SomeD(1) [OF pm h] by blast
qed

lemma count_suc:
  assumes "twf idx"
  shows "unat (rt_count idx + 1) = Suc (unat (rt_count idx))"
proof -
  have "Suc (unat (rt_count idx)) < 2 ^ 32"
    using assms by (auto simp: rt_wf_def split: option.splits)
  then show ?thesis
    by (simp add: unat_word_ariths)
qed

lemma count_pred:
  "0 < unat (rt_count idx) \<Longrightarrow> unat (rt_count idx - 1) = unat (rt_count idx) - 1"
  by (metis One_nat_def unat_gt_0 unat_minus_one)

lemma locate_total:
  assumes wf: "twf idx"
  obtains pl where "rt_locate occ key hash idx k = Some pl"
  using put_slot_stop [OF wf, of k] by (fastforce simp: rt_locate_def split: option.splits)

text \<open>What a place is, depending on the table it lies in.\<close>

lemma locate_cases:
  assumes wf: "twf idx" and k: "k \<noteq> nokey" and l: "rt_locate occ key hash idx k = Some pl"
  obtains (new) h where "pl = In_New h" "unat h < length (rt_slots idx)" "key (rt_slots idx ! unat h) = k"
      "occ (rt_slots idx ! unat h)"
      "probe (\<lambda>s. \<not> occ s \<or> key s = k) (rt_slots idx) (rt_mask idx) (length (rt_slots idx)) (hash k AND rt_mask idx) = Some h"
    | (old) h old where "pl = In_Old h" "rt_old_slots idx = Some old" "lookup old (rt_old_mask idx) k = Some h"
      "unat h < length old" "key (old ! unat h) = k" "occ (old ! unat h)"
    | (fresh) h where "pl = At_Free h" "unat h < length (rt_slots idx)" "\<not> occ (rt_slots idx ! unat h)"
      "probe (\<lambda>s. \<not> occ s \<or> key s = k) (rt_slots idx) (rt_mask idx) (length (rt_slots idx)) (hash k AND rt_mask idx) = Some h"
      "\<And>old. rt_old_slots idx = Some old \<Longrightarrow> lookup old (rt_old_mask idx) k = None"
proof -
  from put_slot_stop [OF wf, of k] obtain h where
    h: "probe (\<lambda>s. \<not> occ s \<or> key s = k) (rt_slots idx) (rt_mask idx)
      (length (rt_slots idx)) (hash k AND rt_mask idx) = Some h" "unat h < length (rt_slots idx)" .
  show thesis
  proof (cases "occ (rt_slots idx ! unat h)")
    case True
    then show thesis
      using new [of h] h l find_SomeD(3) [OF twf_mask [OF wf] h(1)] by (simp add: rt_locate_def)
  next
    case free: False
    show thesis
    proof (cases "\<exists>old oh. rt_old_slots idx = Some old \<and> lookup old (rt_old_mask idx) k = Some oh")
      case True
      then obtain o2 oh where o2: "rt_old_slots idx = Some o2" "lookup o2 (rt_old_mask idx) k = Some oh"
        by blast
      then show thesis
        using old [of oh o2] l h free lookup_SomeD [OF twf_old(2) [OF wf o2(1)] o2(2) k] by (simp add: rt_locate_def)
    next
      case False
      then show thesis
        using fresh [of h] l h free by (auto simp: rt_locate_def split: option.splits)
    qed
  qed
qed

lemma used_update:
  assumes "p < length xs" and "occ (xs ! p)" and "occ s"
  shows "used (xs[p := s]) = used xs"
  using n_occ_update [OF assms(1), of occ s] assms(2,3) by simp

text \<open>Storing a key with room to spare keeps the structure.\<close>

lemma store_wf:
  assumes wf: "twf idx" and slack: "slack idx" and k: "k \<noteq> nokey"
    and l: "rt_locate occ key hash idx k = Some pl"
  shows "twf (rt_store idx pl (mk k v))"
  using wf k l
proof (cases rule: locate_cases)
  case (new h)
  then show ?thesis
    using wf k used_update [of "unat h" "rt_slots idx" "mk k v"]
    by (auto simp: rt_wf_def rt_store_def occ_key split: option.splits)
next
  case (old h old)
  have "occ (old[unat h := mk k v] ! q) = occ (old ! q)" if "q < length old" for q
    using that old k by (cases "unat h = q") (simp_all add: occ_key)
  moreover have "unat (rt_rehash_cursor idx) < length old"
    using twf_old(1,4) [OF wf old(2)] by (simp add: word_less_nat_alt)
  ultimately show ?thesis
    using wf k old used_update [of "unat h" old "mk k v"] by (auto simp: rt_wf_def rt_store_def occ_key)
next
  case (fresh h)
  have "used ((rt_slots idx)[unat h := mk k v]) = Suc (used (rt_slots idx))"
    using n_occ_update [OF fresh(2), of occ "mk k v"] fresh(3) k by (simp add: occ_key)
  then show ?thesis
    using wf slack fresh count_suc [OF wf]
    by (auto simp: rt_wf_def rt_slack_def rt_store_def split: option.splits)
qed

lemma store_old:
  assumes uk: "uniq_keys occ key xs" and h: "h < length xs" "key (xs ! h) = k" and k: "k \<noteq> nokey"
  shows "uniq_keys occ key (xs[h := mk k v])" and "omap (xs[h := mk k v]) = (omap xs)(k \<mapsto> v)"
proof -
  let ?ys = "xs[h := mk k v]"
  have key: "key (?ys ! p) = key (xs ! p)" if "p < length xs" for p
    using that h by (cases "h = p") simp_all
  show uk': "uniq_keys occ key ?ys"
    using uk by (simp add: uniq_keys_def key occ_key)
  have hit: "omap ?ys k = Some v"
    using h k by (subst oa_map_Some_iff [OF uk']) (auto simp: occ_key intro!: exI [of _ h])
  have same: "?ys ! p = xs ! p" if "p < length xs" "key (xs ! p) \<noteq> k" for p
    using that h by (cases "p = h") auto
  show "omap ?ys = (omap xs)(k \<mapsto> v)"
  proof
    fix k'
    have "omap ?ys k' = Some w \<longleftrightarrow> omap xs k' = Some w" if "k' \<noteq> k" for w
      unfolding oa_map_Some_iff [OF uk'] oa_map_Some_iff [OF uk] length_list_update
      using that key same by metis
    then have "k' \<noteq> k \<Longrightarrow> omap ?ys k' = omap xs k'"
      by (intro option_eqI) blast
    then show "omap ?ys k' = ((omap xs)(k \<mapsto> v)) k'"
      using hit by (cases "k' = k") simp_all
  qed
qed

lemma store_new:
  assumes hs: "oinv (rt_mask idx) (rt_slots idx)" and k: "k \<noteq> nokey"
    and h: "probe (\<lambda>s. \<not> occ s \<or> key s = k) (rt_slots idx) (rt_mask idx) (length (rt_slots idx)) (hash k AND rt_mask idx) = Some h"
  shows "oinv (rt_mask idx) ((rt_slots idx)[unat h := mk k v])"
    and "omap ((rt_slots idx)[unat h := mk k v]) = (omap (rt_slots idx))(k \<mapsto> v)"
    and "okeys ((rt_slots idx)[unat h := mk k v]) = insert k (okeys (rt_slots idx))"
proof -
  show "oinv (rt_mask idx) ((rt_slots idx)[unat h := mk k v])"
    using inv_store [OF hs h, of "mk k v"] k by (simp add: occ_key)
  show m: "omap ((rt_slots idx)[unat h := mk k v]) = (omap (rt_slots idx))(k \<mapsto> v)"
    using map_store [OF hs h, of "mk k v" val] k by (simp add: occ_key)
  show "okeys ((rt_slots idx)[unat h := mk k v]) = insert k (okeys (rt_slots idx))"
    using m by (simp add: okeys_map)
qed

lemma store_sem:
  assumes inv: "tinv idx" and slack: "slack idx" and k: "k \<noteq> nokey" and vis: "\<not> hidden idx k"
    and l: "rt_locate occ key hash idx k = Some pl"
  shows "tinv (rt_store idx pl (mk k v))" and "tmap (rt_store idx pl (mk k v)) = (tmap idx)(k \<mapsto> v)"
proof -
  have wf: "twf idx" and hs: "oinv (rt_mask idx) (rt_slots idx)"
    using inv by (auto simp: rt_inv_def)
  note wf' = store_wf [OF wf slack k l, of v]
  have "tinv (rt_store idx pl (mk k v)) \<and> tmap (rt_store idx pl (mk k v)) = (tmap idx)(k \<mapsto> v)"
    using wf k l
  proof (cases rule: locate_cases)
    case (new h)
    then have "k \<in> okeys (rt_slots idx)"
      by (auto simp: oa_keys_iff)
    then have "k \<notin> okeys old" if "rt_old_slots idx = Some old" for old
      using inv that by (auto simp: rt_inv_def)
    then show ?thesis
      using inv wf' new(1) store_new [OF hs k new(5), of v]
      by (cases "rt_old_slots idx") (simp_all add: rt_inv_def rt_map_def rt_store_def)
  next
    case (fresh h)
    have "k \<notin> okeys old" if "rt_old_slots idx = Some old" for old
      using vis that fresh(5) [OF that] by (simp add: rt_hidden_def)
    then show ?thesis
      using inv wf' fresh(1) store_new [OF hs k fresh(4), of v]
      by (cases "rt_old_slots idx") (simp_all add: rt_inv_def rt_map_def rt_store_def)
  next
    case (old h old)
    have uk: "uniq_keys occ key old"
      using inv old(2) by (simp add: rt_inv_def)
    note sv = store_old [OF uk old(4,5) k, of v]
    have ko: "k \<in> okeys old"
      using old(4-6) by (auto simp: oa_keys_iff)
    then have "okeys (old[unat h := mk k v]) = okeys old"
      using sv(2) by (auto simp: okeys_map)
    moreover have "omap (rt_slots idx) k = None"
      using ko inv old(2) by (auto simp: rt_inv_def oa_map_None_iff)
    ultimately show ?thesis
      using inv wf' sv old(1,2)
      by (simp add: rt_inv_def rt_map_def rt_store_def map_add_upd_left [of k] oa_map_None_iff dom_oa_map)
  qed
  then show "tinv (rt_store idx pl (mk k v))" "tmap (rt_store idx pl (mk k v)) = (tmap idx)(k \<mapsto> v)"
    by auto
qed

text \<open>The index after the migration step and the growth check of a put.\<close>

lemma not_hidden_old_inv:
  assumes "rt_old_slots idx = Some old" and "oinv (rt_old_mask idx) old"
  shows "\<not> hidden idx k"
  using lookup_map [OF assms(2), of k] assms(1)
  by (cases "lookup old (rt_old_mask idx) k")
    (auto simp: rt_hidden_def dom_oa_map [of _ _ val, symmetric])

lemma begin_grow_ok:
  assumes wf: "twf idx" and old: "rt_old_slots idx = None"
    and full: "7 * unat (rt_capacity idx) < 10 * unat (rt_count idx)"
    and small: "unat (rt_count idx) < 2 ^ 28"
  obtains idx' where "rt_grow free_slot True idx = (GRAVELDB_OK, idx')"
    and "twf idx'" and "slack idx'"
    and "tinv idx \<Longrightarrow> tinv idx'" and "tmap idx' = tmap idx"
    and "\<And>k. tinv idx \<Longrightarrow> \<not> hidden idx' k"
proof -
  let ?cap = "rt_capacity idx"
  let ?idx = "idx\<lparr>rt_old_slots := Some (rt_slots idx), rt_old_capacity := ?cap,
      rt_old_mask := rt_mask idx, rt_rehash_cursor := 0,
      rt_slots := replicate (unat (?cap * 2)) free_slot, rt_capacity := ?cap * 2,
      rt_mask := ?cap * 2 - 1\<rparr>"
  have pm: "pow2_mask (unat ?cap) (rt_mask idx)" and cnt: "unat (rt_count idx) = used (rt_slots idx)"
    and load: "10 * unat (rt_count idx) \<le> 7 * unat ?cap + 10"
    and len: "length (rt_slots idx) = unat ?cap" and c4: "4 \<le> unat ?cap"
    using wf old by (auto simp: rt_wf_def)
  obtain j where j: "unat ?cap = 2 ^ j"
    using pm by (auto simp: pow2_mask_def)
  then have "(2 :: nat) ^ j < 2 ^ 29"
    using full small by simp
  then have "j < 29"
    using power_less_imp_less_exp [of "2 :: nat" j 29] by simp
  then have cap: "unat ?cap \<le> 2 ^ 28"
    unfolding j by (intro power_increasing) simp_all
  note dbl = pow2_mask_double [OF pm cap]
  have n0: "used (replicate n free_slot) = 0" for n
    by (rule n_occ_fresh)
  have cur: "0 < ?cap"
    using c4 by (simp add: word_less_nat_alt)
  have wf': "twf ?idx" and slack: "slack ?idx"
    using pm cnt load len c4 cap cur dbl by (auto simp: rt_wf_def rt_slack_def n0)
  have keys: "okeys (replicate n free_slot) = {}" for n
    by (simp add: oa_keys_def free_slot)
  have inv: "tinv ?idx" if "tinv idx"
    using wf' inv_fresh [OF dbl(1)] that by (auto simp: rt_inv_def oa_inv_def keys)
  have map: "tmap ?idx = tmap idx"
    using old map_fresh [of val] by (simp add: rt_map_def)
  show thesis
  proof (rule that)
    show "rt_grow free_slot True idx = (GRAVELDB_OK, ?idx)"
      by (simp add: rt_grow_def Let_def)
    show "\<not> hidden ?idx k" if "tinv idx" for k
      using that by (intro not_hidden_old_inv [of _ "rt_slots idx"]) (auto simp: rt_inv_def)
  qed (use wf' slack inv map in auto)
qed

lemma grow_guard:
  assumes "twf idx" and "rt_old_slots idx = None"
  shows "rt_count idx * 10 > rt_capacity idx * 7 \<longleftrightarrow>
    7 * unat (rt_capacity idx) < 10 * unat (rt_count idx)"
proof -
  have "unat (rt_capacity idx) \<le> 2 ^ 29" "10 * unat (rt_count idx) \<le> 7 * unat (rt_capacity idx) + 10"
    using assms by (auto simp: rt_wf_def)
  then have "unat (rt_capacity idx * 7) = 7 * unat (rt_capacity idx)"
    and "unat (rt_count idx * 10) = 10 * unat (rt_count idx)"
    by (simp_all add: unat_word_ariths)
  then show ?thesis
    by (simp add: word_less_nat_alt)
qed

text \<open>After the migration step, either there is room or the growth guard fires.\<close>

lemma step_slack:
  assumes wf: "twf idx" and step: "step idx = Some idx1"
    and ng: "\<not> (rt_old_slots idx1 = None \<and> rt_count idx1 * 10 > rt_capacity idx1 * 7)"
  shows "slack idx1"
proof -
  from step_total [OF wf] obtain idx' where s: "step idx = Some idx'" "twf idx'"
    "rt_count idx' = rt_count idx" "rt_old_slots idx = None \<Longrightarrow> idx' = idx"
    "\<And>old old'. rt_old_slots idx = Some old \<Longrightarrow> rt_old_slots idx' = Some old' \<Longrightarrow>
      used old' + 16 = used old \<and> rt_old_capacity idx' = rt_old_capacity idx"
    by metis
  have e: "idx' = idx1"
    using s(1) step by simp
  show ?thesis
  proof (cases "rt_old_slots idx1")
    case None
    then show ?thesis
      using ng grow_guard [of idx1] s(2) e by (simp add: rt_slack_def)
  next
    case (Some old')
    then obtain old where old: "rt_old_slots idx = Some old"
      using s(4) e by (cases "rt_old_slots idx") auto
    then have "used old' + 16 = used old" "length old' = length old"
      using s(2,5) wf e Some by (auto simp: rt_wf_def)
    then show ?thesis
      using wf old s(3) e Some by (simp add: rt_slack_def rt_wf_def)
  qed
qed


lemma filter_free:
  assumes "h < length xs" and "\<not> occ (xs ! h)" and "\<not> occ s"
  shows "filter occ (xs[h := s]) = filter occ xs"
proof -
  have "filter occ xs = filter occ (take h xs @ xs ! h # drop (Suc h) xs)"
    using assms(1) by (simp flip: id_take_nth_drop)
  then show ?thesis
    using assms by (simp add: upd_conv_take_nth_drop)
qed

text \<open>A free slot may be overwritten by another free slot.\<close>

lemma swap_free:
  assumes inv: "tinv idx" and h: "h < length (rt_slots idx)" "\<not> occ (rt_slots idx ! h)" and s: "\<not> occ s"
  shows "tinv (idx\<lparr>rt_slots := (rt_slots idx)[h := s]\<rparr>)"
    and "tmap (idx\<lparr>rt_slots := (rt_slots idx)[h := s]\<rparr>) = tmap idx"
proof -
  let ?xs = "rt_slots idx" and ?ys = "(rt_slots idx)[h := s]"
  note f = filter_free [OF h s]
  have occ: "occ (?ys ! p) = occ (?xs ! p)" if "p < length ?xs" for p
    using that h s by (cases "p = h") auto
  have occm: "occ (?ys ! (a mod length ?xs)) = occ (?xs ! (a mod length ?xs))" for a
    using h(1) by (intro occ mod_less_divisor) linarith
  have same: "?ys ! p = ?xs ! p" if "occ (?xs ! p)" "p < length ?xs" for p
    using that h(2) by (cases "p = h") auto
  have m: "omap ?ys = omap ?xs" and n: "used ?ys = used ?xs" and k: "okeys ?ys = okeys ?xs"
    using f by (simp_all add: oa_map_def n_occ_def okeys_map)
  have uk: "uniq_keys occ key ?ys = uniq_keys occ key ?xs"
    by (simp add: uniq_keys_distinct f)
  have "chain_ok occ at ?ys \<longleftrightarrow> chain_ok occ at ?xs" for at
    unfolding chain_ok_def reaches_def length_list_update
    by (intro all_cong1 imp_cong refl) (simp_all add: occ same occm)
  then have "oinv (rt_mask idx) ?ys = oinv (rt_mask idx) ?xs"
    using uk by (simp add: oa_inv_def)
  then show "tinv (idx\<lparr>rt_slots := ?ys\<rparr>)"
    using inv n k by (simp add: rt_inv_def rt_wf_def cong: option.case_cong)
  show "tmap (idx\<lparr>rt_slots := ?ys\<rparr>) = tmap idx"
    using m by (simp add: rt_map_def)
qed

end

end
