(* ===== verification/Hash_Index.thy ===== *)
theory Hash_Index
  imports Rehash
begin

text \<open>
  The feature index of \<^verbatim>\<open>src/hash_index.c\<close>: an open-addressing table from feature ids to
  \<open>(dim_idx, entry_idx)\<close> pairs that grows by an incremental rehash. While a rehash is in progress
  the index holds two tables and every operation first migrates up to 16 occupied slots of the old
  table into the new one. The operations follow the C functions one by one; \<open>None\<close> as the result of
  an operation means that one of its unbounded probe loops does not end.
\<close>

subsection \<open>Data\<close>

record HashSlot =
  hs_feat_id :: u64
  hs_dim_idx :: u16
  hs_entry_idx :: u32

type_synonym HashIndex = "HashSlot RehashTable"

record HashIter =
  it_pos :: u32
  it_in_old :: bool

definition hs_empty :: HashSlot where
  "hs_empty = \<lparr>hs_feat_id = 0, hs_dim_idx = 0, hs_entry_idx = 0\<rparr>"

abbreviation hs_occ :: "HashSlot \<Rightarrow> bool" where
  "hs_occ s \<equiv> hs_feat_id s \<noteq> 0"

definition hs_val :: "HashSlot \<Rightarrow> u16 \<times> u32" where
  "hs_val s = (hs_dim_idx s, hs_entry_idx s)"

subsection \<open>Operations\<close>

definition hash64 :: "u64 \<Rightarrow> u32" where
  "hash64 key0 =
     (let key1 = key0 XOR drop_bit 30 key0;
          key2 = key1 * 0xbf58476d1ce4e5b9;
          key3 = key2 XOR drop_bit 27 key2;
          key4 = key3 * 0x94d049bb133111eb;
          key5 = key4 XOR drop_bit 31 key4
      in ucast key5)"

definition hs_clear :: "HashSlot \<Rightarrow> HashSlot" where
  "hs_clear s = s\<lparr>hs_feat_id := 0\<rparr>"

definition rehash_step :: "HashIndex \<Rightarrow> HashIndex option" where
  "rehash_step idx = rt_step hs_occ hs_feat_id hash64 hs_clear idx"

definition hash_index_begin_grow :: "bool \<Rightarrow> HashIndex \<Rightarrow> graveldb_status \<times> HashIndex" where
  "hash_index_begin_grow calloc_ok idx = rt_grow hs_empty calloc_ok idx"

text \<open>
  \<^verbatim>\<open>while (cap < capacity) cap <<= 1;\<close>. After 32 doublings \<open>cap\<close> is 0 and stays 0, so the fuel of 33
  decides whether the loop ends.
\<close>

fun grow_pow2 :: "nat \<Rightarrow> u32 \<Rightarrow> u32 \<Rightarrow> u32 option" where
  "grow_pow2 0 cap capacity = None"
| "grow_pow2 (Suc f) cap capacity =
     (if cap < capacity then grow_pow2 f (push_bit 1 cap) capacity else Some cap)"

definition hash_index_init :: "bool \<Rightarrow> u32 \<Rightarrow> (graveldb_status \<times> HashIndex option) option" where
  "hash_index_init calloc_ok capacity =
     (case grow_pow2 33 1 capacity of
        None \<Rightarrow> None
      | Some cap \<Rightarrow>
          if \<not> calloc_ok then Some (GRAVELDB_ERR_OOM, None)
          else Some (GRAVELDB_OK, Some
            \<lparr>rt_slots = replicate (unat cap) hs_empty, rt_capacity = cap, rt_count = 0,
             rt_mask = cap - 1, rt_old_slots = None, rt_old_capacity = 0, rt_old_mask = 0,
             rt_rehash_cursor = 0\<rparr>))"

definition hash_index_destroy :: "HashIndex \<Rightarrow> HashIndex" where
  "hash_index_destroy idx =
     idx\<lparr>rt_slots := [], rt_old_slots := None, rt_capacity := 0, rt_old_capacity := 0,
         rt_count := 0\<rparr>"

abbreviation table_find :: "HashSlot list \<Rightarrow> u32 \<Rightarrow> u64 \<Rightarrow> u32 option" where
  "table_find \<equiv> rt_find hs_occ hs_feat_id hash64"

definition set_value :: "HashSlot list \<Rightarrow> u32 \<Rightarrow> u16 \<Rightarrow> u32 \<Rightarrow> HashSlot list" where
  "set_value slots h dim_idx entry_idx =
     slots[unat h := (slots ! unat h)\<lparr>hs_dim_idx := dim_idx, hs_entry_idx := entry_idx\<rparr>]"

definition put_slot :: "HashSlot list \<Rightarrow> u32 \<Rightarrow> u64 \<Rightarrow> u16 \<Rightarrow> u32 \<Rightarrow> HashSlot list" where
  "put_slot slots h feat_id dim_idx entry_idx =
     slots[unat h := \<lparr>hs_feat_id = feat_id, hs_dim_idx = dim_idx, hs_entry_idx = entry_idx\<rparr>]"

text \<open>The body of \<^verbatim>\<open>hash_index_put\<close> after the migration step and the growth check.\<close>

definition put_tables ::
  "HashIndex \<Rightarrow> u64 \<Rightarrow> u16 \<Rightarrow> u32 \<Rightarrow> (graveldb_status \<times> HashIndex) option" where
  "put_tables idx feat_id dim_idx entry_idx =
     (case probe (\<lambda>s. hs_feat_id s = 0 \<or> hs_feat_id s = feat_id) (rt_slots idx) (rt_mask idx)
             (length (rt_slots idx)) (hash64 feat_id AND rt_mask idx) of
        None \<Rightarrow> None
      | Some h \<Rightarrow>
          let fresh = idx\<lparr>rt_slots := put_slot (rt_slots idx) h feat_id dim_idx entry_idx,
                          rt_count := rt_count idx + 1\<rparr> in
          if hs_feat_id (rt_slots idx ! unat h) \<noteq> 0
          then Some (GRAVELDB_OK, idx\<lparr>rt_slots := set_value (rt_slots idx) h dim_idx entry_idx\<rparr>)
          else
            (case rt_old_slots idx of
               None \<Rightarrow> Some (GRAVELDB_OK, fresh)
             | Some old \<Rightarrow>
                 (case table_find old (rt_old_mask idx) feat_id of
                    Some oh \<Rightarrow>
                      Some (GRAVELDB_OK,
                        idx\<lparr>rt_old_slots := Some (set_value old oh dim_idx entry_idx)\<rparr>)
                  | None \<Rightarrow> Some (GRAVELDB_OK, fresh))))"

definition hash_index_put ::
  "bool \<Rightarrow> HashIndex \<Rightarrow> u64 \<Rightarrow> u16 \<Rightarrow> u32 \<Rightarrow> (graveldb_status \<times> HashIndex) option" where
  "hash_index_put calloc_ok idx feat_id dim_idx entry_idx =
     (if feat_id = 0 then Some (GRAVELDB_ERR_INVALID, idx)
      else case rehash_step idx of
        None \<Rightarrow> None
      | Some idx1 \<Rightarrow>
          if rt_old_slots idx1 = None \<and> rt_count idx1 * 10 > rt_capacity idx1 * 7
          then (case hash_index_begin_grow calloc_ok idx1 of (st, idx2) \<Rightarrow>
                  if st \<noteq> GRAVELDB_OK then Some (st, idx2)
                  else put_tables idx2 feat_id dim_idx entry_idx)
          else put_tables idx1 feat_id dim_idx entry_idx)"

text \<open>
  A lookup returns the pair of a hit (\<open>GRAVELDB_OK\<close>) or \<open>None\<close> (\<open>GRAVELDB_ERR_NOT_FOUND\<close>), and the
  index after its migration step.
\<close>

definition hash_index_get :: "HashIndex \<Rightarrow> u64 \<Rightarrow> ((u16 \<times> u32) option \<times> HashIndex) option" where
  "hash_index_get idx feat_id =
     (if feat_id = 0 then Some (None, idx)
      else case rehash_step idx of
        None \<Rightarrow> None
      | Some idx1 \<Rightarrow>
          (case table_find (rt_slots idx1) (rt_mask idx1) feat_id of
             Some h \<Rightarrow> Some (Some (hs_val (rt_slots idx1 ! unat h)), idx1)
           | None \<Rightarrow>
               (case rt_old_slots idx1 of
                  None \<Rightarrow> Some (None, idx1)
                | Some old \<Rightarrow>
                    (case table_find old (rt_old_mask idx1) feat_id of
                       Some h \<Rightarrow> Some (Some (hs_val (old ! unat h)), idx1)
                     | None \<Rightarrow> Some (None, idx1)))))"

text \<open>
  Backward-shift deletion: \<open>hole\<close> is the hole, \<open>j\<close> the slot under examination. The slot at \<open>j\<close> moves
  into the hole unless its ideal slot lies cyclically in \<open>(hole, j]\<close>.
\<close>

fun shift_loop ::
  "nat \<Rightarrow> u32 \<Rightarrow> u32 \<Rightarrow> HashSlot list \<Rightarrow> u32 \<Rightarrow> u32 \<Rightarrow> (HashSlot list \<times> u32) option" where
  "shift_loop 0 msk h slots hole j = None"
| "shift_loop (Suc f) msk h slots hole j =
     (if hs_feat_id (slots ! unat j) = 0 then Some (slots, hole)
      else
        let ideal = hash64 (hs_feat_id (slots ! unat j)) AND msk;
            displaced = (if hole < j then ideal \<le> hole \<or> ideal > j
                         else ideal \<le> hole \<and> ideal > j);
            slots' = (if displaced then slots[unat hole := slots ! unat j] else slots);
            hole' = (if displaced then j else hole);
            j' = (j + 1) AND msk
        in if j' = h then Some (slots', hole') else shift_loop f msk h slots' hole' j')"

definition clear_slot :: "HashSlot list \<Rightarrow> u32 \<Rightarrow> HashSlot list" where
  "clear_slot slots h = slots[unat h := (slots ! unat h)\<lparr>hs_feat_id := 0\<rparr>]"

definition hash_index_remove :: "HashIndex \<Rightarrow> u64 \<Rightarrow> (graveldb_status \<times> HashIndex) option" where
  "hash_index_remove idx feat_id =
     (if feat_id = 0 then Some (GRAVELDB_ERR_NOT_FOUND, idx)
      else case rehash_step idx of
        None \<Rightarrow> None
      | Some idx1 \<Rightarrow>
          (case table_find (rt_slots idx1) (rt_mask idx1) feat_id of
             Some h \<Rightarrow>
               (case shift_loop (length (rt_slots idx1)) (rt_mask idx1) h (rt_slots idx1) h
                       ((h + 1) AND rt_mask idx1) of
                  None \<Rightarrow> None
                | Some (slots', hole) \<Rightarrow>
                    Some (GRAVELDB_OK, idx1\<lparr>rt_slots := clear_slot slots' hole,
                                            rt_count := rt_count idx1 - 1\<rparr>))
           | None \<Rightarrow>
               (case rt_old_slots idx1 of
                  None \<Rightarrow> Some (GRAVELDB_ERR_NOT_FOUND, idx1)
                | Some old \<Rightarrow>
                    (case table_find old (rt_old_mask idx1) feat_id of
                       Some h \<Rightarrow>
                         Some (GRAVELDB_OK, idx1\<lparr>rt_old_slots := Some (clear_slot old h),
                                                 rt_count := rt_count idx1 - 1\<rparr>)
                     | None \<Rightarrow> Some (GRAVELDB_ERR_NOT_FOUND, idx1)))))"

text \<open>Iteration: the new table first, then the old one when a rehash is in progress.\<close>

definition hash_iter_init :: HashIter where
  "hash_iter_init = \<lparr>it_pos = 0, it_in_old = False\<rparr>"

function next_occupied :: "HashSlot list \<Rightarrow> u32 \<Rightarrow> u32 \<Rightarrow> HashSlot option \<times> u32" where
  "next_occupied slots capacity pos =
     (if pos < capacity then
        if hs_feat_id (slots ! unat pos) \<noteq> 0 then (Some (slots ! unat pos), pos + 1)
        else next_occupied slots capacity (pos + 1)
      else (None, pos))"
  by pat_completeness auto
termination
  by (relation "measure (\<lambda>(sl, cap, pos). unat cap - unat pos)") (auto intro: unat_succ_diff_less)

declare next_occupied.simps [simp del]

definition hash_iter_next :: "HashIndex \<Rightarrow> HashIter \<Rightarrow> HashSlot option \<times> HashIter" where
  "hash_iter_next idx it =
     (let in_old_part = (\<lambda>pos. case rt_old_slots idx of
            None \<Rightarrow> (None, \<lparr>it_pos = pos, it_in_old = True\<rparr>)
          | Some old \<Rightarrow>
              (case next_occupied old (rt_old_capacity idx) pos of
                 (r, pos') \<Rightarrow> (r, \<lparr>it_pos = pos', it_in_old = True\<rparr>)))
      in if \<not> it_in_old it then
           (case next_occupied (rt_slots idx) (rt_capacity idx) (it_pos it) of
              (Some s, pos') \<Rightarrow> (Some s, \<lparr>it_pos = pos', it_in_old = False\<rparr>)
            | (None, pos') \<Rightarrow>
                if rt_old_slots idx \<noteq> None then in_old_part 0
                else (None, \<lparr>it_pos = pos', it_in_old = False\<rparr>))
         else in_old_part (it_pos it))"

text \<open>\<^verbatim>\<open>while (idx->old_slots) rehash_step(idx);\<close>, with one unit of fuel per slot of the old table.\<close>

fun finish_loop :: "nat \<Rightarrow> HashIndex \<Rightarrow> HashIndex option" where
  "finish_loop 0 idx = (if rt_old_slots idx = None then Some idx else None)"
| "finish_loop (Suc f) idx =
     (if rt_old_slots idx = None then Some idx
      else case rehash_step idx of None \<Rightarrow> None | Some idx' \<Rightarrow> finish_loop f idx')"

definition hash_index_finish_rehash :: "HashIndex \<Rightarrow> HashIndex option" where
  "hash_index_finish_rehash idx = finish_loop (Suc (unat (rt_old_capacity idx))) idx"

subsection \<open>Contents and invariants\<close>

abbreviation hs_inv :: "u32 \<Rightarrow> HashSlot list \<Rightarrow> bool" where
  "hs_inv msk xs \<equiv> oa_inv hs_occ hs_feat_id hash64 msk xs"

abbreviation hs_map :: "HashSlot list \<Rightarrow> u64 \<rightharpoonup> u16 \<times> u32" where
  "hs_map xs \<equiv> oa_map hs_occ hs_feat_id hs_val xs"

abbreviation hs_keys :: "HashSlot list \<Rightarrow> u64 set" where
  "hs_keys xs \<equiv> oa_keys hs_occ hs_feat_id xs"

abbreviation hs_n :: "HashSlot list \<Rightarrow> nat" where
  "hs_n xs \<equiv> n_occ hs_occ xs"

abbreviation hi_wf :: "HashIndex \<Rightarrow> bool" where
  "hi_wf \<equiv> rt_wf hs_occ"

abbreviation hi_inv :: "HashIndex \<Rightarrow> bool" where
  "hi_inv \<equiv> rt_inv hs_occ hs_feat_id hash64"

abbreviation hi_map :: "HashIndex \<Rightarrow> u64 \<rightharpoonup> u16 \<times> u32" where
  "hi_map \<equiv> rt_map hs_occ hs_feat_id hs_val"

abbreviation hi_hidden :: "HashIndex \<Rightarrow> u64 \<Rightarrow> bool" where
  "hi_hidden \<equiv> rt_hidden hs_occ hs_feat_id hash64"

abbreviation hi_slack :: "HashIndex \<Rightarrow> bool" where
  "hi_slack \<equiv> rt_slack hs_occ"

lemmas hi_wf_def = rt_wf_def [of hs_occ]
lemmas hi_inv_def = rt_inv_def [of hs_occ hs_feat_id hash64]
lemmas hi_map_def = rt_map_def [of hs_occ hs_feat_id hs_val]
lemmas hi_hidden_def = rt_hidden_def [of hs_occ hs_feat_id hash64]

text \<open>
  A sequence of insertions, and the loop of a caller that drains an iterator
  (\<^verbatim>\<open>while (hash_iter_next(&it, ...))\<close>).
\<close>

definition put_all :: "u64 list \<Rightarrow> HashIndex \<Rightarrow> HashIndex option" where
  "put_all ks idx =
     fold (\<lambda>k r. case r of
              None \<Rightarrow> None
            | Some i \<Rightarrow> map_option snd (hash_index_put True i k 0 (ucast k)))
       ks (Some idx)"

fun iter_all :: "nat \<Rightarrow> HashIndex \<Rightarrow> HashIter \<Rightarrow> HashSlot list" where
  "iter_all 0 idx it = []"
| "iter_all (Suc f) idx it =
     (case hash_iter_next idx it of
        (None, it') \<Rightarrow> []
      | (Some s, it') \<Rightarrow> s # iter_all f idx it')"

subsection \<open>One table\<close>

definition hs_mk :: "u64 \<Rightarrow> u16 \<times> u32 \<Rightarrow> HashSlot" where
  "hs_mk k v = \<lparr>hs_feat_id = k, hs_dim_idx = fst v, hs_entry_idx = snd v\<rparr>"

interpretation hi: kv_table hs_occ hs_feat_id hash64 hs_empty 0 hs_val hs_mk hs_clear
  by unfold_locales (simp_all add: hs_empty_def hs_mk_def hs_val_def hs_clear_def)

lemmas table_find_SomeD = hi.lookup_SomeD
lemmas table_find_map = hi.lookup_map
lemmas table_find_probe = hi.lookup_probe
lemmas table_find_sound = hi.lookup_sound
lemmas hs_keys_map = hi.okeys_map
lemmas hi_wf_room = hi.twf_room
lemmas hi_wf_mask = hi.twf_mask
lemmas hi_wf_old = hi.twf_old
lemmas rehash_step_total = hi.step_total [of idx for idx :: HashIndex, folded rehash_step_def]
lemmas rehash_step_sem = hi.step_sem [of idx for idx :: HashIndex, folded rehash_step_def]
lemmas hi_count_suc = hi.count_suc
lemmas hi_count_pred = hi.count_pred

lemma finish_loop_ok:
  assumes "hi_inv idx"
    and "rt_old_slots idx \<noteq> None \<Longrightarrow> unat (rt_old_capacity idx) - unat (rt_rehash_cursor idx) \<le> f"
  shows "\<exists>idx'. finish_loop f idx = Some idx' \<and> rt_old_slots idx' = None \<and> hi_inv idx' \<and>
    hi_map idx' = hi_map idx \<and> rt_count idx' = rt_count idx"
  using assms
proof (induction f arbitrary: idx)
  case 0
  have "rt_old_slots idx = None"
  proof (rule ccontr)
    assume "rt_old_slots idx \<noteq> None"
    then show False
      using 0 hi_wf_old(4) [of idx] by (auto simp: hi_inv_def word_less_nat_alt)
  qed
  with 0 show ?case
    by simp
next
  case (Suc f)
  show ?case
  proof (cases "rt_old_slots idx")
    case (Some old)
    have wf: "hi_wf idx"
      using Suc.prems by (simp add: hi_inv_def)
    from rehash_step_total [OF wf] obtain i1 where i1: "rehash_step idx = Some i1"
      "rt_count i1 = rt_count idx"
      "\<And>old'. rt_old_slots i1 = Some old' \<Longrightarrow>
        rt_rehash_cursor idx < rt_rehash_cursor i1 \<and> rt_old_capacity i1 = rt_old_capacity idx"
      using Some by metis
    note sem = rehash_step_sem [OF Suc.prems(1) i1(1)]
    have "unat (rt_old_capacity i1) - unat (rt_rehash_cursor i1) \<le> f" if "rt_old_slots i1 \<noteq> None"
      using that i1(3) Suc.prems(2) Some by (fastforce simp: word_less_nat_alt)
    from Suc.IH [OF sem(1) this] show ?thesis
      using Some i1(1,2) sem(2) by auto
  qed (use Suc.prems in simp)
qed

subsection \<open>Lookup, insertion and removal\<close>

lemma get_after_step:
  assumes inv: "hi_inv idx" and k: "k \<noteq> 0" and step: "rehash_step idx = Some idx1"
  shows "hash_index_get idx k = Some (if hi_hidden idx1 k then None else hi_map idx k, idx1)"
proof -
  note sem = rehash_step_sem [OF inv step]
  have "hash_index_get idx k = Some (map_option hs_val (rt_get hs_occ hs_feat_id hash64 idx1 k), idx1)"
    using k step by (auto simp: hash_index_get_def rt_get_def split: option.splits)
  then show ?thesis
    using hi.get_map [OF sem(1) k] sem(2) by simp
qed

text \<open>A put without growth stores the pair at the place where the probe loops find the id.\<close>

lemma put_tables_store:
  assumes wf: "hi_wf idx" and k: "k \<noteq> 0" and l: "rt_locate hs_occ hs_feat_id hash64 idx k = Some pl"
  shows "put_tables idx k d e = Some (GRAVELDB_OK, rt_store idx pl (hs_mk k (d, e)))"
proof -
  have upd: "xs[i := (xs ! i)\<lparr>hs_dim_idx := d, hs_entry_idx := e\<rparr>] = xs[i := hs_mk k (d, e)]"
    if "hs_feat_id (xs ! i) = k" for xs i
    using that by (cases "xs ! i") (simp add: hs_mk_def)
  show ?thesis
    using wf k l
  proof (cases rule: hi.locate_cases)
    case (new h)
    then show ?thesis
      by (simp add: put_tables_def rt_store_def set_value_def upd)
  next
    case (old h old)
    then show ?thesis
      using l upd [of old "unat h"]
      by (auto simp: put_tables_def rt_locate_def rt_store_def set_value_def split: option.splits if_splits)
  next
    case (fresh h)
    then show ?thesis
      by (cases "rt_old_slots idx") (simp_all add: put_tables_def rt_store_def put_slot_def hs_mk_def)
  qed
qed

lemma put_tables_total:
  assumes wf: "hi_wf idx" and slack: "hi_slack idx" and k: "k \<noteq> 0"
  shows "\<exists>idx'. put_tables idx k d e = Some (GRAVELDB_OK, idx') \<and> hi_wf idx'"
proof -
  obtain pl where l: "rt_locate hs_occ hs_feat_id hash64 idx k = Some pl"
    by (rule hi.locate_total [OF wf])
  then show ?thesis
    using put_tables_store [OF wf k l] hi.store_wf [OF wf slack k l] by simp
qed

lemma put_tables_sem:
  assumes inv: "hi_inv idx" and slack: "hi_slack idx" and k: "k \<noteq> 0" and vis: "\<not> hi_hidden idx k"
  shows "\<exists>idx'. put_tables idx k d e = Some (GRAVELDB_OK, idx') \<and> hi_inv idx' \<and>
    hi_map idx' = (hi_map idx)(k \<mapsto> (d, e))"
proof -
  have wf: "hi_wf idx"
    using inv by (simp add: hi_inv_def)
  obtain pl where l: "rt_locate hs_occ hs_feat_id hash64 idx k = Some pl"
    by (rule hi.locate_total [OF wf])
  then show ?thesis
    using put_tables_store [OF wf k l] hi.store_sem [OF inv slack k vis l] by simp
qed

lemmas begin_grow_hi = hi.begin_grow_ok [of idx for idx :: HashIndex, folded hash_index_begin_grow_def]
lemmas step_slack_hi = hi.step_slack [of idx for idx :: HashIndex, folded rehash_step_def]

lemma put_total:
  assumes wf: "hi_wf idx" and small: "unat (rt_count idx) < 2 ^ 28"
  shows "\<exists>st idx'. hash_index_put calloc_ok idx k d e = Some (st, idx') \<and> hi_wf idx'"
proof (cases "k = 0")
  case True
  then show ?thesis
    using wf by (simp add: hash_index_put_def)
next
  case False
  obtain idx1 where s: "rehash_step idx = Some idx1" "hi_wf idx1" "rt_count idx1 = rt_count idx"
    using rehash_step_total [OF wf] by metis
  show ?thesis
  proof (cases "rt_old_slots idx1 = None \<and> rt_count idx1 * 10 > rt_capacity idx1 * 7")
    case True
    then have full: "7 * unat (rt_capacity idx1) < 10 * unat (rt_count idx1)"
      using hi.grow_guard [OF s(2)] by simp
    show ?thesis
    proof (cases calloc_ok)
      case c: True
      obtain idx2 where g: "hash_index_begin_grow True idx1 = (GRAVELDB_OK, idx2)" "hi_wf idx2"
          "hi_slack idx2"
        using begin_grow_hi [OF s(2) _ full] True small s(3) by metis
      then show ?thesis
        using put_tables_total [OF g(2,3) False, of d e] s True False c
        by (auto simp: hash_index_put_def)
    qed (use s True False in \<open>simp add: hash_index_put_def hash_index_begin_grow_def rt_grow_def Let_def\<close>)
  next
    case ng: False
    then show ?thesis
      using put_tables_total [OF s(2) step_slack_hi [OF wf s(1) ng] False, of d e] s(1) False
      by (auto simp: hash_index_put_def)
  qed
qed

lemma put_sem:
  assumes inv: "hi_inv idx" and small: "unat (rt_count idx) < 2 ^ 28" and k: "k \<noteq> 0"
    and step: "rehash_step idx = Some idx1" and vis: "\<not> hi_hidden idx1 k"
  shows "\<exists>idx'. hi_inv idx' \<and>
    (hash_index_put calloc_ok idx k d e = Some (GRAVELDB_OK, idx') \<and>
       hi_map idx' = (hi_map idx)(k \<mapsto> (d, e)) \<or>
     \<not> calloc_ok \<and> hash_index_put calloc_ok idx k d e = Some (GRAVELDB_ERR_OOM, idx') \<and>
       hi_map idx' = hi_map idx)"
proof -
  have wf: "hi_wf idx"
    using inv by (simp add: hi_inv_def)
  note sem = rehash_step_sem [OF inv step]
  have s: "hi_wf idx1" "rt_count idx1 = rt_count idx"
    using rehash_step_total [OF wf] step sem(1) by (auto simp: hi_inv_def)
  show ?thesis
  proof (cases "rt_old_slots idx1 = None \<and> rt_count idx1 * 10 > rt_capacity idx1 * 7")
    case True
    then have full: "7 * unat (rt_capacity idx1) < 10 * unat (rt_count idx1)"
      using hi.grow_guard [OF s(1)] by simp
    show ?thesis
    proof (cases calloc_ok)
      case c: True
      obtain idx2 where g: "hash_index_begin_grow True idx1 = (GRAVELDB_OK, idx2)"
          "hi_slack idx2" "hi_inv idx2" "hi_map idx2 = hi_map idx1" "\<not> hi_hidden idx2 k"
        using begin_grow_hi [OF s(1) _ full] True small s(2) sem(1) by metis
      then show ?thesis
        using put_tables_sem [OF g(3,2) k g(5), of d e] step sem(2) True k c
        by (auto simp: hash_index_put_def)
    qed (use step sem True k in \<open>auto simp: hash_index_put_def hash_index_begin_grow_def rt_grow_def Let_def\<close>)
  next
    case ng: False
    then show ?thesis
      using put_tables_sem [OF sem(1) step_slack_hi [OF wf step ng] k vis, of d e] step k sem(2)
      by (auto simp: hash_index_put_def)
  qed
qed

text \<open>
  The back-shift. \<open>e\<close> is a free slot other than the one that is deleted; \<open>d\<close> and \<open>i\<close> are the places of
  the hole and of the slot under examination counted from \<open>e\<close>.
\<close>

lemma shift_loop_ok:
  assumes at_def: "at = home hash64 msk \<circ> hs_feat_id"
    and pm: "pow2_mask (length xs) msk" and e: "e < length xs" "\<not> hs_occ (xs ! e)"
    and pos: "unat hole = (e + d) mod length xs" "unat j = (e + i) mod length xs"
      "unat h = (e + d0) mod length xs"
    and ord: "0 < d0" "d0 \<le> d" "d < i" "i \<le> length xs" and fuel: "length xs - i < fuel"
    and f: "\<not> hs_occ f"
  shows "\<exists>xs' hole'. shift_loop fuel msk h xs hole j = Some (xs', hole') \<and>
    length xs' = length xs \<and> unat hole' < length xs \<and>
    mset (xs'[unat hole' := f]) = mset (xs[unat hole := f]) \<and>
    \<not> hs_occ (xs' ! e) \<and> unat hole' \<noteq> e \<and>
    (lin_ok hs_occ at e (shift_bad d i) (xs[unat hole := f]) \<longrightarrow>
     lin_ok hs_occ at e (\<lambda>_ _. False) (xs'[unat hole' := f]))"
  using assms(2-)
proof (induction fuel arbitrary: xs hole j d i)
  case (Suc fuel)
  let ?n = "length xs" and ?ys = "xs[unat hole := f]"
  have n0: "0 < ?n"
    using Suc.prems(2) by linarith
  note md = mod_less_divisor [OF n0]
  have d: "d < ?n" "unat hole < ?n"
    using Suc.prems(4,9,10) md [of "e + d"] by auto
  have he: "unat hole \<noteq> e"
    using mod_add_cancel_less [OF d(1) n0, of e] Suc.prems(2,4,7,8) by simp
  have sat: "slot_at ?ys e p = (if d = p then f else slot_at xs e p)" if "p < ?n" for p
    using slot_at_update [OF d(1) that, of e f] Suc.prems(4) by simp
  have slot: "xs ! unat j = slot_at xs e i"
    using Suc.prems(5) by (simp add: slot_at_def)
  show ?case
  proof (cases "hs_occ (xs ! unat j)")
    case False
    have "lin_ok hs_occ at e (\<lambda>_ _. False) ?ys" if "lin_ok hs_occ at e (shift_bad d i) ?ys"
      using that False slot Suc.prems(9,10)
      by (intro lin_ok_stop [OF that, of i]) (auto simp: shift_bad_def sat)
    then show ?thesis
      using False d(2) Suc.prems(3) he by simp
  next
    case True
    have "i \<noteq> ?n"
      using True slot Suc.prems(2,3) by (auto simp: slot_at_def)
    then have i: "i < ?n" "unat j < ?n"
      using Suc.prems(5,10) md [of "e + i"] by auto
    let ?j = "(j + 1) AND msk"
    have j': "unat ?j = (e + Suc i) mod ?n"
      using pow2_mask_succ [OF Suc.prems(1) i(2)] Suc.prems(5) by (simp add: mod_Suc_eq)
    have jh: "?j \<noteq> h"
    proof (cases "Suc i = ?n")
      case True
      then show ?thesis
        using j' Suc.prems(2,6-9) mod_add_cancel_less [OF _ n0, of d0 e] i(1) by (auto simp flip: add_Suc_right)
    next
      case False
      then show ?thesis
        using j' Suc.prems(6-9) mod_add_cancel_less [of "Suc i" ?n d0 e] i(1) by auto
    qed
    let ?ideal = "hash64 (hs_feat_id (xs ! unat j)) AND msk"
    let ?a = "cdist ?n e (at (xs ! unat j))"
    have ideal: "unat ?ideal = (e + ?a) mod ?n"
      using cdist_add [OF Suc.prems(2) home_less [OF Suc.prems(1)], of hash64 "hs_feat_id (xs ! unat j)"]
      by (simp add: home_def at_def)
    define dis where "dis = (if hole < j then ?ideal \<le> hole \<or> ?ideal > j else ?ideal \<le> hole \<and> ?ideal > j)"
    have dis_iff: "dis \<longleftrightarrow> ?a \<le> d" if "?a \<le> i"
      using displaced_iff [OF Suc.prems(2) Suc.prems(9) i(1) that]
      unfolding dis_def word_less_nat_alt word_le_nat_alt
      by (simp only: ideal [symmetric] Suc.prems(4,5) [symmetric])
    have a_le: "?a \<le> i" if "lin_ok hs_occ at e (shift_bad d i) ?ys"
      using lin_okD(1) [OF that, of i] i(1) True slot Suc.prems(9) sat [of i] by simp
    show ?thesis
    proof (cases dis)
      case moved: True
      let ?xs = "xs[unat hole := xs ! unat j]"
      have run: "shift_loop (Suc fuel) msk h xs hole j = shift_loop fuel msk h ?xs j ?j"
        using True jh moved by (simp add: Let_def dis_def)
      have ne: "unat hole \<noteq> unat j"
        using Suc.prems(4,5,9) mod_add_cancel_less [OF d(1) i(1), of e] by simp
      have "mset (?ys[unat hole := ?ys ! unat j, unat j := ?ys ! unat hole]) = mset ?ys"
        using d(2) i(2) by (intro mset_swap) simp_all
      then have ms: "mset (?xs[unat j := f]) = mset ?ys"
        using ne d(2) by simp
      have lin: "lin_ok hs_occ at e (shift_bad i (Suc i)) (?xs[unat j := f])"
        if "lin_ok hs_occ at e (shift_bad d i) ?ys"
        using shift_move [OF that Suc.prems(9), of f] dis_iff [OF a_le [OF that]] moved sat [of i] sat [of d] slot
          Suc.prems(4,5,9,12) True i d(1) by simp
      show ?thesis
        unfolding run
        using Suc.IH [of ?xs j i ?j "Suc i"] Suc.prems i j' he ms lin by fastforce
    next
      case kept: False
      have run: "shift_loop (Suc fuel) msk h xs hole j = shift_loop fuel msk h xs hole ?j"
        using True jh kept by (simp add: Let_def dis_def)
      have lin: "lin_ok hs_occ at e (shift_bad d (Suc i)) ?ys"
        if "lin_ok hs_occ at e (shift_bad d i) ?ys"
        using shift_keep [OF that] dis_iff [OF a_le [OF that]] kept sat [of i] slot True i Suc.prems(9)
        by simp
      show ?thesis
        unfolding run
        using Suc.IH [of xs hole d ?j "Suc i"] Suc.prems i j' lin by fastforce
    qed
  qed
qed simp

text \<open>Deleting the slot of a key: the loop ends, and the table stays well formed without the key.\<close>

lemma shift_delete_total:
  assumes pm: "pow2_mask (length xs) msk" and room: "hs_n xs < length xs"
    and find: "table_find xs msk k = Some h" and k: "k \<noteq> 0"
  shows "\<exists>xs' hole. shift_loop (length xs) msk h xs h ((h + 1) AND msk) = Some (xs', hole) \<and>
    length xs' = length xs \<and>
    occ_mset hs_occ (clear_slot xs' hole) = occ_mset hs_occ (xs[unat h := hs_empty]) \<and>
    (hs_inv msk xs \<longrightarrow> chain_ok hs_occ (home hash64 msk \<circ> hs_feat_id) (clear_slot xs' hole))"
proof -
  let ?n = "length xs" and ?at = "home hash64 msk \<circ> hs_feat_id"
  obtain e where e: "e < ?n" "\<not> hs_occ (xs ! e)"
    using room by (auto simp: n_occ_free)
  note h = table_find_SomeD [OF pm find k]
  define d where "d = cdist ?n e (unat h)"
  have d: "d < ?n" "unat h = (e + d) mod ?n"
    using e(1) h(1) cdist_add [OF e(1) h(1)] by (auto simp: d_def intro: cdist_less)
  have d0: "0 < d"
    using d e h(2) by (cases "d = 0") auto
  have j: "unat ((h + 1) AND msk) = (e + Suc d) mod ?n"
    using pow2_mask_succ [OF pm h(1)] d(2) by (simp add: mod_Suc_eq)
  have em: "\<not> hs_occ hs_empty"
    by (simp add: hs_empty_def)
  have fuel: "Suc d \<le> ?n" "?n - Suc d < ?n"
    using d(1) by auto
  from shift_loop_ok [OF refl pm e d(2) j d(2) d0 order_refl lessI fuel em] obtain xs' hole where
    r: "shift_loop ?n msk h xs h ((h + 1) AND msk) = Some (xs', hole)" "length xs' = ?n"
      "unat hole < ?n" "mset (xs'[unat hole := hs_empty]) = mset (xs[unat h := hs_empty])"
      "\<not> hs_occ (xs' ! e)" "unat hole \<noteq> e"
      "lin_ok hs_occ ?at e (shift_bad d (Suc d)) (xs[unat h := hs_empty]) \<longrightarrow>
       lin_ok hs_occ ?at e (\<lambda>_ _. False) (xs'[unat hole := hs_empty])"
    by auto
  define z where "z = (xs' ! unat hole)\<lparr>hs_feat_id := 0\<rparr>"
  have z: "\<not> hs_occ z" and cl: "clear_slot xs' hole = xs'[unat hole := z]"
    by (simp_all add: z_def clear_slot_def)
  have ms: "occ_mset hs_occ (xs'[unat hole := z]) = occ_mset hs_occ (xs'[unat hole := hs_empty])"
    using r(2,3) z em by (simp add: occ_mset_def mset_update)
  have "chain_ok hs_occ ?at (xs'[unat hole := z])" if inv: "hs_inv msk xs"
  proof -
    have at: "?at s < ?n" for s :: HashSlot
      using home_less [OF pm, of hash64] by simp
    have lin: "lin_ok hs_occ ?at e (\<lambda>_ _. False) xs"
      using inv chain_ok_line [where occ = hs_occ and at = ?at, OF e at] by (simp add: oa_inv_def)
    have "lin_ok hs_occ ?at e (\<lambda>_ _. False) (xs'[unat hole := hs_empty])"
      using r(7) shift_start [where occ = hs_occ, OF lin d(1) em] d(2) by simp
    then have "lin_ok hs_occ ?at e (\<lambda>_ _. False) (xs'[unat hole := z])"
      using lin_ok_free_eq [where occ = hs_occ and xs = xs', OF z em] r(2,3) by simp
    moreover have "\<not> hs_occ (xs'[unat hole := z] ! e)"
      using r(5,6) by simp
    ultimately show ?thesis
      using chain_ok_line [where occ = hs_occ and at = ?at and xs = "xs'[unat hole := z]", of e] e(1) at r(2)
      by simp
  qed
  then show ?thesis
    unfolding cl [symmetric] using r ms by (auto simp: occ_mset_def cl)
qed

lemma shift_delete:
  assumes inv: "hs_inv msk xs" and room: "hs_n xs < length xs"
    and find: "table_find xs msk k = Some h" and k: "k \<noteq> 0"
    and run: "shift_loop (length xs) msk h xs h ((h + 1) AND msk) = Some (xs', hole)"
  shows "hs_inv msk (clear_slot xs' hole)" and "hs_map (clear_slot xs' hole) = (hs_map xs)(k := None)"
proof -
  have pm: "pow2_mask (length xs) msk" and uk: "uniq_keys hs_occ hs_feat_id xs"
    using inv by (auto simp: oa_inv_def)
  note h = table_find_SomeD [OF pm find k]
  from shift_delete_total [OF pm room find k] run inv have
    t: "length xs' = length xs"
      "occ_mset hs_occ (clear_slot xs' hole) = occ_mset hs_occ (xs[unat h := hs_empty])"
      "chain_ok hs_occ (home hash64 msk \<circ> hs_feat_id) (clear_slot xs' hole)"
    by auto
  have "\<not> hs_occ hs_empty"
    by (simp add: hs_empty_def)
  note cl = oa_map_clear [OF uk h(1,2) this]
  note m = occ_mset_eqD [OF t(2) cl(1)]
  show "hs_inv msk (clear_slot xs' hole)"
    using pm t(1,3) m(1) by (simp add: oa_inv_def clear_slot_def)
  show "hs_map (clear_slot xs' hole) = (hs_map xs)(k := None)"
    using m(2) [of hs_val] cl(2) [of hs_val] h(3) by simp
qed

text \<open>Removal ends in every structurally sound index and keeps it sound.\<close>

lemma clear_slot_n:
  assumes "unat h < length xs" and "hs_occ (xs ! unat h)"
  shows "Suc (hs_n (clear_slot xs h)) = hs_n xs"
  using n_occ_update [OF assms(1), of hs_occ "(xs ! unat h)\<lparr>hs_feat_id := 0\<rparr>"] assms(2)
  by (simp add: clear_slot_def)

lemma shift_delete_n:
  assumes pm: "pow2_mask (length xs) msk" and room: "hs_n xs < length xs"
    and find: "table_find xs msk k = Some h" and k: "k \<noteq> 0"
    and run: "shift_loop (length xs) msk h xs h ((h + 1) AND msk) = Some (xs', hole)"
  shows "length (clear_slot xs' hole) = length xs" and "Suc (hs_n (clear_slot xs' hole)) = hs_n xs"
proof -
  from shift_delete_total [OF pm room find k] run have
    t: "length xs' = length xs"
      "occ_mset hs_occ (clear_slot xs' hole) = occ_mset hs_occ (xs[unat h := hs_empty])"
    by auto
  show "length (clear_slot xs' hole) = length xs"
    using t(1) by (simp add: clear_slot_def)
  have "hs_n (clear_slot xs' hole) = hs_n (xs[unat h := hs_empty])"
    using t(2) by (metis n_occ_def occ_mset_def mset_filter size_mset)
  then show "Suc (hs_n (clear_slot xs' hole)) = hs_n xs"
    using n_occ_update [of "unat h" xs hs_occ hs_empty] table_find_SomeD(1,2) [OF pm find k]
    by (simp add: hs_empty_def)
qed

lemma remove_total:
  assumes wf: "hi_wf idx"
  shows "\<exists>st idx'. hash_index_remove idx k = Some (st, idx') \<and> hi_wf idx'"
proof (cases "k = 0")
  case False
  obtain i1 where s: "rehash_step idx = Some i1" "hi_wf i1"
    using rehash_step_total [OF wf] by metis
  note pm = hi_wf_mask [OF s(2)] and room = hi_wf_room [OF s(2)]
  show ?thesis
  proof (cases "table_find (rt_slots i1) (rt_mask i1) k")
    case (Some h)
    obtain xs' hole where run: "shift_loop (length (rt_slots i1)) (rt_mask i1) h (rt_slots i1) h
        ((h + 1) AND rt_mask i1) = Some (xs', hole)"
      using shift_delete_total [OF pm room Some False] by blast
    note n = shift_delete_n [OF pm room Some False run]
    have "hi_wf (i1\<lparr>rt_slots := clear_slot xs' hole, rt_count := rt_count i1 - 1\<rparr>)"
      using s(2) n hi_count_pred [of i1] by (auto simp: hi_wf_def split: option.splits)
    then show ?thesis
      using s(1) False Some run by (simp add: hash_index_remove_def)
  next
    case None
    have "hi_wf (i1\<lparr>rt_old_slots := Some (clear_slot old h), rt_count := rt_count i1 - 1\<rparr>)"
      if old: "rt_old_slots i1 = Some old" and find: "table_find old (rt_old_mask i1) k = Some h" for old h
    proof -
      note h = table_find_SomeD [OF hi_wf_old(2) [OF s(2) old] find False]
      have "hs_occ (clear_slot old h ! p) \<Longrightarrow> hs_occ (old ! p)" for p
        using h(2) by (cases "p = unat h") (auto simp: clear_slot_def)
      then show ?thesis
        using s(2) old clear_slot_n [OF h(1,2)] hi_count_pred [of i1]
        by (auto simp: hi_wf_def clear_slot_def)
    qed
    then show ?thesis
      using s False None by (auto simp: hash_index_remove_def split: option.splits)
  qed
qed (use wf in \<open>simp add: hash_index_remove_def\<close>)

lemma remove_sem:
  assumes inv: "hi_inv idx" and k: "k \<noteq> 0"
    and step: "rehash_step idx = Some i1" and vis: "\<not> hi_hidden i1 k"
  shows "\<exists>idx'. hi_inv idx' \<and> hi_map idx' = (hi_map idx)(k := None) \<and>
    hash_index_remove idx k =
      Some (if hi_map idx k = None then GRAVELDB_ERR_NOT_FOUND else GRAVELDB_OK, idx')"
proof -
  note sem = rehash_step_sem [OF inv step]
  have wf: "hi_wf i1" and hs: "hs_inv (rt_mask i1) (rt_slots i1)"
    using sem(1) by (auto simp: hi_inv_def)
  note pm = hi_wf_mask [OF wf] and room = hi_wf_room [OF wf]
  obtain st idx' where rm: "hash_index_remove idx k = Some (st, idx')" and wf': "hi_wf idx'"
    using remove_total [of idx k] inv by (auto simp: hi_inv_def)
  note eq = hi.tmap_eq [OF sem(1) k, unfolded sem(2)]
  have "hi_inv idx' \<and> hi_map idx' = (hi_map i1)(k := None) \<and>
      st = (if hi_map idx k = None then GRAVELDB_ERR_NOT_FOUND else GRAVELDB_OK)"
  proof (cases "table_find (rt_slots i1) (rt_mask i1) k")
    case (Some h)
    from rm step k Some obtain xs' hole where
      run: "shift_loop (length (rt_slots i1)) (rt_mask i1) h (rt_slots i1) h
        ((h + 1) AND rt_mask i1) = Some (xs', hole)" and st: "st = GRAVELDB_OK"
      and idx': "idx' = i1\<lparr>rt_slots := clear_slot xs' hole, rt_count := rt_count i1 - 1\<rparr>"
      by (auto simp: hash_index_remove_def split: option.splits)
    note del = shift_delete [OF hs room Some k run]
    have "k \<in> hs_keys (rt_slots i1)"
      using table_find_map [OF hs, of k] Some by (auto simp: hs_keys_map)
    then have nk: "hs_map old k = None" if "rt_old_slots i1 = Some old" for old
      using sem(1) that by (auto simp: hi_inv_def oa_map_None_iff)
    have "hs_keys (clear_slot xs' hole) = hs_keys (rt_slots i1) - {k}"
      using del(2) by (simp add: hs_keys_map)
    then have "hi_inv idx'"
      using sem(1) wf' del(1) unfolding hi_inv_def idx' by (auto split: option.splits)
    moreover have "hi_map idx' = (hi_map i1)(k := None)"
      using del(2) nk unfolding idx'
      by (cases "rt_old_slots i1") (auto simp: hi_map_def fun_eq_iff map_add_def)
    ultimately show ?thesis
      using st eq Some by simp
  next
    case None
    then have nk: "hs_map (rt_slots i1) k = None"
      using table_find_map [OF hs, of k] by simp
    show ?thesis
    proof (cases "hi_map idx k")
      case gone: None
      have "table_find old (rt_old_mask i1) k = None" if "rt_old_slots i1 = Some old" for old
        using eq None gone that hi.old_find_map [OF sem(1) that k vis] by simp
      then show ?thesis
        using rm step k None gone sem by (auto simp: hash_index_remove_def split: option.splits)
    next
      case (Some v)
      then obtain old where old: "rt_old_slots i1 = Some old" and v: "hs_map old k = Some v"
        using eq None by (auto split: option.splits)
      obtain h where find: "table_find old (rt_old_mask i1) k = Some h"
        using hi.old_find_map [OF sem(1) old k vis] v by (auto simp: eq_commute [of "Some v"])
      then have idx': "idx' = i1\<lparr>rt_old_slots := Some (clear_slot old h), rt_count := rt_count i1 - 1\<rparr>"
        and st: "st = GRAVELDB_OK"
        using rm step k None old by (auto simp: hash_index_remove_def)
      note h = table_find_SomeD [OF hi_wf_old(2) [OF wf old] find k]
      have uk: "uniq_keys hs_occ hs_feat_id old"
        using sem(1) old by (simp add: hi_inv_def)
      have "\<not> hs_occ ((old ! unat h)\<lparr>hs_feat_id := 0\<rparr>)"
        by simp
      note cl = oa_map_clear [OF uk h(1,2) this, folded clear_slot_def]
      have "hs_keys (clear_slot old h) = hs_keys old - {k}"
        using cl(2) [of hs_val] h(3) by (simp add: hs_keys_map)
      then have "hi_inv idx'"
        using sem(1) wf' cl(1) old unfolding hi_inv_def idx' by auto
      moreover have "hi_map idx' = (hi_map i1)(k := None)"
        using cl(2) [of hs_val] h(3) nk old unfolding idx'
        by (auto simp: hi_map_def fun_eq_iff map_add_def split: option.splits)
      ultimately show ?thesis
        using st Some by simp
    qed
  qed
  with rm sem(2) show ?thesis
    by auto
qed

subsection \<open>Creation and iteration\<close>

lemma grow_pow2_zero: "0 < n \<Longrightarrow> grow_pow2 f 0 n = None"
  by (induction f) auto

lemma unat_pow2_u32:
  assumes "i < 32"
  shows "unat (2 ^ i :: u32) = 2 ^ i"
proof -
  have "(2 :: nat) ^ i < 2 ^ 32"
    using assms by (intro power_strict_increasing) simp_all
  moreover have "unat (of_nat (2 ^ i) :: u32) = 2 ^ i mod 2 ^ 32"
    by (simp add: unat_of_nat del: of_nat_power)
  ultimately show ?thesis
    by simp
qed

lemma grow_pow2_spec:
  assumes "i \<le> 31" and "31 - i < f"
  shows "if unat n \<le> 2 ^ 31
    then \<exists>j. i \<le> j \<and> j \<le> 31 \<and> grow_pow2 f (2 ^ i) n = Some (2 ^ j) \<and> unat n \<le> 2 ^ j \<and>
      (i < j \<longrightarrow> 2 ^ j < 2 * unat n)
    else grow_pow2 f (2 ^ i) n = None"
  using assms
proof (induction f arbitrary: i)
  case (Suc f)
  show ?case
  proof (cases "(2 ^ i :: u32) < n")
    case False
    then have "unat n \<le> 2 ^ i"
      using Suc.prems(1) by (simp add: word_less_nat_alt unat_pow2_u32)
    moreover have "(2 :: nat) ^ i \<le> 2 ^ 31"
      using Suc.prems(1) by (intro power_increasing) simp_all
    ultimately show ?thesis
      using False Suc.prems(1) by (auto intro!: exI [of _ i])
  next
    case True
    have lt: "2 ^ i < unat n"
      using True Suc.prems(1) by (simp add: word_less_nat_alt unat_pow2_u32)
    have step: "grow_pow2 (Suc f) (2 ^ i) n = grow_pow2 f (2 ^ Suc i) n"
      using True by (simp add: push_bit_eq_mult mult.commute)
    show ?thesis
    proof (cases "i = 31")
      case True
      then have z: "(2 :: u32) ^ Suc i = 0"
        by simp
      have "0 < n"
        using lt by (simp add: word_less_nat_alt)
      then have "grow_pow2 (Suc f) (2 ^ i) n = None"
        unfolding step z by (rule grow_pow2_zero)
      then show ?thesis
        using lt True by simp
    next
      case False
      then have "Suc i \<le> 31" "31 - Suc i < f"
        using Suc.prems by auto
      note IH = Suc.IH [OF this]
      show ?thesis
      proof (cases "unat n \<le> 2 ^ 31")
        case True
        then obtain j where j: "Suc i \<le> j" "j \<le> 31" "grow_pow2 f (2 ^ Suc i) n = Some (2 ^ j)"
            "unat n \<le> 2 ^ j" "Suc i < j \<longrightarrow> 2 ^ j < 2 * unat n"
          using IH by auto
        moreover have "2 ^ j < 2 * unat n"
          using j(1,5) lt by (cases "j = Suc i") auto
        ultimately show ?thesis
          unfolding step using True by (simp only: if_True) (intro exI [of _ j], auto)
      qed (use IH step in simp)
    qed
  qed
qed simp


lemma init_ok:
  assumes "3 \<le> unat n" and "unat n \<le> 2 ^ 29"
  obtains idx where "hash_index_init True n = Some (GRAVELDB_OK, Some idx)"
    and "hi_inv idx" and "hi_map idx = Map.empty" and "rt_old_slots idx = None" and "rt_count idx = 0"
    and "unat n \<le> unat (rt_capacity idx)" and "unat (rt_capacity idx) < 2 * unat n"
proof -
  from grow_pow2_spec [of 0 33 n] assms obtain j where
    j: "j \<le> 31" "grow_pow2 33 1 n = Some (2 ^ j)" "unat n \<le> 2 ^ j" "0 < j \<longrightarrow> 2 ^ j < 2 * unat n"
    by auto
  have j0: "0 < j"
    using j(3) assms(1) by (cases j) auto
  let ?idx = "\<lparr>rt_slots = replicate (unat (2 ^ j :: u32)) hs_empty, rt_capacity = 2 ^ j, rt_count = 0,
     rt_mask = 2 ^ j - 1, rt_old_slots = None, rt_old_capacity = 0, rt_old_mask = 0,
     rt_rehash_cursor = 0\<rparr>"
  have u: "unat (2 ^ j :: u32) = 2 ^ j"
    using j(1) by (simp add: unat_pow2_u32)
  have "(2 :: nat) ^ j < 2 ^ 30"
    using j(4) j0 assms(2) by simp
  then have "j \<le> 29"
    using power_less_imp_less_exp [of "2 :: nat" j 30] by simp
  then have up: "(2 :: nat) ^ j \<le> 2 ^ 29"
    by (intro power_increasing) simp_all
  have "j \<noteq> 1"
    using j(3) assms(1) by auto
  then have "(2 :: nat) ^ 2 \<le> 2 ^ j"
    using j0 by (intro power_increasing) simp_all
  then have lo: "4 \<le> (2 :: nat) ^ j"
    by simp
  have pm: "pow2_mask (2 ^ j) (2 ^ j - 1)"
    using j(1) unfolding pow2_mask_def by (intro exI [of _ j]) simp
  have "hi_wf ?idx"
    using pm lo up hi.n_occ_fresh by (simp add: hi_wf_def u)
  then have "hi_inv ?idx"
    using hi.inv_fresh [OF pm] by (simp add: hi_inv_def u)
  moreover have "hi_map ?idx = Map.empty"
    using hi.map_fresh [of hs_val] by (simp add: hi_map_def)
  moreover have "hash_index_init True n = Some (GRAVELDB_OK, Some ?idx)"
    using j(2) by (simp add: hash_index_init_def)
  ultimately show thesis
    using that [of ?idx] j(3,4) j0 u by simp
qed

lemma next_occupied_spec:
  assumes "length xs = unat cap" and "pos \<le> cap"
  shows "case filter hs_occ (drop (unat pos) xs) of
      [] \<Rightarrow> next_occupied xs cap pos = (None, cap)
    | s # r \<Rightarrow> \<exists>pos'. next_occupied xs cap pos = (Some s, pos') \<and> pos' \<le> cap \<and>
        filter hs_occ (drop (unat pos') xs) = r"
  using assms
proof (induction xs cap pos rule: next_occupied.induct)
  case (1 xs cap pos)
  show ?case
  proof (cases "pos < cap")
    case False
    then have "pos = cap"
      using "1.prems"(2) by simp
    then show ?thesis
      using "1.prems"(1) by (subst next_occupied.simps) simp
  next
    case True
    have suc: "unat (pos + 1) = Suc (unat pos)"
      using True by (rule unat_succ_less)
    have lt: "unat pos < length xs"
      using True "1.prems"(1) by (simp add: word_less_nat_alt)
    have le: "pos + 1 \<le> cap"
      using lt suc "1.prems"(1) by (simp add: word_le_nat_alt)
    have dr: "drop (unat pos) xs = xs ! unat pos # drop (unat (pos + 1)) xs"
      using lt by (simp add: Cons_nth_drop_Suc suc)
    have st: "next_occupied xs cap pos = (if hs_occ (xs ! unat pos) then (Some (xs ! unat pos), pos + 1)
        else next_occupied xs cap (pos + 1))"
      using True by (subst next_occupied.simps) simp
    show ?thesis
      unfolding dr st using le "1.IH" [OF True _ "1.prems"(1) le]
      by (cases "hs_occ (xs ! unat pos)") simp_all
  qed
qed

lemma iter_all_old:
  assumes "rt_old_slots idx = Some old" and "length old = unat (rt_old_capacity idx)"
    and "pos \<le> rt_old_capacity idx" and "length (filter hs_occ (drop (unat pos) old)) < f"
  shows "iter_all f idx \<lparr>it_pos = pos, it_in_old = True\<rparr> = filter hs_occ (drop (unat pos) old)"
  using assms(3,4)
proof (induction f arbitrary: pos)
  case (Suc f)
  from next_occupied_spec [OF assms(2) Suc.prems(1)] show ?case
    using Suc.IH Suc.prems assms(1)
    by (auto simp: hash_iter_next_def Let_def split: list.splits)
qed simp

lemma iter_all_new:
  assumes "length (rt_slots idx) = unat (rt_capacity idx)"
    and "\<And>old. rt_old_slots idx = Some old \<Longrightarrow> length old = unat (rt_old_capacity idx)"
    and "pos \<le> rt_capacity idx"
    and "length (filter hs_occ (drop (unat pos) (rt_slots idx))) +
      (case rt_old_slots idx of None \<Rightarrow> 0 | Some old \<Rightarrow> hs_n old) < f"
  shows "iter_all f idx \<lparr>it_pos = pos, it_in_old = False\<rparr> =
    filter hs_occ (drop (unat pos) (rt_slots idx)) @
    (case rt_old_slots idx of None \<Rightarrow> [] | Some old \<Rightarrow> filter hs_occ old)"
  using assms(3,4)
proof (induction f arbitrary: pos)
  case (Suc f)
  note spec = next_occupied_spec [OF assms(1) Suc.prems(1)]
  show ?case
  proof (cases "filter hs_occ (drop (unat pos) (rt_slots idx))")
    case (Cons s r)
    then show ?thesis
      using spec Suc.IH Suc.prems by (auto simp: hash_iter_next_def Let_def)
  next
    case Nil
    then have nx: "next_occupied (rt_slots idx) (rt_capacity idx) pos = (None, rt_capacity idx)"
      using spec by simp
    show ?thesis
    proof (cases "rt_old_slots idx")
      case None
      then show ?thesis
        using nx Nil by (simp add: hash_iter_next_def Let_def)
    next
      case (Some old)
      have "iter_all (Suc f) idx \<lparr>it_pos = pos, it_in_old = False\<rparr> =
          iter_all (Suc f) idx \<lparr>it_pos = 0, it_in_old = True\<rparr>"
        using nx Some by (simp add: hash_iter_next_def Let_def)
      also have "\<dots> = filter hs_occ old"
        using iter_all_old [OF Some assms(2) [OF Some], of 0 "Suc f"] Suc.prems(2) Some Nil
        by (simp add: n_occ_def)
      finally show ?thesis
        using Nil Some by simp
    qed
  qed
qed simp

subsection \<open>Sample indexes\<close>

lemma rehash_step_idle: "rt_old_slots idx = None \<Longrightarrow> rehash_step idx = Some idx"
  by (simp add: rehash_step_def rt_step_def)

lemma not_hidden_idle: "rt_old_slots idx = None \<Longrightarrow> \<not> hi_hidden idx k"
  by (simp add: hi_hidden_def)

text \<open>A put into an index that needs no growth.\<close>

lemma put_idle:
  assumes "hi_inv idx" and "rt_old_slots idx = None" and "10 * unat (rt_count idx) \<le> 7 * unat (rt_capacity idx)" and "k \<noteq> 0"
  shows "\<exists>idx'. hash_index_put c idx k d e = Some (GRAVELDB_OK, idx') \<and> hi_inv idx' \<and> hi_map idx' = (hi_map idx)(k \<mapsto> (d, e)) \<and>
    rt_old_slots idx' = None \<and> rt_capacity idx' = rt_capacity idx \<and> unat (rt_count idx') \<le> Suc (unat (rt_count idx))"
proof -
  have wf: "hi_wf idx"
    using assms(1) by (simp add: hi_inv_def)
  note st = rehash_step_idle [OF assms(2)]
  have ng: "\<not> (rt_old_slots idx = None \<and> rt_count idx * 10 > rt_capacity idx * 7)"
    using hi.grow_guard [OF wf assms(2)] assms(3) by simp
  obtain pl where l: "rt_locate hs_occ hs_feat_id hash64 idx k = Some pl"
    by (rule hi.locate_total [OF wf])
  obtain idx' where p: "put_tables idx k d e = Some (GRAVELDB_OK, idx')" "hi_inv idx'" "hi_map idx' = (hi_map idx)(k \<mapsto> (d, e))"
    using put_tables_sem [OF assms(1) step_slack_hi [OF wf st ng] assms(4) not_hidden_idle [OF assms(2)]] by blast
  moreover have "hash_index_put c idx k d e = put_tables idx k d e"
    using st ng assms(4) by (auto simp: hash_index_put_def)
  moreover have "rt_old_slots idx' = None" "rt_capacity idx' = rt_capacity idx" "unat (rt_count idx') \<le> Suc (unat (rt_count idx))"
    using p(1) put_tables_store [OF wf assms(4) l, of d e] assms(2) by (auto simp: rt_store_def unat_word_ariths split: place.splits)
  ultimately show ?thesis
    by auto
qed

text \<open>A series of puts up to the load at which the index grows, and one more, which starts a rehash.\<close>

lemma put_all_Nil: "put_all [] idx = Some idx"
  by (simp add: put_all_def)

lemma put_all_Cons: "put_all (k # ks) idx = Option.bind (map_option snd (hash_index_put True idx k 0 (ucast k))) (put_all ks)"
proof -
  have "fold (\<lambda>k r. case r of None \<Rightarrow> None | Some i \<Rightarrow> map_option snd (hash_index_put True i k 0 (ucast k))) ks None = None"
    by (induction ks) simp_all
  then show ?thesis
    by (cases "hash_index_put True idx k 0 (ucast k)") (simp_all add: put_all_def)
qed

lemma put_all_idle:
  assumes "hi_inv idx" and "rt_old_slots idx = None" and "0 \<notin> set ks"
    and "10 * (unat (rt_count idx) + length ks) \<le> 7 * unat (rt_capacity idx) + 10"
  shows "\<exists>idx'. put_all ks idx = Some idx' \<and> hi_inv idx' \<and> rt_old_slots idx' = None \<and>
    unat (rt_count idx') \<le> unat (rt_count idx) + length ks"
  using assms
proof (induction ks arbitrary: idx)
  case (Cons k ks)
  then obtain i1 where p: "hash_index_put True idx k 0 (ucast k) = Some (GRAVELDB_OK, i1)" "hi_inv i1"
      "hi_map i1 = (hi_map idx)(k \<mapsto> (0, ucast k))" "rt_old_slots i1 = None" "rt_capacity i1 = rt_capacity idx"
      "unat (rt_count i1) \<le> Suc (unat (rt_count idx))"
    using put_idle [of idx k True 0 "ucast k"] by auto
  have "\<exists>idx'. put_all ks i1 = Some idx' \<and> hi_inv idx' \<and> rt_old_slots idx' = None \<and>
      unat (rt_count idx') \<le> unat (rt_count i1) + length ks"
    using p Cons.prems(3,4) by (intro Cons.IH) auto
  then obtain idx' where r: "put_all ks i1 = Some idx'" "hi_inv idx'" "rt_old_slots idx' = None"
      "unat (rt_count idx') \<le> unat (rt_count i1) + length ks"
    by blast
  have "put_all (k # ks) idx = Some idx'" "unat (rt_count idx') \<le> unat (rt_count idx) + length (k # ks)"
    using p(1,6) r(1,4) by (simp_all add: put_all_Cons)
  with r(2,3) show ?case
    by blast
qed (simp add: put_all_Nil)

text \<open>
  The ids 6 to 28 in a fresh index of 32 slots, which is then as full as it gets, and the id 29 on top,
  whose put starts a rehash.
\<close>

definition full_index :: HashIndex where
  "full_index = the (put_all (map of_nat [6..<29]) (the (snd (the (hash_index_init True 32)))))"

definition growing_index :: HashIndex where
  "growing_index = snd (the (hash_index_put True full_index 29 0 29))"

lemma full_index_ok: "hi_inv full_index" "rt_old_slots full_index = None" "unat (rt_count full_index) < 2 ^ 28"
proof -
  obtain i0 where i0: "hash_index_init True 32 = Some (GRAVELDB_OK, Some i0)" "hi_inv i0" "rt_old_slots i0 = None"
      "rt_count i0 = 0" "32 \<le> unat (rt_capacity i0)"
    using init_ok [of 32] by auto
  let ?ks = "map of_nat [6..<29] :: u64 list"
  have "0 \<notin> set ?ks" "length ?ks = 23"
    by code_simp+
  then show "hi_inv full_index" "rt_old_slots full_index = None" "unat (rt_count full_index) < 2 ^ 28"
    using put_all_idle [of i0 ?ks] i0 by (auto simp: full_index_def simp del: map_upt_Suc)
qed

lemma growing_index_ok:
  "hash_index_put True full_index 29 0 29 = Some (GRAVELDB_OK, growing_index)" "hi_inv growing_index"
  using put_sem [OF full_index_ok(1,3) _ rehash_step_idle not_hidden_idle, OF _ full_index_ok(2,2), of 29 True 0 29]
  by (auto simp: growing_index_def)

text \<open>An id of the old table whose home slot was already migrated is not found there.\<close>

lemma chain_cut:
  assumes "hi_wf idx" and "rt_old_slots idx = Some old" and "hash64 k AND rt_old_mask idx < rt_rehash_cursor idx"
  shows "table_find old (rt_old_mask idx) k = None"
proof -
  have "\<not> hs_occ (old ! unat (hash64 k AND rt_old_mask idx))"
    using assms by (simp add: hi_wf_def word_less_nat_alt)
  moreover have "0 < length old"
    using assms(1,2) by (auto simp: hi_wf_def)
  ultimately show ?thesis
    by (cases "length old") (simp_all add: rt_find_def)
qed

lemma put_cut:
  assumes "hi_inv idx" and "rt_old_slots idx = Some old" and "k \<in> hs_keys old" and "table_find old (rt_old_mask idx) k = None"
  shows "\<exists>idx'. put_tables idx k d e = Some (GRAVELDB_OK, idx') \<and> rt_old_slots idx' = Some old \<and> k \<in> hs_keys (rt_slots idx') \<and>
    rt_count idx' = rt_count idx + 1"
proof -
  have wf: "hi_wf idx" and k: "k \<noteq> 0" and nk: "k \<notin> hs_keys (rt_slots idx)"
    using assms(1-3) by (auto simp: hi_inv_def oa_keys_def)
  obtain pl where l: "rt_locate hs_occ hs_feat_id hash64 idx k = Some pl"
    by (rule hi.locate_total [OF wf])
  from wf k l show ?thesis
  proof (cases rule: hi.locate_cases)
    case (new h)
    then show ?thesis
      using nk by (auto simp: oa_keys_def)
  next
    case (old h o2)
    then show ?thesis
      using assms(2,4) by simp
  next
    case (fresh h)
    then have "hs_mk k (d, e) \<in> set ((rt_slots idx)[unat h := hs_mk k (d, e)])"
      by (simp add: set_update_memI)
    moreover have "hs_feat_id (hs_mk k (d, e)) = k"
      by (simp add: hs_mk_def)
    ultimately have "k \<in> hs_keys ((rt_slots idx)[unat h := hs_mk k (d, e)])"
      using k by (force simp: oa_keys_def)
    then show ?thesis
      using put_tables_store [OF wf k l, of d e] fresh(1) assms(2) by (simp add: rt_store_def)
  qed
qed

lemma growing_index_cut:
  obtains idx1 old where "rehash_step growing_index = Some idx1" "rt_old_slots idx1 = Some old" "24 \<in> hs_keys old"
    "hash64 24 AND rt_old_mask idx1 < rt_rehash_cursor idx1"
proof -
  have "case rehash_step growing_index of Some idx1 \<Rightarrow>
      (case rt_old_slots idx1 of Some old \<Rightarrow>
         list_ex (\<lambda>s. hs_feat_id s = 24) old \<and> hash64 24 AND rt_old_mask idx1 < rt_rehash_cursor idx1
       | None \<Rightarrow> False)
    | None \<Rightarrow> False"
    by code_simp
  then show thesis
    using that by (fastforce simp: list_ex_iff oa_keys_def split: option.splits)
qed

lemma full_index_has: "hi_map full_index 24 = Some (0, 24)"
  by code_simp

lemma growing_index_count: "rt_count growing_index = 24"
  by code_simp

subsection \<open>Properties\<close>

text \<open>
  C1. Insertion refines the update of a finite map. On a sound index that stores fewer than 2^28 ids,
  a put of a non-zero id returns. It either updates the map at the id and reports \<open>GRAVELDB_OK\<close>, or
  it had to grow, the allocation failed, and it reports \<open>GRAVELDB_ERR_OOM\<close> with the contents
  unchanged. The invariant is kept either way. The id must not be hidden in the old table of a rehash
  in progress; without a rehash no id is hidden.
\<close>

theorem hash_index_put_map:
  assumes "hi_inv idx" and "unat (rt_count idx) < 2 ^ 28" and "k \<noteq> 0"
    and "rehash_step idx = Some idx1" and "\<not> hi_hidden idx1 k"
  shows "\<exists>idx'. hi_inv idx' \<and>
    (hash_index_put calloc_ok idx k d e = Some (GRAVELDB_OK, idx') \<and>
       hi_map idx' = (hi_map idx)(k \<mapsto> (d, e)) \<or>
     \<not> calloc_ok \<and> hash_index_put calloc_ok idx k d e = Some (GRAVELDB_ERR_OOM, idx') \<and>
       hi_map idx' = hi_map idx)"
  using assms by (rule put_sem)

theorem hash_index_put_map_witness:
  "\<exists>idx idx'. hash_index_init True 8 = Some (GRAVELDB_OK, Some idx) \<and>
     hash_index_put True idx 7 1 2 = Some (GRAVELDB_OK, idx') \<and> hi_map idx' 7 = Some (1, 2)"
proof -
  obtain idx where i: "hash_index_init True 8 = Some (GRAVELDB_OK, Some idx)" "hi_inv idx"
      "rt_old_slots idx = None" "rt_count idx = 0"
    using init_ok [of 8] by auto
  with hash_index_put_map [OF i(2) _ _ rehash_step_idle [OF i(3)] not_hidden_idle [OF i(3)], of 7 True 1 2]
  show ?thesis
    by fastforce
qed

text \<open>
  C12. What a lookup returns, exactly: the value that the map has for the id, unless the id sits in the
  old table of a rehash in progress where the probe loop does not reach it; then the answer is
  "not found". The lookup keeps the contents and the invariant.
\<close>

theorem hash_index_get_exact:
  assumes "hi_inv idx" and "k \<noteq> 0"
  shows "\<exists>idx1. rehash_step idx = Some idx1 \<and> hi_inv idx1 \<and> hi_map idx1 = hi_map idx \<and>
    hash_index_get idx k = Some (if hi_hidden idx1 k then None else hi_map idx k, idx1)"
proof -
  have "hi_wf idx"
    using assms(1) by (simp add: hi_inv_def)
  then obtain idx1 where "rehash_step idx = Some idx1"
    using rehash_step_total [of idx] by metis
  then show ?thesis
    using rehash_step_sem [OF assms(1)] get_after_step [OF assms] by blast
qed

theorem hash_index_get_exact_witness:
  "hash_index_get full_index 24 = Some (Some (0, 24), full_index) \<and>
   map_option fst (hash_index_get growing_index 24) = Some None"
proof -
  obtain idx1 old where c: "rehash_step growing_index = Some idx1" "rt_old_slots idx1 = Some old" "24 \<in> hs_keys old"
      "hash64 24 AND rt_old_mask idx1 < rt_rehash_cursor idx1"
    by (rule growing_index_cut)
  have "hi_wf idx1"
    using rehash_step_sem(1) [OF growing_index_ok(2) c(1)] by (simp add: hi_inv_def)
  then have "hi_hidden idx1 24"
    using chain_cut [OF _ c(2,4)] c(2,3) by (simp add: hi_hidden_def)
  then show ?thesis
    using hash_index_get_exact [OF full_index_ok(1), of 24] hash_index_get_exact [OF growing_index_ok(2), of 24] c(1)
      rehash_step_idle [OF full_index_ok(2)] not_hidden_idle [OF full_index_ok(2), of 24] full_index_has by auto
qed

text \<open>
  C11. Removal refines the removal from a finite map, for an id that is not hidden in the old table of
  a rehash in progress; without a rehash no id is hidden. The removal returns, the id is gone, the
  back-shift that closes the gap keeps every other id reachable with its value, and the invariant holds
  again. The status is \<open>GRAVELDB_OK\<close> when the id was stored and \<open>GRAVELDB_ERR_NOT_FOUND\<close> otherwise.
\<close>

theorem hash_index_remove_map:
  assumes "hi_inv idx" and "k \<noteq> 0" and "rehash_step idx = Some idx1" and "\<not> hi_hidden idx1 k"
  shows "\<exists>idx'. hi_inv idx' \<and> hi_map idx' = (hi_map idx)(k := None) \<and>
    hash_index_remove idx k =
      Some (if hi_map idx k = None then GRAVELDB_ERR_NOT_FOUND else GRAVELDB_OK, idx')"
  using assms by (rule remove_sem)

theorem hash_index_remove_map_witness:
  "\<exists>idx'. hash_index_remove full_index 24 = Some (GRAVELDB_OK, idx') \<and> hi_map idx' = (hi_map full_index)(24 := None) \<and>
     hi_map full_index 24 = Some (0, 24)"
  using hash_index_remove_map [OF full_index_ok(1) _ rehash_step_idle [OF full_index_ok(2)] not_hidden_idle [OF full_index_ok(2)],
      of 24] full_index_has by auto

text \<open>
  C13. No operation on a structurally sound index runs forever, whatever ids it holds and also in the
  middle of a rehash: put, get and remove return, and put and remove keep the structure.
\<close>

theorem hash_index_operations_return:
  assumes "hi_wf idx" and "unat (rt_count idx) < 2 ^ 28"
  shows "(\<exists>st idx'. hash_index_put calloc_ok idx k d e = Some (st, idx') \<and> hi_wf idx') \<and>
    (\<exists>st idx'. hash_index_remove idx k = Some (st, idx') \<and> hi_wf idx') \<and>
    (\<exists>r idx'. hash_index_get idx k = Some (r, idx') \<and> hi_wf idx')"
proof -
  obtain idx1 where "rehash_step idx = Some idx1" "hi_wf idx1"
    using rehash_step_total [OF assms(1)] by metis
  then have "\<exists>r idx'. hash_index_get idx k = Some (r, idx') \<and> hi_wf idx'"
    using assms(1) by (auto simp: hash_index_get_def split: option.splits)
  then show ?thesis
    using put_total [OF assms] remove_total [OF assms(1)] by blast
qed

theorem hash_index_operations_return_witness:
  "\<exists>st idx'. hash_index_put False growing_index 7 1 2 = Some (st, idx') \<and> hi_wf idx'"
  using hash_index_operations_return [of growing_index False 7 1 2] growing_index_ok(2) growing_index_count
  by (auto simp: hi_inv_def)

text \<open>
  C14. Finishing a rehash: the loop ends after at most one step per slot of the old table, only one
  table is left and the contents are unchanged.
\<close>

theorem hash_index_finish_rehash_map:
  assumes "hi_inv idx"
  shows "\<exists>idx'. hash_index_finish_rehash idx = Some idx' \<and> rt_old_slots idx' = None \<and>
    hi_inv idx' \<and> hi_map idx' = hi_map idx \<and> rt_count idx' = rt_count idx"
  unfolding hash_index_finish_rehash_def using assms by (rule finish_loop_ok) simp

theorem hash_index_finish_rehash_map_witness:
  "rt_old_slots growing_index \<noteq> None \<and>
   (\<exists>idx'. hash_index_finish_rehash growing_index = Some idx' \<and> rt_old_slots idx' = None \<and>
      hi_map idx' = hi_map growing_index)"
proof -
  obtain idx1 old where "rehash_step growing_index = Some idx1" "rt_old_slots idx1 = Some old"
    by (rule growing_index_cut)
  then have "rt_old_slots growing_index \<noteq> None"
    using rehash_step_idle [of growing_index] by auto
  then show ?thesis
    using hash_index_finish_rehash_map [OF growing_index_ok(2)] by blast
qed

text \<open>
  C22. Draining an iterator visits every occupied slot exactly once, those of the new table first, and
  one call more than there are ids suffices.
\<close>

theorem hash_iter_visits_all:
  assumes "hi_wf idx" and "unat (rt_count idx) < f"
  shows "iter_all f idx hash_iter_init = filter hs_occ (rt_slots idx) @
    (case rt_old_slots idx of None \<Rightarrow> [] | Some old \<Rightarrow> filter hs_occ old)"
  unfolding hash_iter_init_def
  using iter_all_new [of idx 0 f] assms by (auto simp: hi_wf_def n_occ_def split: option.splits)

theorem hash_iter_visits_all_witness:
  "length (iter_all 25 growing_index hash_iter_init) = 24"
proof -
  have "hi_wf growing_index"
    using growing_index_ok(2) by (simp add: hi_inv_def)
  with hash_iter_visits_all [OF this, of 25] growing_index_count show ?thesis
    by (auto simp: hi_wf_def n_occ_def split: option.splits)
qed

text \<open>
  Creation: the capacity is rounded up to the least power of two that holds the request, and the
  new index is sound and empty, for a request of 3 to 2^29 slots. For a request above 2^31 slots the
  rounding loop shifts its variable to 0 and never ends.
\<close>

theorem hash_index_init_spec:
  "(3 \<le> unat n \<and> unat n \<le> 2 ^ 29 \<longrightarrow>
     (\<exists>idx. hash_index_init True n = Some (GRAVELDB_OK, Some idx) \<and> hi_inv idx \<and>
        hi_map idx = Map.empty \<and> unat n \<le> unat (rt_capacity idx) \<and>
        unat (rt_capacity idx) < 2 * unat n)) \<and>
   (hash_index_init ok n = None \<longleftrightarrow> 2 ^ 31 < unat n)"
proof -
  have "grow_pow2 33 1 n = None \<longleftrightarrow> 2 ^ 31 < unat n"
    using grow_pow2_spec [of 0 33 n] by (auto split: if_splits)
  then have "hash_index_init ok n = None \<longleftrightarrow> 2 ^ 31 < unat n"
    by (auto simp: hash_index_init_def split: option.splits)
  then show ?thesis
    using init_ok [of n] by metis
qed

theorem hash_index_init_spec_witness:
  "(\<exists>idx. hash_index_init True 100 = Some (GRAVELDB_OK, Some idx) \<and> hi_inv idx \<and>
      100 \<le> unat (rt_capacity idx)) \<and> hash_index_init True 0x80000001 = None"
  using hash_index_init_spec [of 100 True] hash_index_init_spec [of "0x80000001" True] by auto

text \<open>
  C15. A stored id is reported missing while a rehash runs. Every operation first migrates up to 16
  slots and clears them in the old table. An id that is still in the old table, but whose home slot is
  among the cleared ones, is cut off from its probe chain: a lookup answers "not found", a removal
  answers "not found" and leaves the id stored, and a put stores the id a second time, in the new table,
  and counts it twice.
\<close>

theorem hash_index_get_misses_during_rehash:
  assumes "hi_inv idx" and "rehash_step idx = Some idx1" and "rt_old_slots idx1 = Some old" and "k \<in> hs_keys old"
    and "hash64 k AND rt_old_mask idx1 < rt_rehash_cursor idx1"
  shows "hi_map idx k \<noteq> None \<and> hash_index_get idx k = Some (None, idx1) \<and>
    hash_index_remove idx k = Some (GRAVELDB_ERR_NOT_FOUND, idx1) \<and> hi_map idx1 k \<noteq> None \<and>
    (\<exists>idx'. hash_index_put calloc_ok idx k d e = Some (GRAVELDB_OK, idx') \<and> rt_old_slots idx' = Some old \<and>
       k \<in> hs_keys (rt_slots idx') \<and> rt_count idx' = rt_count idx1 + 1)"
proof -
  note sem = rehash_step_sem [OF assms(1,2)]
  have wf: "hi_wf idx1" and k: "k \<noteq> 0" and nk: "k \<notin> hs_keys (rt_slots idx1)"
    using sem(1) assms(3,4) by (auto simp: hi_inv_def oa_keys_def)
  note cut = chain_cut [OF wf assms(3,5)]
  have new: "table_find (rt_slots idx1) (rt_mask idx1) k = None"
    using table_find_SomeD(1-3) [OF hi_wf_mask [OF wf] _ k] nk
    by (cases "table_find (rt_slots idx1) (rt_mask idx1) k") (force simp: oa_keys_def)+
  have "hi_map idx1 k \<noteq> None"
    using assms(3,4) by (auto simp: hi_map_def hs_keys_map map_add_def split: option.splits)
  moreover have "hash_index_get idx k = Some (None, idx1)" "hash_index_remove idx k = Some (GRAVELDB_ERR_NOT_FOUND, idx1)"
    using k assms(2,3) cut new by (simp_all add: hash_index_get_def hash_index_remove_def)
  moreover have "hash_index_put calloc_ok idx k d e = put_tables idx1 k d e"
    using k assms(2,3) by (simp add: hash_index_put_def)
  ultimately show ?thesis
    using put_cut [OF sem(1) assms(3,4) cut, of d e] sem(2) by simp
qed

theorem hash_index_get_misses_during_rehash_witness:
  "hi_map growing_index 24 \<noteq> None \<and> map_option fst (hash_index_get growing_index 24) = Some None"
proof -
  obtain idx1 old where c: "rehash_step growing_index = Some idx1" "rt_old_slots idx1 = Some old" "24 \<in> hs_keys old"
      "hash64 24 AND rt_old_mask idx1 < rt_rehash_cursor idx1"
    by (rule growing_index_cut)
  from hash_index_get_misses_during_rehash [OF growing_index_ok(2) c] show ?thesis
    by simp
qed

end
