(* ===== verification/Wire.thy ===== *)
theory Wire
  imports Gravel_Prelude
begin

text \<open>
  The byte formats of \<^verbatim>\<open>src/wire.h\<close> and the CRC-32 of \<^verbatim>\<open>src/checkpoint.c\<close>. A buffer is a list of
  bytes; a pointer \<^verbatim>\<open>buf + off\<close> is the pair of the buffer and an offset. On a little-endian host the
  C code copies the object representation of the integer, on other hosts it shifts the bytes out; the
  two give the same bytes, and the model is the shifting variant.
\<close>

named_theorems wire_simps

subsection \<open>Integers in little-endian order\<close>

type_synonym bytes = "u8 list"

text \<open>\<^verbatim>\<open>memcpy(buf + off, src, n)\<close> into a buffer that is long enough.\<close>

definition put_at :: "bytes \<Rightarrow> nat \<Rightarrow> bytes \<Rightarrow> bytes" where
  "put_at buf off src = take off buf @ src @ drop (off + length src) buf"

definition u32_bytes :: "u32 \<Rightarrow> bytes" where
  "u32_bytes v = [ucast v, ucast (drop_bit 8 v), ucast (drop_bit 16 v), ucast (drop_bit 24 v)]"

definition u64_bytes :: "u64 \<Rightarrow> bytes" where
  "u64_bytes v =
     [ucast v, ucast (drop_bit 8 v), ucast (drop_bit 16 v), ucast (drop_bit 24 v),
      ucast (drop_bit 32 v), ucast (drop_bit 40 v), ucast (drop_bit 48 v), ucast (drop_bit 56 v)]"

definition wire_put_u32 :: "bytes \<Rightarrow> nat \<Rightarrow> u32 \<Rightarrow> bytes" where
  "wire_put_u32 buf off v = put_at buf off (u32_bytes v)"

definition wire_put_u64 :: "bytes \<Rightarrow> nat \<Rightarrow> u64 \<Rightarrow> bytes" where
  "wire_put_u64 buf off v = put_at buf off (u64_bytes v)"

definition wire_get_u32 :: "bytes \<Rightarrow> nat \<Rightarrow> u32" where
  "wire_get_u32 buf off =
     ucast (buf ! off) OR push_bit 8 (ucast (buf ! (off + 1))) OR
     push_bit 16 (ucast (buf ! (off + 2))) OR push_bit 24 (ucast (buf ! (off + 3)))"

definition wire_get_u64 :: "bytes \<Rightarrow> nat \<Rightarrow> u64" where
  "wire_get_u64 buf off =
     ucast (buf ! off) OR push_bit 8 (ucast (buf ! (off + 1))) OR
     push_bit 16 (ucast (buf ! (off + 2))) OR push_bit 24 (ucast (buf ! (off + 3))) OR
     push_bit 32 (ucast (buf ! (off + 4))) OR push_bit 40 (ucast (buf ! (off + 5))) OR
     push_bit 48 (ucast (buf ! (off + 6))) OR push_bit 56 (ucast (buf ! (off + 7)))"

definition wire_bswap32 :: "u32 \<Rightarrow> u32" where
  "wire_bswap32 v =
     (drop_bit 24 v AND 0xFF) OR (drop_bit 8 v AND 0xFF00) OR
     (push_bit 8 v AND 0xFF0000) OR (push_bit 24 v AND 0xFF000000)"

subsection \<open>Headers\<close>

text \<open>The encoders write their fields into the caller's buffer, the decoders read them back.\<close>

definition WIRE_META_SIZE :: nat where
  "WIRE_META_SIZE = 16"

definition wire_encode_meta :: "bytes \<Rightarrow> u32 \<Rightarrow> u64 \<Rightarrow> u32 \<Rightarrow> bytes" where
  "wire_encode_meta buf magic generation checksum =
     wire_put_u32 (wire_put_u64 (wire_put_u32 buf 0 magic) 4 generation) 12 checksum"

definition wire_decode_meta :: "bytes \<Rightarrow> u32 \<times> u64 \<times> u32" where
  "wire_decode_meta buf = (wire_get_u32 buf 0, wire_get_u64 buf 4, wire_get_u32 buf 12)"

record DeltaHeader =
  dh_magic :: u32
  dh_version :: u32
  dh_generation :: u64
  dh_dim :: u32
  dh_entry_size :: u32
  dh_bump_ptr :: u64
  dh_num_entries :: u32
  dh_checksum :: u32

definition WIRE_DELTA_HDR_SIZE :: nat where
  "WIRE_DELTA_HDR_SIZE = 40"

definition wire_encode_delta_hdr :: "bytes \<Rightarrow> DeltaHeader \<Rightarrow> bytes" where
  "wire_encode_delta_hdr buf h =
     (let b0 = wire_put_u32 buf 0 (dh_magic h);
          b1 = wire_put_u32 b0 4 (dh_version h);
          b2 = wire_put_u64 b1 8 (dh_generation h);
          b3 = wire_put_u32 b2 16 (dh_dim h);
          b4 = wire_put_u32 b3 20 (dh_entry_size h);
          b5 = wire_put_u64 b4 24 (dh_bump_ptr h);
          b6 = wire_put_u32 b5 32 (dh_num_entries h)
      in wire_put_u32 b6 36 (dh_checksum h))"

definition wire_decode_delta_hdr :: "bytes \<Rightarrow> DeltaHeader" where
  "wire_decode_delta_hdr buf =
     \<lparr>dh_magic = wire_get_u32 buf 0, dh_version = wire_get_u32 buf 4,
      dh_generation = wire_get_u64 buf 8, dh_dim = wire_get_u32 buf 16,
      dh_entry_size = wire_get_u32 buf 20, dh_bump_ptr = wire_get_u64 buf 24,
      dh_num_entries = wire_get_u32 buf 32, dh_checksum = wire_get_u32 buf 36\<rparr>"

definition WIRE_DELTA_ENTRY_SIZE :: nat where
  "WIRE_DELTA_ENTRY_SIZE = 8"

definition wire_encode_delta_entry :: "bytes \<Rightarrow> u32 \<Rightarrow> u32 \<Rightarrow> bytes" where
  "wire_encode_delta_entry buf pg_start pg_count =
     wire_put_u32 (wire_put_u32 buf 0 pg_start) 4 pg_count"

definition wire_decode_delta_entry :: "bytes \<Rightarrow> u32 \<times> u32" where
  "wire_decode_delta_entry buf = (wire_get_u32 buf 0, wire_get_u32 buf 4)"

definition GRAVELDB_CKPT_EXPORT_MAGIC :: u32 where
  "GRAVELDB_CKPT_EXPORT_MAGIC = 0x434B4558"

definition CKPT_EXPORT_FULL :: u32 where
  "CKPT_EXPORT_FULL = 1"

definition CKPT_EXPORT_DELTA :: u32 where
  "CKPT_EXPORT_DELTA = 2"

definition WIRE_CKPT_EXPORT_HDR_SIZE :: nat where
  "WIRE_CKPT_EXPORT_HDR_SIZE = 48"

record CkptExportHeader =
  ex_magic :: u32
  ex_version :: u32
  ex_type :: u32
  ex_generation :: u64
  ex_dim :: u32
  ex_entry_size :: u32
  ex_num_entries :: u64
  ex_base_gen :: u64
  ex_checksum :: u32

definition wire_encode_ckpt_export_hdr :: "bytes \<Rightarrow> CkptExportHeader \<Rightarrow> bytes" where
  "wire_encode_ckpt_export_hdr buf h =
     (let b0 = wire_put_u32 buf 0 (ex_magic h);
          b1 = wire_put_u32 b0 4 (ex_version h);
          b2 = wire_put_u32 b1 8 (ex_type h);
          b3 = wire_put_u64 b2 12 (ex_generation h);
          b4 = wire_put_u32 b3 20 (ex_dim h);
          b5 = wire_put_u32 b4 24 (ex_entry_size h);
          b6 = wire_put_u64 b5 28 (ex_num_entries h);
          b7 = wire_put_u64 b6 36 (ex_base_gen h)
      in wire_put_u32 b7 44 (ex_checksum h))"

definition wire_decode_ckpt_export_hdr :: "bytes \<Rightarrow> CkptExportHeader" where
  "wire_decode_ckpt_export_hdr buf =
     \<lparr>ex_magic = wire_get_u32 buf 0, ex_version = wire_get_u32 buf 4, ex_type = wire_get_u32 buf 8,
      ex_generation = wire_get_u64 buf 12, ex_dim = wire_get_u32 buf 20,
      ex_entry_size = wire_get_u32 buf 24, ex_num_entries = wire_get_u64 buf 28,
      ex_base_gen = wire_get_u64 buf 36, ex_checksum = wire_get_u32 buf 44\<rparr>"

subsection \<open>CRC-32\<close>

text \<open>One bit of the reflected polynomial division, eight of them per byte.\<close>

definition crc_bit :: "u32 \<Rightarrow> u32" where
  "crc_bit crc = drop_bit 1 crc XOR (0xEDB88320 AND (- (crc AND 1)))"

definition crc_byte :: "u32 \<Rightarrow> u8 \<Rightarrow> u32" where
  "crc_byte crc b = (crc_bit ^^ 8) (crc XOR ucast b)"

definition crc32_update :: "u32 \<Rightarrow> bytes \<Rightarrow> u32" where
  "crc32_update crc data = foldl crc_byte crc data"

definition crc32_simple :: "bytes \<Rightarrow> u32" where
  "crc32_simple data = NOT (crc32_update 0xFFFFFFFF data)"

subsection \<open>Reading back what was written\<close>

lemma byte_split:
  assumes "n < 8 * c"
  obtains k i where "n = 8 * k + i" and "k < c" and "i < (8 :: nat)"
  using assms that [of "n div 8" "n mod 8"] by auto

lemma u32_eq_bytesI:
  fixes x y :: u32
  assumes "\<And>k i. k < 4 \<Longrightarrow> i < 8 \<Longrightarrow> bit x (8 * k + i) = bit y (8 * k + i)"
  shows "x = y"
proof (rule bit_word_eqI)
  fix n
  assume "n < LENGTH(32)"
  then have "n < 8 * 4"
    by simp
  then show "bit x n = bit y n"
    by (rule byte_split) (simp add: assms)
qed

lemma u64_eq_bytesI:
  fixes x y :: u64
  assumes "\<And>k i. k < 8 \<Longrightarrow> i < 8 \<Longrightarrow> bit x (8 * k + i) = bit y (8 * k + i)"
  shows "x = y"
proof (rule bit_word_eqI)
  fix n
  assume "n < LENGTH(64)"
  then have "n < 8 * 8"
    by simp
  then show "bit x n = bit y n"
    by (rule byte_split) (simp add: assms)
qed

lemma u32_bytes_inverse: "wire_get_u32 (u32_bytes v) 0 = v"
proof (rule u32_eq_bytesI)
  fix k i :: nat
  assume "k < 4" and i: "i < 8"
  then consider "k = 0" | "k = 1" | "k = 2" | "k = 3"
    by linarith
  then show "bit (wire_get_u32 (u32_bytes v) 0) (8 * k + i) = bit v (8 * k + i)"
    using i by cases (simp_all add: wire_get_u32_def u32_bytes_def bit_simps)
qed

lemma u64_bytes_inverse: "wire_get_u64 (u64_bytes v) 0 = v"
proof (rule u64_eq_bytesI)
  fix k i :: nat
  assume "k < 8" and i: "i < 8"
  then consider "k = 0" | "k = 1" | "k = 2" | "k = 3" | "k = 4" | "k = 5" | "k = 6" | "k = 7"
    by linarith
  then show "bit (wire_get_u64 (u64_bytes v) 0) (8 * k + i) = bit v (8 * k + i)"
    using i by cases (simp_all add: wire_get_u64_def u64_bytes_def bit_simps)
qed

lemma length_u32_bytes [simp]: "length (u32_bytes v) = 4"
  by (simp add: u32_bytes_def)

lemma length_u64_bytes [simp]: "length (u64_bytes v) = 8"
  by (simp add: u64_bytes_def)

lemma length_put_at [simp]: "off + length src \<le> length buf \<Longrightarrow> length (put_at buf off src) = length buf"
  by (simp add: put_at_def)

lemma nth_put_at:
  assumes "off + length src \<le> length buf" and "i < length buf"
  shows "put_at buf off src ! i =
    (if off \<le> i \<and> i < off + length src then src ! (i - off) else buf ! i)"
  using assms by (auto simp: put_at_def nth_append)

lemma length_wire_put [simp]:
  "off + 4 \<le> length buf \<Longrightarrow> length (wire_put_u32 buf off v) = length buf"
  "off + 8 \<le> length buf \<Longrightarrow> length (wire_put_u64 buf off w) = length buf"
  by (simp_all add: wire_put_u32_def wire_put_u64_def)

text \<open>A read depends only on its own bytes.\<close>

lemma get_u32_slice: "off + 4 \<le> length buf \<Longrightarrow> wire_get_u32 buf off = wire_get_u32 (take 4 (drop off buf)) 0"
  by (simp add: wire_get_u32_def)

lemma get_u64_slice: "off + 8 \<le> length buf \<Longrightarrow> wire_get_u64 buf off = wire_get_u64 (take 8 (drop off buf)) 0"
  by (simp add: wire_get_u64_def)

lemma slice_put_same:
  "off + length src \<le> length buf \<Longrightarrow> take (length src) (drop off (put_at buf off src)) = src"
  by (simp add: put_at_def)

lemma slice_put_other:
  assumes "off + length src \<le> length buf" and "off' + n \<le> length buf"
    and "off + length src \<le> off' \<or> off' + n \<le> off"
  shows "take n (drop off' (put_at buf off src)) = take n (drop off' buf)"
  using assms by (intro nth_equalityI) (auto simp: nth_put_at)

text \<open>A field is read back, and a field elsewhere in the buffer is not touched.\<close>

lemma get_u32_put_u32:
  assumes "off + 4 \<le> length buf" and "off' + 4 \<le> length buf" and "off' = off \<or> off + 4 \<le> off' \<or> off' + 4 \<le> off"
  shows "wire_get_u32 (wire_put_u32 buf off v) off' = (if off' = off then v else wire_get_u32 buf off')"
  using assms slice_put_same [of off "u32_bytes v" buf] slice_put_other [of off "u32_bytes v" buf off' 4]
  by (auto simp: get_u32_slice [of off'] wire_put_u32_def u32_bytes_inverse)

lemma get_u32_put_u64:
  assumes "off + 8 \<le> length buf" and "off' + 4 \<le> length buf" and "off + 8 \<le> off' \<or> off' + 4 \<le> off"
  shows "wire_get_u32 (wire_put_u64 buf off v) off' = wire_get_u32 buf off'"
  using assms slice_put_other [of off "u64_bytes v" buf off' 4]
  by (simp add: get_u32_slice [of off'] wire_put_u64_def)

lemma get_u64_put_u32:
  assumes "off + 4 \<le> length buf" and "off' + 8 \<le> length buf" and "off + 4 \<le> off' \<or> off' + 8 \<le> off"
  shows "wire_get_u64 (wire_put_u32 buf off v) off' = wire_get_u64 buf off'"
  using assms slice_put_other [of off "u32_bytes v" buf off' 8]
  by (simp add: get_u64_slice [of off'] wire_put_u32_def)

lemma get_u64_put_u64:
  assumes "off + 8 \<le> length buf" and "off' + 8 \<le> length buf" and "off' = off \<or> off + 8 \<le> off' \<or> off' + 8 \<le> off"
  shows "wire_get_u64 (wire_put_u64 buf off v) off' = (if off' = off then v else wire_get_u64 buf off')"
  using assms slice_put_same [of off "u64_bytes v" buf] slice_put_other [of off "u64_bytes v" buf off' 8]
  by (auto simp: get_u64_slice [of off'] wire_put_u64_def u64_bytes_inverse)

lemmas wire_get_put [wire_simps] = get_u32_put_u32 get_u32_put_u64 get_u64_put_u32 get_u64_put_u64

text \<open>The byte-swapped magic is the magic read in the other byte order.\<close>

lemma swap_masks:
  "(0xFF :: u32) = mask 8" "(0xFF00 :: u32) = push_bit 8 (mask 8)"
  "(0xFF0000 :: u32) = push_bit 16 (mask 8)" "(0xFF000000 :: u32) = push_bit 24 (mask 8)"
  by (simp_all add: mask_eq_exp_minus_1 push_bit_eq_mult)

lemma bswap_byte:
  assumes "i < 8"
  shows "bit (wire_bswap32 v) i = bit v (24 + i)" and "bit (wire_bswap32 v) (8 + i) = bit v (16 + i)"
    and "bit (wire_bswap32 v) (16 + i) = bit v (8 + i)" and "bit (wire_bswap32 v) (24 + i) = bit v i"
  using assms unfolding wire_bswap32_def swap_masks by (simp_all add: bit_simps)

lemma bswap_involution: "wire_bswap32 (wire_bswap32 v) = v"
proof (rule u32_eq_bytesI)
  fix k i :: nat
  assume "k < 4" and i: "i < 8"
  then consider "k = 0" | "k = 1" | "k = 2" | "k = 3"
    by linarith
  then show "bit (wire_bswap32 (wire_bswap32 v)) (8 * k + i) = bit v (8 * k + i)"
    by cases (simp_all add: bswap_byte [OF i])
qed

lemma bswap_bytes: "u32_bytes (wire_bswap32 v) = rev (u32_bytes v)"
proof -
  have "(ucast (wire_bswap32 v) :: u8) = ucast (drop_bit 24 v)"
    "(ucast (drop_bit 8 (wire_bswap32 v)) :: u8) = ucast (drop_bit 16 v)"
    "(ucast (drop_bit 16 (wire_bswap32 v)) :: u8) = ucast (drop_bit 8 v)"
    "(ucast (drop_bit 24 (wire_bswap32 v)) :: u8) = ucast v"
    by (rule bit_word_eqI; simp add: bit_simps bswap_byte)+
  then show ?thesis
    by (simp add: u32_bytes_def)
qed

subsection \<open>What the checksum detects\<close>

text \<open>A step of the division can be undone: the top bit tells whether the polynomial was added.\<close>

lemma crc_bit_alt: "crc_bit c = (if odd c then drop_bit 1 c XOR 0xEDB88320 else drop_bit 1 c)"
proof -
  have "c AND 1 = of_bool (odd c)"
    by (simp add: and_one_eq mod_2_eq_odd)
  then show ?thesis
    by (simp add: crc_bit_def)
qed

lemma crc_bit_top: "bit (crc_bit c) 31 \<longleftrightarrow> odd c"
proof -
  have "\<not> bit (drop_bit 1 c) 31"
    using bit_imp_le_length [of c 32] by (auto simp: bit_simps)
  moreover have "bit (0xEDB88320 :: u32) 31"
    by simp
  ultimately show ?thesis
    by (simp add: crc_bit_alt bit_xor_iff)
qed

lemma xor_right_cancel:
  assumes "a XOR c = b XOR (c :: 'a :: len word)"
  shows "a = b"
proof -
  have "(a XOR c) XOR c = (b XOR c) XOR c"
    using assms by (rule arg_cong)
  then show ?thesis
    by (simp only: xor.assoc xor_self_eq xor.right_neutral)
qed

lemma crc_bit_inj: "inj crc_bit"
proof (rule injI)
  fix c d
  assume eq: "crc_bit c = crc_bit d"
  then have odd: "odd c = odd d"
    using crc_bit_top by metis
  have "drop_bit 1 c = drop_bit 1 d"
  proof (cases "odd c")
    case True
    then have "drop_bit 1 c XOR 0xEDB88320 = drop_bit 1 d XOR 0xEDB88320"
      using eq odd by (simp add: crc_bit_alt)
    then show ?thesis
      by (rule xor_right_cancel)
  qed (use eq odd in \<open>simp add: crc_bit_alt\<close>)
  show "c = d"
  proof (rule bit_word_eqI)
    fix n
    show "bit c n = bit d n"
    proof (cases n)
      case 0
      then show ?thesis
        using odd by (simp add: bit_0)
    next
      case (Suc m)
      then show ?thesis
        using arg_cong [OF \<open>drop_bit 1 c = drop_bit 1 d\<close>, of "\<lambda>w. bit w m"] by (simp add: bit_drop_bit_eq)
    qed
  qed
qed

lemma crc_bits_inj: "inj (crc_bit ^^ n)"
  by (rule inj_fn [OF crc_bit_inj])

lemma crc_byte_cancel: "crc_byte c b = crc_byte d b \<longleftrightarrow> c = d"
  using injD [OF crc_bits_inj [of 8], of "c XOR ucast b" "d XOR ucast b"]
  by (auto simp: crc_byte_def dest: xor_right_cancel)

lemma crc_byte_differs: "crc_byte c a = crc_byte c b \<longleftrightarrow> a = b"
proof
  assume "crc_byte c a = crc_byte c b"
  then have "c XOR ucast a = c XOR ucast b"
    using injD [OF crc_bits_inj [of 8]] by (simp add: crc_byte_def)
  then have e: "(ucast a :: u32) = ucast b"
    by (subst (asm) (1 2) xor.commute) (rule xor_right_cancel)
  show "a = b"
  proof (rule bit_word_eqI)
    fix n
    assume "n < LENGTH(8)"
    then show "bit a n = bit b n"
      using arg_cong [OF e, of "\<lambda>w. bit w n"] by (simp add: bit_simps)
  qed
qed simp

lemma crc32_update_append: "crc32_update c (xs @ ys) = crc32_update (crc32_update c xs) ys"
  by (simp add: crc32_update_def)

lemma crc32_update_cancel: "crc32_update c xs = crc32_update d xs \<longleftrightarrow> c = d"
  by (induction xs arbitrary: c d) (simp_all add: crc32_update_def crc_byte_cancel)

lemma crc32_update_change:
  assumes "i < length xs" and "b \<noteq> xs ! i"
  shows "crc32_update c (xs[i := b]) \<noteq> crc32_update c xs"
proof -
  have "xs = take i xs @ xs ! i # drop (Suc i) xs"
    using assms(1) by (rule id_take_nth_drop)
  moreover have "xs[i := b] = take i xs @ b # drop (Suc i) xs"
    using assms(1) by (rule upd_conv_take_nth_drop)
  moreover have "crc32_update c (take i xs @ b # drop (Suc i) xs) \<noteq>
      crc32_update c (take i xs @ xs ! i # drop (Suc i) xs)"
    using assms(2) by (simp add: crc32_update_append crc32_update_def [of _ "_ # _"]
        flip: crc32_update_def) (metis crc32_update_cancel crc_byte_differs)
  ultimately show ?thesis
    by metis
qed

subsection \<open>Properties\<close>

text \<open>
  C20. Every header that is written into a large enough buffer is read back field by field: the bin
  metadata, the header of a delta file, the run header of a delta file and the export header. The
  later puts of an encoder do not overlap the earlier ones.
\<close>

theorem wire_headers_roundtrip:
  assumes "48 \<le> length buf"
  shows "wire_decode_meta (wire_encode_meta buf m g c) = (m, g, c) \<and>
    wire_decode_delta_hdr (wire_encode_delta_hdr buf dh) = dh \<and>
    wire_decode_delta_entry (wire_encode_delta_entry buf s n) = (s, n) \<and>
    wire_decode_ckpt_export_hdr (wire_encode_ckpt_export_hdr buf ex) = ex"
proof (intro conjI)
  show "wire_decode_meta (wire_encode_meta buf m g c) = (m, g, c)"
    using assms by (simp add: wire_decode_meta_def wire_encode_meta_def wire_simps)
  show "wire_decode_delta_hdr (wire_encode_delta_hdr buf dh) = dh"
    using assms by (simp add: wire_decode_delta_hdr_def wire_encode_delta_hdr_def Let_def wire_simps)
  show "wire_decode_delta_entry (wire_encode_delta_entry buf s n) = (s, n)"
    using assms by (simp add: wire_decode_delta_entry_def wire_encode_delta_entry_def wire_simps)
  show "wire_decode_ckpt_export_hdr (wire_encode_ckpt_export_hdr buf ex) = ex"
    using assms by (simp add: wire_decode_ckpt_export_hdr_def wire_encode_ckpt_export_hdr_def Let_def wire_simps)
qed

theorem wire_headers_roundtrip_witness:
  "wire_decode_meta (wire_encode_meta (replicate 48 0) 1 2 3) = (1, 2, 3)"
  using wire_headers_roundtrip [of "replicate 48 0" 1 2 3] by simp

text \<open>
  C19. The checksum detects every change of a single byte, wherever it is in the data.
\<close>

theorem crc32_detects_byte_change:
  assumes "i < length data" and "b \<noteq> data ! i"
  shows "crc32_simple (data[i := b]) \<noteq> crc32_simple data"
  using crc32_update_change [OF assms] by (simp add: crc32_simple_def)

theorem crc32_detects_byte_change_witness:
  "crc32_simple [1, 7, 3] \<noteq> crc32_simple [1, 2, 3]"
  using crc32_detects_byte_change [of 1 "[1, 2, 3]" 7] by simp

end
