(* ===== verification/Key_BTree.thy ===== *)
theory Key_BTree
  imports Gravel_Prelude
begin

text \<open>
  The key buffer of \<^verbatim>\<open>src/key_btree.h\<close>: a B-tree from entry indices to feature ids whose nodes come
  from a fixed arena. A node of the arena has exactly one parent, so the tree is a datatype; the arrays
  \<^verbatim>\<open>keys\<close> and \<^verbatim>\<open>vals\<close> are one list of pairs whose length is the field \<^verbatim>\<open>n\<close>, and \<^verbatim>\<open>children\<close> is the list of
  the live children. An operation returns \<open>None\<close> where the C code would read an uninitialised key or
  write past the end of a node, which can only happen after the arena has run out.
\<close>

subsection \<open>Data\<close>

definition KBT_ORDER :: nat where
  "KBT_ORDER = 64"

definition KBT_MAX_KEYS :: nat where
  "KBT_MAX_KEYS = 2 * KBT_ORDER - 1"

definition KBT_MIN_KEYS :: nat where
  "KBT_MIN_KEYS = KBT_ORDER - 1"

text \<open>\<^verbatim>\<open>sizeof(KBTNode)\<close> on a 64-bit host.\<close>

definition KBT_NODE_SIZE :: u64 where
  "KBT_NODE_SIZE = 2560"

datatype KBTNode =
  KBTNode (kn_leaf: bool) (kn_kvs: "(u32 \<times> u64) list") (kn_children: "KBTNode list")

abbreviation kn_n :: "KBTNode \<Rightarrow> nat" where
  "kn_n x \<equiv> length (kn_kvs x)"

record KeyBTree =
  kb_root :: "KBTNode option"
  kb_count :: u32
  kb_arena :: bool
  kb_arena_cap :: u32
  kb_arena_used :: u32

subsection \<open>Operations\<close>

definition kbt_init :: "bool \<Rightarrow> u64 \<Rightarrow> KeyBTree" where
  "kbt_init malloc_ok budget_bytes =
     (let budget = (budget_bytes + 4095) AND (NOT 4095);
          cap0 = (ucast (budget div KBT_NODE_SIZE) :: u32);
          cap = (if cap0 < 4 then 4 else cap0)
      in \<lparr>kb_root = None, kb_count = 0, kb_arena = malloc_ok,
          kb_arena_cap = (if malloc_ok then cap else 0), kb_arena_used = 0\<rparr>)"

definition kbt_full :: "KeyBTree \<Rightarrow> bool" where
  "kbt_full t \<longleftrightarrow> kb_arena_cap t - kb_arena_used t < 3"

text \<open>The arena is a counter; a node starts with no keys and no children.\<close>

definition kbt_alloc_node :: "u32 \<Rightarrow> u32 \<Rightarrow> bool \<Rightarrow> (KBTNode \<times> u32) option" where
  "kbt_alloc_node cap used leaf =
     (if used \<ge> cap then None else Some (KBTNode leaf [] [], used + 1))"

definition kbt_destroy :: "KeyBTree \<Rightarrow> KeyBTree" where
  "kbt_destroy t =
     t\<lparr>kb_arena := False, kb_arena_cap := 0, kb_arena_used := 0, kb_root := None, kb_count := 0\<rparr>"

definition kbt_clear :: "KeyBTree \<Rightarrow> KeyBTree" where
  "kbt_clear t = t\<lparr>kb_root := None, kb_count := 0, kb_arena_used := 0\<rparr>"

definition kbt_split_child :: "u32 \<Rightarrow> u32 \<Rightarrow> KBTNode \<Rightarrow> nat \<Rightarrow> KBTNode \<times> u32" where
  "kbt_split_child cap used x i =
     (let y = kn_children x ! i in
      case kbt_alloc_node cap used (kn_leaf y) of
        None \<Rightarrow> (x, used)
      | Some (z0, used') \<Rightarrow>
          let z = KBTNode (kn_leaf z0) (take KBT_MIN_KEYS (drop KBT_ORDER (kn_kvs y)))
                    (if kn_leaf y then kn_children z0
                     else take KBT_ORDER (drop KBT_ORDER (kn_children y)));
              y' = KBTNode (kn_leaf y) (take KBT_MIN_KEYS (kn_kvs y)) (take KBT_ORDER (kn_children y))
          in (KBTNode (kn_leaf x)
                (take i (kn_kvs x) @ kn_kvs y ! KBT_MIN_KEYS # drop i (kn_kvs x))
                (take i (kn_children x) @ y' # z # drop (Suc i) (kn_children x)),
              used'))"

text \<open>The binary search of a node: \<open>Inl\<close> the index of the key, or \<open>Inr\<close> the insertion point.\<close>

definition kbt_search :: "(u32 \<times> u64) list \<Rightarrow> u32 \<Rightarrow> int \<Rightarrow> int \<Rightarrow> nat + nat" where
  "kbt_search kvs k lo hi = bin_search fst kvs k lo hi"

definition kbt_set_val :: "KBTNode \<Rightarrow> nat \<Rightarrow> u64 \<Rightarrow> KBTNode" where
  "kbt_set_val x i v =
     KBTNode (kn_leaf x) ((kn_kvs x)[i := (fst (kn_kvs x ! i), v)]) (kn_children x)"

text \<open>
  The descent. The last argument bounds the recursion depth: a tree of height \<open>h\<close> needs \<open>h + 1\<close> calls.
\<close>

fun kbt_insert_nonfull ::
  "nat \<Rightarrow> u32 \<Rightarrow> u32 \<Rightarrow> KBTNode \<Rightarrow> u32 \<Rightarrow> u64 \<Rightarrow> (bool \<times> KBTNode \<times> u32) option" where
  "kbt_insert_nonfull 0 cap used x k v = None"
| "kbt_insert_nonfull (Suc f) cap used x k v =
     (case kbt_search (kn_kvs x) k 0 (int (kn_n x) - 1) of
        Inl i \<Rightarrow> Some (False, kbt_set_val x i v, used)
      | Inr i \<Rightarrow>
          if kn_leaf x then
            if kn_n x < KBT_MAX_KEYS
            then Some (True, KBTNode True (take i (kn_kvs x) @ (k, v) # drop i (kn_kvs x))
                               (kn_children x), used)
            else None
          else
            let descend = (\<lambda>x used j.
                  case kbt_insert_nonfull f cap used (kn_children x ! j) k v of
                    None \<Rightarrow> None
                  | Some (ins, c, used') \<Rightarrow>
                      Some (ins, KBTNode (kn_leaf x) (kn_kvs x) ((kn_children x)[j := c]), used'))
            in if kn_n (kn_children x ! i) = KBT_MAX_KEYS then
                 (case kbt_split_child cap used x i of
                    (x', used') \<Rightarrow>
                      if i < kn_n x' then
                        let ki = fst (kn_kvs x' ! i) in
                        if ki = k then Some (False, kbt_set_val x' i v, used')
                        else descend x' used' (if ki < k then i + 1 else i)
                      else None)
               else descend x used i)"

fun kbt_height :: "KBTNode \<Rightarrow> nat" where
  "kbt_height (KBTNode leaf kvs []) = 0"
| "kbt_height (KBTNode leaf kvs (c # cs)) = Suc (kbt_height c)"

definition kbt_insert :: "KeyBTree \<Rightarrow> u32 \<Rightarrow> u64 \<Rightarrow> (bool \<times> KeyBTree) option" where
  "kbt_insert t entry_idx feat_id =
     (case kb_root t of
        None \<Rightarrow>
          (case kbt_alloc_node (kb_arena_cap t) (kb_arena_used t) True of
             None \<Rightarrow> Some (False, t)
           | Some (n, used) \<Rightarrow>
               Some (True, t\<lparr>kb_root := Some (KBTNode (kn_leaf n) [(entry_idx, feat_id)] (kn_children n)),
                             kb_count := 1, kb_arena_used := used\<rparr>))
      | Some r \<Rightarrow>
          (let go = (\<lambda>x used.
                 case kbt_insert_nonfull (Suc (kbt_height x)) (kb_arena_cap t) used x entry_idx feat_id of
                   None \<Rightarrow> None
                 | Some (ins, x', used') \<Rightarrow>
                     Some (ins, t\<lparr>kb_root := Some x', kb_arena_used := used',
                                  kb_count := (if ins then kb_count t + 1 else kb_count t)\<rparr>))
           in if kn_n r = KBT_MAX_KEYS then
                (case kbt_alloc_node (kb_arena_cap t) (kb_arena_used t) False of
                   None \<Rightarrow> Some (False, t)
                 | Some (s, used) \<Rightarrow>
                     (case kbt_split_child (kb_arena_cap t) used (KBTNode (kn_leaf s) [] [r]) 0 of
                        (s', used') \<Rightarrow> go s' used'))
              else go r (kb_arena_used t)))"

text \<open>
  In-order traversal. A missing child is a null pointer, for which the traversal does nothing.
\<close>

fun kbt_iterate_node :: "KBTNode \<Rightarrow> (u32 \<times> u64) list"
  and kbt_iterate_children :: "KBTNode list \<Rightarrow> (u32 \<times> u64) list \<Rightarrow> (u32 \<times> u64) list" where
  "kbt_iterate_node (KBTNode leaf kvs cs) = (if leaf then kvs else kbt_iterate_children cs kvs)"
| "kbt_iterate_children [] kvs = kvs"
| "kbt_iterate_children (c # cs) [] = kbt_iterate_node c"
| "kbt_iterate_children (c # cs) (kv # kvs) =
     kbt_iterate_node c @ kv # kbt_iterate_children cs kvs"

definition kbt_iterate :: "KeyBTree \<Rightarrow> (u32 \<times> u64) list" where
  "kbt_iterate t = (case kb_root t of None \<Rightarrow> [] | Some r \<Rightarrow> kbt_iterate_node r)"

text \<open>\<^verbatim>\<open>kbt_collect\<close> writes the same sequence into the caller's array and returns the number of entries.\<close>

fun kbt_collect_node :: "KBTNode \<Rightarrow> (u32 \<times> u64) list \<Rightarrow> nat \<Rightarrow> (u32 \<times> u64) list \<times> nat"
  and kbt_collect_children ::
    "KBTNode list \<Rightarrow> (u32 \<times> u64) list \<Rightarrow> (u32 \<times> u64) list \<Rightarrow> nat \<Rightarrow> (u32 \<times> u64) list \<times> nat" where
  "kbt_collect_node (KBTNode leaf kvs cs) out pos =
     (if leaf then kbt_collect_children [] kvs out pos else kbt_collect_children cs kvs out pos)"
| "kbt_collect_children [] [] out pos = (out, pos)"
| "kbt_collect_children [] (kv # kvs) out pos =
     kbt_collect_children [] kvs (out[pos := kv]) (Suc pos)"
| "kbt_collect_children (c # cs) [] out pos = kbt_collect_node c out pos"
| "kbt_collect_children (c # cs) (kv # kvs) out pos =
     (case kbt_collect_node c out pos of
        (out', pos') \<Rightarrow> kbt_collect_children cs kvs (out'[pos' := kv]) (Suc pos'))"

definition kbt_collect :: "KeyBTree \<Rightarrow> (u32 \<times> u64) list \<Rightarrow> (u32 \<times> u64) list \<times> nat" where
  "kbt_collect t out = (case kb_root t of None \<Rightarrow> (out, 0) | Some r \<Rightarrow> kbt_collect_node r out 0)"

subsection \<open>Specification\<close>

fun kv_upd :: "u32 \<Rightarrow> u64 \<Rightarrow> (u32 \<times> u64) list \<Rightarrow> (u32 \<times> u64) list" where
  "kv_upd k v [] = [(k, v)]"
| "kv_upd k v ((a, b) # xs) =
     (if k < a then (k, v) # (a, b) # xs else if k = a then (a, v) # xs else (a, b) # kv_upd k v xs)"

abbreviation asc :: "(u32 \<times> u64) list \<Rightarrow> bool" where
  "asc xs \<equiv> sorted_wrt (<) (map fst xs)"

text \<open>All leaves at depth \<open>h\<close>, and every node but the root at least half full.\<close>

fun kn_wf :: "nat \<Rightarrow> KBTNode \<Rightarrow> bool" where
  "kn_wf 0 (KBTNode leaf kvs cs) \<longleftrightarrow> leaf \<and> cs = [] \<and> length kvs \<le> KBT_MAX_KEYS"
| "kn_wf (Suc h) (KBTNode leaf kvs cs) \<longleftrightarrow>
     \<not> leaf \<and> length cs = Suc (length kvs) \<and> length kvs \<le> KBT_MAX_KEYS \<and>
     list_all (\<lambda>c. kn_wf h c \<and> KBT_MIN_KEYS \<le> kn_n c) cs"

text \<open>The nodes of a tree; the arena has handed out at least as many.\<close>

fun kbt_nodes :: "KBTNode \<Rightarrow> nat" where
  "kbt_nodes (KBTNode leaf kvs cs) = Suc (sum_list (map kbt_nodes cs))"

lemma kv_upd_map: "asc xs \<Longrightarrow> map_of (kv_upd k v xs) = (map_of xs)(k \<mapsto> v)"
proof (induction xs)
  case (Cons p xs)
  then show ?case
    by (cases p) (auto simp: fun_eq_iff)
qed simp

lemma kv_upd_keys: "set (map fst (kv_upd k v xs)) = insert k (set (map fst xs))"
  by (induction k v xs rule: kv_upd.induct) auto

lemma asc_kv_upd: "asc xs \<Longrightarrow> asc (kv_upd k v xs)"
proof (induction k v xs rule: kv_upd.induct)
  case (2 k v a b xs)
  then show ?case
    using kv_upd_keys [of k v xs] by (auto simp: image_iff)
qed simp

lemma kv_upd_length:
  "asc xs \<Longrightarrow> length (kv_upd k v xs) = (if k \<in> fst ` set xs then length xs else Suc (length xs))"
  by (induction k v xs rule: kv_upd.induct) auto

lemma kv_upd_left:
  "asc (xs @ (a, b) # ys) \<Longrightarrow> k < a \<Longrightarrow> kv_upd k v (xs @ (a, b) # ys) = kv_upd k v xs @ (a, b) # ys"
  by (induction k v xs rule: kv_upd.induct) auto

lemma kv_upd_right:
  "\<forall>p \<in> set xs. fst p < k \<Longrightarrow> kv_upd k v (xs @ ys) = xs @ kv_upd k v ys"
  by (induction k v xs rule: kv_upd.induct) auto

lemma kv_upd_hit:
  "asc (xs @ (k, b) # ys) \<Longrightarrow> kv_upd k v (xs @ (k, b) # ys) = xs @ (k, v) # ys"
  by (induction k v xs rule: kv_upd.induct) auto

subsection \<open>Search in a node\<close>

lemma kbt_search_node:
  assumes "asc kvs"
  shows "case kbt_search kvs k 0 (int (length kvs) - 1) of
      Inl i \<Rightarrow> i < length kvs \<and> fst (kvs ! i) = k
    | Inr i \<Rightarrow> i \<le> length kvs \<and> (\<forall>p \<in> set (take i kvs). fst p < k) \<and> (\<forall>p \<in> set (drop i kvs). k < fst p)"
  unfolding kbt_search_def using assms by (intro bin_search_spec) auto

subsection \<open>Decomposing the traversal\<close>

definition mixed :: "KBTNode list \<Rightarrow> (u32 \<times> u64) list \<Rightarrow> (u32 \<times> u64) list" where
  "mixed cs kvs = concat (map (\<lambda>(c, kv). kbt_iterate_node c @ [kv]) (zip cs kvs))"

lemma children_append:
  "length C = length A \<Longrightarrow> D \<noteq> [] \<Longrightarrow>
   kbt_iterate_children (C @ D) (A @ B) = mixed C A @ kbt_iterate_children D B"
  by (induction C A rule: list_induct2) (simp_all add: mixed_def)

lemma children_head:
  "kbt_iterate_children (c # D) B =
     kbt_iterate_node c @ (case B of [] \<Rightarrow> [] | kv # B' \<Rightarrow> kv # kbt_iterate_children D B')"
  by (cases B) simp_all

lemma mixed_snoc: "length C = length A \<Longrightarrow> mixed (C @ [c]) (A @ [kv]) = mixed C A @ kbt_iterate_node c @ [kv]"
  by (simp add: mixed_def)

lemma kvs_subset_children: "set kvs \<subseteq> set (kbt_iterate_children cs kvs)"
  by (induction cs kvs rule: list_induct2') auto

lemma asc_kvs_children: "asc (kbt_iterate_children cs kvs) \<Longrightarrow> asc kvs"
proof (induction kvs arbitrary: cs)
  case (Cons kv kvs)
  show ?case
  proof (cases cs)
    case Nil
    then show ?thesis
      using Cons.prems by simp
  next
    case c: (Cons c D)
    have "asc (kbt_iterate_children D kvs)" and "\<forall>p \<in> set (kbt_iterate_children D kvs). fst kv < fst p"
      using Cons.prems c by (auto simp: sorted_wrt_append)
    then show ?thesis
      using Cons.IH [of D] kvs_subset_children [of kvs D] by auto
  qed
qed simp

lemma mixed_below:
  assumes "asc (mixed C A @ zs)" and "length C = length A" and "\<forall>p \<in> set A. fst p < k"
  shows "\<forall>p \<in> set (mixed C A). fst p < k"
proof (cases A rule: rev_cases)
  case Nil
  then show ?thesis
    by (simp add: mixed_def)
next
  case (snoc A' kv)
  then obtain C' c where C: "C = C' @ [c]" "length C' = length A'"
    using assms(2) by (cases C rule: rev_cases) auto
  have "fst kv < k"
    using assms(3) snoc by simp
  then show ?thesis
    using assms(1) C snoc by (auto simp: mixed_snoc sorted_wrt_append dest: order.strict_trans)
qed

lemma children_upd:
  assumes asc: "asc (kbt_iterate_children (C @ c # D) (A @ B))" and len: "length C = length A"
    and lt: "\<forall>p \<in> set A. fst p < k" and gt: "\<forall>p \<in> set B. k < fst p"
    and c': "kbt_iterate_node c' = kv_upd k v (kbt_iterate_node c)"
  shows "kbt_iterate_children (C @ c' # D) (A @ B) = kv_upd k v (kbt_iterate_children (C @ c # D) (A @ B))"
    and "k \<in> fst ` set (kbt_iterate_children (C @ c # D) (A @ B)) \<longleftrightarrow> k \<in> fst ` set (kbt_iterate_node c)"
proof -
  define T where "T = (case B of [] \<Rightarrow> [] | kv # B' \<Rightarrow> kv # kbt_iterate_children D B')"
  have eq: "kbt_iterate_children (C @ x # D) (A @ B) = mixed C A @ kbt_iterate_node x @ T" for x
    using children_append [OF len, of "x # D" B] by (simp add: children_head T_def)
  have below: "\<forall>p \<in> set (mixed C A). fst p < k"
    using mixed_below [OF _ len lt, of "kbt_iterate_node c @ T"] asc unfolding eq by simp
  have above: "\<forall>p \<in> set T. k < fst p"
  proof (cases B)
    case (Cons kv B')
    have "asc T"
      using asc unfolding eq by (simp add: sorted_wrt_append)
    then show ?thesis
      using Cons gt unfolding T_def by (auto dest: order.strict_trans)
  qed (simp add: T_def)
  have "kv_upd k v (kbt_iterate_node c @ T) = kv_upd k v (kbt_iterate_node c) @ T"
  proof (cases T)
    case (Cons p T')
    then show ?thesis
      using asc above kv_upd_left [of "kbt_iterate_node c" "fst p" "snd p" T' k v] unfolding eq
      by (simp add: sorted_wrt_append)
  qed simp
  then show "kbt_iterate_children (C @ c' # D) (A @ B) = kv_upd k v (kbt_iterate_children (C @ c # D) (A @ B))"
    unfolding eq c' using kv_upd_right [OF below] by simp
  show "k \<in> fst ` set (kbt_iterate_children (C @ c # D) (A @ B)) \<longleftrightarrow> k \<in> fst ` set (kbt_iterate_node c)"
    unfolding eq using below above by auto
qed

lemma children_at_key:
  assumes "length C = Suc (length A)"
  shows "kbt_iterate_children (C @ D) (A @ kv # B) =
    kbt_iterate_children C A @ kv # kbt_iterate_children D B"
proof -
  obtain C0 c where C: "C = C0 @ [c]" "length C0 = length A"
    using assms by (cases C rule: rev_cases) auto
  show ?thesis
    using children_append [OF C(2), of "c # D" "kv # B"] children_append [OF C(2), of "[c]" "[]"] C(1)
    by simp
qed

subsection \<open>Splitting a full child\<close>

lemmas kbt_consts = KBT_MAX_KEYS_def KBT_MIN_KEYS_def KBT_ORDER_def

definition split_left :: "KBTNode \<Rightarrow> KBTNode" where
  "split_left y = KBTNode (kn_leaf y) (take KBT_MIN_KEYS (kn_kvs y)) (take KBT_ORDER (kn_children y))"

definition split_right :: "KBTNode \<Rightarrow> KBTNode" where
  "split_right y = KBTNode (kn_leaf y) (take KBT_MIN_KEYS (drop KBT_ORDER (kn_kvs y)))
     (if kn_leaf y then [] else take KBT_ORDER (drop KBT_ORDER (kn_children y)))"

lemma kbt_split_child_eq:
  assumes "used < cap" and "length C = length A"
  shows "kbt_split_child cap used (KBTNode lf (A @ B) (C @ y # D)) (length A) =
    (KBTNode lf (A @ kn_kvs y ! KBT_MIN_KEYS # B) (C @ split_left y # split_right y # D), used + 1)"
proof -
  have "(C @ y # D) ! length A = y" "take (length A) (C @ y # D) = C" "drop (Suc (length A)) (C @ y # D) = D"
    using assms(2) by (simp_all add: nth_append)
  then show ?thesis
    using assms(1) by (simp add: kbt_split_child_def kbt_alloc_node_def split_left_def split_right_def
        Let_def flip: linorder_not_le)
qed

lemma split_wf:
  assumes "kn_wf h y" and "kn_n y = KBT_MAX_KEYS"
  shows "kn_wf h (split_left y)" and "kn_wf h (split_right y)"
    and "kn_n (split_left y) = KBT_MIN_KEYS" and "kn_n (split_right y) = KBT_MIN_KEYS"
  using assms
  by (cases y; cases h; auto simp: split_left_def split_right_def kbt_consts list_all_iff
        dest: in_set_takeD in_set_dropD)+

lemma split_iterate:
  assumes "kn_wf h y" and "kn_n y = KBT_MAX_KEYS"
  shows "kbt_iterate_node y =
    kbt_iterate_node (split_left y) @ kn_kvs y ! KBT_MIN_KEYS # kbt_iterate_node (split_right y)"
proof (cases y)
  case (KBTNode lf kvs cs)
  have len: "length kvs = 127"
    using assms(2) KBTNode by (simp add: kbt_consts)
  have "kvs = take 63 kvs @ kvs ! 63 # drop (Suc 63) kvs"
    using len by (intro id_take_nth_drop) simp
  then have kvs: "kvs = take 63 kvs @ kvs ! 63 # drop 64 kvs"
    by simp
  have all: "take 63 (drop 64 kvs) = drop 64 kvs"
    using len by simp
  show ?thesis
  proof (cases lf)
    case True
    then show ?thesis
      using kvs all KBTNode by (simp add: split_left_def split_right_def kbt_consts)
  next
    case False
    then have cs: "length cs = 128"
      using assms(1) KBTNode len by (cases h) auto
    have "take 64 (drop 64 cs) = drop 64 cs"
      using cs by simp
    moreover have "kbt_iterate_children (take 64 cs @ drop 64 cs) (take 63 kvs @ kvs ! 63 # drop 64 kvs) =
        kbt_iterate_children (take 64 cs) (take 63 kvs) @ kvs ! 63 #
        kbt_iterate_children (drop 64 cs) (drop 64 kvs)"
      using cs len by (intro children_at_key) simp
    ultimately show ?thesis
      using False kvs all KBTNode by (simp add: split_left_def split_right_def kbt_consts)
  qed
qed

lemma split_nodes:
  assumes "kn_wf h y" and "kn_n y = KBT_MAX_KEYS"
  shows "kbt_nodes (split_left y) + kbt_nodes (split_right y) = Suc (kbt_nodes y)"
proof (cases y)
  case (KBTNode lf kvs cs)
  have "length cs = 128 \<or> lf \<and> cs = []"
    using assms KBTNode by (cases h) (auto simp: kbt_consts)
  moreover have "sum_list (map kbt_nodes (take 64 cs)) + sum_list (map kbt_nodes (drop 64 cs)) =
      sum_list (map kbt_nodes cs)"
    by (metis append_take_drop_id map_append sum_list_append)
  moreover have "\<not> lf" if "length cs = 128"
    using assms KBTNode that by (cases h) auto
  ultimately show ?thesis
    using KBTNode by (auto simp: split_left_def split_right_def kbt_consts)
qed

lemma split_children_iterate:
  assumes "kbt_iterate_node y = kbt_iterate_node yl @ m # kbt_iterate_node yr" and "length C = length A"
  shows "kbt_iterate_children (C @ yl # yr # D) (A @ m # B) = kbt_iterate_children (C @ y # D) (A @ B)"
  using children_append [OF assms(2), of "yl # yr # D" "m # B"] children_append [OF assms(2), of "y # D" B]
    assms(1) by (simp add: children_head split: list.splits)

subsection \<open>Insertion\<close>

lemma set_val_leaf:
  assumes "asc kvs" and "i < length kvs" and "fst (kvs ! i) = k"
  shows "kvs[i := (fst (kvs ! i), v)] = kv_upd k v kvs"
proof -
  have "kvs = take i kvs @ (k, snd (kvs ! i)) # drop (Suc i) kvs"
    using assms(2,3) id_take_nth_drop by fastforce
  then show ?thesis
    using assms kv_upd_hit [of "take i kvs" k "snd (kvs ! i)" "drop (Suc i) kvs" v]
    by (simp add: upd_conv_take_nth_drop)
qed

lemma set_val_children:
  assumes asc: "asc (kbt_iterate_children cs kvs)" and i: "i < length kvs" "fst (kvs ! i) = k"
    and len: "length cs = Suc (length kvs)"
  shows "kbt_iterate_children cs (kvs[i := (fst (kvs ! i), v)]) = kv_upd k v (kbt_iterate_children cs kvs)"
    and "k \<in> fst ` set (kbt_iterate_children cs kvs)"
proof -
  let ?A = "take i kvs" and ?B = "drop (Suc i) kvs" and ?C = "take (Suc i) cs" and ?D = "drop (Suc i) cs"
  have kvs: "kvs = ?A @ (k, snd (kvs ! i)) # ?B"
    using i id_take_nth_drop by fastforce
  have upd: "kvs[i := (fst (kvs ! i), v)] = ?A @ (k, v) # ?B"
    using i by (simp add: upd_conv_take_nth_drop)
  have at: "kbt_iterate_children cs (?A @ (k, w) # ?B) =
      kbt_iterate_children ?C ?A @ (k, w) # kbt_iterate_children ?D ?B" for w
    using children_at_key [of ?C ?A ?D "(k, w)" ?B] len i(1) by simp
  have "kbt_iterate_children cs kvs =
      kbt_iterate_children ?C ?A @ (k, snd (kvs ! i)) # kbt_iterate_children ?D ?B"
    using at kvs by metis
  then show "kbt_iterate_children cs (kvs[i := (fst (kvs ! i), v)]) = kv_upd k v (kbt_iterate_children cs kvs)"
    and "k \<in> fst ` set (kbt_iterate_children cs kvs)"
    unfolding upd at using asc kv_upd_hit by auto
qed

lemma leaf_insert:
  assumes "\<forall>p \<in> set (take i kvs). fst p < k" and "\<forall>p \<in> set (drop i kvs). k < fst p"
  shows "take i kvs @ (k, v) # drop i kvs = kv_upd k v kvs"
proof -
  have "kv_upd k v (take i kvs @ drop i kvs) = take i kvs @ kv_upd k v (drop i kvs)"
    by (rule kv_upd_right [OF assms(1)])
  moreover have "kv_upd k v (drop i kvs) = (k, v) # drop i kvs"
    using assms(2) by (cases "drop i kvs") auto
  ultimately show ?thesis
    by simp
qed

lemma not_key_between:
  fixes kvs :: "(u32 \<times> u64) list"
  assumes "\<forall>p \<in> set (take i kvs). fst p < k" and "\<forall>p \<in> set (drop i kvs). k < fst p"
  shows "k \<notin> fst ` set kvs"
proof
  assume "k \<in> fst ` set kvs"
  then obtain p where "p \<in> set (take i kvs @ drop i kvs)" "fst p = k"
    by auto
  then show False
    using assms by (metis UnE order_less_irrefl set_append)
qed

text \<open>
  Descent with enough room in the arena: one node per level at most. The tree stays balanced, its
  traversal is the sorted list with the pair put in, and the result tells whether the key is new.
\<close>

definition insert_ok ::
  "nat \<Rightarrow> nat \<Rightarrow> u32 \<Rightarrow> KBTNode \<Rightarrow> u32 \<Rightarrow> u64 \<Rightarrow> (bool \<times> KBTNode \<times> u32) option \<Rightarrow> bool" where
  "insert_ok h d used x k v r \<longleftrightarrow>
     (\<exists>ins x' used'. r = Some (ins, x', used') \<and> kn_wf h x' \<and> kn_n x \<le> kn_n x' \<and>
        kbt_iterate_node x' = kv_upd k v (kbt_iterate_node x) \<and>
        (ins \<longleftrightarrow> k \<notin> fst ` set (kbt_iterate_node x)) \<and> unat used' \<le> unat used + d \<and>
        kbt_nodes x' + unat used \<le> kbt_nodes x + unat used')"

lemma insert_okI:
  assumes "r = Some (ins, x', used')" and "kn_wf h x'" and "kn_n x \<le> kn_n x'"
    and "kbt_iterate_node x' = kv_upd k v (kbt_iterate_node x)"
    and "ins \<longleftrightarrow> k \<notin> fst ` set (kbt_iterate_node x)" and "unat used' \<le> unat used + d"
    and "kbt_nodes x' + unat used \<le> kbt_nodes x + unat used'"
  shows "insert_ok h d used x k v r"
  using assms unfolding insert_ok_def by blast

lemma insert_okE:
  assumes "insert_ok h d used x k v r"
  obtains ins x' used' where "r = Some (ins, x', used')" and "kn_wf h x'" and "kn_n x \<le> kn_n x'"
    and "kbt_iterate_node x' = kv_upd k v (kbt_iterate_node x)"
    and "ins \<longleftrightarrow> k \<notin> fst ` set (kbt_iterate_node x)" and "unat used' \<le> unat used + d"
    and "kbt_nodes x' + unat used \<le> kbt_nodes x + unat used'"
  using assms unfolding insert_ok_def by blast

lemma insert_leaf:
  assumes wf: "kn_wf 0 x" and n: "kn_n x < KBT_MAX_KEYS" and asc: "asc (kbt_iterate_node x)"
  shows "insert_ok 0 0 used x k v (kbt_insert_nonfull (Suc 0) cap used x k v)"
proof -
  obtain kvs where x: "x = KBTNode True kvs []"
    using wf by (cases x) auto
  have a: "asc kvs"
    using asc x by simp
  show ?thesis
  proof (cases "kbt_search kvs k 0 (int (length kvs) - 1)")
    case (Inl i)
    then have i: "i < length kvs" "fst (kvs ! i) = k"
      using kbt_search_node [OF a, of k] by auto
    then have "k \<in> fst ` set kvs"
      by (metis image_eqI nth_mem)
    then show ?thesis
      using Inl x n set_val_leaf [OF a i, of v] kv_upd_length [OF a, of k v]
      by (intro insert_okI) (auto simp: kbt_set_val_def)
  next
    case (Inr i)
    then have i: "\<forall>p \<in> set (take i kvs). fst p < k" "\<forall>p \<in> set (drop i kvs). k < fst p"
      using kbt_search_node [OF a, of k] by auto
    have new: "k \<notin> fst ` set kvs"
      by (rule not_key_between [OF i])
    have "kbt_insert_nonfull (Suc 0) cap used x k v = Some (True, KBTNode True (kv_upd k v kvs) [], used)"
      using Inr x n leaf_insert [OF i, of v] by simp
    then show ?thesis
      using x n new kv_upd_length [OF a, of k v] by (intro insert_okI) (auto simp del: kbt_insert_nonfull.simps)
  qed
qed

lemma descend_ok:
  assumes x: "x = KBTNode False (A @ B) (C @ c # D)" and len: "length C = length A"
    and wf: "kn_wf (Suc h) x" and asc: "asc (kbt_iterate_node x)"
    and lt: "\<forall>p \<in> set A. fst p < k" and gt: "\<forall>p \<in> set B. k < fst p"
    and r: "insert_ok h d used c k v r"
  shows "insert_ok (Suc h) d used x k v
    (case r of None \<Rightarrow> None
     | Some (ins, c', used') \<Rightarrow> Some (ins, KBTNode False (A @ B) ((C @ c # D)[length A := c']), used'))"
proof -
  obtain ins c' used' where c': "r = Some (ins, c', used')" "kn_wf h c'" "kn_n c \<le> kn_n c'"
      "kbt_iterate_node c' = kv_upd k v (kbt_iterate_node c)"
      "ins \<longleftrightarrow> k \<notin> fst ` set (kbt_iterate_node c)" "unat used' \<le> unat used + d"
      "kbt_nodes c' + unat used \<le> kbt_nodes c + unat used'"
    using r by (rule insert_okE)
  have upd: "(C @ c # D)[length A := c'] = C @ c' # D"
    using len by (simp add: list_update_append)
  have wf': "kn_wf (Suc h) (KBTNode False (A @ B) (C @ c' # D))"
    using wf x c'(2,3) by auto
  have "asc (kbt_iterate_children (C @ c # D) (A @ B))"
    using asc x by simp
  note up = children_upd [OF this len lt gt c'(4)]
  show ?thesis
    using wf' up c'(5-7) x by (intro insert_okI [of _ ins "KBTNode False (A @ B) (C @ c' # D)" used'])
      (simp_all add: c'(1) upd)
qed

lemma asc_child:
  assumes "asc (kbt_iterate_children (C @ c # D) (A @ B))" and "length C = length A"
  shows "asc (kbt_iterate_node c)"
  using assms children_append [of C A "c # D" B] by (simp add: children_head sorted_wrt_append)

lemma kn_wf_max: "kn_wf h x \<Longrightarrow> kn_n x \<le> KBT_MAX_KEYS"
  by (cases x; cases h) auto

lemma kn_wf_internal:
  assumes "kn_wf (Suc h) x"
  obtains kvs cs where "x = KBTNode False kvs cs" and "length cs = Suc (length kvs)"
  using assms by (cases x) auto

text \<open>The step from a node into the child that \<open>lo\<close> selects, after the child was split if it was full.\<close>

lemma nonfull_step:
  fixes f :: nat and cap :: u32 and v :: u64
  assumes x: "x = KBTNode False (A @ B) (C @ y # D)" and len: "length C = length A"
    and s: "kbt_search (A @ B) k 0 (int (length (A @ B)) - 1) = Inr (length A)"
  defines "descend \<equiv> \<lambda>x used j. case kbt_insert_nonfull f cap used (kn_children x ! j) k v of
      None \<Rightarrow> None
    | Some (ins, c, used') \<Rightarrow>
        Some (ins, KBTNode (kn_leaf x) (kn_kvs x) ((kn_children x)[j := c]), used')"
  shows "kn_n y < KBT_MAX_KEYS \<Longrightarrow> kbt_insert_nonfull (Suc f) cap used x k v = descend x used (length A)"
    and "kn_n y = KBT_MAX_KEYS \<Longrightarrow> used < cap \<Longrightarrow>
      kbt_insert_nonfull (Suc f) cap used x k v =
        (let m = kn_kvs y ! KBT_MIN_KEYS;
             x' = KBTNode False (A @ m # B) (C @ split_left y # split_right y # D)
         in if fst m = k then Some (False, kbt_set_val x' (length A) v, used + 1)
            else descend x' (used + 1) (if fst m < k then length A + 1 else length A))"
proof -
  have y: "(C @ y # D) ! length A = y"
    using len by (simp add: nth_append)
  show "kn_n y < KBT_MAX_KEYS \<Longrightarrow> kbt_insert_nonfull (Suc f) cap used x k v = descend x used (length A)"
    using x s y by (simp add: descend_def Let_def)
  show "kbt_insert_nonfull (Suc f) cap used x k v =
        (let m = kn_kvs y ! KBT_MIN_KEYS;
             x' = KBTNode False (A @ m # B) (C @ split_left y # split_right y # D)
         in if fst m = k then Some (False, kbt_set_val x' (length A) v, used + 1)
            else descend x' (used + 1) (if fst m < k then length A + 1 else length A))"
    if full: "kn_n y = KBT_MAX_KEYS" and room: "used < cap"
    using x s y full kbt_split_child_eq [OF room len, of False B y D]
    by (simp add: descend_def Let_def)
qed


declare kbt_insert_nonfull.simps(2) [simp del]

lemma split_step_ok:
  assumes x: "x = KBTNode False (A @ B) (C @ y # D)" and len: "length C = length A"
    and wf: "kn_wf (Suc h) x" and n: "kn_n x < KBT_MAX_KEYS" and full: "kn_n y = KBT_MAX_KEYS"
  defines "x' \<equiv> KBTNode False (A @ kn_kvs y ! KBT_MIN_KEYS # B) (C @ split_left y # split_right y # D)"
  shows "kn_wf (Suc h) x'" and "kbt_iterate_node x' = kbt_iterate_node x" and "kn_n x' = Suc (kn_n x)"
    and "kbt_nodes x' = Suc (kbt_nodes x)"
proof -
  have y: "kn_wf h y"
    using wf x by auto
  note sp = split_wf [OF y full]
  show "kn_wf (Suc h) x'"
    using wf x n sp by (auto simp: x'_def)
  show "kbt_iterate_node x' = kbt_iterate_node x"
    using split_children_iterate [OF split_iterate [OF y full] len] x by (simp add: x'_def)
  show "kn_n x' = Suc (kn_n x)" and "kbt_nodes x' = Suc (kbt_nodes x)"
    using x split_nodes [OF y full] by (simp_all add: x'_def)
qed

lemma insert_ok_mono:
  assumes "insert_ok h d used1 x' k v r" and "kbt_iterate_node x' = kbt_iterate_node x"
    and "kn_n x \<le> kn_n x'" and "unat used1 + d \<le> unat used + d'"
    and "kbt_nodes x' + unat used \<le> kbt_nodes x + unat used1"
  shows "insert_ok h d' used x k v r"
proof -
  obtain ins z u where z: "r = Some (ins, z, u)" "kn_wf h z" "kn_n x' \<le> kn_n z"
      "kbt_iterate_node z = kv_upd k v (kbt_iterate_node x')"
      "ins \<longleftrightarrow> k \<notin> fst ` set (kbt_iterate_node x')" "unat u \<le> unat used1 + d"
      "kbt_nodes z + unat used1 \<le> kbt_nodes x' + unat u"
    using assms(1) by (rule insert_okE)
  then show ?thesis
    using assms(2-) by (intro insert_okI [OF z(1,2)]) auto
qed

lemma split_insert_ok:
  assumes x: "x = KBTNode False (A @ B) (C @ y # D)" and len: "length C = length A"
    and wf: "kn_wf (Suc h) x" and n: "kn_n x < KBT_MAX_KEYS" and asc: "asc (kbt_iterate_node x)"
    and full: "kn_n y = KBT_MAX_KEYS" and room: "unat used + Suc h \<le> unat cap"
    and s: "kbt_search (A @ B) k 0 (int (length (A @ B)) - 1) = Inr (length A)"
    and AB: "\<forall>p \<in> set A. fst p < k" "\<forall>p \<in> set B. k < fst p"
    and IH: "\<And>c. kn_wf h c \<Longrightarrow> kn_n c < KBT_MAX_KEYS \<Longrightarrow> asc (kbt_iterate_node c) \<Longrightarrow>
      insert_ok h h (used + 1) c k v (kbt_insert_nonfull (Suc h) cap (used + 1) c k v)"
  shows "insert_ok (Suc h) (Suc h) used x k v (kbt_insert_nonfull (Suc (Suc h)) cap used x k v)"
proof -
  define m where "m = kn_kvs y ! KBT_MIN_KEYS"
  define x' where "x' = KBTNode False (A @ m # B) (C @ split_left y # split_right y # D)"
  note sx = split_step_ok [OF x len wf n full, folded m_def, folded x'_def]
  have y: "kn_wf h y"
    using wf x by auto
  note sp = split_wf [OF y full]
  have "used < cap"
    using room by (simp add: word_less_nat_alt)
  then have used: "unat (used + 1) = Suc (unat used)"
    by (rule unat_succ_less)
  have run: "kbt_insert_nonfull (Suc (Suc h)) cap used x k v =
      (if fst m = k then Some (False, kbt_set_val x' (length A) v, used + 1)
       else let j = (if fst m < k then length A + 1 else length A) in
         case kbt_insert_nonfull (Suc h) cap (used + 1) (kn_children x' ! j) k v of
           None \<Rightarrow> None
         | Some (ins, c, used') \<Rightarrow>
             Some (ins, KBTNode (kn_leaf x') (kn_kvs x') ((kn_children x')[j := c]), used'))"
    unfolding x'_def m_def Let_def
    by (rule nonfull_step(2) [OF x len s full \<open>used < cap\<close>, unfolded Let_def])
  have asc': "asc (kbt_iterate_children (C @ split_left y # split_right y # D) (A @ m # B))"
    using asc sx(2) by (simp add: x'_def)
  have lt63: "KBT_MIN_KEYS < KBT_MAX_KEYS"
    by (simp add: kbt_consts)
  have "insert_ok (Suc h) h (used + 1) x' k v (kbt_insert_nonfull (Suc (Suc h)) cap used x k v)"
  proof -
    consider "fst m = k" | "fst m < k" | "k < fst m"
      by fastforce
    then show ?thesis
    proof cases
      case 1
      have len': "length (C @ split_left y # split_right y # D) = Suc (length (A @ m # B))"
        using sx(1) by (simp add: x'_def)
      have at: "(A @ m # B) ! length A = m"
        by simp
      note sv = set_val_children [OF asc' _ _ len', of "length A" k, unfolded at]
      show ?thesis
        using 1 run sv(1) [of v] sv(2) sx(1)
        by (intro insert_okI [of _ False "kbt_set_val x' (length A) v" "used + 1"])
          (auto simp: x'_def kbt_set_val_def)
    next
      case 2
      have c: "asc (kbt_iterate_node (split_right y))"
        using asc_child [of "C @ [split_left y]" "split_right y" D "A @ [m]" B] asc' len by simp
      have "\<forall>p \<in> set (A @ [m]). fst p < k"
        using AB(1) 2 by simp
      note d = descend_ok [OF _ _ sx(1) _ this AB(2) IH [OF sp(2) _ c], of "C @ [split_left y]" D]
      have "kbt_insert_nonfull (Suc (Suc h)) cap used x k v =
          (case kbt_insert_nonfull (Suc h) cap (used + 1) (split_right y) k v of
             None \<Rightarrow> None
           | Some (ins, c, used') \<Rightarrow>
               Some (ins, KBTNode False ((A @ [m]) @ B)
                 (((C @ [split_left y]) @ split_right y # D)[length (A @ [m]) := c]), used'))"
        using 2 len unfolding run
        by (simp add: x'_def nth_append Let_def less_imp_neq cong: option.case_cong)
      then show ?thesis
        using d len asc sx(2) sp(4) lt63 by (simp add: x'_def)
    next
      case 3
      have c: "asc (kbt_iterate_node (split_left y))"
        using asc_child [of C "split_left y" "split_right y # D" A "m # B"] asc' len by simp
      have "\<forall>p \<in> set (m # B). k < fst p"
        using AB(2) 3 by simp
      note d = descend_ok [OF _ len sx(1) _ AB(1) this IH [OF sp(1) _ c], of "split_right y # D"]
      have "\<not> fst m < k" "fst m \<noteq> k"
        using 3 by auto
      then have "kbt_insert_nonfull (Suc (Suc h)) cap used x k v =
          (case kbt_insert_nonfull (Suc h) cap (used + 1) (split_left y) k v of
             None \<Rightarrow> None
           | Some (ins, c, used') \<Rightarrow>
               Some (ins, KBTNode False (A @ m # B)
                 ((C @ split_left y # split_right y # D)[length A := c]), used'))"
        using len unfolding run by (simp add: x'_def nth_append Let_def cong: option.case_cong)
      then show ?thesis
        using d len asc sx(2) sp(3) lt63 by (simp add: x'_def)
    qed
  qed
  then show ?thesis
    using insert_ok_mono [OF _ sx(2)] sx(3,4) used by simp
qed

lemma kbt_insert_nonfull_ok:
  assumes "kn_wf h x" and "kn_n x < KBT_MAX_KEYS" and "asc (kbt_iterate_node x)"
    and "unat used + h \<le> unat cap"
  shows "insert_ok h h used x k v (kbt_insert_nonfull (Suc h) cap used x k v)"
  using assms
proof (induction h arbitrary: x used)
  case 0
  then show ?case
    using insert_leaf [of x used k v cap] by simp
next
  case (Suc h)
  obtain kvs cs where x: "x = KBTNode False kvs cs" and len: "length cs = Suc (length kvs)"
    using Suc.prems(1) by (rule kn_wf_internal)
  have ac: "asc (kbt_iterate_children cs kvs)"
    using Suc.prems(3) x by simp
  note a = asc_kvs_children [OF ac]
  show ?case
  proof (cases "kbt_search kvs k 0 (int (length kvs) - 1)")
    case (Inl i)
    then have i: "i < length kvs" "fst (kvs ! i) = k"
      using kbt_search_node [OF a, of k] by auto
    show ?thesis
      using Inl x Suc.prems(1) set_val_children [OF ac i len]
      by (intro insert_okI [of _ False "kbt_set_val x i v" used])
        (auto simp: kbt_set_val_def kbt_insert_nonfull.simps(2))
  next
    case (Inr i)
    then have i: "i \<le> length kvs" "\<forall>p \<in> set (take i kvs). fst p < k" "\<forall>p \<in> set (drop i kvs). k < fst p"
      using kbt_search_node [OF a, of k] by auto
    define A B C D y where "A = take i kvs" and "B = drop i kvs" and "C = take i cs"
      and "D = drop (Suc i) cs" and "y = cs ! i"
    have kvs: "kvs = A @ B" and lA: "length A = i"
      using i(1) by (simp_all add: A_def B_def)
    have cs: "cs = C @ y # D" and lC: "length C = length A"
      using i(1) len lA by (simp_all add: C_def D_def y_def id_take_nth_drop)
    have x': "x = KBTNode False (A @ B) (C @ y # D)"
      using x kvs cs by simp
    have s: "kbt_search (A @ B) k 0 (int (length (A @ B)) - 1) = Inr (length A)"
      using Inr kvs lA by simp
    have AB: "\<forall>p \<in> set A. fst p < k" "\<forall>p \<in> set B. k < fst p"
      using i by (auto simp: A_def B_def)
    have y: "kn_wf h y"
      using Suc.prems(1) x' by auto
    show ?thesis
    proof (cases "kn_n y = KBT_MAX_KEYS")
      case True
      have "unat (used + 1) + h \<le> unat cap"
        using Suc.prems(4) unat_succ_less [of used cap] by (simp add: word_less_nat_alt)
      then show ?thesis
        using split_insert_ok [OF x' lC Suc.prems(1-3) True Suc.prems(4) s AB] Suc.IH by blast
    next
      case False
      then have n: "kn_n y < KBT_MAX_KEYS"
        using kn_wf_max [OF y] by simp
      have "asc (kbt_iterate_node y)"
        using asc_child [of C y D A B] ac lC kvs cs by simp
      then have "insert_ok h h used y k v (kbt_insert_nonfull (Suc h) cap used y k v)"
        using Suc.prems(4) by (intro Suc.IH [OF y n]) auto
      then have "insert_ok h (Suc h) used y k v (kbt_insert_nonfull (Suc h) cap used y k v)"
        by (rule insert_ok_mono) auto
      from descend_ok [OF x' lC Suc.prems(1,3) AB this] show ?thesis
        using nonfull_step(1) [OF x' lC s n, where f = "Suc h" and cap = cap and v = v and used = used] x' lC
        by (simp add: nth_append cong: option.case_cong)
    qed
  qed
qed

subsection \<open>The buffer\<close>

text \<open>
  The invariant of the buffer. The height is bounded by what the arena holds: a full root above two
  more levels already needs 8321 nodes.
\<close>

definition kbt_inv :: "KeyBTree \<Rightarrow> bool" where
  "kbt_inv t \<longleftrightarrow> kb_arena_used t \<le> kb_arena_cap t \<and>
     (case kb_root t of
        None \<Rightarrow> kb_count t = 0
      | Some r \<Rightarrow> kn_wf (kbt_height r) r \<and> 0 < kn_n r \<and> asc (kbt_iterate_node r) \<and>
          unat (kb_count t) = length (kbt_iterate_node r) \<and>
          kbt_nodes r \<le> unat (kb_arena_used t))"

lemma kn_wf_height: "kn_wf h x \<Longrightarrow> kbt_height x = h"
proof (induction h arbitrary: x)
  case 0
  then show ?case
    by (cases x) auto
next
  case (Suc h)
  obtain kvs cs where x: "x = KBTNode False kvs cs" "length cs = Suc (length kvs)"
    using Suc.prems by (rule kn_wf_internal)
  then obtain c cs' where "cs = c # cs'"
    by (cases cs) auto
  then show ?case
    using Suc x by auto
qed

fun min_nodes :: "nat \<Rightarrow> nat" where
  "min_nodes 0 = 1"
| "min_nodes (Suc h) = 1 + 64 * min_nodes h"

lemma min_nodes_mono: "h \<le> h' \<Longrightarrow> min_nodes h \<le> min_nodes h'"
  by (induction h' rule: nat_induct) (auto simp: le_Suc_eq)

lemma sum_list_const_le: "(\<And>x. x \<in> set xs \<Longrightarrow> b \<le> f x) \<Longrightarrow> length xs * b \<le> sum_list (map f xs)"
  by (induction xs) (auto simp: add_mono)

lemma kbt_nodes_min:
  "kn_wf h x \<Longrightarrow> KBT_MIN_KEYS \<le> kn_n x \<Longrightarrow> min_nodes h \<le> kbt_nodes x"
proof (induction h arbitrary: x)
  case 0
  then show ?case
    by (cases x) auto
next
  case (Suc h)
  obtain kvs cs where x: "x = KBTNode False kvs cs" "length cs = Suc (length kvs)"
    using Suc.prems(1) by (rule kn_wf_internal)
  have "length cs * min_nodes h \<le> sum_list (map kbt_nodes cs)"
    using Suc x by (intro sum_list_const_le) (auto simp: list_all_iff)
  moreover have "64 * min_nodes h \<le> length cs * min_nodes h"
    using Suc.prems(2) x by (intro mult_le_mono1) (simp add: kbt_consts)
  ultimately have "64 * min_nodes h \<le> sum_list (map kbt_nodes cs)"
    by (rule order_trans [rotated])
  then show ?case
    using x(1) by simp
qed

lemma kbt_nodes_root:
  assumes "kn_wf (Suc h) x"
  shows "Suc (Suc (kn_n x) * min_nodes h) \<le> kbt_nodes x"
proof -
  obtain kvs cs where x: "x = KBTNode False kvs cs" "length cs = Suc (length kvs)"
    using assms by (rule kn_wf_internal)
  have "length cs * min_nodes h \<le> sum_list (map kbt_nodes cs)"
    using assms x by (intro sum_list_const_le) (auto simp: list_all_iff kbt_nodes_min)
  then show ?thesis
    using x by simp
qed

text \<open>With at most 8320 nodes, a full root has height at most 1 and any root height at most 3.\<close>

lemma kbt_height_bound:
  assumes "kn_wf h x" and "0 < kn_n x" and "kbt_nodes x \<le> 8320"
  shows "h \<le> 3" and "kn_n x = KBT_MAX_KEYS \<Longrightarrow> h \<le> 1"
proof -
  show "h \<le> 3"
  proof (rule ccontr)
    assume "\<not> h \<le> 3"
    then obtain g where g: "h = Suc g" "3 \<le> g"
      by (cases h) auto
    have "min_nodes 3 \<le> Suc (kn_n x) * min_nodes g"
      using min_nodes_mono [OF g(2)] by (simp add: numeral_3_eq_3 add_mult_distrib)
    then show False
      using kbt_nodes_root [of g x] assms g(1) by (simp add: numeral_3_eq_3)
  qed
  show "h \<le> 1" if full: "kn_n x = KBT_MAX_KEYS"
  proof (rule ccontr)
    assume "\<not> h \<le> 1"
    then obtain g where g: "h = Suc g" "1 \<le> g"
      by (cases h) auto
    have "128 * min_nodes 1 \<le> 128 * min_nodes g"
      using min_nodes_mono [OF g(2)] by simp
    then show False
      using kbt_nodes_root [of g x] assms g(1) full by (simp add: kbt_consts)
  qed
qed

text \<open>The insertion into a tree whose root was just split: the root's children are not full.\<close>

lemma insert_split_root:
  assumes wf: "kn_wf h r" and full: "kn_n r = KBT_MAX_KEYS" and asc: "asc (kbt_iterate_node r)"
    and room: "unat used + Suc h \<le> unat cap"
  obtains s where "kbt_split_child cap used (KBTNode False [] [r]) 0 = (s, used + 1)"
    and "kn_wf (Suc h) s" and "kn_n s = 1" and "kbt_iterate_node s = kbt_iterate_node r"
    and "kbt_nodes s = kbt_nodes r + 2" and "unat (used + 1) = Suc (unat used)"
    and "insert_ok (Suc h) h (used + 1) s k v (kbt_insert_nonfull (Suc (Suc h)) cap (used + 1) s k v)"
proof -
  define m where "m = kn_kvs r ! KBT_MIN_KEYS"
  define s where "s = KBTNode False [m] [split_left r, split_right r]"
  have lt: "used < cap"
    using room by (simp add: word_less_nat_alt)
  then have used: "unat (used + 1) = Suc (unat used)"
    by (rule unat_succ_less)
  have split: "kbt_split_child cap used (KBTNode False [] [r]) 0 = (s, used + 1)"
    using kbt_split_child_eq [OF lt, of "[]" "[]" False "[]" r "[]"] by (simp add: s_def m_def)
  note sp = split_wf [OF wf full] and it = split_iterate [OF wf full, folded m_def]
    and nd = split_nodes [OF wf full]
  have it_s: "kbt_iterate_node s = kbt_iterate_node r"
    using it by (simp add: s_def)
  have wf_s: "kn_wf (Suc h) s"
    using sp by (simp add: s_def kbt_consts)
  have asc_s: "asc (kbt_iterate_node s)"
    using asc it_s by simp
  have lt63: "KBT_MIN_KEYS < KBT_MAX_KEYS"
    by (simp add: kbt_consts)
  have IH: "insert_ok h h (used + 1) c k v (kbt_insert_nonfull (Suc h) cap (used + 1) c k v)"
    if "kn_wf h c" "kn_n c = KBT_MIN_KEYS" "asc (kbt_iterate_node c)" for c
    using that room used lt63 by (intro kbt_insert_nonfull_ok) auto
  have ac: "asc (kbt_iterate_node (split_left r))" "asc (kbt_iterate_node (split_right r))"
    using asc it by (auto simp: sorted_wrt_append)
  have "insert_ok (Suc h) h (used + 1) s k v (kbt_insert_nonfull (Suc (Suc h)) cap (used + 1) s k v)"
  proof (cases "kbt_search [m] k 0 (int (length [m]) - 1)")
    case (Inl i)
    then have i: "i = 0" "fst m = k"
      using kbt_search_node [of "[m]" k] by auto
    have "asc (kbt_iterate_children [split_left r, split_right r] [m])"
      using asc it_s by (simp add: s_def)
    from set_val_children [OF this, of 0 k] i show ?thesis
      using Inl wf_s by (intro insert_okI [of _ False "kbt_set_val s 0 v" "used + 1"])
        (auto simp: s_def kbt_set_val_def kbt_insert_nonfull.simps(2))
  next
    case (Inr i)
    then have i: "i \<le> 1" "\<forall>p \<in> set (take i [m]). fst p < k" "\<forall>p \<in> set (drop i [m]). k < fst p"
      using kbt_search_node [of "[m]" k] by auto
    consider "i = 0" | "i = 1"
      using i(1) by linarith
    then show ?thesis
    proof cases
      case 1
      have "insert_ok (Suc h) h (used + 1) s k v
          (case kbt_insert_nonfull (Suc h) cap (used + 1) (split_left r) k v of None \<Rightarrow> None
           | Some (ins, c, used') \<Rightarrow> Some (ins, KBTNode False [m] [c, split_right r], used'))"
        using descend_ok [where A = "[]" and B = "[m]" and C = "[]" and D = "[split_right r]",
            OF _ _ wf_s asc_s _ _ IH [OF sp(1,3) ac(1)]] i(3) 1
        by (simp add: s_def cong: option.case_cong)
      then show ?thesis
        using nonfull_step(1) [where A = "[]" and B = "[m]" and C = "[]" and D = "[split_right r]" and
            x = s and y = "split_left r" and k = k and f = "Suc h" and cap = cap and v = v and
            used = "used + 1"] Inr 1 sp(3) lt63
        by (simp add: s_def cong: option.case_cong)
    next
      case 2
      have "insert_ok (Suc h) h (used + 1) s k v
          (case kbt_insert_nonfull (Suc h) cap (used + 1) (split_right r) k v of None \<Rightarrow> None
           | Some (ins, c, used') \<Rightarrow> Some (ins, KBTNode False [m] [split_left r, c], used'))"
        using descend_ok [where A = "[m]" and B = "[]" and C = "[split_left r]" and D = "[]",
            OF _ _ wf_s asc_s _ _ IH [OF sp(2,4) ac(2)]] i(2) 2
        by (simp add: s_def cong: option.case_cong)
      then show ?thesis
        using nonfull_step(1) [where A = "[m]" and B = "[]" and C = "[split_left r]" and D = "[]" and
            x = s and y = "split_right r" and k = k and f = "Suc h" and cap = cap and v = v and
            used = "used + 1"] Inr 2 sp(4) lt63
        by (simp add: s_def cong: option.case_cong)
    qed
  qed
  then show thesis
    using that split wf_s it_s nd used by (simp add: s_def)
qed

lemma kbt_insert_ok:
  assumes inv: "kbt_inv t" and nf: "\<not> kbt_full t" and cap: "unat (kb_arena_cap t) \<le> 8320"
    and cnt: "unat (kb_count t) < 2 ^ 32 - 1"
  shows "\<exists>ins t'. kbt_insert t k v = Some (ins, t') \<and> kbt_inv t' \<and>
    kb_arena_cap t' = kb_arena_cap t \<and> kbt_iterate t' = kv_upd k v (kbt_iterate t) \<and>
    (ins \<longleftrightarrow> k \<notin> fst ` set (kbt_iterate t))"
proof -
  let ?cap = "kb_arena_cap t" and ?used = "kb_arena_used t"
  have le: "?used \<le> ?cap"
    using inv by (simp add: kbt_inv_def)
  then have room: "unat ?used + 3 \<le> unat ?cap"
    using nf by (simp add: kbt_full_def word_less_nat_alt word_le_nat_alt unat_sub)
  then have lt: "?used < ?cap" and su: "unat (?used + 1) = Suc (unat ?used)"
    using unat_succ_less [of ?used ?cap] by (auto simp: word_less_nat_alt)
  show ?thesis
  proof (cases "kb_root t")
    case None
    then show ?thesis
      using lt su le by (auto simp: kbt_insert_def kbt_alloc_node_def kbt_inv_def kbt_iterate_def
          word_le_nat_alt word_less_nat_alt kbt_consts)
  next
    case (Some r)
    define h where "h = kbt_height r"
    have r: "kn_wf h r" "0 < kn_n r" "asc (kbt_iterate_node r)"
        "unat (kb_count t) = length (kbt_iterate_node r)" "kbt_nodes r \<le> unat ?used"
      using inv Some by (auto simp: kbt_inv_def h_def)
    have "kbt_nodes r \<le> 8320"
      using r(5) room cap by simp
    note hb = kbt_height_bound [OF r(1,2) this]
    have cs: "unat (kb_count t + 1) = Suc (unat (kb_count t))"
      using cnt by (simp add: unat_word_ariths)
    have finish: "\<exists>ins t'. (case res of None \<Rightarrow> None
          | Some (ins, x', used') \<Rightarrow>
              Some (ins, t\<lparr>kb_root := Some x', kb_arena_used := used',
                           kb_count := (if ins then kb_count t + 1 else kb_count t)\<rparr>)) = Some (ins, t') \<and>
        kbt_inv t' \<and> kb_arena_cap t' = ?cap \<and> kbt_iterate t' = kv_upd k v (kbt_iterate t) \<and>
        (ins \<longleftrightarrow> k \<notin> fst ` set (kbt_iterate t))"
      if ok: "insert_ok h' d used x k v res" and x: "kbt_iterate_node x = kbt_iterate_node r"
        "unat used + d \<le> unat ?cap" "kbt_nodes x \<le> unat used" "\<And>ins x' u. res = Some (ins, x', u) \<Longrightarrow> 0 < kn_n x'"
      for h' d used x res
    proof -
      obtain ins z u where z: "res = Some (ins, z, u)" "kn_wf h' z"
          "kbt_iterate_node z = kv_upd k v (kbt_iterate_node x)"
          "ins \<longleftrightarrow> k \<notin> fst ` set (kbt_iterate_node x)" "unat u \<le> unat used + d"
          "kbt_nodes z + unat used \<le> kbt_nodes x + unat u"
        using ok by (rule insert_okE)
      then show ?thesis
        using x r(3,4) cs Some kn_wf_height [OF z(2)] kv_upd_length [OF r(3), of k v]
        by (auto simp: kbt_inv_def kbt_iterate_def asc_kv_upd word_le_nat_alt)
    qed
    show ?thesis
    proof (cases "kn_n r = KBT_MAX_KEYS")
      case False
      then have n: "kn_n r < KBT_MAX_KEYS"
        using kn_wf_max [OF r(1)] by simp
      have "unat ?used + h \<le> unat ?cap"
        using hb(1) room by simp
      from kbt_insert_nonfull_ok [OF r(1) n r(3) this, of k v]
      have ok: "insert_ok h h ?used r k v (kbt_insert_nonfull (Suc h) ?cap ?used r k v)" .
      then have "\<And>ins x' u. kbt_insert_nonfull (Suc h) ?cap ?used r k v = Some (ins, x', u) \<Longrightarrow> 0 < kn_n x'"
        using r(2) by (auto simp: insert_ok_def)
      from finish [OF ok _ _ r(5) this] show ?thesis
        using hb(1) room False Some by (simp add: kbt_insert_def h_def [symmetric])
    next
      case True
      then have h1: "h \<le> 1"
        by (rule hb(2))
      have "unat (?used + 1) + Suc h \<le> unat ?cap"
        using room h1 su by simp
      from insert_split_root [OF r(1) True r(3) this, of k v] obtain s where
        s: "kbt_split_child ?cap (?used + 1) (KBTNode False [] [r]) 0 = (s, ?used + 1 + 1)"
          "kn_wf (Suc h) s" "kn_n s = 1" "kbt_iterate_node s = kbt_iterate_node r"
          "kbt_nodes s = kbt_nodes r + 2" "unat (?used + 1 + 1) = Suc (unat (?used + 1))"
        and ok: "insert_ok (Suc h) h (?used + 1 + 1) s k v
          (kbt_insert_nonfull (Suc (Suc h)) ?cap (?used + 1 + 1) s k v)" .
      from ok s(3) have
        "\<And>ins x' u. kbt_insert_nonfull (Suc (Suc h)) ?cap (?used + 1 + 1) s k v = Some (ins, x', u) \<Longrightarrow> 0 < kn_n x'"
        by (auto simp: insert_ok_def)
      moreover have "unat (?used + 1 + 1) + h \<le> unat ?cap" "kbt_nodes s \<le> unat (?used + 1 + 1)"
        using h1 su s(5,6) r(5) room by auto
      ultimately show ?thesis
        using finish [OF ok s(4)] lt True Some kn_wf_height [OF s(2)] s(1)
        by (simp add: kbt_insert_def kbt_alloc_node_def flip: linorder_not_le)
    qed
  qed
qed

lemma take_update_Suc: "pos < length out \<Longrightarrow> take (Suc pos) (out[pos := x]) = take pos out @ [x]"
  by (simp add: take_Suc_conv_app_nth)

lemma collect_ok:
  shows "pos + length (kbt_iterate_node n) \<le> length out \<Longrightarrow>
      kbt_collect_node n out pos =
        (take pos out @ kbt_iterate_node n @ drop (pos + length (kbt_iterate_node n)) out,
         pos + length (kbt_iterate_node n))"
    and "pos + length (kbt_iterate_children cs kvs) \<le> length out \<Longrightarrow>
      kbt_collect_children cs kvs out pos =
        (take pos out @ kbt_iterate_children cs kvs @ drop (pos + length (kbt_iterate_children cs kvs)) out,
         pos + length (kbt_iterate_children cs kvs))"
proof (induction n out pos and cs kvs out pos rule: kbt_collect_node_kbt_collect_children.induct)
  case (1 leaf kvs cs out pos)
  then show ?case
    by (cases leaf) simp_all
next
  case (3 kv kvs out pos)
  then show ?case
    by (simp add: take_update_Suc)
next
  case (5 c cs kv kvs out pos)
  define l where "l = length (kbt_iterate_node c)"
  define o1 where "o1 = take pos out @ kbt_iterate_node c @ drop (pos + l) out"
  have node: "kbt_collect_node c out pos = (o1, pos + l)"
    using "5.IH"(1) "5.prems" by (simp add: o1_def l_def)
  have len: "length o1 = length out"
    using "5.prems" by (simp add: o1_def l_def)
  have "take (pos + l) o1 = take pos out @ kbt_iterate_node c"
    using "5.prems" by (simp add: o1_def l_def)
  moreover have "drop n o1 = drop n out" if "pos + l \<le> n" for n
    using that "5.prems" by (simp add: o1_def l_def)
  ultimately show ?case
    using "5.IH"(2) [OF node [symmetric]] "5.prems" node len
    by (simp add: l_def take_update_Suc add.assoc)
qed simp_all

lemma kbt_init_inv: "kbt_inv (kbt_init ok budget)"
  by (simp add: kbt_init_def kbt_inv_def Let_def)

lemma kbt_init_iterate: "kbt_iterate (kbt_init ok budget) = []"
  by (simp add: kbt_init_def kbt_iterate_def Let_def)

subsection \<open>Properties\<close>

text \<open>
  C10. Buffering a key in a B-tree whose arena is not nearly full, where the arena has at most 8320
  nodes: the insertion returns without touching memory outside a node, although it allocates without
  checking on the way down. The tree stays a balanced B-tree with every node within its bounds, the
  traversal stays strictly ascending, and it is the old map with the pair put in. The result tells
  whether the entry was new.
\<close>

theorem kbt_insert_map:
  assumes "kbt_inv t" and "\<not> kbt_full t" and "unat (kb_arena_cap t) \<le> 8320"
    and "unat (kb_count t) < 2 ^ 32 - 1"
  shows "\<exists>ins t'. kbt_insert t k v = Some (ins, t') \<and> kbt_inv t' \<and>
    sorted_wrt (<) (map fst (kbt_iterate t')) \<and>
    map_of (kbt_iterate t') = (map_of (kbt_iterate t))(k \<mapsto> v) \<and>
    (ins \<longleftrightarrow> map_of (kbt_iterate t) k = None)"
proof -
  from kbt_insert_ok [OF assms, of k v] obtain ins t' where
    t': "kbt_insert t k v = Some (ins, t')" "kbt_inv t'" "kbt_iterate t' = kv_upd k v (kbt_iterate t)"
      "ins \<longleftrightarrow> k \<notin> fst ` set (kbt_iterate t)"
    by blast
  have "asc (kbt_iterate t)"
    using assms(1) by (auto simp: kbt_inv_def kbt_iterate_def split: option.splits)
  then show ?thesis
    using t' asc_kv_upd kv_upd_map by (auto simp: map_of_eq_None_iff)
qed

theorem kbt_insert_map_witness:
  "\<exists>ins t'. kbt_insert (kbt_init True 262144) 5 77 = Some (ins, t') \<and> map_of (kbt_iterate t') 5 = Some 77"
proof -
  have "unat (kb_arena_cap (kbt_init True 262144)) = 102" "\<not> kbt_full (kbt_init True 262144)"
    "unat (kb_count (kbt_init True 262144)) = 0"
    by code_simp+
  then show ?thesis
    using kbt_insert_map [OF kbt_init_inv, of True 262144 5 77] by auto
qed

text \<open>Two keys, the larger one inserted first.\<close>

definition two_keys :: KeyBTree where
  "two_keys = snd (the (kbt_insert (snd (the (kbt_insert (kbt_init True 262144) 9 77))) 5 78))"

lemma two_keys_ok: "kbt_inv two_keys" "kbt_iterate two_keys = [(5, 78), (9, 77)]" "kb_count two_keys = 2"
proof -
  have a: "unat (kb_arena_cap (kbt_init True 262144)) = 102" "\<not> kbt_full (kbt_init True 262144)"
    "unat (kb_count (kbt_init True 262144)) = 0"
    by code_simp+
  let ?t = "snd (the (kbt_insert (kbt_init True 262144) 9 77))"
  have t: "unat (kb_arena_cap ?t) = 102" "\<not> kbt_full ?t" "unat (kb_count ?t) = 1"
    by code_simp+
  have "kbt_inv ?t" "kbt_iterate ?t = [(9, 77)]"
    using kbt_insert_ok [OF kbt_init_inv, of True 262144 9 77] a by (auto simp: kbt_init_iterate)
  then show "kbt_inv two_keys" "kbt_iterate two_keys = [(5, 78), (9, 77)]"
    using kbt_insert_ok [of ?t 5 78] t by (auto simp: two_keys_def)
  show "kb_count two_keys = 2"
    by code_simp
qed

text \<open>
  C21. Collecting writes the whole traversal, in ascending order of the entry index, to the front of an
  array with room for \<open>count\<close> entries, and returns \<open>count\<close>.
\<close>

theorem kbt_collect_sorted:
  assumes "kbt_inv t" and "unat (kb_count t) \<le> length out"
  shows "kbt_collect t out =
      (kbt_iterate t @ drop (unat (kb_count t)) out, unat (kb_count t)) \<and>
    sorted_wrt (<) (map fst (kbt_iterate t))"
  using assms collect_ok(1) [of 0 _ out]
  by (auto simp: kbt_collect_def kbt_inv_def kbt_iterate_def split: option.splits)

theorem kbt_collect_sorted_witness:
  "kbt_collect two_keys [(1, 2), (3, 4), (5, 6)] = ([(5, 78), (9, 77), (5, 6)], 2)"
  using kbt_collect_sorted [OF two_keys_ok(1), of "[(1, 2), (3, 4), (5, 6)]"] by (simp add: two_keys_ok(2,3))

text \<open>
  The arena that a memory budget of at most 16 MiB buys has between 4 and 6555 nodes, so the bound
  of 8320 nodes holds for every key buffer of the program.
\<close>

theorem kbt_init_arena_bound:
  assumes "budget \<le> 16 * 1024 * 1024"
  shows "4 \<le> kb_arena_cap (kbt_init True budget) \<and> unat (kb_arena_cap (kbt_init True budget)) \<le> 6555 \<and>
    kbt_inv (kbt_init True budget) \<and> kbt_iterate (kbt_init True budget) = []"
proof -
  define b where "b = (budget + 4095) AND (NOT 4095)"
  have "unat budget \<le> 16777216"
    using assms by (simp add: word_le_nat_alt)
  then have "unat (budget + 4095) \<le> 16781311"
    by (simp add: unat_word_ariths)
  moreover have "unat b \<le> unat (budget + 4095)"
    unfolding b_def by (metis word_and_le2 word_le_nat_alt)
  ultimately have "unat (b div KBT_NODE_SIZE) \<le> 6555"
    by (simp add: unat_div KBT_NODE_SIZE_def)
  then have "unat (ucast (b div KBT_NODE_SIZE) :: u32) \<le> 6555"
    by (simp add: unsigned_ucast_eq take_bit_nat_def)
  then show ?thesis
    using kbt_init_inv [of True budget] kbt_init_iterate [of True budget]
    unfolding kbt_init_def Let_def b_def [symmetric] by auto
qed

theorem kbt_init_arena_bound_witness:
  "unat (kb_arena_cap (kbt_init True 1000000)) \<le> 6555"
  using kbt_init_arena_bound [of 1000000] by simp

end
