(* ===== verification/Dirty_Tracker.thy ===== *)
theory Dirty_Tracker
  imports Gravel_Prelude
begin

text \<open>
  The dirty page tracker of \<^verbatim>\<open>src/dirty_tracker.c\<close>: two radix trees of 64-way bitmap nodes under an
  array of segments sorted by id. The outcome of every allocation is an argument of the operation that
  allocates. An operation on the segment array returns \<open>None\<close> where the C code would write past the end
  of the array, which happens once its 16-bit capacity wraps around.
\<close>

subsection \<open>Data\<close>

datatype DirtyNode =
  DirtyNode (dn_bits: u64) (dn_children: "DirtyNode option list")

record DirtySegment =
  ds_segment_id :: u32
  ds_root :: DirtyNode

record DirtyTree =
  tr_segments :: "DirtySegment list"
  tr_segment_cap :: u16
  tr_segment_span :: u32
  tr_depth :: u8

record DirtyTracker =
  dt_active :: DirtyTree
  dt_ckpt :: DirtyTree
  dt_capacity :: u32
  dt_generation :: u64

text \<open>The allocations of one mark: the segment array, the root of a segment, and a node per level.\<close>

record MarkAlloc =
  ma_realloc :: bool
  ma_root :: bool
  ma_node :: "nat \<Rightarrow> bool"

subsection \<open>Nodes\<close>

definition node_create :: DirtyNode where
  "node_create = DirtyNode 0 (replicate 64 None)"

primrec node_mark :: "(nat \<Rightarrow> bool) \<Rightarrow> u32 \<Rightarrow> nat \<Rightarrow> DirtyNode \<Rightarrow> DirtyNode" where
  "node_mark node_ok offset 0 node =
     DirtyNode (dn_bits node OR push_bit (unat (offset AND 63)) 1) (dn_children node)"
| "node_mark node_ok offset (Suc depth) node =
     (let child_idx = unat (drop_bit (Suc depth * 6) offset AND 63) in
      case dn_children node ! child_idx of
        Some c \<Rightarrow>
          DirtyNode (dn_bits node)
            ((dn_children node)[child_idx := Some (node_mark node_ok offset depth c)])
      | None \<Rightarrow>
          if node_ok depth
          then DirtyNode (dn_bits node OR push_bit child_idx 1)
                 ((dn_children node)[child_idx := Some (node_mark node_ok offset depth node_create)])
          else node)"

text \<open>\<^verbatim>\<open>__builtin_ctzll\<close>: the position of the lowest set bit.\<close>

definition ctz :: "u64 \<Rightarrow> nat" where
  "ctz w = length (takeWhile (\<lambda>i. \<not> bit w i) [0..<64])"

lemma clear_lowest_less: "w \<noteq> 0 \<Longrightarrow> unat (w AND (w - 1)) < unat (w :: u64)"
proof -
  assume "w \<noteq> 0"
  have "w AND (w - 1) \<le> w - 1"
    by (rule word_and_le1)
  also have "w - 1 < w"
    using \<open>w \<noteq> 0\<close> by (metis unat_gt_0 unat_minus_one word_less_nat_alt diff_less zero_less_one)
  finally show ?thesis
    by (simp add: word_less_nat_alt)
qed

text \<open>The output array is the list of the entries written so far.\<close>

function leaf_scan :: "u64 \<Rightarrow> u32 \<Rightarrow> u32 \<Rightarrow> nat \<Rightarrow> u32 list \<Rightarrow> u32 list" where
  "leaf_scan bits base max_pages max_out out =
     (if bits \<noteq> 0 \<and> length out < max_out then
        let page_idx = base + of_nat (ctz bits) in
        leaf_scan (bits AND (bits - 1)) base max_pages max_out
          (if page_idx < max_pages then out @ [page_idx] else out)
      else out)"
  by pat_completeness auto
termination
  by (relation "measure (\<lambda>(bits, b, m, mo, o'). unat bits)") (auto simp: clear_lowest_less)

function child_scan ::
  "(DirtyNode \<Rightarrow> u32 \<Rightarrow> u32 list \<Rightarrow> u32 list) \<Rightarrow> u32 \<Rightarrow> DirtyNode option list \<Rightarrow> u64 \<Rightarrow> u32 \<Rightarrow> nat \<Rightarrow>
    u32 list \<Rightarrow> u32 list" where
  "child_scan sub shift children cbits base max_out out =
     (if cbits \<noteq> 0 \<and> length out < max_out then
        let child_idx = ctz cbits in
        child_scan sub shift children (cbits AND (cbits - 1)) base max_out
          (case children ! child_idx of
             None \<Rightarrow> out
           | Some child \<Rightarrow> sub child (base + push_bit (unat shift) (of_nat child_idx)) out)
      else out)"
  by pat_completeness auto
termination
  by (relation "measure (\<lambda>(s, sh, c, cbits, b, mo, o'). unat cbits)") (auto simp: clear_lowest_less)

primrec node_scan :: "nat \<Rightarrow> u32 \<Rightarrow> nat \<Rightarrow> DirtyNode \<Rightarrow> u32 \<Rightarrow> u32 list \<Rightarrow> u32 list" where
  "node_scan 0 max_pages max_out node base out = leaf_scan (dn_bits node) base max_pages max_out out"
| "node_scan (Suc depth) max_pages max_out node base out =
     child_scan (node_scan depth max_pages max_out) (of_nat (Suc depth * 6)) (dn_children node)
       (dn_bits node) base max_out out"

declare leaf_scan.simps [simp del] child_scan.simps [simp del]

subsection \<open>Trees\<close>

function compute_depth_loop :: "u32 \<Rightarrow> u8 \<Rightarrow> u8" where
  "compute_depth_loop s d = (if s > 64 then compute_depth_loop (s div 64) (d + 1) else d)"
  by pat_completeness auto
termination
proof (relation "measure (\<lambda>(s, d). unat s)")
  fix s :: u32 and d :: u8
  assume "64 < s"
  then have "64 < unat s"
    by (simp add: word_less_nat_alt)
  then show "((s div 64, d + 1), (s, d)) \<in> measure (\<lambda>(s, d). unat s)"
    by (simp add: unat_div)
qed simp

declare compute_depth_loop.simps [simp del]

definition compute_depth :: "u32 \<Rightarrow> u8" where
  "compute_depth span = compute_depth_loop span 0"

definition tree_init :: "u32 \<Rightarrow> DirtyTree" where
  "tree_init segment_span =
     (let span = (if segment_span = 0 then 262144 else segment_span) in
      \<lparr>tr_segments = [], tr_segment_cap = 0, tr_segment_span = span, tr_depth = compute_depth span\<rparr>)"

definition tree_destroy :: "DirtyTree \<Rightarrow> DirtyTree" where
  "tree_destroy tree = \<lparr>tr_segments = [], tr_segment_cap = 0, tr_segment_span = 0, tr_depth = 0\<rparr>"

text \<open>The index of the segment, or the complement \<open>- lo - 1\<close> of the insertion point.\<close>

definition segment_find :: "DirtyTree \<Rightarrow> u32 \<Rightarrow> int" where
  "segment_find tree segment_id =
     (case bin_search ds_segment_id (tr_segments tree) segment_id 0
             (int (length (tr_segments tree)) - 1) of
        Inl i \<Rightarrow> int i
      | Inr lo \<Rightarrow> - int lo - 1)"

text \<open>
  The result is the index of the segment, or \<open>None\<close> for a null pointer, with the tree. When the root
  of a new segment cannot be allocated, the entries after the insertion point have already been
  moved, but the count is unchanged.
\<close>

definition segment_get_or_create ::
  "MarkAlloc \<Rightarrow> DirtyTree \<Rightarrow> u32 \<Rightarrow> (nat option \<times> DirtyTree) option" where
  "segment_get_or_create alloc tree segment_id =
     (let idx = segment_find tree segment_id;
          segs = tr_segments tree in
      if idx \<ge> 0 then Some (Some (nat idx), tree)
      else
        let at = nat (- idx - 1);
            grow = length segs \<ge> unat (tr_segment_cap tree);
            new_cap = (if tr_segment_cap tree \<noteq> 0 then tr_segment_cap tree * 2 else 4);
            tree' = (if grow then tree\<lparr>tr_segment_cap := new_cap\<rparr> else tree) in
        if grow \<and> \<not> ma_realloc alloc then Some (None, tree)
        else if length segs \<ge> unat (tr_segment_cap tree') then None
        else if \<not> ma_root alloc
        then Some (None, tree'\<lparr>tr_segments :=
               (if at < length segs then take (length segs) (take (Suc at) segs @ drop at segs) else segs)\<rparr>)
        else Some (Some at, tree'\<lparr>tr_segments :=
               take at segs @ \<lparr>ds_segment_id = segment_id, ds_root = node_create\<rparr> # drop at segs\<rparr>))"

definition tree_mark :: "MarkAlloc \<Rightarrow> DirtyTree \<Rightarrow> u32 \<Rightarrow> DirtyTree option" where
  "tree_mark alloc tree page_idx =
     (let segment_id = page_idx div tr_segment_span tree;
          offset = page_idx mod tr_segment_span tree in
      case segment_get_or_create alloc tree segment_id of
        None \<Rightarrow> None
      | Some (None, tree') \<Rightarrow> Some tree'
      | Some (Some i, tree') \<Rightarrow>
          let seg = tr_segments tree' ! i;
              root = node_mark (ma_node alloc) offset (unat (tr_depth tree')) (ds_root seg)
          in Some (tree'\<lparr>tr_segments := (tr_segments tree')[i := seg\<lparr>ds_root := root\<rparr>]\<rparr>))"

fun segments_scan :: "u32 \<Rightarrow> u8 \<Rightarrow> u32 \<Rightarrow> nat \<Rightarrow> DirtySegment list \<Rightarrow> u32 list \<Rightarrow> u32 list" where
  "segments_scan span depth max_pages max_out [] out = out"
| "segments_scan span depth max_pages max_out (seg # segs) out =
     (if length out < max_out
      then segments_scan span depth max_pages max_out segs
             (node_scan (unat depth) max_pages max_out (ds_root seg) (ds_segment_id seg * span) out)
      else out)"

definition tree_scan :: "DirtyTree \<Rightarrow> u32 \<Rightarrow> nat \<Rightarrow> u32 list" where
  "tree_scan tree max_pages max_out =
     segments_scan (tr_segment_span tree) (tr_depth tree) max_pages max_out (tr_segments tree) []"

subsection \<open>The tracker\<close>

definition span_from_estimate :: "u32 \<Rightarrow> u32" where
  "span_from_estimate estimated_pages =
     (if estimated_pages = 0 then 262144
      else if estimated_pages \<le> 4096 then 4096
      else if estimated_pages \<le> 262144 then 262144
      else 16777216)"

definition dirty_tracker_init :: "u32 \<Rightarrow> DirtyTracker" where
  "dirty_tracker_init est =
     (let span = span_from_estimate est;
          cap = (if est > 0 then est else 262144)
      in \<lparr>dt_active = tree_init span, dt_ckpt = tree_init span, dt_capacity = cap, dt_generation = 0\<rparr>)"

definition dirty_tracker_destroy :: "DirtyTracker \<Rightarrow> DirtyTracker" where
  "dirty_tracker_destroy dt =
     \<lparr>dt_active = tree_destroy (dt_active dt), dt_ckpt = tree_destroy (dt_ckpt dt),
      dt_capacity = 0, dt_generation = 0\<rparr>"

definition dirty_tracker_mark :: "MarkAlloc \<Rightarrow> DirtyTracker \<Rightarrow> u32 \<Rightarrow> DirtyTracker option" where
  "dirty_tracker_mark alloc dt page_idx =
     map_option (\<lambda>t. dt\<lparr>dt_active := t\<rparr>) (tree_mark alloc (dt_active dt) page_idx)"

definition dirty_tracker_scan :: "DirtyTracker \<Rightarrow> nat \<Rightarrow> u32 list" where
  "dirty_tracker_scan dt max_out = tree_scan (dt_active dt) (dt_capacity dt) max_out"

definition dirty_tracker_scan_ckpt :: "DirtyTracker \<Rightarrow> nat \<Rightarrow> u32 list" where
  "dirty_tracker_scan_ckpt dt max_out = tree_scan (dt_ckpt dt) (dt_capacity dt) max_out"

definition dirty_tracker_swap :: "DirtyTracker \<Rightarrow> DirtyTracker" where
  "dirty_tracker_swap dt =
     dt\<lparr>dt_ckpt := dt_active dt, dt_active := tree_init (tr_segment_span (dt_active dt)),
        dt_generation := dt_generation dt + 1\<rparr>"

definition dirty_tracker_resize :: "DirtyTracker \<Rightarrow> u32 \<Rightarrow> DirtyTracker" where
  "dirty_tracker_resize dt new_capacity =
     (if new_capacity \<le> dt_capacity dt then dt else dt\<lparr>dt_capacity := new_capacity\<rparr>)"

subsection \<open>What a tree holds\<close>

definition bit_list :: "u64 \<Rightarrow> nat list" where
  "bit_list w = filter (bit w) [0..<64]"

text \<open>The marked pages of a subtree, relative to its base and in ascending order.\<close>

primrec node_list :: "nat \<Rightarrow> DirtyNode \<Rightarrow> nat list" where
  "node_list 0 node = bit_list (dn_bits node)"
| "node_list (Suc d) node =
     concat (map (\<lambda>i. case dn_children node ! i of
                   None \<Rightarrow> [] | Some c \<Rightarrow> map (\<lambda>p. i * 64 ^ Suc d + p) (node_list d c))
       (bit_list (dn_bits node)))"

definition tree_list :: "DirtyTree \<Rightarrow> u32 list" where
  "tree_list t =
     concat (map (\<lambda>seg. map (\<lambda>p. ds_segment_id seg * tr_segment_span t + of_nat p)
                    (node_list (unat (tr_depth t)) (ds_root seg)))
       (tr_segments t))"

primrec node_wf :: "nat \<Rightarrow> DirtyNode \<Rightarrow> bool" where
  "node_wf 0 node \<longleftrightarrow> True"
| "node_wf (Suc d) node \<longleftrightarrow>
     length (dn_children node) = 64 \<and>
     (\<forall>i < 64. case dn_children node ! i of
        None \<Rightarrow> \<not> bit (dn_bits node) i | Some c \<Rightarrow> bit (dn_bits node) i \<and> node_wf d c \<and> length (dn_children c) = 64)"

definition tree_wf :: "DirtyTree \<Rightarrow> bool" where
  "tree_wf t \<longleftrightarrow>
     unat (tr_depth t) \<le> 3 \<and> unat (tr_segment_span t) = 64 ^ Suc (unat (tr_depth t)) \<and>
     length (tr_segments t) \<le> unat (tr_segment_cap t) \<and>
     sorted_wrt (<) (map ds_segment_id (tr_segments t)) \<and>
     (\<forall>seg \<in> set (tr_segments t).
        unat (ds_segment_id seg) * unat (tr_segment_span t) < 2 ^ 32 \<and>
        node_wf (unat (tr_depth t)) (ds_root seg) \<and> length (dn_children (ds_root seg)) = 64)"

subsection \<open>The lowest set bit\<close>

lemma takeWhile_upt:
  assumes "P i" and "i < n" and "\<And>j. j < i \<Longrightarrow> \<not> P j"
  shows "takeWhile (\<lambda>j. \<not> P j) [0..<n] = [0..<i]"
proof -
  have "[0..<n] = [0..<i] @ i # [Suc i..<n]"
    using assms(2) by (metis less_imp_le_nat upt_conv_Cons upt_add_eq_append le0 le_add_diff_inverse)
  then show ?thesis
    using assms by (simp add: takeWhile_append)
qed

lemma ctz_spec:
  assumes "w \<noteq> 0"
  shows "ctz w < 64" and "bit w (ctz w)" and "\<And>j. j < ctz w \<Longrightarrow> \<not> bit w j"
proof -
  have "\<exists>i. bit w i"
    using assms by (metis bit_eqI bit_0_eq bot_apply bot_bool_def)
  then obtain i where i: "bit w i" "\<And>j. j < i \<Longrightarrow> \<not> bit w j"
    using exists_least_iff [of "bit w"] by blast
  have i64: "i < 64"
    using bit_imp_le_length [OF i(1)] by simp
  have "ctz w = i"
    using takeWhile_upt [of "bit w" i 64] i i64 by (simp add: ctz_def)
  then show "ctz w < 64" and "bit w (ctz w)" and "\<And>j. j < ctz w \<Longrightarrow> \<not> bit w j"
    using i i64 by auto
qed

lemma nat_odd_div:
  assumes "x = 2 ^ k * (2 * m + 1)" and "k \<le> i"
  shows "odd ((x - 1) div 2 ^ i) \<longleftrightarrow> i \<noteq> k \<and> odd (x div (2 :: nat) ^ i)"
proof -
  have pow: "(2 :: nat) ^ i = 2 ^ k * 2 ^ (i - k)"
    using assms(2) by (simp flip: power_add)
  have x1: "x - 1 = 2 ^ k * (2 * m) + (2 ^ k - 1)"
    using assms(1) by (simp add: algebra_simps)
  have "(x - 1) div 2 ^ k = 2 * m"
    unfolding x1
  proof (rule div_nat_eqI)
    show "2 ^ k * (2 * m) + (2 ^ k - 1) < 2 ^ k * Suc (2 * m)"
      unfolding mult_Suc_right using zero_less_power [of "2 :: nat" k] by linarith
  qed (rule le_add1)
  moreover have "x div 2 ^ k = 2 * m + 1"
    unfolding assms(1) by simp
  ultimately have d: "(x - 1) div 2 ^ i = 2 * m div 2 ^ (i - k)" "x div 2 ^ i = (2 * m + 1) div 2 ^ (i - k)"
    unfolding pow by (simp_all add: div_mult2_eq)
  show ?thesis
  proof (cases "i = k")
    case False
    then obtain l where "i - k = Suc l"
      using assms(2) by (cases "i - k") auto
    then have "2 * m div 2 ^ (i - k) = m div 2 ^ l" "(2 * m + 1) div 2 ^ (i - k) = m div 2 ^ l"
      by (simp_all add: div_mult2_eq)
    then show ?thesis
      unfolding d using False by simp
  next
    case True
    then show ?thesis
      unfolding d by simp
  qed
qed

lemma bit_clear_lowest:
  fixes w :: u64
  assumes "w \<noteq> 0"
  shows "bit (w AND (w - 1)) i \<longleftrightarrow> bit w i \<and> i \<noteq> ctz w"
proof -
  define k where "k = ctz w"
  note c = ctz_spec [OF assms, folded k_def]
  have bw: "bit (v :: u64) j \<longleftrightarrow> odd (unat v div 2 ^ j)" for v j
  proof -
    have "bit v j \<longleftrightarrow> bit (unat v) j"
      by (simp add: bit_unsigned_iff)
    then show ?thesis
      by (simp add: bit_iff_odd [of "unat v"])
  qed
  have "take_bit k (unat w) = 0"
    by (rule bit_eqI) (use c(3) in \<open>auto simp: bit_take_bit_iff bit_unsigned_iff\<close>)
  then have "unat w mod 2 ^ k = 0"
    by (simp add: take_bit_eq_mod)
  moreover have "odd (unat w div 2 ^ k)"
    using c(2) bw by blast
  ultimately obtain m where m: "unat w = 2 ^ k * (2 * m + 1)"
    by (metis oddE mod_0_imp_dvd dvd_mult_div_cancel)
  have w1: "unat (w - 1) = unat w - 1"
    using assms by (metis One_nat_def unat_minus_one)
  show ?thesis
  proof (cases "i < k")
    case True
    then show ?thesis
      using c(3) by (simp add: bit_and_iff k_def [symmetric])
  next
    case False
    then show ?thesis
      using nat_odd_div [OF m, of i] bw [of w i] bw [of "w - 1" i] w1
      by (auto simp: bit_and_iff k_def [symmetric])
  qed
qed

lemma bit_list_step:
  assumes "w \<noteq> 0"
  shows "bit_list w = ctz w # bit_list (w AND (w - 1))"
proof -
  note c = ctz_spec [OF assms]
  have split: "[0..<64] = [0..<ctz w] @ ctz w # [Suc (ctz w)..<64]"
    using c(1) by (metis less_imp_le_nat upt_conv_Cons upt_add_eq_append le0 le_add_diff_inverse)
  have low: "filter (bit w) [0..<ctz w] = []"
    using c(3) by (auto simp: filter_empty_conv)
  have low': "filter (bit (w AND (w - 1))) [0..<ctz w] = []"
    using c(3) by (auto simp: filter_empty_conv bit_clear_lowest [OF assms])
  have high: "filter (bit w) [Suc (ctz w)..<64] = filter (bit (w AND (w - 1))) [Suc (ctz w)..<64]"
    by (rule filter_cong) (auto simp: bit_clear_lowest [OF assms])
  show ?thesis
    unfolding bit_list_def split using low low' high c(2) by (simp add: bit_clear_lowest [OF assms])
qed

lemma bit_list_0 [simp]: "bit_list 0 = []"
  by (simp add: bit_list_def)

lemma set_bit_list: "set (bit_list w) = {i. i < 64 \<and> bit w i}"
  by (auto simp: bit_list_def)

lemma sorted_bit_list: "sorted_wrt (<) (bit_list w)"
  unfolding bit_list_def by (rule sorted_wrt_filter) simp

subsection \<open>Scanning\<close>

lemma take_take_append: "take n (take n xs @ ys) = take n (xs @ ys)"
  by (cases "length xs \<le> n") simp_all

lemma leaf_scan_eq:
  "length out \<le> max_out \<Longrightarrow>
   leaf_scan w base max_pages max_out out =
     take max_out (out @ filter (\<lambda>p. p < max_pages) (map (\<lambda>i. base + of_nat i) (bit_list w)))"
proof (induction w base max_pages max_out out rule: leaf_scan.induct)
  case (1 w base max_pages max_out out)
  show ?case
  proof (cases "w \<noteq> 0 \<and> length out < max_out")
    case True
    then show ?thesis
      using "1.IH" [OF True refl]
      by (subst leaf_scan.simps) (auto simp: bit_list_step Let_def take_Cons')
  next
    case False
    then have "w = 0 \<or> length out = max_out"
      using "1.prems" by auto
    then show ?thesis
      using False "1.prems" by (subst leaf_scan.simps) auto
  qed
qed

lemma child_scan_eq:
  assumes sub: "\<And>c b out. length out \<le> max_out \<Longrightarrow> sub c b out = take max_out (out @ L c b)"
    and "length out \<le> max_out"
  shows "child_scan sub shift children w base max_out out =
      take max_out (out @ concat (map (\<lambda>i. case children ! i of
          None \<Rightarrow> [] | Some c \<Rightarrow> L c (base + push_bit (unat shift) (of_nat i))) (bit_list w)))"
  using assms(2)
proof (induction "unat w" arbitrary: w out rule: less_induct)
  case less
  show ?case
  proof (cases "w \<noteq> 0 \<and> length out < max_out")
    case True
    define out' where "out' = (case children ! ctz w of None \<Rightarrow> out
        | Some c \<Rightarrow> sub c (base + push_bit (unat shift) (of_nat (ctz w))) out)"
    have out': "out' = take max_out (out @ (case children ! ctz w of
        None \<Rightarrow> [] | Some c \<Rightarrow> L c (base + push_bit (unat shift) (of_nat (ctz w)))))"
      using less.prems sub by (auto simp: out'_def split: option.split)
    have len': "length out' \<le> max_out"
      unfolding out' by (simp only: length_take min.cobounded2)
    have "child_scan sub shift children w base max_out out =
        child_scan sub shift children (w AND (w - 1)) base max_out out'"
      using True by (subst child_scan.simps) (simp add: Let_def out'_def)
    also have "\<dots> = take max_out (out' @ concat (map (\<lambda>i. case children ! i of
        None \<Rightarrow> [] | Some c \<Rightarrow> L c (base + push_bit (unat shift) (of_nat i))) (bit_list (w AND (w - 1)))))"
      using True len' by (intro less.hyps) (simp_all add: clear_lowest_less)
    finally show ?thesis
      unfolding out' take_take_append using True by (simp add: bit_list_step)
  next
    case False
    then have "w = 0 \<or> length out = max_out"
      using less.prems by auto
    then show ?thesis
      using False less.prems by (subst child_scan.simps) auto
  qed
qed

definition pages_below :: "u32 \<Rightarrow> u32 \<Rightarrow> nat list \<Rightarrow> u32 list" where
  "pages_below max_pages base ps = filter (\<lambda>p. p < max_pages) (map (\<lambda>p. base + of_nat p) ps)"

lemma pages_below_shift:
  "pages_below m (base + of_nat k) ps = pages_below m base (map (\<lambda>p. k + p) ps)"
  by (simp add: pages_below_def comp_def add.assoc)

lemma pages_below_concat:
  "concat (map (\<lambda>i. pages_below m base (f i)) is) = pages_below m base (concat (map f is))"
  by (induction "is") (simp_all add: pages_below_def)

lemma node_scan_eq:
  "d \<le> 3 \<Longrightarrow> length out \<le> max_out \<Longrightarrow>
   node_scan d max_pages max_out node base out =
     take max_out (out @ pages_below max_pages base (node_list d node))"
proof (induction d arbitrary: node base out)
  case 0
  then show ?case
    by (simp add: leaf_scan_eq pages_below_def)
next
  case (Suc d)
  have sh: "unat (of_nat (Suc d * 6) :: u32) = 6 * Suc d"
    using Suc.prems(1) by (subst unat_of_nat) (simp add: take_bit_nat_def)
  have pb: "push_bit (6 * Suc d) (of_nat i :: u32) = of_nat (i * 64 ^ Suc d)" for i
    by (simp only: push_bit_eq_mult power_mult of_nat_mult of_nat_power) simp
  have "node_scan (Suc d) max_pages max_out node base out =
      take max_out (out @ concat (map (\<lambda>i. case dn_children node ! i of
          None \<Rightarrow> [] | Some c \<Rightarrow> pages_below max_pages (base + push_bit (6 * Suc d) (of_nat i)) (node_list d c))
        (bit_list (dn_bits node))))"
    using Suc by (simp only: node_scan.simps, subst child_scan_eq [where L = "\<lambda>c b. pages_below max_pages b (node_list d c)"])
      (simp_all only: sh Suc_leD)
  also have "(\<lambda>i. case dn_children node ! i of
        None \<Rightarrow> [] | Some c \<Rightarrow> pages_below max_pages (base + push_bit (6 * Suc d) (of_nat i)) (node_list d c)) =
      (\<lambda>i. pages_below max_pages base (case dn_children node ! i of
        None \<Rightarrow> [] | Some c \<Rightarrow> map (\<lambda>p. i * 64 ^ Suc d + p) (node_list d c)))"
    by (rule ext) (simp only: pb pages_below_shift split: option.split, simp add: pages_below_def)
  finally show ?case
    by (simp add: pages_below_concat)
qed

lemma segments_scan_eq:
  "unat depth \<le> 3 \<Longrightarrow> length out \<le> max_out \<Longrightarrow>
   segments_scan span depth max_pages max_out segs out =
     take max_out (out @ concat (map (\<lambda>seg. pages_below max_pages (ds_segment_id seg * span)
       (node_list (unat depth) (ds_root seg))) segs))"
proof (induction segs arbitrary: out)
  case (Cons seg segs)
  show ?case
  proof (cases "length out < max_out")
    case True
    define out' where
      "out' = node_scan (unat depth) max_pages max_out (ds_root seg) (ds_segment_id seg * span) out"
    have out': "out' = take max_out (out @ pages_below max_pages (ds_segment_id seg * span)
        (node_list (unat depth) (ds_root seg)))"
      using Cons.prems by (simp add: out'_def node_scan_eq)
    have len: "length out' \<le> max_out"
      unfolding out' by (simp only: length_take min.cobounded2)
    have "segments_scan span depth max_pages max_out (seg # segs) out =
        segments_scan span depth max_pages max_out segs out'"
      using True by (simp add: out'_def)
    also note Cons.IH [OF Cons.prems(1) len]
    finally show ?thesis
      unfolding out' take_take_append by simp
  next
    case False
    then have "length out = max_out"
      using Cons.prems by simp
    then show ?thesis
      by simp
  qed
qed simp

lemma tree_scan_eq:
  assumes "unat (tr_depth t) \<le> 3"
  shows "tree_scan t max_pages max_out = take max_out (filter (\<lambda>p. p < max_pages) (tree_list t))"
proof -
  have "concat (map (\<lambda>seg. pages_below max_pages (ds_segment_id seg * span) (f seg)) segs) =
      filter (\<lambda>p. p < max_pages) (concat (map (\<lambda>seg. map (\<lambda>p. ds_segment_id seg * span + of_nat p) (f seg)) segs))"
    for span segs and f :: "DirtySegment \<Rightarrow> nat list"
    by (induction segs) (simp_all add: pages_below_def)
  then show ?thesis
    using assms by (simp add: tree_scan_def segments_scan_eq tree_list_def)
qed

subsection \<open>Marking\<close>

lemma mem_node_list:
  "p \<in> set (node_list (Suc d) node) \<longleftrightarrow>
     (\<exists>i < 64. bit (dn_bits node) i \<and>
        (\<exists>c. dn_children node ! i = Some c \<and> (\<exists>q \<in> set (node_list d c). p = i * 64 ^ Suc d + q)))"
  by (auto simp: set_bit_list split: option.splits) force

lemma node_list_create: "node_list d node_create = []"
  by (cases d) (simp_all add: node_create_def)

lemma node_list_less: "p \<in> set (node_list d node) \<Longrightarrow> p < 64 ^ Suc d"
proof (induction d arbitrary: node p)
  case 0
  then show ?case
    by (simp add: set_bit_list)
next
  case (Suc d)
  then obtain i c q where i: "i < 64" "q \<in> set (node_list d c)" "p = i * 64 ^ Suc d + q"
    by (auto simp only: mem_node_list)
  then have "q < 64 ^ Suc d"
    using Suc.IH by blast
  then have "p < (i + 1) * 64 ^ Suc d"
    using i(3) by (simp add: algebra_simps)
  also have "\<dots> \<le> 64 * 64 ^ Suc d"
    using i(1) by (intro mult_le_mono1) simp
  finally show ?case
    by simp
qed

lemma node_wf_create: "node_wf d node_create"
  by (cases d) (simp_all add: node_create_def)

lemma child_index:
  "unat (drop_bit (n * 6) (o' :: u32) AND 63) = (unat o' div 64 ^ n) mod 64"
proof -
  have lt: "unat o' < 2 ^ LENGTH(32)"
    by (rule unsigned_less)
  have "(63 :: u32) = 2 ^ 6 - 1"
    by simp
  then have "unat (drop_bit (n * 6) o' AND 63) = unat (drop_bit (n * 6) o') mod 2 ^ 6"
    by (simp only: unat_and_mask32)
  also have "unat (drop_bit (n * 6) o') = unat o' div 2 ^ (n * 6)"
    using lt by (subst unsigned_drop_bit_eq) (simp add: drop_bit_eq_div take_bit_nat_eq_self)
  also have "(2 :: nat) ^ (n * 6) = 64 ^ n"
    by (simp only: mult.commute [of n 6] power_mult) simp
  finally show ?thesis
    by simp
qed

text \<open>The two branches of an inner step are one update when no allocation fails.\<close>

lemma node_mark_Suc:
  fixes offset :: u32
  assumes "node_wf (Suc d) node" and "node_ok d"
  defines "ci \<equiv> (unat offset div 64 ^ Suc d) mod 64"
  defines "c \<equiv> case dn_children node ! ci of None \<Rightarrow> node_create | Some c \<Rightarrow> c"
  shows "node_mark node_ok offset (Suc d) node =
    DirtyNode (dn_bits node OR push_bit ci 1)
      ((dn_children node)[ci := Some (node_mark node_ok offset d c)])"
proof -
  have ci: "unat (drop_bit (Suc d * 6) offset AND 63) = ci"
    unfolding ci_def by (rule child_index)
  have lt: "ci < 64"
    by (simp add: ci_def)
  have "dn_bits node OR push_bit ci 1 = dn_bits node" if "bit (dn_bits node) ci"
    by (rule bit_word_eqI) (use that in \<open>auto simp: bit_or_iff bit_exp_iff\<close>)
  then show ?thesis
    using assms(1,2) lt unfolding node_mark.simps Let_def ci c_def
    by (auto split: option.splits)
qed

lemma bit_or_push: "bit (w OR 2 ^ k) i \<longleftrightarrow> bit (w :: u64) i \<or> i = k" if "k < 64" "i < 64"
  using that by (auto simp: bit_or_iff bit_exp_iff)

lemma mod_step: "o' mod 64 ^ Suc (Suc d) = (o' div 64 ^ Suc d) mod 64 * 64 ^ Suc d + o' mod (64 :: nat) ^ Suc d"
  using mod_mult2_eq [of o' "64 ^ Suc d" 64] by (simp add: mult.commute add.commute)

lemma node_mark_ok:
  assumes "node_wf d node" and "length (dn_children node) = 64" and "\<And>e. node_ok e"
  shows "node_wf d (node_mark node_ok offset d node) \<and>
    length (dn_children (node_mark node_ok offset d node)) = 64 \<and>
    set (node_list d (node_mark node_ok offset d node)) =
      insert (unat offset mod 64 ^ Suc d) (set (node_list d node))"
  using assms(1,2)
proof (induction d arbitrary: node)
  case 0
  have off: "unat (offset AND 63) = unat offset mod 64"
    using child_index [of 0 offset] by simp
  have "set (bit_list (dn_bits node OR push_bit (unat offset mod 64) 1)) =
      insert (unat offset mod 64) (set (bit_list (dn_bits node)))"
    by (auto simp: set_bit_list bit_or_push)
  then show ?case
    using 0 by (simp add: off)
next
  case (Suc d)
  define ci where "ci = (unat offset div 64 ^ Suc d) mod 64"
  define c where "c = (case dn_children node ! ci of None \<Rightarrow> node_create | Some c \<Rightarrow> c)"
  define c' where "c' = node_mark node_ok offset d c"
  have ci: "ci < 64"
    by (simp add: ci_def)
  have eq: "node_mark node_ok offset (Suc d) node =
      DirtyNode (dn_bits node OR push_bit ci 1) ((dn_children node)[ci := Some c'])"
    using node_mark_Suc [of d node node_ok offset] Suc.prems(1) assms(3) by (simp only: ci_def c_def c'_def)
  have "node_wf d c" "length (dn_children c) = 64"
    using Suc.prems(1) ci node_wf_create by (auto simp: c_def node_create_def split: option.splits)
  note IH = Suc.IH [OF this, folded c'_def]
  have wf: "node_wf (Suc d) (DirtyNode (dn_bits node OR push_bit ci 1) ((dn_children node)[ci := Some c']))"
    using Suc.prems ci IH by (auto simp: bit_or_push nth_list_update cong: option.case_cong)
  define R where "R p i x \<longleftrightarrow> (\<exists>q \<in> set (node_list d x). p = i * 64 ^ Suc d + q)" for p i x
  define P where "P p i \<longleftrightarrow> bit (dn_bits node) i \<and> (\<exists>x. dn_children node ! i = Some x \<and> R p i x)" for p i
  have "R p ci c \<longleftrightarrow> P p ci" for p
    using Suc.prems(1) ci by (auto simp: P_def R_def c_def node_list_create split: option.splits)
  then have Rc': "R p ci c' \<longleftrightarrow> p = ci * 64 ^ Suc d + unat offset mod 64 ^ Suc d \<or> P p ci" for p
    using IH by (auto simp: R_def)
  have step: "(bit (dn_bits node OR 2 ^ ci) i \<and>
        (\<exists>x. (dn_children node)[ci := Some c'] ! i = Some x \<and> R p i x)) \<longleftrightarrow>
      (if i = ci then R p ci c' else P p i)" if "i < 64" for p i
    using that ci Suc.prems(2) by (auto simp: bit_or_push P_def)
  have "p \<in> set (node_list (Suc d) (DirtyNode (dn_bits node OR push_bit ci 1) ((dn_children node)[ci := Some c']))) \<longleftrightarrow>
      p = ci * 64 ^ Suc d + unat offset mod 64 ^ Suc d \<or> p \<in> set (node_list (Suc d) node)" for p
  proof -
    have "p \<in> set (node_list (Suc d) (DirtyNode (dn_bits node OR push_bit ci 1) ((dn_children node)[ci := Some c']))) \<longleftrightarrow>
        (\<exists>i < 64. bit (dn_bits node OR 2 ^ ci) i \<and>
          (\<exists>x. (dn_children node)[ci := Some c'] ! i = Some x \<and> R p i x))"
      by (simp add: mem_node_list R_def del: node_list.simps)
    also have "\<dots> \<longleftrightarrow> (\<exists>i < 64. if i = ci then R p ci c' else P p i)"
      by (rule ex_cong1) (use step in \<open>simp cong: conj_cong\<close>)
    also have "\<dots> \<longleftrightarrow> p = ci * 64 ^ Suc d + unat offset mod 64 ^ Suc d \<or> (\<exists>i < 64. P p i)"
      using ci Rc' by metis
    also have "(\<exists>i < 64. P p i) \<longleftrightarrow> p \<in> set (node_list (Suc d) node)"
      unfolding mem_node_list by (simp add: P_def R_def)
    finally show ?thesis .
  qed
  then have "set (node_list (Suc d) (DirtyNode (dn_bits node OR push_bit ci 1) ((dn_children node)[ci := Some c']))) =
      insert (unat offset mod 64 ^ Suc (Suc d)) (set (node_list (Suc d) node))"
    unfolding mod_step ci_def [symmetric] by blast
  then show ?case
    unfolding eq using wf Suc.prems(2) by (simp del: node_list.simps node_wf.simps)
qed

lemma sorted_blocks:
  fixes g :: "'a \<Rightarrow> nat"
  assumes "sorted_wrt (\<lambda>x y. g x < g y) xs" and "\<And>x. x \<in> set xs \<Longrightarrow> sorted_wrt (<) (f x)"
    and "\<And>x p. x \<in> set xs \<Longrightarrow> p \<in> set (f x) \<Longrightarrow> g x * b \<le> p \<and> p < (g x + 1) * b"
  shows "sorted_wrt (<) (concat (map f xs))"
  using assms
proof (induction xs)
  case (Cons x xs)
  have "p < q" if "p \<in> set (f x)" "y \<in> set xs" "q \<in> set (f y)" for p q y
  proof -
    have "g x < g y"
      using Cons.prems(1) that(2) by auto
    then have "(g x + 1) * b \<le> g y * b"
      by (intro mult_le_mono1) simp
    then show ?thesis
      using Cons.prems(3) [of x p] Cons.prems(3) [of y q] that by auto
  qed
  then show ?case
    using Cons by (auto simp: sorted_wrt_append)
qed simp

lemma sorted_node_list: "sorted_wrt (<) (node_list d node)"
proof (induction d arbitrary: node)
  case 0
  then show ?case
    by (simp add: sorted_bit_list)
next
  case (Suc d)
  have "sorted_wrt (<) (case dn_children node ! i of
      None \<Rightarrow> [] | Some c \<Rightarrow> map (\<lambda>p. i * 64 ^ Suc d + p) (node_list d c))" for i
    using Suc.IH by (auto simp: sorted_wrt_map split: option.split)
  moreover have "i * 64 ^ Suc d \<le> x \<and> x < (i + 1) * 64 ^ Suc d"
    if "x \<in> set (case dn_children node ! i of
      None \<Rightarrow> [] | Some c \<Rightarrow> map (\<lambda>p. i * 64 ^ Suc d + p) (node_list d c))" for i x
    using that node_list_less by (fastforce simp: algebra_simps split: option.splits)
  ultimately show ?case
    unfolding node_list.simps
    by (intro sorted_blocks [where b = "64 ^ Suc d" and g = id]) (simp_all add: sorted_bit_list)
qed


subsection \<open>Segments\<close>

lemma span_dvd:
  assumes "d \<le> 3"
  shows "\<exists>m. (2 :: nat) ^ 32 = m * 64 ^ Suc d"
proof -
  consider "d = 0" | "d = 1" | "d = 2" | "d = 3"
    using assms by linarith
  then show ?thesis
    by cases (rule exI [of _ "2 ^ (32 - 6 * Suc d)"], simp)+
qed

lemma seg_page:
  assumes "tree_wf t" and "seg \<in> set (tr_segments t)" and "p < 64 ^ Suc (unat (tr_depth t))"
  shows "unat (ds_segment_id seg * tr_segment_span t + of_nat p) =
    unat (ds_segment_id seg) * unat (tr_segment_span t) + p"
proof -
  let ?S = "64 ^ Suc (unat (tr_depth t)) :: nat" and ?i = "unat (ds_segment_id seg)"
  have w: "unat (tr_segment_span t) = ?S" "?i * ?S < 2 ^ 32" "unat (tr_depth t) \<le> 3"
    using assms(1,2) by (auto simp: tree_wf_def)
  obtain m where m: "(2 :: nat) ^ 32 = m * ?S"
    using span_dvd [OF w(3)] by blast
  have "?i < m"
    using w(2) unfolding m by simp
  then have "(?i + 1) * ?S \<le> m * ?S"
    by (intro mult_le_mono1) simp
  then have "?i * ?S + p < 2 ^ 32"
    using assms(3) unfolding m by simp
  moreover have "p < 2 ^ 32"
    using calculation by simp
  ultimately show ?thesis
    using w(1) by (simp add: unat_word_ariths unat_of_nat)
qed

lemma sorted_tree_list:
  assumes "tree_wf t"
  shows "sorted_wrt (<) (tree_list t)"
proof -
  let ?d = "unat (tr_depth t)" and ?S = "unat (tr_segment_span t)"
  have S: "?S = 64 ^ Suc ?d"
    using assms by (simp add: tree_wf_def)
  have "map unat (tree_list t) = concat (map (\<lambda>seg. map (\<lambda>p. unat (ds_segment_id seg) * ?S + p)
      (node_list ?d (ds_root seg))) (tr_segments t))"
    unfolding tree_list_def map_concat
    by (intro arg_cong [where f = concat]) (auto intro!: seg_page [OF assms] dest: node_list_less)
  moreover have "sorted_wrt (<) (concat (map (\<lambda>seg. map (\<lambda>p. unat (ds_segment_id seg) * ?S + p)
      (node_list ?d (ds_root seg))) (tr_segments t)))"
  proof (rule sorted_blocks [where b = ?S and g = "\<lambda>seg. unat (ds_segment_id seg)"])
    show "sorted_wrt (\<lambda>x y. unat (ds_segment_id x) < unat (ds_segment_id y)) (tr_segments t)"
      using assms by (simp add: tree_wf_def sorted_wrt_map word_less_nat_alt)
    show "sorted_wrt (<) (map (\<lambda>p. unat (ds_segment_id x) * ?S + p) (node_list ?d (ds_root x)))" for x
      using sorted_node_list [of ?d "ds_root x"] by (simp add: sorted_wrt_map)
    show "unat (ds_segment_id x) * ?S \<le> p \<and> p < (unat (ds_segment_id x) + 1) * ?S"
      if "p \<in> set (map (\<lambda>p. unat (ds_segment_id x) * ?S + p) (node_list ?d (ds_root x)))" for x p
      using that S by (auto dest: node_list_less)
  qed
  ultimately have "sorted_wrt (<) (map unat (tree_list t))"
    by simp
  then have "sorted_wrt (\<lambda>p q. unat p < unat q) (tree_list t)"
    by (simp only: sorted_wrt_map)
  then show ?thesis
    by (rule sorted_wrt_mono_rel [rotated]) (simp add: word_less_nat_alt)
qed

lemma mem_tree_list:
  "q \<in> set (tree_list t) \<longleftrightarrow> (\<exists>seg \<in> set (tr_segments t).
     \<exists>r \<in> set (node_list (unat (tr_depth t)) (ds_root seg)). q = ds_segment_id seg * tr_segment_span t + of_nat r)"
  by (auto simp: tree_list_def)

definition seg_pages :: "u32 \<Rightarrow> nat \<Rightarrow> DirtySegment \<Rightarrow> u32 set" where
  "seg_pages span d seg = (\<lambda>r. ds_segment_id seg * span + of_nat r) ` set (node_list d (ds_root seg))"

lemma set_tree_list:
  "set (tree_list t) = (\<Union>seg \<in> set (tr_segments t). seg_pages (tr_segment_span t) (unat (tr_depth t)) seg)"
  by (auto simp: tree_list_def seg_pages_def)

definition mark_ok :: "MarkAlloc \<Rightarrow> bool" where
  "mark_ok alloc \<longleftrightarrow> ma_realloc alloc \<and> ma_root alloc \<and> (\<forall>d. ma_node alloc d)"

lemma segment_get_or_create_ok:
  assumes wf: "tree_wf t" and ok: "mark_ok alloc" and len: "length (tr_segments t) < 32768"
    and id: "unat segment_id * unat (tr_segment_span t) < 2 ^ 32"
  obtains i t' where "segment_get_or_create alloc t segment_id = Some (Some i, t')" and "tree_wf t'"
    and "i < length (tr_segments t')" and "ds_segment_id (tr_segments t' ! i) = segment_id"
    and "set (tree_list t') = set (tree_list t)" and "tr_segment_span t' = tr_segment_span t"
    and "tr_depth t' = tr_depth t" and "length (tr_segments t') \<le> Suc (length (tr_segments t))"
proof -
  let ?segs = "tr_segments t"
  have srt: "sorted_wrt (<) (map ds_segment_id ?segs)"
    using wf by (simp add: tree_wf_def)
  have spec: "case bin_search ds_segment_id ?segs segment_id 0 (int (length ?segs) - 1) of
      Inl i \<Rightarrow> i < length ?segs \<and> ds_segment_id (?segs ! i) = segment_id
    | Inr i \<Rightarrow> i \<le> length ?segs \<and> (\<forall>p \<in> set (take i ?segs). ds_segment_id p < segment_id) \<and>
        (\<forall>p \<in> set (drop i ?segs). segment_id < ds_segment_id p)"
    using srt by (intro bin_search_spec) auto
  show thesis
  proof (cases "bin_search ds_segment_id ?segs segment_id 0 (int (length ?segs) - 1)")
    case (Inl i)
    then show thesis
      using that [of i t] spec wf by (simp add: segment_get_or_create_def segment_find_def)
  next
    case (Inr k)
    then have k: "k \<le> length ?segs" "\<forall>p \<in> set (take k ?segs). ds_segment_id p < segment_id"
        "\<forall>p \<in> set (drop k ?segs). segment_id < ds_segment_id p"
      using spec by auto
    let ?new = "\<lparr>ds_segment_id = segment_id, ds_root = node_create\<rparr>"
    let ?segs' = "take k ?segs @ ?new # drop k ?segs"
    define cap where "cap = (if length ?segs \<ge> unat (tr_segment_cap t)
        then (if tr_segment_cap t \<noteq> 0 then tr_segment_cap t * 2 else 4) else tr_segment_cap t)"
    have le: "length ?segs \<le> unat (tr_segment_cap t)"
      using wf by (simp add: tree_wf_def)
    have cap: "length ?segs < unat cap"
    proof (cases "length ?segs \<ge> unat (tr_segment_cap t)")
      case True
      then have eq: "unat (tr_segment_cap t) = length ?segs"
        using le by simp
      show ?thesis
      proof (cases "tr_segment_cap t = 0")
        case False
        then have "0 < length ?segs"
          using eq by (metis unat_gt_0)
        then show ?thesis
          using True False eq len by (simp add: cap_def unat_word_ariths)
      qed (use True eq in \<open>simp add: cap_def\<close>)
    qed (use le in \<open>simp add: cap_def\<close>)
    let ?t' = "t\<lparr>tr_segment_cap := cap, tr_segments := ?segs'\<rparr>"
    have run: "segment_get_or_create alloc t segment_id = Some (Some k, ?t')"
      using Inr ok cap by (auto simp: segment_get_or_create_def segment_find_def Let_def mark_ok_def cap_def)
    have "sorted_wrt (<) (map ds_segment_id (take k ?segs @ drop k ?segs))"
      using srt by simp
    then have "sorted_wrt (<) (map ds_segment_id ?segs')"
      using k unfolding map_append sorted_wrt_append by (auto dest: order.strict_trans)
    moreover have "set ?segs' = insert ?new (set ?segs)"
      by (metis Un_insert_right append_take_drop_id list.simps(15) set_append)
    ultimately have "tree_wf ?t'"
      using wf id cap k(1) node_wf_create by (auto simp: tree_wf_def node_create_def)
    moreover have "set (tree_list ?t') = set (tree_list t)"
      using \<open>set ?segs' = insert ?new (set ?segs)\<close>
      unfolding set_tree_list by (simp add: seg_pages_def node_list_create)
    ultimately show thesis
      using that [OF run] k(1) by (simp add: nth_append)
  qed
qed

lemma tree_mark_ok:
  assumes wf: "tree_wf t" and ok: "mark_ok alloc" and len: "length (tr_segments t) < 32768"
  obtains t' where "tree_mark alloc t page = Some t'" and "tree_wf t'"
    and "set (tree_list t') = insert page (set (tree_list t))"
    and "tr_segment_span t' = tr_segment_span t"
    and "length (tr_segments t') \<le> Suc (length (tr_segments t))"
proof -
  let ?span = "tr_segment_span t"
  let ?id = "page div ?span" and ?off = "page mod ?span" and ?d = "unat (tr_depth t)"
  have S: "unat ?span = 64 ^ Suc ?d"
    using wf by (simp add: tree_wf_def)
  have "unat ?id * unat ?span \<le> unat page"
    by (simp add: unat_div)
  also have "unat page < 2 ^ LENGTH(32)"
    by (rule unsigned_less)
  finally have id: "unat ?id * unat ?span < 2 ^ 32"
    by simp
  obtain i t1 where g: "segment_get_or_create alloc t ?id = Some (Some i, t1)" "tree_wf t1"
      "i < length (tr_segments t1)" "ds_segment_id (tr_segments t1 ! i) = ?id"
      "set (tree_list t1) = set (tree_list t)" "tr_segment_span t1 = ?span" "tr_depth t1 = tr_depth t"
      "length (tr_segments t1) \<le> Suc (length (tr_segments t))"
    using segment_get_or_create_ok [OF wf ok len id] by blast
  define seg where "seg = tr_segments t1 ! i"
  define root where "root = node_mark (ma_node alloc) ?off ?d (ds_root seg)"
  let ?segs' = "(tr_segments t1)[i := seg\<lparr>ds_root := root\<rparr>]"
  have seg: "seg \<in> set (tr_segments t1)"
    using g(3) by (simp add: seg_def)
  then have "node_wf ?d (ds_root seg)" "length (dn_children (ds_root seg)) = 64"
    using g(2,7) by (auto simp: tree_wf_def)
  note nm = node_mark_ok [OF this, of "ma_node alloc" ?off, folded root_def]
  have "unat ?off mod 64 ^ Suc ?d = unat ?off"
    using S by (simp add: unat_mod)
  then have nl: "set (node_list ?d root) = insert (unat ?off) (set (node_list ?d (ds_root seg)))"
    using nm ok by (simp add: mark_ok_def)
  have "?id * ?span + ?off = page"
    by (simp add: word_mod_div_equality)
  then have sp: "seg_pages ?span ?d (seg\<lparr>ds_root := root\<rparr>) = insert page (seg_pages ?span ?d seg)"
    using nl g(4) by (simp add: seg_pages_def seg_def)
  have segs: "tr_segments t1 = take i (tr_segments t1) @ seg # drop (Suc i) (tr_segments t1)"
    using g(3) by (simp add: seg_def id_take_nth_drop)
  have segs': "?segs' = take i (tr_segments t1) @ seg\<lparr>ds_root := root\<rparr> # drop (Suc i) (tr_segments t1)"
    using g(3) by (rule upd_conv_take_nth_drop)
  have "set (tree_list (t1\<lparr>tr_segments := ?segs'\<rparr>)) = insert page (set (tree_list t1))"
    unfolding set_tree_list using sp g(6,7) by (subst segs) (simp add: segs')
  moreover have "tree_wf (t1\<lparr>tr_segments := ?segs'\<rparr>)"
  proof -
    have "map ds_segment_id ?segs' = map ds_segment_id (tr_segments t1)"
      using g(3) by (simp add: map_update seg_def list_update_same_conv)
    moreover have "set ?segs' \<subseteq> insert (seg\<lparr>ds_root := root\<rparr>) (set (tr_segments t1))"
      by (rule set_update_subset_insert)
    ultimately show ?thesis
      using g(2,7) nm ok seg unfolding tree_wf_def mark_ok_def by auto
  qed
  ultimately show thesis
    using that [of "t1\<lparr>tr_segments := ?segs'\<rparr>"] g by (simp add: tree_mark_def seg_def root_def Let_def)
qed

subsection \<open>The tracker as a pair of sets\<close>

definition dt_marked :: "DirtyTracker \<Rightarrow> u32 set" where
  "dt_marked dt = set (tree_list (dt_active dt))"

definition dt_marked_ckpt :: "DirtyTracker \<Rightarrow> u32 set" where
  "dt_marked_ckpt dt = set (tree_list (dt_ckpt dt))"

definition dt_wf :: "DirtyTracker \<Rightarrow> bool" where
  "dt_wf dt \<longleftrightarrow> tree_wf (dt_active dt) \<and> tree_wf (dt_ckpt dt)"

lemma depth_64:
  "compute_depth 64 = 0" "compute_depth 4096 = 1" "compute_depth 262144 = 2" "compute_depth 16777216 = 3"
  by (simp_all add: compute_depth_def compute_depth_loop.simps)

lemma tree_wf_init: "tree_wf (tree_init (span_from_estimate est))"
  by (simp add: tree_init_def tree_wf_def span_from_estimate_def depth_64 Let_def)

lemma tree_wf_init_again:
  assumes "tree_wf t"
  shows "tree_wf (tree_init (tr_segment_span t))"
proof -
  have d: "unat (tr_depth t) \<le> 3" and S: "unat (tr_segment_span t) = 64 ^ Suc (unat (tr_depth t))"
    using assms by (auto simp: tree_wf_def)
  have "of_nat (unat (tr_segment_span t)) = tr_segment_span t"
    by simp
  then have span: "tr_segment_span t = 64 ^ Suc (unat (tr_depth t))"
    unfolding S by simp
  have "unat (tr_depth t) \<in> {0, 1, 2, 3}"
    using d by auto
  then have "tr_segment_span t \<in> {64, 4096, 262144, 16777216}"
    unfolding span by (elim insertE emptyE) (simp_all only: power_Suc, simp_all)
  then show ?thesis
    by (auto simp: tree_init_def tree_wf_def depth_64 Let_def)
qed

lemma tree_scan_sorted:
  assumes "tree_wf t"
  shows "tree_scan t max_pages max_out = take max_out (sorted_list_of_set {p \<in> set (tree_list t). p < max_pages})"
proof -
  have "sorted_wrt (<) (filter (\<lambda>p. p < max_pages) (tree_list t))"
    using sorted_tree_list [OF assms] by (rule sorted_wrt_filter)
  then have "sorted_list_of_set (set (filter (\<lambda>p. p < max_pages) (tree_list t))) =
      filter (\<lambda>p. p < max_pages) (tree_list t)"
    by (intro sorted_list_of_set.idem_if_sorted_distinct) (simp_all add: strict_sorted_iff)
  then show ?thesis
    using assms by (simp add: tree_scan_eq tree_wf_def)
qed

subsection \<open>Properties\<close>

text \<open>
  C25. Marking a page adds exactly that page to the active set, leaves the checkpoint set alone and
  keeps both trees well formed, when no allocation fails and the tree has fewer than 32768 segments.
\<close>

theorem dirty_tracker_mark_adds:
  assumes "dt_wf dt" and "mark_ok alloc" and "length (tr_segments (dt_active dt)) < 32768"
  shows "\<exists>dt'. dirty_tracker_mark alloc dt page = Some dt' \<and> dt_wf dt' \<and>
    dt_marked dt' = insert page (dt_marked dt) \<and> dt_marked_ckpt dt' = dt_marked_ckpt dt \<and>
    dt_capacity dt' = dt_capacity dt"
proof -
  obtain t' where "tree_mark alloc (dt_active dt) page = Some t'" "tree_wf t'"
      "set (tree_list t') = insert page (set (tree_list (dt_active dt)))"
    using tree_mark_ok [of "dt_active dt" alloc page] assms by (auto simp: dt_wf_def)
  then show ?thesis
    using assms(1) by (auto simp: dirty_tracker_mark_def dt_wf_def dt_marked_def dt_marked_ckpt_def)
qed

lemma dt_wf_init: "dt_wf (dirty_tracker_init est)"
  by (simp add: dt_wf_def dirty_tracker_init_def Let_def tree_wf_init)

lemma dt_init_empty: "dt_marked (dirty_tracker_init est) = {}" "dt_marked_ckpt (dirty_tracker_init est) = {}"
  by (simp_all add: dt_marked_def dt_marked_ckpt_def dirty_tracker_init_def Let_def tree_init_def tree_list_def)

theorem dirty_tracker_mark_adds_witness:
  "\<exists>dt'. dirty_tracker_mark \<lparr>ma_realloc = True, ma_root = True, ma_node = (\<lambda>_. True)\<rparr>
     (dirty_tracker_init 1000) 77 = Some dt' \<and> dt_marked dt' = {77}"
proof -
  have "length (tr_segments (dt_active (dirty_tracker_init 1000))) < 32768"
    by (simp add: dirty_tracker_init_def tree_init_def Let_def)
  with dirty_tracker_mark_adds [OF dt_wf_init, of "\<lparr>ma_realloc = True, ma_root = True, ma_node = (\<lambda>_. True)\<rparr>" 1000 77]
  show ?thesis
    by (auto simp: mark_ok_def dt_init_empty)
qed

text \<open>Two marked pages, the larger one marked first.\<close>

definition two_pages :: DirtyTracker where
  "two_pages =
     (let alloc = \<lparr>ma_realloc = True, ma_root = True, ma_node = (\<lambda>_. True)\<rparr>
      in the (dirty_tracker_mark alloc (the (dirty_tracker_mark alloc (dirty_tracker_init 1000) 901)) 77))"

lemma two_pages_ok: "dt_wf two_pages" "dt_marked two_pages = {77, 901}" "dt_capacity two_pages = 1000"
proof -
  let ?a = "\<lparr>ma_realloc = True, ma_root = True, ma_node = (\<lambda>_. True)\<rparr>" and ?dt = "dirty_tracker_init 1000"
  have ok: "mark_ok ?a" "tr_segments (dt_active ?dt) = []" "dt_capacity ?dt = 1000"
    by (simp_all add: mark_ok_def dirty_tracker_init_def tree_init_def Let_def)
  obtain t1 where t1: "tree_mark ?a (dt_active ?dt) 901 = Some t1" "tree_wf t1" "set (tree_list t1) = {901}"
      "length (tr_segments t1) \<le> 1"
    using tree_mark_ok [of "dt_active ?dt" ?a 901] ok dt_wf_init [of 1000] dt_init_empty(1) [of 1000]
    by (auto simp: dt_wf_def dt_marked_def)
  obtain t2 where t2: "tree_mark ?a t1 77 = Some t2" "tree_wf t2" "set (tree_list t2) = {77, 901}"
    by (rule tree_mark_ok [OF t1(2) ok(1), of 77]) (use t1(3,4) in simp_all)
  have tp: "two_pages = ?dt\<lparr>dt_active := t2\<rparr>"
    using t1(1) t2(1) by (simp add: two_pages_def dirty_tracker_mark_def Let_def)
  show "dt_wf two_pages" "dt_marked two_pages = {77, 901}" "dt_capacity two_pages = 1000"
    unfolding tp using t2(2,3) ok(3) dt_wf_init [of 1000] by (simp_all add: dt_wf_def dt_marked_def)
qed

text \<open>
  C26. A scan returns the marked pages below the capacity in ascending order, each once, and stops
  after \<open>max_out\<close> of them. This holds of the active tree and of the checkpoint tree.
\<close>

theorem dirty_tracker_scan_sorted:
  assumes "dt_wf dt"
  shows "dirty_tracker_scan dt max_out =
      take max_out (sorted_list_of_set {p \<in> dt_marked dt. p < dt_capacity dt}) \<and>
    dirty_tracker_scan_ckpt dt max_out =
      take max_out (sorted_list_of_set {p \<in> dt_marked_ckpt dt. p < dt_capacity dt})"
  using assms by (simp add: dirty_tracker_scan_def dirty_tracker_scan_ckpt_def dt_marked_def
      dt_marked_ckpt_def dt_wf_def tree_scan_sorted)

theorem dirty_tracker_scan_sorted_witness:
  "dirty_tracker_scan two_pages 5 = [77, 901] \<and> dirty_tracker_scan two_pages 1 = [77]"
proof -
  have "{p. (p = 77 \<or> p = 901) \<and> p < (1000 :: u32)} = {77, 901}"
    by auto
  then show ?thesis
    using dirty_tracker_scan_sorted [OF two_pages_ok(1), of 5] dirty_tracker_scan_sorted [OF two_pages_ok(1), of 1]
    by (simp add: two_pages_ok(2,3))
qed

text \<open>
  The swap at the start of a checkpoint hands the active set over: it becomes the checkpoint set,
  the new active set is empty, the generation goes up by one, and both trees stay well formed.
\<close>

theorem dirty_tracker_swap_hands_over:
  assumes "dt_wf dt"
  shows "dt_wf (dirty_tracker_swap dt) \<and> dt_marked_ckpt (dirty_tracker_swap dt) = dt_marked dt \<and>
    dt_marked (dirty_tracker_swap dt) = {} \<and>
    dt_generation (dirty_tracker_swap dt) = dt_generation dt + 1"
  using assms tree_wf_init_again [of "dt_active dt"]
  by (auto simp: dirty_tracker_swap_def dt_wf_def dt_marked_def dt_marked_ckpt_def tree_list_def
      tree_init_def Let_def)

theorem dirty_tracker_swap_hands_over_witness:
  "dt_marked (dirty_tracker_swap (dirty_tracker_init 1000)) = {}"
  using dirty_tracker_swap_hands_over [OF dt_wf_init, of 1000] by simp

end
