(* ===== verification/Dim_Registry.thy ===== *)
theory Dim_Registry
  imports Probe_Deletion
begin

text \<open>
  The dimension registry of \<^verbatim>\<open>src/dim_registry.c\<close>: a map from dimensions to bin indices that starts
  as an unsorted array, becomes a sorted array after 8 dimensions and a hash table after 64. The array
  fields are lists of the live elements; \<open>None\<close> is a NULL pointer. The type of the bins is a
  parameter, as the registry only stores pointers to them. An operation returns \<open>None\<close> where the C
  code would access memory outside an array or through a NULL pointer.
\<close>

subsection \<open>Data\<close>

datatype DimRegMode = DIM_REG_LINEAR | DIM_REG_SORTED | DIM_REG_HASH

definition DIM_REG_THRESHOLD_LINEAR :: u16 where
  "DIM_REG_THRESHOLD_LINEAR = 8"

definition DIM_REG_THRESHOLD_SORTED :: u16 where
  "DIM_REG_THRESHOLD_SORTED = 64"

record DimRegEntry =
  re_dim :: int
  re_bin_idx :: u16

record DimRegHashSlot =
  rs_dim :: int
  rs_bin_idx :: u16

record 'b DimRegistry =
  dr_mode :: DimRegMode
  dr_count :: u16
  dr_capacity :: u16
  dr_bins :: "'b list option"
  dr_entries :: "DimRegEntry list option"
  dr_entries_cap :: u16
  dr_slots :: "DimRegHashSlot list option"
  dr_hash_cap :: u16
  dr_hash_mask :: u16
  dr_lookups :: u64
  dr_upgrades :: u64

text \<open>The outcomes of the allocations of one registration.\<close>

record RegAlloc =
  ra_bins :: bool
  ra_entries :: bool
  ra_slots :: bool
  ra_upgrade :: bool

subsection \<open>Operations\<close>

definition dim_hash :: "int \<Rightarrow> u32" where
  "dim_hash dim =
     (let x = word_of_int dim :: u32;
          x = (drop_bit 16 x XOR x) * 0x45d9f3b;
          x = (drop_bit 16 x XOR x) * 0x45d9f3b
      in drop_bit 16 x XOR x)"

definition next_pow2_u16 :: "u16 \<Rightarrow> u16" where
  "next_pow2_u16 v =
     (let v = v - 1;
          v = v OR drop_bit 1 v;
          v = v OR drop_bit 2 v;
          v = v OR drop_bit 4 v;
          v = v OR drop_bit 8 v;
          v = v + 1
      in if v < 16 then 16 else v)"

definition dim_registry_init :: "bool \<Rightarrow> bool \<Rightarrow> 'b DimRegistry" where
  "dim_registry_init entries_ok bins_ok =
     \<lparr>dr_mode = DIM_REG_LINEAR, dr_count = 0, dr_capacity = DIM_REG_THRESHOLD_LINEAR,
      dr_bins = (if bins_ok then Some [] else None),
      dr_entries = (if entries_ok then Some [] else None),
      dr_entries_cap = DIM_REG_THRESHOLD_LINEAR,
      dr_slots = None, dr_hash_cap = 0, dr_hash_mask = 0, dr_lookups = 0, dr_upgrades = 0\<rparr>"

definition dim_registry_destroy :: "'b DimRegistry \<Rightarrow> 'b DimRegistry" where
  "dim_registry_destroy reg =
     \<lparr>dr_mode = DIM_REG_LINEAR, dr_count = 0, dr_capacity = 0, dr_bins = None, dr_entries = None,
      dr_entries_cap = 0, dr_slots = None, dr_hash_cap = 0, dr_hash_mask = 0, dr_lookups = 0,
      dr_upgrades = 0\<rparr>"

fun linear_scan :: "DimRegEntry list \<Rightarrow> int \<Rightarrow> int" where
  "linear_scan [] dim = - 1"
| "linear_scan (e # es) dim = (if re_dim e = dim then uint (re_bin_idx e) else linear_scan es dim)"

definition linear_find :: "'b DimRegistry \<Rightarrow> int \<Rightarrow> int option" where
  "linear_find reg dim =
     (if dr_count reg = 0 then Some (- 1)
      else map_option (\<lambda>es. linear_scan es dim) (dr_entries reg))"

definition sorted_find :: "'b DimRegistry \<Rightarrow> int \<Rightarrow> int option" where
  "sorted_find reg dim =
     (if dr_count reg = 0 then Some (- 1)
      else map_option (\<lambda>es. case bin_search re_dim es dim 0 (uint (dr_count reg) - 1) of
               Inl mid \<Rightarrow> uint (re_bin_idx (es ! mid))
             | Inr lo \<Rightarrow> - 1) (dr_entries reg))"

fun sorted_pos :: "DimRegEntry list \<Rightarrow> int \<Rightarrow> nat" where
  "sorted_pos [] dim = 0"
| "sorted_pos (e # es) dim = (if re_dim e < dim then Suc (sorted_pos es dim) else 0)"

definition sorted_insert :: "DimRegEntry list \<Rightarrow> int \<Rightarrow> u16 \<Rightarrow> DimRegEntry list" where
  "sorted_insert es dim bin_idx =
     (let pos = sorted_pos es dim in
      take pos es @ \<lparr>re_dim = dim, re_bin_idx = bin_idx\<rparr> # drop pos es)"

definition rs_occ :: "DimRegHashSlot \<Rightarrow> bool" where
  "rs_occ s \<longleftrightarrow> \<not> (rs_dim s = 0 \<and> rs_bin_idx s = 0)"

definition rs_empty :: DimRegHashSlot where
  "rs_empty = \<lparr>rs_dim = 0, rs_bin_idx = 0\<rparr>"

text \<open>
  The probe loops are bounded by \<^verbatim>\<open>probe <= mask\<close>, so the fuel \<open>mask + 1\<close> is the loop's own bound.
  Reading a slot past the end of the array is a fault.
\<close>

definition hash_find :: "'b DimRegistry \<Rightarrow> int \<Rightarrow> int option" where
  "hash_find reg dim =
     (let m = ucast (dr_hash_mask reg) :: u32 in
      case dr_slots reg of
        None \<Rightarrow> None
      | Some xs \<Rightarrow>
          if length xs \<le> unat m then None
          else case probe (\<lambda>s. \<not> rs_occ s \<or> rs_dim s = dim) xs m (Suc (unat m)) (dim_hash dim AND m) of
              None \<Rightarrow> Some (- 1)
            | Some i \<Rightarrow>
                Some (if rs_occ (xs ! unat i) then uint (rs_bin_idx (xs ! unat i)) else - 1))"

definition hash_insert :: "DimRegHashSlot list \<Rightarrow> u16 \<Rightarrow> int \<Rightarrow> u16 \<Rightarrow> DimRegHashSlot list option" where
  "hash_insert xs mask16 dim bin_idx =
     (let m = ucast mask16 :: u32 in
      if length xs \<le> unat m then None
      else case probe (\<lambda>s. \<not> rs_occ s) xs m (Suc (unat m)) (dim_hash dim AND m) of
          None \<Rightarrow> Some xs
        | Some i \<Rightarrow> Some (xs[unat i := \<lparr>rs_dim = dim, rs_bin_idx = bin_idx\<rparr>]))"

fun hash_insert_all :: "DimRegHashSlot list \<Rightarrow> u16 \<Rightarrow> (int \<times> u16) list \<Rightarrow> DimRegHashSlot list option" where
  "hash_insert_all xs mask16 [] = Some xs"
| "hash_insert_all xs mask16 ((dim, bin_idx) # es) =
     (case hash_insert xs mask16 dim bin_idx of
        None \<Rightarrow> None
      | Some ys \<Rightarrow> hash_insert_all ys mask16 es)"

text \<open>The inner and the outer loop of the insertion sort; \<open>j\<close> is one above the C variable.\<close>

fun shift_down :: "DimRegEntry list \<Rightarrow> DimRegEntry \<Rightarrow> nat \<Rightarrow> DimRegEntry list" where
  "shift_down es tmp 0 = es[0 := tmp]"
| "shift_down es tmp (Suc j) =
     (if re_dim (es ! j) > re_dim tmp then shift_down (es[Suc j := es ! j]) tmp j
      else es[Suc j := tmp])"

definition insertion_sort :: "DimRegEntry list \<Rightarrow> DimRegEntry list" where
  "insertion_sort es = foldl (\<lambda>es i. shift_down es (es ! i) i) es [1..<length es]"

definition upgrade_to_sorted :: "bool \<Rightarrow> 'b DimRegistry \<Rightarrow> 'b DimRegistry option" where
  "upgrade_to_sorted realloc_ok reg =
     (case dr_entries reg of
        None \<Rightarrow> None
      | Some es \<Rightarrow>
          let reg = reg\<lparr>dr_entries := Some (insertion_sort es)\<rparr>;
              reg = (if dr_entries_cap reg < DIM_REG_THRESHOLD_SORTED
                     then reg\<lparr>dr_entries_cap := DIM_REG_THRESHOLD_SORTED,
                              dr_entries := (if realloc_ok then dr_entries reg else None)\<rparr>
                     else reg)
          in Some (reg\<lparr>dr_mode := DIM_REG_SORTED, dr_upgrades := dr_upgrades reg + 1\<rparr>))"

definition upgrade_to_hash :: "bool \<Rightarrow> 'b DimRegistry \<Rightarrow> 'b DimRegistry option" where
  "upgrade_to_hash calloc_ok reg =
     (let cap0 = next_pow2_u16 (dr_count reg * 4);
          new_cap = (if cap0 < 128 then 128 else cap0)
      in case dr_entries reg of
        None \<Rightarrow> None
      | Some es \<Rightarrow>
          if \<not> calloc_ok then None
          else case hash_insert_all (replicate (unat new_cap) rs_empty) (new_cap - 1)
                      (map (\<lambda>e. (re_dim e, re_bin_idx e)) es) of
              None \<Rightarrow> None
            | Some xs \<Rightarrow>
                Some (reg\<lparr>dr_slots := Some xs, dr_hash_cap := new_cap, dr_hash_mask := new_cap - 1,
                          dr_mode := DIM_REG_HASH, dr_upgrades := dr_upgrades reg + 1\<rparr>))"

definition hash_grow :: "bool \<Rightarrow> 'b DimRegistry \<Rightarrow> 'b DimRegistry option" where
  "hash_grow calloc_ok reg =
     (let new_cap = dr_hash_cap reg * 2;
          new_mask = new_cap - 1
      in case dr_slots reg of
        None \<Rightarrow> None
      | Some old \<Rightarrow>
          if \<not> calloc_ok then None
          else case hash_insert_all (replicate (unat new_cap) rs_empty) new_mask
                      (map (\<lambda>s. (rs_dim s, rs_bin_idx s)) (filter rs_occ old)) of
              None \<Rightarrow> None
            | Some xs \<Rightarrow>
                Some (reg\<lparr>dr_slots := Some xs, dr_hash_cap := new_cap, dr_hash_mask := new_mask\<rparr>))"

definition dim_registry_find :: "'b DimRegistry \<Rightarrow> int \<Rightarrow> (int \<times> 'b DimRegistry) option" where
  "dim_registry_find reg dim =
     (let reg = reg\<lparr>dr_lookups := dr_lookups reg + 1\<rparr> in
      map_option (\<lambda>r. (r, reg))
        (case dr_mode reg of
           DIM_REG_LINEAR \<Rightarrow> linear_find reg dim
         | DIM_REG_SORTED \<Rightarrow> sorted_find reg dim
         | DIM_REG_HASH \<Rightarrow> hash_find reg dim))"

text \<open>
  Growing the bin array, and storing the new bin at index \<open>count\<close>. The result \<open>Inl\<close> is the early
  return of \<^verbatim>\<open>-1\<close>.
\<close>

definition put_bin :: "bool \<Rightarrow> 'b DimRegistry \<Rightarrow> 'b \<Rightarrow> ('b DimRegistry + 'b DimRegistry) option" where
  "put_bin realloc_ok reg bin =
     (let new_cap = (if dr_capacity reg * 2 < 16 then 16 else dr_capacity reg * 2);
          grow = dr_count reg \<ge> dr_capacity reg
      in if grow \<and> \<not> realloc_ok then Some (Inl reg)
      else let reg = (if grow then reg\<lparr>dr_capacity := new_cap, dr_bins := Some (case dr_bins reg of None \<Rightarrow> [] | Some bs \<Rightarrow> take (unat new_cap) bs)\<rparr> else reg)
        in case dr_bins reg of
          None \<Rightarrow> None
        | Some bs \<Rightarrow>
            if dr_count reg < dr_capacity reg
            then Some (Inr (reg\<lparr>dr_bins := Some (take (unat (dr_count reg)) bs @ [bin])\<rparr>))
            else None)"

text \<open>
  Growing the entry array. The pointer is overwritten by the result of \<^verbatim>\<open>realloc\<close>, so that a failure
  leaves it NULL.
\<close>

definition grow_entries :: "bool \<Rightarrow> 'b DimRegistry \<Rightarrow> 'b DimRegistry" where
  "grow_entries realloc_ok reg =
     (if dr_count reg \<ge> dr_entries_cap reg
      then reg\<lparr>dr_entries_cap := dr_entries_cap reg * 2,
               dr_entries := (if realloc_ok then Some (case dr_entries reg of None \<Rightarrow> [] | Some es \<Rightarrow> es) else None)\<rparr>
      else reg)"

definition put_entry :: "RegAlloc \<Rightarrow> 'b DimRegistry \<Rightarrow> int \<Rightarrow> u16 \<Rightarrow> ('b DimRegistry + 'b DimRegistry) option" where
  "put_entry ra reg dim bin_idx =
     (let e = \<lparr>re_dim = dim, re_bin_idx = bin_idx\<rparr> in
      case dr_mode reg of
        DIM_REG_LINEAR \<Rightarrow>
          (let failed = dr_count reg \<ge> dr_entries_cap reg \<and> \<not> ra_entries ra;
               reg = grow_entries (ra_entries ra) reg
           in if failed then Some (Inl reg)
           else if dr_count reg \<ge> dr_entries_cap reg then None
           else map_option (\<lambda>es. Inr (reg\<lparr>dr_entries := Some (es @ [e])\<rparr>)) (dr_entries reg))
      | DIM_REG_SORTED \<Rightarrow>
          (let failed = dr_count reg \<ge> dr_entries_cap reg \<and> \<not> ra_entries ra;
               reg = grow_entries (ra_entries ra) reg
           in if failed then Some (Inl reg)
           else if dr_count reg \<ge> dr_entries_cap reg then None
           else map_option (\<lambda>es. Inr (reg\<lparr>dr_entries := Some (sorted_insert es dim bin_idx)\<rparr>)) (dr_entries reg))
      | DIM_REG_HASH \<Rightarrow>
          (case (if (ucast (dr_count reg) + 1) * 4 > (ucast (dr_hash_cap reg) :: u32) * 3
                 then hash_grow (ra_slots ra) reg else Some reg) of
             None \<Rightarrow> None
           | Some reg \<Rightarrow>
               (case Option.bind (dr_slots reg) (\<lambda>xs. hash_insert xs (dr_hash_mask reg) dim bin_idx) of
                  None \<Rightarrow> None
                | Some xs \<Rightarrow>
                    let reg = grow_entries (ra_entries ra) (reg\<lparr>dr_slots := Some xs\<rparr>)
                    in if dr_count reg \<ge> dr_entries_cap reg then None
                    else map_option (\<lambda>es. Inr (reg\<lparr>dr_entries := Some (es @ [e])\<rparr>)) (dr_entries reg))))"

definition dim_registry_put :: "RegAlloc \<Rightarrow> 'b DimRegistry \<Rightarrow> int \<Rightarrow> 'b \<Rightarrow> (int \<times> 'b DimRegistry) option" where
  "dim_registry_put ra reg dim bin =
     (case dim_registry_find reg dim of
        None \<Rightarrow> None
      | Some (existing, reg) \<Rightarrow>
          if existing \<ge> 0 then Some (existing, reg)
          else let bin_idx = dr_count reg in
            case put_bin (ra_bins ra) reg bin of
              None \<Rightarrow> None
            | Some (Inl reg) \<Rightarrow> Some (- 1, reg)
            | Some (Inr reg) \<Rightarrow>
                (case put_entry ra reg dim bin_idx of
                   None \<Rightarrow> None
                 | Some (Inl reg) \<Rightarrow> Some (- 1, reg)
                 | Some (Inr reg) \<Rightarrow>
                     let reg = reg\<lparr>dr_count := dr_count reg + 1\<rparr> in
                     map_option (\<lambda>reg. (uint bin_idx, reg))
                       (if dr_mode reg = DIM_REG_LINEAR \<and> dr_count reg > DIM_REG_THRESHOLD_LINEAR
                        then upgrade_to_sorted (ra_upgrade ra) reg
                        else if dr_mode reg = DIM_REG_SORTED \<and> dr_count reg > DIM_REG_THRESHOLD_SORTED
                        then upgrade_to_hash (ra_slots ra) reg
                        else Some reg)))"

definition dim_registry_get_bin :: "'b DimRegistry \<Rightarrow> u16 \<Rightarrow> 'b option" where
  "dim_registry_get_bin reg bin_idx =
     (case dr_bins reg of
        Some bs \<Rightarrow> if unat bin_idx < length bs then Some (bs ! unat bin_idx) else None
      | None \<Rightarrow> None)"

definition dim_registry_count :: "'b DimRegistry \<Rightarrow> u16" where
  "dim_registry_count reg = dr_count reg"

subsection \<open>The map of a registry and its invariant\<close>

definition entry_pairs :: "DimRegEntry list \<Rightarrow> (int \<times> u16) list" where
  "entry_pairs es = map (\<lambda>e. (re_dim e, re_bin_idx e)) es"

definition reg_map :: "'b DimRegistry \<Rightarrow> (int \<rightharpoonup> u16)" where
  "reg_map reg = (case dr_entries reg of None \<Rightarrow> Map.empty | Some es \<Rightarrow> map_of (entry_pairs es))"

definition slots_ok :: "u16 \<Rightarrow> u16 \<Rightarrow> DimRegHashSlot list \<Rightarrow> (int \<times> u16) list \<Rightarrow> bool" where
  "slots_ok cap mask16 xs ps \<longleftrightarrow>
     length xs = unat cap \<and> mask16 = cap - 1 \<and> oa_inv rs_occ rs_dim dim_hash (ucast mask16) xs \<and>
     oa_map rs_occ rs_dim rs_bin_idx xs = map_of ps \<and> n_occ rs_occ xs = length ps"

definition entries_ok :: "u16 \<Rightarrow> DimRegEntry list \<Rightarrow> bool" where
  "entries_ok n es \<longleftrightarrow>
     length es = unat n \<and> distinct (map re_dim es) \<and> 0 \<notin> re_dim ` set es \<and>
     distinct (map re_bin_idx es) \<and> (\<forall>e \<in> set es. re_bin_idx e < n)"

definition mode_ok :: "'b DimRegistry \<Rightarrow> DimRegEntry list \<Rightarrow> bool" where
  "mode_ok reg es \<longleftrightarrow>
     (case dr_mode reg of
        DIM_REG_LINEAR \<Rightarrow> dr_count reg \<le> 8
      | DIM_REG_SORTED \<Rightarrow> dr_count reg \<le> 64 \<and> sorted_wrt (<) (map re_dim es)
      | DIM_REG_HASH \<Rightarrow>
          unat (dr_count reg) * 4 \<le> unat (dr_hash_cap reg) * 3 \<and> dr_count reg > 0 \<and>
          (\<exists>xs. dr_slots reg = Some xs \<and>
             slots_ok (dr_hash_cap reg) (dr_hash_mask reg) xs (entry_pairs es)))"

definition reg_inv :: "'b DimRegistry \<Rightarrow> bool" where
  "reg_inv reg \<longleftrightarrow>
     (\<exists>es bs. dr_entries reg = Some es \<and> dr_bins reg = Some bs \<and> entries_ok (dr_count reg) es \<and>
        length bs = unat (dr_count reg) \<and> unat (dr_count reg) \<le> 24576 \<and>
        dr_count reg \<le> dr_entries_cap reg \<and> 8 \<le> dr_entries_cap reg \<and>
        dr_count reg \<le> dr_capacity reg \<and> mode_ok reg es)"

interpretation dr: oa_table rs_occ rs_dim dim_hash rs_empty
  by unfold_locales (simp add: rs_occ_def rs_empty_def)

lemma linear_scan_map:
  "linear_scan es dim = (case map_of (entry_pairs es) dim of None \<Rightarrow> - 1 | Some i \<Rightarrow> uint i)"
  by (induction es dim rule: linear_scan.induct) (auto simp: entry_pairs_def)

lemma map_of_entry_pairs:
  assumes "distinct (map re_dim es)" and "i < length es"
  shows "map_of (entry_pairs es) (re_dim (es ! i)) = Some (re_bin_idx (es ! i))"
  using assms by (intro map_of_is_SomeI) (auto simp: entry_pairs_def o_def)

lemma sorted_find_map:
  assumes s: "sorted_wrt (<) (map re_dim es)" and len: "int (length es) = uint (dr_count reg)"
    and e: "dr_entries reg = Some es"
  shows "sorted_find reg dim = Some (case map_of (entry_pairs es) dim of None \<Rightarrow> - 1 | Some i \<Rightarrow> uint i)"
proof (cases "dr_count reg = 0")
  case True
  then show ?thesis
    using len by (simp add: sorted_find_def entry_pairs_def)
next
  case False
  have d: "distinct (map re_dim es)"
    using s by (simp add: strict_sorted_iff)
  have spec: "case bin_search re_dim es dim 0 (uint (dr_count reg) - 1) of
      Inl i \<Rightarrow> i < length es \<and> re_dim (es ! i) = dim
    | Inr i \<Rightarrow> i \<le> length es \<and> (\<forall>p \<in> set (take i es). re_dim p < dim) \<and> (\<forall>p \<in> set (drop i es). dim < re_dim p)"
    using len by (intro bin_search_spec [OF s]) auto
  show ?thesis
  proof (cases "bin_search re_dim es dim 0 (uint (dr_count reg) - 1)")
    case (Inl i)
    then show ?thesis
      using False e map_of_entry_pairs [OF d, of i] spec
      by (auto simp: sorted_find_def)
  next
    case (Inr i)
    have "dim \<notin> re_dim ` set (take i es @ drop i es)"
      using Inr spec
      unfolding set_append by auto
    then have "map_of (entry_pairs es) dim = None"
      by (auto simp: entry_pairs_def map_of_eq_None_iff)
    then show ?thesis
      using False e Inr by (simp add: sorted_find_def)
  qed
qed

lemma slots_ok_mask:
  assumes "slots_ok cap mask16 xs ps"
  shows "Suc (unat (ucast mask16 :: u32)) = length xs"
  using assms pow2_mask_unat by (auto simp: slots_ok_def oa_inv_def)

lemma hash_find_map:
  assumes "dr_slots reg = Some xs" and ok: "slots_ok (dr_hash_cap reg) (dr_hash_mask reg) xs ps"
  shows "hash_find reg dim = Some (case map_of ps dim of None \<Rightarrow> - 1 | Some i \<Rightarrow> uint i)"
proof -
  let ?m = "ucast (dr_hash_mask reg) :: u32"
  let ?p = "probe (\<lambda>s. \<not> rs_occ s \<or> rs_dim s = dim) xs ?m (length xs) (dim_hash dim AND ?m)"
  have inv: "oa_inv rs_occ rs_dim dim_hash ?m xs" and map: "oa_map rs_occ rs_dim rs_bin_idx xs = map_of ps"
    using ok by (auto simp: slots_ok_def)
  have eq: "hash_find reg dim =
      (case ?p of None \<Rightarrow> Some (- 1)
       | Some i \<Rightarrow> Some (if rs_occ (xs ! unat i) then uint (rs_bin_idx (xs ! unat i)) else - 1))"
    using slots_ok_mask [OF ok] assms(1) by (simp add: hash_find_def Let_def)
  show ?thesis
  proof (cases ?p)
    case None
    then show ?thesis
      using dr.map_find_full [OF inv None, of rs_bin_idx] map eq by simp
  next
    case (Some i)
    then show ?thesis
      using dr.map_find [OF inv Some, of rs_bin_idx] map eq by simp
  qed
qed

lemma dim_registry_find_inv:
  assumes "reg_inv reg"
  shows "dim_registry_find reg dim =
    Some (case reg_map reg dim of None \<Rightarrow> - 1 | Some i \<Rightarrow> uint i, reg\<lparr>dr_lookups := dr_lookups reg + 1\<rparr>)"
proof -
  obtain es where es: "dr_entries reg = Some es" "entries_ok (dr_count reg) es" "mode_ok reg es"
    using assms by (auto simp: reg_inv_def)
  have rm: "reg_map reg = map_of (entry_pairs es)"
    using es(1) by (simp add: reg_map_def)
  let ?reg = "reg\<lparr>dr_lookups := dr_lookups reg + 1\<rparr>"
  show ?thesis
  proof (cases "dr_mode reg")
    case DIM_REG_LINEAR
    moreover have "linear_find ?reg dim = Some (linear_scan es dim)"
      using es(1,2) by (auto simp: linear_find_def entries_ok_def)
    ultimately show ?thesis
      by (simp add: dim_registry_find_def Let_def rm linear_scan_map)
  next
    case DIM_REG_SORTED
    moreover have "int (length es) = uint (dr_count reg)"
      using es(2) by (simp add: entries_ok_def)
    ultimately show ?thesis
      using es sorted_find_map [of es ?reg dim] by (simp add: dim_registry_find_def Let_def rm mode_ok_def)
  next
    case DIM_REG_HASH
    then obtain xs where "dr_slots reg = Some xs" "slots_ok (dr_hash_cap reg) (dr_hash_mask reg) xs (entry_pairs es)"
      using es(3) by (auto simp: mode_ok_def)
    then show ?thesis
      using DIM_REG_HASH hash_find_map [of ?reg xs "entry_pairs es" dim]
      by (simp add: dim_registry_find_def Let_def rm)
  qed
qed

subsection \<open>Registration\<close>

lemma map_of_append_new:
  "dim \<notin> fst ` set ps \<Longrightarrow> map_of (ps @ [(dim, i)]) = (map_of ps)(dim \<mapsto> i)"
  by (induction ps) (auto simp: fun_upd_twist)

lemma hash_insert_ok:
  assumes ok: "slots_ok cap mask16 xs ps" and new: "dim \<notin> fst ` set ps" "dim \<noteq> 0"
    and room: "length ps < unat cap"
  shows "\<exists>ys. hash_insert xs mask16 dim i = Some ys \<and> slots_ok cap mask16 ys (ps @ [(dim, i)])"
proof -
  let ?m = "ucast mask16 :: u32"
  let ?s = "\<lparr>rs_dim = dim, rs_bin_idx = i\<rparr>"
  let ?p = "probe (\<lambda>s. \<not> rs_occ s \<or> rs_dim s = dim) xs ?m (length xs) (dim_hash dim AND ?m)"
  have inv: "oa_inv rs_occ rs_dim dim_hash ?m xs" and map: "oa_map rs_occ rs_dim rs_bin_idx xs = map_of ps"
    and len: "length xs = unat cap" and n: "n_occ rs_occ xs = length ps"
    using ok by (auto simp: slots_ok_def)
  have pm: "pow2_mask (length xs) ?m"
    using inv by (simp add: oa_inv_def)
  have k: "dim \<notin> oa_keys rs_occ rs_dim xs"
    using new(1) map oa_map_None_iff [of rs_occ rs_dim rs_bin_idx xs dim] by (simp add: map_of_eq_None_iff)
  obtain p where p: "p < length xs" "\<not> rs_occ (xs ! p)"
    using n_occ_free [of rs_occ xs] room n len by auto
  obtain h where h: "?p = Some h"
    using dr.find_terminates [OF pm p(1), where stop = "\<lambda>s. \<not> rs_occ s \<or> rs_dim s = dim"] p(2)
      pow2_mask_and_less [OF pm] by blast
  have s: "rs_occ ?s" "rs_dim ?s = dim"
    using new(2) by (auto simp: rs_occ_def)
  have free: "\<not> rs_occ (xs ! unat h)"
    by (rule dr.find_miss [OF inv k h])
  have "hash_insert xs mask16 dim i = Some (xs[unat h := ?s])"
    using slots_ok_mask [OF ok] h dr.probe_free_eq [OF inv k] by (simp add: hash_insert_def Let_def)
  moreover have "oa_map rs_occ rs_dim rs_bin_idx (xs[unat h := ?s]) = map_of (ps @ [(dim, i)])"
    using dr.map_store [OF inv h s, of rs_bin_idx] map map_of_append_new [OF new(1)] by simp
  moreover have "n_occ rs_occ (xs[unat h := ?s]) = Suc (length ps)"
    using dr.n_occ_store [OF inv h s(1)] free n by simp
  ultimately show ?thesis
    using dr.inv_store [OF inv h s] ok by (auto simp: slots_ok_def)
qed

lemma hash_insert_all_ok:
  assumes "slots_ok cap mask16 xs ps" and "distinct (map fst (ps @ qs))" and "0 \<notin> fst ` set qs"
    and "length (ps @ qs) \<le> unat cap"
  shows "\<exists>ys. hash_insert_all xs mask16 qs = Some ys \<and> slots_ok cap mask16 ys (ps @ qs)"
  using assms
proof (induction xs mask16 qs arbitrary: ps rule: hash_insert_all.induct)
  case (2 xs mask16 dim i qs)
  obtain ys where ys: "hash_insert xs mask16 dim i = Some ys" "slots_ok cap mask16 ys (ps @ [(dim, i)])"
    using hash_insert_ok [OF "2.prems"(1), of dim i] "2.prems"(2-4) by auto
  show ?case
    using "2.IH" [OF ys(1,2)] "2.prems"(2-4) ys(1) by simp
qed simp

lemma slots_ok_fresh:
  assumes "k < 16" and "cap = 2 ^ k"
  shows "slots_ok cap (cap - 1) (replicate (unat cap) rs_empty) []"
proof -
  have c: "unat cap = 2 ^ k"
    using assms by (simp add: unat_exp)
  have "unat (ucast (cap - 1) :: u32) = unat (2 ^ k - 1 :: u32)"
  proof -
    have "unat (cap - 1) = 2 ^ k - 1" and "unat (2 ^ k - 1 :: u32) = 2 ^ k - 1"
      using assms by (simp_all add: unat_exp_minus_1)
    moreover have "2 ^ k - 1 < (2 :: nat) ^ 32"
      using assms(1) power_strict_increasing [of k 32 "2 :: nat"] by linarith
    ultimately show ?thesis
      by (simp add: unsigned_ucast_eq take_bit_nat_def)
  qed
  then have "ucast (cap - 1) = (2 ^ k - 1 :: u32)"
    by (simp only: word_unat_eq_iff)
  then have "pow2_mask (unat cap) (ucast (cap - 1))"
    using assms(1) c by (auto intro: pow2_maskI [of k])
  then show ?thesis
    by (simp add: slots_ok_def dr.inv_fresh dr.map_fresh dr.n_occ_fresh)
qed

lemma insort_key_snoc: "f x < f y \<Longrightarrow> insort_key f x (xs @ [y]) = insort_key f x xs @ [y]"
  by (induction xs) auto

lemma insort_key_last: "\<forall>y \<in> set xs. f y < f x \<Longrightarrow> insort_key f x xs = xs @ [x]"
  by (induction xs) auto

lemma shift_down_ok:
  assumes "j < length es" and "sorted_wrt (<) (map re_dim (take j es))" and "re_dim tmp \<notin> re_dim ` set (take j es)"
  shows "take (Suc j) (shift_down es tmp j) = insort_key re_dim tmp (take j es)"
    and "drop (Suc j) (shift_down es tmp j) = drop (Suc j) es"
proof -
  have "take (Suc j) (shift_down es tmp j) = insort_key re_dim tmp (take j es) \<and>
    drop (Suc j) (shift_down es tmp j) = drop (Suc j) es"
    using assms
  proof (induction j arbitrary: es)
    case 0
    then show ?case
      by (cases es) auto
  next
    case (Suc j)
    have tk: "take (Suc j) es = take j es @ [es ! j]"
      using Suc.prems(1) by (simp add: take_Suc_conv_app_nth)
    show ?case
    proof (cases "re_dim (es ! j) > re_dim tmp")
      case True
      let ?es = "es[Suc j := es ! j]"
      have "take (Suc j) (shift_down ?es tmp j) = insort_key re_dim tmp (take j es)"
        and d: "drop (Suc j) (shift_down ?es tmp j) = drop (Suc j) ?es"
        using Suc.IH [of ?es] Suc.prems tk by (auto simp: sorted_wrt_append)
      moreover have de: "drop (Suc j) ?es = es ! j # drop (Suc (Suc j)) es"
        using Suc.prems(1) by (simp flip: Cons_nth_drop_Suc)
      moreover have tl: "drop (Suc (Suc j)) (shift_down ?es tmp j) = tl (drop (Suc j) (shift_down ?es tmp j))"
        by (simp add: tl_drop drop_Suc)
      moreover have "take (Suc (Suc j)) (shift_down ?es tmp j) =
          take (Suc j) (shift_down ?es tmp j) @ take 1 (drop (Suc j) (shift_down ?es tmp j))"
        by (simp add: take_add [of "Suc j" 1, simplified])
      moreover have "insort_key re_dim tmp (take j es @ [es ! j]) = insort_key re_dim tmp (take j es) @ [es ! j]"
        using True by (rule insort_key_snoc)
      ultimately show ?thesis
        using True tk tl by simp
    next
      case False
      have "re_dim (es ! j) < re_dim tmp"
        using False Suc.prems(3) tk by (metis image_insert insertI1 linorder_neqE list.simps(15) rotate1.simps(2) set_rotate1)
      then have "\<forall>y \<in> set (take (Suc j) es). re_dim y < re_dim tmp"
        using Suc.prems(2) unfolding tk by (auto simp: sorted_wrt_append)
      then have "insort_key re_dim tmp (take (Suc j) es) = take (Suc j) es @ [tmp]"
        by (rule insort_key_last)
      then show ?thesis
        using False Suc.prems(1) by (simp add: take_Suc_conv_app_nth)
    qed
  qed
  then show "take (Suc j) (shift_down es tmp j) = insort_key re_dim tmp (take j es)"
    and "drop (Suc j) (shift_down es tmp j) = drop (Suc j) es"
    by auto
qed

lemma mset_insort: "mset (insort_key f x xs) = add_mset x (mset xs)"
  by (induction xs) auto

lemma sorted_insort_dims:
  assumes "sorted_wrt (<) (map re_dim es)" and "re_dim e \<notin> re_dim ` set es"
  shows "sorted_wrt (<) (map re_dim (insort_key re_dim e es))"
proof -
  have "mset (map re_dim (insort_key re_dim e es)) = mset (map re_dim (e # es))"
    by (simp add: mset_insort)
  then have "distinct (map re_dim (insort_key re_dim e es))"
    using assms by (metis distinct.simps(2) list.set_map list.simps(9) mset_eq_imp_distinct_iff strict_sorted_iff)
  then show ?thesis
    using assms(1) by (simp add: strict_sorted_iff sorted_insort_key)
qed

lemma insertion_sort_prefix:
  assumes "distinct (map re_dim es)" and "k < length es"
  shows "let r = foldl (\<lambda>es i. shift_down es (es ! i) i) es [1..<Suc k] in
    mset r = mset es \<and> sorted_wrt (<) (map re_dim (take (Suc k) r))"
  using assms(2)
proof (induction k)
  case 0
  then show ?case
    by (cases es) auto
next
  case (Suc k)
  let ?f = "\<lambda>es i. shift_down es (es ! i) i"
  define r where "r = foldl ?f es [1..<Suc k]"
  have IH: "mset r = mset es" "sorted_wrt (<) (map re_dim (take (Suc k) r))"
    using Suc by (simp_all add: r_def Let_def)
  have len: "length r = length es"
    using IH(1) by (rule mset_eq_length)
  have "distinct (map re_dim r)"
    using assms(1) IH(1) by (metis mset_eq_imp_distinct_iff mset_map)
  moreover have "r = take (Suc k) r @ r ! Suc k # drop (Suc (Suc k)) r"
    using Suc.prems len by (simp add: id_take_nth_drop)
  ultimately have new: "re_dim (r ! Suc k) \<notin> re_dim ` set (take (Suc k) r)"
    by (metis (no_types, lifting) disjoint_iff distinct_append list.set_intros(1) list.simps(9) map_append set_map)
  let ?s = "shift_down r (r ! Suc k) (Suc k)"
  have s: "take (Suc (Suc k)) ?s = insort_key re_dim (r ! Suc k) (take (Suc k) r)"
    "drop (Suc (Suc k)) ?s = drop (Suc (Suc k)) r"
    using shift_down_ok [OF _ IH(2) new] Suc.prems len by auto
  have "mset ?s = mset (take (Suc (Suc k)) ?s) + mset (drop (Suc (Suc k)) ?s)"
    by (simp flip: mset_append)
  also have "\<dots> = mset (take (Suc k) r @ r ! Suc k # drop (Suc (Suc k)) r)"
    by (simp only: s) (simp add: mset_insort)
  also have "\<dots> = mset es"
    using Suc.prems len IH(1) by (simp flip: id_take_nth_drop)
  finally have "mset ?s = mset es" .
  moreover have "sorted_wrt (<) (map re_dim (take (Suc (Suc k)) ?s))"
    unfolding s using IH(2) new by (rule sorted_insort_dims)
  moreover have "foldl ?f es [1..<Suc (Suc k)] = ?s"
    by (simp add: r_def)
  ultimately show ?case
    by (simp only: Let_def simp_thms)
qed

lemma insertion_sort_ok:
  assumes "distinct (map re_dim es)"
  shows "mset (insertion_sort es) = mset es" and "sorted_wrt (<) (map re_dim (insertion_sort es))"
proof -
  have "mset (insertion_sort es) = mset es \<and> sorted_wrt (<) (map re_dim (insertion_sort es))"
  proof (cases "es = []")
    case False
    define k where "k = length es - 1"
    have k: "length es = Suc k"
      using False by (simp add: k_def)
    have "length (insertion_sort es) = length es" if "mset (insertion_sort es) = mset es"
      using that by (rule mset_eq_length)
    then show ?thesis
      using insertion_sort_prefix [OF assms, of k] k by (simp add: insertion_sort_def Let_def del: upt_Suc)
  qed (simp add: insertion_sort_def)
  then show "mset (insertion_sort es) = mset es" and "sorted_wrt (<) (map re_dim (insertion_sort es))"
    by auto
qed

lemma sorted_insert_eq: "sorted_insert es dim i = insort_key re_dim \<lparr>re_dim = dim, re_bin_idx = i\<rparr> es"
  by (induction es) (auto simp: sorted_insert_def Let_def)

lemma map_of_entry_pairs_mset:
  assumes "distinct (map re_dim es)" and "mset es' = mset es"
  shows "map_of (entry_pairs es') = map_of (entry_pairs es)"
proof -
  have "distinct (map re_dim es')"
    using assms by (metis mset_eq_imp_distinct_iff mset_map)
  then show ?thesis
    using assms mset_eq_setD [OF assms(2)]
    by (subst map_of_inject_set) (simp_all add: entry_pairs_def o_def)
qed

lemma entries_ok_mset: "entries_ok n es \<Longrightarrow> mset es' = mset es \<Longrightarrow> entries_ok n es'"
  unfolding entries_ok_def using mset_eq_setD [of es' es] mset_eq_length [of es' es]
  by (metis mset_eq_imp_distinct_iff mset_map)

lemma entries_ok_new:
  assumes ok: "entries_ok n es" and n: "unat n < 24576"
    and new: "dim \<notin> re_dim ` set es" "dim \<noteq> 0"
  shows "entries_ok (n + 1) (es @ [\<lparr>re_dim = dim, re_bin_idx = n\<rparr>])"
    and "map_of (entry_pairs (es @ [\<lparr>re_dim = dim, re_bin_idx = n\<rparr>])) = (map_of (entry_pairs es))(dim \<mapsto> n)"
proof -
  have s: "unat (n + 1) = Suc (unat n)"
    using n by (simp add: unat_word_ariths)
  have lt: "\<forall>e \<in> set es. re_bin_idx e < n"
    using ok by (simp add: entries_ok_def)
  then have "n \<notin> re_bin_idx ` set es"
    by auto
  moreover have "\<forall>e \<in> set es. re_bin_idx e < n + 1" and "n < n + 1"
    using lt s by (auto simp: word_less_nat_alt)
  ultimately show "entries_ok (n + 1) (es @ [\<lparr>re_dim = dim, re_bin_idx = n\<rparr>])"
    using ok new s by (auto simp: entries_ok_def)
  show "map_of (entry_pairs (es @ [\<lparr>re_dim = dim, re_bin_idx = n\<rparr>])) = (map_of (entry_pairs es))(dim \<mapsto> n)"
    using new(1) map_of_append_new [of dim "entry_pairs es" n] by (force simp: entry_pairs_def)
qed

lemma put_bin_ok:
  assumes "dr_bins reg = Some bs" and "length bs = unat (dr_count reg)"
    and "dr_count reg \<le> dr_capacity reg" and "unat (dr_count reg) < 24576"
  shows "\<exists>cap. put_bin True reg bin = Some (Inr (reg\<lparr>dr_capacity := cap, dr_bins := Some (bs @ [bin])\<rparr>)) \<and>
    dr_count reg < cap"
proof (cases "dr_count reg < dr_capacity reg")
  case True
  then show ?thesis
    using assms by (intro exI [of _ "dr_capacity reg"]) (auto simp: put_bin_def Let_def)
next
  case False
  then have eq: "dr_capacity reg = dr_count reg"
    using assms(3) by simp
  let ?c = "if dr_capacity reg * 2 < 16 then 16 else dr_capacity reg * 2"
  have "dr_count reg < ?c"
  proof (cases "dr_count reg = 0")
    case nz: False
    have "unat (dr_count reg * 2) = unat (dr_count reg) * 2"
      using assms(4) by (simp add: unat_word_ariths)
    moreover have "0 < unat (dr_count reg)"
      using nz by (simp add: unat_gt_0)
    ultimately show ?thesis
      using eq by (auto simp: word_less_nat_alt)
  qed (simp add: eq)
  moreover from this have "length bs \<le> unat ?c"
    using assms(2) by (simp add: word_less_nat_alt)
  ultimately show ?thesis
    using assms(1,2) eq by (intro exI [of _ ?c]) (auto simp: put_bin_def Let_def)
qed

lemma grow_entries_ok:
  assumes "dr_entries reg = Some es" and "dr_count reg \<le> dr_entries_cap reg" and "8 \<le> dr_entries_cap reg"
    and "unat (dr_count reg) < 24576"
  shows "\<exists>cap. grow_entries True reg = reg\<lparr>dr_entries_cap := cap, dr_entries := Some es\<rparr> \<and>
    dr_count reg < cap \<and> 8 \<le> cap"
proof (cases "dr_count reg < dr_entries_cap reg")
  case True
  then show ?thesis
    using assms by (intro exI [of _ "dr_entries_cap reg"]) (auto simp: grow_entries_def)
next
  case False
  then have eq: "dr_entries_cap reg = dr_count reg"
    using assms(2) by simp
  have "unat (dr_count reg * 2) = unat (dr_count reg) * 2"
    using assms(4) by (simp add: unat_word_ariths)
  moreover have "8 \<le> unat (dr_count reg)"
    using assms(3) eq by (simp add: word_le_nat_alt)
  ultimately show ?thesis
    using assms(1) eq
    by (intro exI [of _ "dr_entries_cap reg * 2"]) (auto simp: grow_entries_def word_less_nat_alt word_le_nat_alt)
qed

lemma hash_full_iff:
  "(ucast (c :: u16) + 1) * 4 > (ucast (d :: u16) :: u32) * 3 \<longleftrightarrow> (unat c + 1) * 4 > unat d * 3"
proof -
  have "unat c < 2 ^ 16" "unat d < 2 ^ 16"
    using unsigned_less [of c] unsigned_less [of d] by simp_all
  then show ?thesis
    by (simp add: word_less_nat_alt unat_word_ariths unsigned_ucast_eq take_bit_nat_def) presburger
qed

lemma hash_grow_ok:
  assumes xs: "dr_slots reg = Some xs" and ok: "slots_ok (dr_hash_cap reg) (dr_hash_mask reg) xs ps"
    and cap: "unat (dr_hash_cap reg) < 32768" and nz: "0 \<notin> fst ` set ps"
  shows "\<exists>ys. hash_grow True reg = Some (reg\<lparr>dr_slots := Some ys, dr_hash_cap := dr_hash_cap reg * 2,
      dr_hash_mask := dr_hash_cap reg * 2 - 1\<rparr>) \<and>
    slots_ok (dr_hash_cap reg * 2) (dr_hash_cap reg * 2 - 1) ys ps \<and>
    unat (dr_hash_cap reg * 2) = unat (dr_hash_cap reg) * 2"
proof -
  let ?cap = "dr_hash_cap reg"
  let ?qs = "map (\<lambda>s. (rs_dim s, rs_bin_idx s)) (filter rs_occ xs)"
  have inv: "oa_inv rs_occ rs_dim dim_hash (ucast (dr_hash_mask reg)) xs"
    and map: "map_of ?qs = map_of ps" and len: "length xs = unat ?cap" and n: "length ?qs = length ps"
    using ok by (auto simp: slots_ok_def oa_map_def n_occ_def)
  obtain k where k: "unat ?cap = 2 ^ k"
    using inv len by (auto simp: oa_inv_def pow2_mask_def)
  have "k < 15"
    using cap k power_increasing [of 15 k "2 :: nat"] by (cases "k < 15") auto
  have c: "?cap * 2 = 2 ^ Suc k"
  proof -
    have "of_nat (unat ?cap) = ?cap"
      by simp
    then show ?thesis
      unfolding k by simp
  qed
  have c2: "unat (?cap * 2) = unat ?cap * 2"
    using cap by (simp add: unat_word_ariths)
  have "distinct (map fst ?qs)"
    using inv by (simp add: oa_inv_def uniq_keys_distinct o_def)
  moreover have "0 \<notin> fst ` set ?qs"
    using nz map by (metis map_of_eq_None_iff)
  moreover have "length ?qs \<le> unat (?cap * 2)"
    using n_occ_le [of rs_occ xs] len c2 by (simp add: n_occ_def)
  ultimately obtain ys where ys: "hash_insert_all (replicate (unat (?cap * 2)) rs_empty) (?cap * 2 - 1) ?qs = Some ys"
      "slots_ok (?cap * 2) (?cap * 2 - 1) ys ?qs"
    using hash_insert_all_ok [OF slots_ok_fresh [of "Suc k" "?cap * 2"], of ?qs] \<open>k < 15\<close> c by auto
  then have "slots_ok (?cap * 2) (?cap * 2 - 1) ys ps"
    using map n by (auto simp: slots_ok_def)
  then show ?thesis
    using ys(1) xs c2 by (auto simp: hash_grow_def Let_def)
qed

definition reg_ok :: "RegAlloc \<Rightarrow> bool" where
  "reg_ok ra \<longleftrightarrow> ra_bins ra \<and> ra_entries ra \<and> ra_slots ra \<and> ra_upgrade ra"

lemma entry_pairs_snoc: "entry_pairs (es @ [e]) = entry_pairs es @ [(re_dim e, re_bin_idx e)]"
  by (simp add: entry_pairs_def)

lemma fst_entry_pairs: "fst ` set (entry_pairs es) = re_dim ` set es"
  by (force simp: entry_pairs_def)

text \<open>The new dimension in each of the three structures; \<open>es\<close> are the entries before.\<close>

lemma put_entry_ok:
  assumes es: "dr_entries reg = Some es" "entries_ok (dr_count reg) es" and mode: "mode_ok reg es"
    and cap: "dr_count reg \<le> dr_entries_cap reg" "8 \<le> dr_entries_cap reg" and n: "unat (dr_count reg) < 24576"
    and new: "dim \<notin> re_dim ` set es" "dim \<noteq> 0" and ra: "reg_ok ra"
  defines "e \<equiv> \<lparr>re_dim = dim, re_bin_idx = dr_count reg\<rparr>"
  shows "\<exists>reg' es'. put_entry ra reg dim (dr_count reg) = Some (Inr reg') \<and> dr_entries reg' = Some es' \<and>
    mset es' = add_mset e (mset es) \<and> dr_count reg' = dr_count reg \<and> dr_capacity reg' = dr_capacity reg \<and>
    dr_bins reg' = dr_bins reg \<and> dr_mode reg' = dr_mode reg \<and>
    dr_count reg < dr_entries_cap reg' \<and> 8 \<le> dr_entries_cap reg' \<and>
    (dr_mode reg = DIM_REG_SORTED \<longrightarrow> sorted_wrt (<) (map re_dim es')) \<and>
    (dr_mode reg = DIM_REG_HASH \<longrightarrow> (unat (dr_count reg) + 1) * 4 \<le> unat (dr_hash_cap reg') * 3 \<and>
      (\<exists>xs. dr_slots reg' = Some xs \<and> slots_ok (dr_hash_cap reg') (dr_hash_mask reg') xs (entry_pairs es')))"
proof (cases "dr_mode reg")
  case DIM_REG_LINEAR
  obtain c where "grow_entries True reg = reg\<lparr>dr_entries_cap := c, dr_entries := Some es\<rparr>" "dr_count reg < c" "8 \<le> c"
    using grow_entries_ok [OF es(1) cap n] by auto
  then show ?thesis
    using DIM_REG_LINEAR ra
    by (intro exI [of _ "reg\<lparr>dr_entries_cap := c, dr_entries := Some (es @ [e])\<rparr>"] exI [of _ "es @ [e]"])
      (simp add: put_entry_def reg_ok_def Let_def e_def)
next
  case DIM_REG_SORTED
  obtain c where "grow_entries True reg = reg\<lparr>dr_entries_cap := c, dr_entries := Some es\<rparr>" "dr_count reg < c" "8 \<le> c"
    using grow_entries_ok [OF es(1) cap n] by auto
  moreover have "sorted_wrt (<) (map re_dim (insort_key re_dim e es))"
    using mode DIM_REG_SORTED new(1) by (intro sorted_insort_dims) (auto simp: mode_ok_def e_def)
  ultimately show ?thesis
    using DIM_REG_SORTED ra
    by (intro exI [of _ "reg\<lparr>dr_entries_cap := c, dr_entries := Some (insort_key re_dim e es)\<rparr>"]
          exI [of _ "insort_key re_dim e es"])
      (simp add: put_entry_def reg_ok_def Let_def e_def sorted_insert_eq mset_insort)
next
  case DIM_REG_HASH
  then obtain xs where xs: "dr_slots reg = Some xs"
      "slots_ok (dr_hash_cap reg) (dr_hash_mask reg) xs (entry_pairs es)"
      and fill: "unat (dr_count reg) * 4 \<le> unat (dr_hash_cap reg) * 3" "dr_count reg > 0"
    using mode by (auto simp: mode_ok_def)
  have nz: "0 \<notin> fst ` set (entry_pairs es)"
    using es(2) by (simp add: entries_ok_def fst_entry_pairs)
  let ?full = "(unat (dr_count reg) + 1) * 4 > unat (dr_hash_cap reg) * 3"
  obtain r1 x1 where r1: "(if ?full then hash_grow True reg else Some reg) = Some r1"
      "dr_slots r1 = Some x1" "slots_ok (dr_hash_cap r1) (dr_hash_mask r1) x1 (entry_pairs es)"
      "(unat (dr_count reg) + 1) * 4 \<le> unat (dr_hash_cap r1) * 3"
      "dr_entries r1 = dr_entries reg" "dr_entries_cap r1 = dr_entries_cap reg" "dr_count r1 = dr_count reg"
      "dr_capacity r1 = dr_capacity reg" "dr_bins r1 = dr_bins reg" "dr_mode r1 = dr_mode reg"
  proof (cases ?full)
    case True
    moreover have "unat (dr_hash_cap reg) < 32768"
      using True n by presburger
    moreover have "0 < unat (dr_count reg)"
      using fill(2) by (simp add: word_less_nat_alt)
    ultimately obtain ys where "hash_grow True reg = Some (reg\<lparr>dr_slots := Some ys,
          dr_hash_cap := dr_hash_cap reg * 2, dr_hash_mask := dr_hash_cap reg * 2 - 1\<rparr>)"
        "slots_ok (dr_hash_cap reg * 2) (dr_hash_cap reg * 2 - 1) ys (entry_pairs es)"
        "unat (dr_hash_cap reg * 2) = unat (dr_hash_cap reg) * 2" "0 < unat (dr_count reg)"
      using hash_grow_ok [OF xs _ nz] by blast
    then show ?thesis
      using True fill(1)
      by (intro that [of "reg\<lparr>dr_slots := Some ys, dr_hash_cap := dr_hash_cap reg * 2,
            dr_hash_mask := dr_hash_cap reg * 2 - 1\<rparr>" ys]) auto
  next
    case False
    then show ?thesis
      using xs by (intro that [of reg xs]) auto
  qed
  have len: "length (entry_pairs es) = unat (dr_count reg)"
    using es(2) by (simp add: entries_ok_def entry_pairs_def)
  obtain x2 where x2: "hash_insert x1 (dr_hash_mask r1) dim (dr_count reg) = Some x2"
      "slots_ok (dr_hash_cap r1) (dr_hash_mask r1) x2 (entry_pairs es @ [(dim, dr_count reg)])"
    using hash_insert_ok [OF r1(3), of dim] new r1(4) len by (auto simp: fst_entry_pairs)
  obtain c where c: "grow_entries True (r1\<lparr>dr_slots := Some x2\<rparr>) =
        r1\<lparr>dr_slots := Some x2, dr_entries_cap := c, dr_entries := Some es\<rparr>" "dr_count reg < c" "8 \<le> c"
    using grow_entries_ok [of "r1\<lparr>dr_slots := Some x2\<rparr>" es] es(1) cap n r1 by auto
  have "put_entry ra reg dim (dr_count reg) =
      Some (Inr (r1\<lparr>dr_slots := Some x2, dr_entries_cap := c, dr_entries := Some (es @ [e])\<rparr>))"
    unfolding put_entry_def hash_full_iff using DIM_REG_HASH r1(1,2,7) x2(1) c ra
    by (cases ?full) (simp_all add: reg_ok_def Let_def e_def not_le)
  then show ?thesis
    using r1(4,7-10) x2(2) c(2,3) DIM_REG_HASH
    by (intro exI [of _ "r1\<lparr>dr_slots := Some x2, dr_entries_cap := c, dr_entries := Some (es @ [e])\<rparr>"]
          exI [of _ "es @ [e]"]) (simp add: entry_pairs_snoc e_def)
qed

text \<open>The upgrade step after the count went up; at most one of the two structures is left behind.\<close>

lemma upgrade_ok:
  assumes es: "dr_entries reg = Some es" "entries_ok (dr_count reg) es"
    and bs: "dr_bins reg = Some bs" "length bs = unat (dr_count reg)"
    and n: "unat (dr_count reg) \<le> 24576"
    and cap: "dr_count reg \<le> dr_entries_cap reg" "8 \<le> dr_entries_cap reg" "dr_count reg \<le> dr_capacity reg"
    and lin: "dr_mode reg = DIM_REG_LINEAR \<longrightarrow> dr_count reg \<le> 9"
    and sorted: "dr_mode reg = DIM_REG_SORTED \<longrightarrow> dr_count reg \<le> 65 \<and> sorted_wrt (<) (map re_dim es)"
    and hash: "dr_mode reg = DIM_REG_HASH \<longrightarrow> mode_ok reg es"
  shows "\<exists>reg'. (if dr_mode reg = DIM_REG_LINEAR \<and> dr_count reg > DIM_REG_THRESHOLD_LINEAR
       then upgrade_to_sorted True reg
       else if dr_mode reg = DIM_REG_SORTED \<and> dr_count reg > DIM_REG_THRESHOLD_SORTED
       then upgrade_to_hash True reg else Some reg) = Some reg' \<and>
     reg_inv reg' \<and> reg_map reg' = reg_map reg \<and> dr_bins reg' = dr_bins reg"
proof -
  have d: "distinct (map re_dim es)"
    using es(2) by (simp add: entries_ok_def)
  consider (up1) "dr_mode reg = DIM_REG_LINEAR" "dr_count reg > 8"
    | (up2) "dr_mode reg = DIM_REG_SORTED" "dr_count reg > 64"
    | (none) "mode_ok reg es" "\<not> (dr_mode reg = DIM_REG_LINEAR \<and> dr_count reg > 8)"
        "\<not> (dr_mode reg = DIM_REG_SORTED \<and> dr_count reg > 64)"
    using sorted hash
    by (cases "dr_mode reg"; cases "dr_count reg > 8"; cases "dr_count reg > 64") (auto simp: mode_ok_def not_less)
  then show ?thesis
  proof cases
    case up1
    let ?r = "reg\<lparr>dr_entries_cap := (if dr_entries_cap reg < 64 then 64 else dr_entries_cap reg),
        dr_entries := Some (insertion_sort es), dr_mode := DIM_REG_SORTED, dr_upgrades := dr_upgrades reg + 1\<rparr>"
    have "upgrade_to_sorted True reg = Some ?r"
      using es(1) by (simp add: upgrade_to_sorted_def Let_def DIM_REG_THRESHOLD_SORTED_def)
    moreover have "dr_count reg \<le> 64"
      using lin up1(1) by (auto simp: word_le_nat_alt)
    then have "reg_inv ?r"
      using bs n cap insertion_sort_ok [OF d] entries_ok_mset [OF es(2)]
      by (auto simp: reg_inv_def mode_ok_def not_less)
    moreover have "reg_map ?r = reg_map reg"
      using map_of_entry_pairs_mset [OF d insertion_sort_ok(1) [OF d]] es(1) by (simp add: reg_map_def)
    ultimately show ?thesis
      using up1 by (simp add: DIM_REG_THRESHOLD_LINEAR_def)
  next
    case up2
    have "unat (dr_count reg) = 65"
      using sorted up2 by (auto simp: word_le_nat_alt word_less_nat_alt)
    then have c: "dr_count reg = 65"
      by (simp add: word_unat_eq_iff)
    have cap512: "(let cap0 = next_pow2_u16 (dr_count reg * 4) in if cap0 < 128 then 128 else cap0) = 512"
      unfolding c by code_simp
    have ps: "length (entry_pairs es) = 65" "distinct (map fst (entry_pairs es))" "0 \<notin> fst ` set (entry_pairs es)"
      using es(2) c by (simp_all add: entries_ok_def entry_pairs_def o_def image_image)
    obtain xs where xs: "hash_insert_all (replicate (unat (512 :: u16)) rs_empty) (512 - 1) (entry_pairs es) = Some xs"
        "slots_ok 512 (512 - 1) xs (entry_pairs es)"
      using hash_insert_all_ok [OF slots_ok_fresh [of 9 512], of "entry_pairs es"] ps by auto
    let ?r = "reg\<lparr>dr_slots := Some xs, dr_hash_cap := 512, dr_hash_mask := 512 - 1,
        dr_mode := DIM_REG_HASH, dr_upgrades := dr_upgrades reg + 1\<rparr>"
    have "upgrade_to_hash True reg = Some ?r"
      using es(1) xs(1) cap512 by (simp add: upgrade_to_hash_def Let_def entry_pairs_def)
    moreover have "reg_inv ?r"
      using es bs n cap xs(2) c by (auto simp: reg_inv_def mode_ok_def)
    moreover have "reg_map ?r = reg_map reg"
      by (simp add: reg_map_def)
    ultimately show ?thesis
      using up2 by (simp add: DIM_REG_THRESHOLD_SORTED_def)
  next
    case none
    then show ?thesis
      using es bs n cap
      by (auto simp: DIM_REG_THRESHOLD_SORTED_def DIM_REG_THRESHOLD_LINEAR_def reg_inv_def)
  qed
qed

lemma reg_inv_init: "reg_inv (dim_registry_init True True)"
  by (simp add: reg_inv_def dim_registry_init_def entries_ok_def mode_ok_def DIM_REG_THRESHOLD_LINEAR_def)

lemma reg_map_init: "reg_map (dim_registry_init True True) = Map.empty"
  by (simp add: reg_map_def dim_registry_init_def entry_pairs_def)

lemma count_succ:
  assumes "unat (c :: u16) < 24576"
  shows "unat (c + 1) = Suc (unat c)" and "c < d \<Longrightarrow> c + 1 \<le> d"
    and "c \<le> 8 \<Longrightarrow> c + 1 \<le> 9" and "c \<le> 64 \<Longrightarrow> c + 1 \<le> 65" and "c + 1 > 0"
proof -
  show s: "unat (c + 1) = Suc (unat c)"
    using assms by (simp add: unat_word_ariths)
  show "c < d \<Longrightarrow> c + 1 \<le> d" "c \<le> 8 \<Longrightarrow> c + 1 \<le> 9" "c \<le> 64 \<Longrightarrow> c + 1 \<le> 65" "c + 1 > 0"
    by (auto simp: word_less_nat_alt word_le_nat_alt s)
qed

subsection \<open>Properties\<close>

text \<open>
  Looking up a dimension gives its bin index, or \<open>-1\<close> when it is not registered. The answer is
  the same in the linear, the sorted and the hashed form, and only the lookup counter changes.
\<close>

theorem dim_registry_find_map:
  assumes "reg_inv reg"
  shows "dim_registry_find reg dim =
    Some (case reg_map reg dim of None \<Rightarrow> - 1 | Some i \<Rightarrow> uint i, reg\<lparr>dr_lookups := dr_lookups reg + 1\<rparr>)"
  using assms by (rule dim_registry_find_inv)

theorem dim_registry_find_map_witness:
  "dim_registry_find (dim_registry_init True True :: nat DimRegistry) 16 =
     Some (- 1, (dim_registry_init True True)\<lparr>dr_lookups := 1\<rparr>)"
  using dim_registry_find_map [OF reg_inv_init, of 16]
  by (simp add: reg_map_init) (simp add: dim_registry_init_def)

text \<open>
  C24. Registering a nonzero dimension in a registry with fewer than 24576 dimensions, when no
  allocation fails, keeps the invariant through both upgrades. A known dimension keeps its index and
  its bin. A new one gets the next index, under which the bin is then found, and every other
  dimension keeps its index and its bin.
\<close>

theorem dim_registry_put_map:
  assumes inv: "reg_inv reg" and dim: "dim \<noteq> 0" and n: "unat (dr_count reg) < 24576" and ra: "reg_ok ra"
  shows "\<exists>reg'. dim_registry_put ra reg dim bin =
      Some (case reg_map reg dim of Some i \<Rightarrow> uint i | None \<Rightarrow> uint (dr_count reg), reg') \<and> reg_inv reg' \<and>
    (case reg_map reg dim of
       Some i \<Rightarrow> reg_map reg' = reg_map reg \<and> dr_bins reg' = dr_bins reg
     | None \<Rightarrow> reg_map reg' = (reg_map reg)(dim \<mapsto> dr_count reg) \<and>
         dim_registry_get_bin reg' (dr_count reg) = Some bin \<and>
         (\<forall>i. i < dr_count reg \<longrightarrow> dim_registry_get_bin reg' i = dim_registry_get_bin reg i))"
proof -
  obtain es bs where es: "dr_entries reg = Some es" "entries_ok (dr_count reg) es" "mode_ok reg es"
    and bs: "dr_bins reg = Some bs" "length bs = unat (dr_count reg)"
    and cap: "dr_count reg \<le> dr_entries_cap reg" "8 \<le> dr_entries_cap reg" "dr_count reg \<le> dr_capacity reg"
    using inv by (auto simp: reg_inv_def)
  let ?r0 = "reg\<lparr>dr_lookups := dr_lookups reg + 1\<rparr>"
  have find: "dim_registry_find reg dim = Some (case reg_map reg dim of None \<Rightarrow> - 1 | Some i \<Rightarrow> uint i, ?r0)"
    by (rule dim_registry_find_inv [OF inv])
  show ?thesis
  proof (cases "reg_map reg dim")
    case (Some i)
    have "reg_inv ?r0" "reg_map ?r0 = reg_map reg"
      using inv by (auto simp: reg_inv_def mode_ok_def reg_map_def cong: DimRegMode.case_cong)
    then show ?thesis
      using find Some by (simp add: dim_registry_put_def)
  next
    case None
    have new: "dim \<notin> re_dim ` set es"
      using None es(1) by (force simp: reg_map_def map_of_eq_None_iff fst_entry_pairs)
    obtain c where c: "put_bin True ?r0 bin = Some (Inr (?r0\<lparr>dr_capacity := c, dr_bins := Some (bs @ [bin])\<rparr>))"
        "dr_count reg < c"
      using put_bin_ok [of ?r0 bs bin] bs cap(3) n by auto
    let ?r1 = "?r0\<lparr>dr_capacity := c, dr_bins := Some (bs @ [bin])\<rparr>"
    let ?e = "\<lparr>re_dim = dim, re_bin_idx = dr_count reg\<rparr>"
    have "mode_ok ?r1 es"
      using es(3) by (simp add: mode_ok_def cong: DimRegMode.case_cong)
    then obtain r2 es' where r2: "put_entry ra ?r1 dim (dr_count reg) = Some (Inr r2)"
        "dr_entries r2 = Some es'" "mset es' = add_mset ?e (mset es)" "dr_count r2 = dr_count reg"
        "dr_capacity r2 = c" "dr_bins r2 = Some (bs @ [bin])" "dr_mode r2 = dr_mode reg"
        "dr_count reg < dr_entries_cap r2" "8 \<le> dr_entries_cap r2"
        "dr_mode reg = DIM_REG_SORTED \<longrightarrow> sorted_wrt (<) (map re_dim es')"
        "dr_mode reg = DIM_REG_HASH \<longrightarrow> (unat (dr_count reg) + 1) * 4 \<le> unat (dr_hash_cap r2) * 3 \<and>
          (\<exists>xs. dr_slots r2 = Some xs \<and> slots_ok (dr_hash_cap r2) (dr_hash_mask r2) xs (entry_pairs es'))"
      using put_entry_ok [of ?r1 es dim ra] es(1,2) cap(1,2) n new dim ra by auto
    let ?r3 = "r2\<lparr>dr_count := dr_count r2 + 1\<rparr>"
    note new_ok = entries_ok_new [OF es(2) n new dim]
    have m: "mset es' = mset (es @ [?e])"
      using r2(3) by simp
    have e': "entries_ok (dr_count reg + 1) es'"
      by (rule entries_ok_mset [OF new_ok(1) m])
    have map3: "reg_map ?r3 = (reg_map reg)(dim \<mapsto> dr_count reg)"
      using map_of_entry_pairs_mset [OF _ m] new_ok r2(2) es(1) by (simp add: entries_ok_def reg_map_def)
    have modes: "dr_mode reg = DIM_REG_LINEAR \<longrightarrow> dr_count reg \<le> 8"
        "dr_mode reg = DIM_REG_SORTED \<longrightarrow> dr_count reg \<le> 64"
      using es(3) by (auto simp: mode_ok_def)
    obtain r4 where "(if dr_mode ?r3 = DIM_REG_LINEAR \<and> dr_count ?r3 > DIM_REG_THRESHOLD_LINEAR
         then upgrade_to_sorted True ?r3
         else if dr_mode ?r3 = DIM_REG_SORTED \<and> dr_count ?r3 > DIM_REG_THRESHOLD_SORTED
         then upgrade_to_hash True ?r3 else Some ?r3) = Some r4"
       "reg_inv r4" "reg_map r4 = reg_map ?r3" "dr_bins r4 = dr_bins ?r3"
      using upgrade_ok [of ?r3 es' "bs @ [bin]"] r2 e' bs(2) n c(2) modes count_succ [OF n]
      by (auto simp: mode_ok_def)
    then show ?thesis
      using find None c(1) r2(1) map3 r2(6) bs ra
      by (auto simp: dim_registry_put_def Let_def reg_ok_def dim_registry_get_bin_def nth_append word_less_nat_alt)
  qed
qed

theorem dim_registry_put_map_witness:
  "\<exists>reg'. dim_registry_put \<lparr>ra_bins = True, ra_entries = True, ra_slots = True, ra_upgrade = True\<rparr>
     (dim_registry_init True True) 16 ''bin16'' = Some (0, reg') \<and> dim_registry_get_bin reg' 0 = Some ''bin16''"
  using dim_registry_put_map [OF reg_inv_init, of 16 "\<lparr>ra_bins = True, ra_entries = True, ra_slots = True, ra_upgrade = True\<rparr>" "''bin16''"]
  by (simp add: reg_map_init reg_ok_def) (auto simp: dim_registry_init_def)

end
