(* ===== verification/Slab_Alloc.thy ===== *)
theory Slab_Alloc
  imports Gravel_Prelude
begin

text \<open>
  The slab allocator of \<^verbatim>\<open>src/slab_alloc.c\<close>. Addresses are natural numbers. The free list, which the
  code threads through the free objects, is the list of their addresses. What the operating system
  hands out is an argument: the address of a new page, of a new pool descriptor or of a large block, or
  \<open>None\<close> when the allocation fails. The allocator refers to its pools by pointer, so the model keeps the
  pool descriptors in an explicit store.
\<close>

subsection \<open>Data\<close>

definition SLAB_PAGE_SIZE :: u64 where
  "SLAB_PAGE_SIZE = 64 * 1024"

definition SLAB_MIN_OBJ_SIZE :: u64 where
  "SLAB_MIN_OBJ_SIZE = 32"

definition SLAB_MAX_POOLS :: nat where
  "SLAB_MAX_POOLS = 32"

definition SLAB_DEFAULT_ALIGNMENT :: u64 where
  "SLAB_DEFAULT_ALIGNMENT = 16"

record SlabPage =
  pg_base :: nat
  pg_obj_size :: u64
  pg_total_objects :: u32
  pg_allocated :: u32

record SlabPool =
  sp_obj_size :: u64
  sp_alignment :: u64
  sp_page_size :: u64
  sp_free :: "nat list"
  sp_free_count :: u64
  sp_pages :: "SlabPage list"
  sp_page_count :: u32
  sp_total_allocated :: u64
  sp_total_freed :: u64
  sp_alloc_fast :: u64
  sp_alloc_slow :: u64

record SlabAllocator =
  sa_store :: "nat \<rightharpoonup> SlabPool"
  sa_pools :: "nat option list"
  sa_num_pools :: nat
  sa_initialized :: bool
  sa_total_pages :: u64
  sa_total_bytes :: u64
  sa_large_allocs :: u64
  sa_large_bytes :: u64

record SlabPoolStats =
  ss_obj_size :: u64
  ss_alignment :: u64
  ss_total_allocated :: u64
  ss_total_freed :: u64
  ss_free_count :: u64
  ss_alloc_fast :: u64
  ss_alloc_slow :: u64
  ss_page_count :: u32

record SlabAllocStats =
  st_total_pages :: u64
  st_total_bytes_from_os :: u64
  st_large_alloc_count :: u64
  st_large_alloc_bytes :: u64
  st_num_pools :: nat
  st_pools :: "SlabPoolStats option list"

subsection \<open>Pools\<close>

definition slab_page_create :: "nat option \<Rightarrow> u64 \<Rightarrow> u64 \<Rightarrow> SlabPage option" where
  "slab_page_create mem obj_size page_size =
     map_option (\<lambda>b. \<lparr>pg_base = b, pg_obj_size = obj_size,
       pg_total_objects = ucast (page_size div obj_size), pg_allocated = 0\<rparr>) mem"

definition slab_pool_grow :: "nat option \<Rightarrow> SlabPool \<Rightarrow> SlabPool" where
  "slab_pool_grow mem pool =
     (case slab_page_create mem (sp_obj_size pool) (sp_page_size pool) of
        None \<Rightarrow> pool
      | Some page \<Rightarrow>
          let n = pg_total_objects page;
              free = foldl (\<lambda>free i. (pg_base page + i * unat (sp_obj_size pool)) # free)
                       (sp_free pool) [0..<unat n]
          in pool\<lparr>sp_pages := page\<lparr>pg_allocated := n\<rparr> # sp_pages pool,
                  sp_page_count := sp_page_count pool + 1,
                  sp_free := free,
                  sp_free_count := sp_free_count pool + ucast n,
                  sp_alloc_slow := sp_alloc_slow pool + 1\<rparr>)"

definition slab_pool_alloc :: "nat option \<Rightarrow> SlabPool \<Rightarrow> nat option \<times> SlabPool" where
  "slab_pool_alloc mem pool =
     (case sp_free pool of
        node # rest \<Rightarrow>
          (Some node,
           pool\<lparr>sp_free := rest, sp_free_count := sp_free_count pool - 1,
                sp_total_allocated := sp_total_allocated pool + 1,
                sp_alloc_fast := sp_alloc_fast pool + 1\<rparr>)
      | [] \<Rightarrow>
          (let pool = slab_pool_grow mem pool in
           case sp_free pool of
             [] \<Rightarrow> (None, pool)
           | node # rest \<Rightarrow>
               (Some node,
                pool\<lparr>sp_free := rest, sp_free_count := sp_free_count pool - 1,
                     sp_total_allocated := sp_total_allocated pool + 1\<rparr>)))"

definition slab_pool_free :: "SlabPool \<Rightarrow> nat option \<Rightarrow> SlabPool" where
  "slab_pool_free pool ptr =
     (case ptr of
        None \<Rightarrow> pool
      | Some node \<Rightarrow>
          pool\<lparr>sp_free := node # sp_free pool, sp_free_count := sp_free_count pool + 1,
               sp_total_freed := sp_total_freed pool + 1\<rparr>)"

text \<open>The loop of a bulk allocation; the list holds the outcomes of the successive page requests.\<close>

fun bulk_loop :: "nat option list \<Rightarrow> SlabPool \<Rightarrow> nat \<Rightarrow> nat list \<times> SlabPool" where
  "bulk_loop mems pool 0 = ([], pool)"
| "bulk_loop mems pool (Suc k) =
     (let (mems, pool) =
        (if sp_free pool = []
         then (tl mems, slab_pool_grow (case mems of [] \<Rightarrow> None | m # _ \<Rightarrow> m) pool)
         else (mems, pool))
      in case sp_free pool of
           [] \<Rightarrow> ([], pool)
         | node # rest \<Rightarrow>
             let (out, pool) = bulk_loop mems
                   (pool\<lparr>sp_free := rest, sp_free_count := sp_free_count pool - 1\<rparr>) k
             in (node # out, pool))"

definition slab_pool_alloc_bulk :: "nat option list \<Rightarrow> SlabPool \<Rightarrow> int \<Rightarrow> nat list \<times> SlabPool" where
  "slab_pool_alloc_bulk mems pool n =
     (if n \<le> 0 then ([], pool)
      else let (out, pool) = bulk_loop mems pool (nat n) in
        (out, pool\<lparr>sp_total_allocated := sp_total_allocated pool + of_nat (length out),
                   sp_alloc_fast := sp_alloc_fast pool + of_nat (length out)\<rparr>))"

definition slab_pool_free_bulk :: "SlabPool \<Rightarrow> nat option list \<Rightarrow> SlabPool" where
  "slab_pool_free_bulk pool ptrs =
     (let pool = foldl (\<lambda>pool ptr. case ptr of
                          None \<Rightarrow> pool
                        | Some node \<Rightarrow> pool\<lparr>sp_free := node # sp_free pool\<rparr>) pool ptrs
      in pool\<lparr>sp_free_count := sp_free_count pool + of_nat (length ptrs),
              sp_total_freed := sp_total_freed pool + of_nat (length ptrs)\<rparr>)"

subsection \<open>The allocator\<close>

definition slab_allocator_init :: "graveldb_status \<times> SlabAllocator" where
  "slab_allocator_init =
     (GRAVELDB_OK,
      \<lparr>sa_store = Map.empty, sa_pools = replicate SLAB_MAX_POOLS None, sa_num_pools = 0,
       sa_initialized = True, sa_total_pages = 0, sa_total_bytes = 0, sa_large_allocs = 0,
       sa_large_bytes = 0\<rparr>)"

definition round_up :: "u64 \<Rightarrow> u64 \<Rightarrow> u64" where
  "round_up sz alignment = (sz + alignment - 1) div alignment * alignment"

text \<open>\<open>ptr\<close> is the new pool descriptor and \<open>mem\<close> its first page.\<close>

definition slab_pool_create ::
  "nat option \<Rightarrow> nat option \<Rightarrow> SlabAllocator \<Rightarrow> u64 \<Rightarrow> u64 \<Rightarrow> nat option \<times> SlabAllocator" where
  "slab_pool_create ptr mem alloc obj_size alignment =
     (if sa_num_pools alloc \<ge> SLAB_MAX_POOLS then (None, alloc)
      else
        let obj_size = (if obj_size < SLAB_MIN_OBJ_SIZE then SLAB_MIN_OBJ_SIZE else obj_size);
            alignment = (if alignment = 0 then SLAB_DEFAULT_ALIGNMENT else alignment);
            obj_size = round_up obj_size alignment
        in case ptr of
          None \<Rightarrow> (None, alloc)
        | Some p \<Rightarrow>
            let pool = slab_pool_grow mem
                  \<lparr>sp_obj_size = obj_size, sp_alignment = alignment, sp_page_size = SLAB_PAGE_SIZE,
                   sp_free = [], sp_free_count = 0, sp_pages = [], sp_page_count = 0,
                   sp_total_allocated = 0, sp_total_freed = 0, sp_alloc_fast = 0, sp_alloc_slow = 0\<rparr>
            in (Some p,
                alloc\<lparr>sa_store := (sa_store alloc)(p \<mapsto> pool),
                      sa_pools := (sa_pools alloc)[sa_num_pools alloc := Some p],
                      sa_num_pools := sa_num_pools alloc + 1,
                      sa_total_pages := sa_total_pages alloc + ucast (sp_page_count pool),
                      sa_total_bytes := sa_total_bytes alloc + ucast (sp_page_count pool) * SLAB_PAGE_SIZE\<rparr>))"

text \<open>The index of the first of the registered pools that satisfies a test.\<close>

fun pool_index :: "(nat \<Rightarrow> bool) \<Rightarrow> nat option list \<Rightarrow> nat option" where
  "pool_index test [] = None"
| "pool_index test (p # ps) =
     (if (case p of None \<Rightarrow> False | Some q \<Rightarrow> test q) then Some 0
      else map_option Suc (pool_index test ps))"

definition slab_pool_destroy :: "SlabAllocator \<Rightarrow> nat \<Rightarrow> SlabAllocator" where
  "slab_pool_destroy alloc p =
     (let pages = (case sa_store alloc p of None \<Rightarrow> [] | Some pool \<Rightarrow> sp_pages pool);
          alloc = alloc\<lparr>sa_total_pages := sa_total_pages alloc - of_nat (length pages),
                        sa_total_bytes := sa_total_bytes alloc - of_nat (length pages) * SLAB_PAGE_SIZE\<rparr>;
          alloc = (case pool_index (\<lambda>q. q = p) (take (sa_num_pools alloc) (sa_pools alloc)) of
                     None \<Rightarrow> alloc
                   | Some i \<Rightarrow>
                       let n = sa_num_pools alloc - 1 in
                       alloc\<lparr>sa_num_pools := n, sa_pools := (sa_pools alloc)[i := sa_pools alloc ! n]\<rparr>)
      in alloc\<lparr>sa_store := (sa_store alloc)(p := None)\<rparr>)"

fun destroy_loop :: "nat \<Rightarrow> nat \<Rightarrow> SlabAllocator \<Rightarrow> SlabAllocator" where
  "destroy_loop 0 i alloc = alloc"
| "destroy_loop (Suc fuel) i alloc =
     (if i < sa_num_pools alloc
      then destroy_loop fuel (Suc i)
             (case sa_pools alloc ! i of
                None \<Rightarrow> alloc
              | Some p \<Rightarrow>
                  let alloc = slab_pool_destroy alloc p in
                  alloc\<lparr>sa_pools := (sa_pools alloc)[i := None]\<rparr>)
      else alloc)"

definition slab_allocator_destroy :: "SlabAllocator \<Rightarrow> SlabAllocator" where
  "slab_allocator_destroy alloc =
     (destroy_loop SLAB_MAX_POOLS 0 alloc)\<lparr>sa_num_pools := 0, sa_initialized := False\<rparr>"

definition aligned_obj_size :: "u64 \<Rightarrow> u64 \<Rightarrow> u64" where
  "aligned_obj_size sz alignment =
     (let s = round_up sz alignment in if s < SLAB_MIN_OBJ_SIZE then SLAB_MIN_OBJ_SIZE else s)"

definition find_pool :: "SlabAllocator \<Rightarrow> (SlabPool \<Rightarrow> bool) \<Rightarrow> nat option" where
  "find_pool alloc test =
     Option.bind (pool_index (\<lambda>p. case sa_store alloc p of None \<Rightarrow> False | Some pool \<Rightarrow> test pool)
                    (take (sa_num_pools alloc) (sa_pools alloc)))
       (\<lambda>i. sa_pools alloc ! i)"

definition slab_find_or_create_pool ::
  "nat option \<Rightarrow> nat option \<Rightarrow> SlabAllocator \<Rightarrow> u64 \<Rightarrow> nat option \<times> SlabAllocator" where
  "slab_find_or_create_pool ptr mem alloc sz =
     (case find_pool alloc (\<lambda>pool. sp_obj_size pool = aligned_obj_size sz SLAB_DEFAULT_ALIGNMENT) of
        Some p \<Rightarrow> (Some p, alloc)
      | None \<Rightarrow> slab_pool_create ptr mem alloc sz SLAB_DEFAULT_ALIGNMENT)"

text \<open>Run a pool allocation on a pool of the store.\<close>

definition alloc_from :: "nat option \<Rightarrow> SlabAllocator \<Rightarrow> nat \<Rightarrow> nat option \<times> SlabAllocator" where
  "alloc_from mem alloc p =
     (case sa_store alloc p of
        None \<Rightarrow> (None, alloc)
      | Some pool \<Rightarrow>
          let (r, pool) = slab_pool_alloc mem pool in
          (r, alloc\<lparr>sa_store := (sa_store alloc)(p \<mapsto> pool)\<rparr>))"

text \<open>
  The outcomes of the requests of one allocation: the descriptor and the first page of a new pool, a
  further page, and the large block of the fallback.
\<close>

record SlabOs =
  os_pool :: "nat option"
  os_first :: "nat option"
  os_page :: "nat option"
  os_large :: "nat option"

definition large_alloc :: "SlabOs \<Rightarrow> SlabAllocator \<Rightarrow> u64 \<Rightarrow> nat option \<times> SlabAllocator" where
  "large_alloc os alloc sz =
     (case os_large os of
        None \<Rightarrow> (None, alloc)
      | Some q \<Rightarrow>
          (Some q, alloc\<lparr>sa_large_allocs := sa_large_allocs alloc + 1,
                         sa_large_bytes := sa_large_bytes alloc + sz\<rparr>))"

definition slab_alloc :: "SlabOs \<Rightarrow> SlabAllocator \<Rightarrow> u64 \<Rightarrow> nat option \<times> SlabAllocator" where
  "slab_alloc os alloc sz =
     (if sz = 0 then (None, alloc)
      else case slab_find_or_create_pool (os_pool os) (os_first os) alloc sz of
          (None, alloc) \<Rightarrow> large_alloc os alloc sz
        | (Some p, alloc) \<Rightarrow> alloc_from (os_page os) alloc p)"

definition large_free :: "SlabAllocator \<Rightarrow> u64 \<Rightarrow> SlabAllocator" where
  "large_free alloc sz =
     alloc\<lparr>sa_large_allocs := sa_large_allocs alloc - 1, sa_large_bytes := sa_large_bytes alloc - sz\<rparr>"

definition free_to :: "SlabAllocator \<Rightarrow> nat \<Rightarrow> nat \<Rightarrow> SlabAllocator" where
  "free_to alloc p node =
     alloc\<lparr>sa_store := (sa_store alloc)(p := map_option (\<lambda>pool. slab_pool_free pool (Some node)) (sa_store alloc p))\<rparr>"

definition slab_free :: "SlabAllocator \<Rightarrow> nat option \<Rightarrow> u64 \<Rightarrow> SlabAllocator" where
  "slab_free alloc ptr sz =
     (case ptr of
        None \<Rightarrow> alloc
      | Some node \<Rightarrow>
          (case find_pool alloc (\<lambda>pool. sp_obj_size pool = aligned_obj_size sz SLAB_DEFAULT_ALIGNMENT) of
             Some p \<Rightarrow> free_to alloc p node
           | None \<Rightarrow> large_free alloc sz))"

definition slab_alloc_aligned :: "SlabOs \<Rightarrow> SlabAllocator \<Rightarrow> u64 \<Rightarrow> u64 \<Rightarrow> nat option \<times> SlabAllocator" where
  "slab_alloc_aligned os alloc sz alignment =
     (let aligned_size = aligned_obj_size sz alignment in
      case find_pool alloc (\<lambda>p. sp_obj_size p = aligned_size \<and> sp_alignment p \<ge> alignment) of
        Some p \<Rightarrow> alloc_from (os_page os) alloc p
      | None \<Rightarrow>
          (case (if aligned_size \<le> SLAB_PAGE_SIZE div 4
                 then slab_pool_create (os_pool os) (os_first os) alloc sz alignment
                 else (None, alloc)) of
             (Some p, alloc) \<Rightarrow> alloc_from (os_page os) alloc p
           | (None, alloc) \<Rightarrow> large_alloc os alloc sz))"

definition slab_free_aligned :: "SlabAllocator \<Rightarrow> nat option \<Rightarrow> u64 \<Rightarrow> SlabAllocator" where
  "slab_free_aligned alloc ptr sz =
     (case ptr of
        None \<Rightarrow> alloc
      | Some node \<Rightarrow>
          (case find_pool alloc (\<lambda>p. sp_obj_size p \<ge> sz \<and>
                  list_ex (\<lambda>page. pg_base page \<le> node \<and> node < pg_base page + unat (sp_page_size p)) (sp_pages p)) of
             Some p \<Rightarrow> free_to alloc p node
           | None \<Rightarrow> large_free alloc sz))"

definition slab_allocator_stats :: "SlabAllocator \<Rightarrow> SlabAllocStats" where
  "slab_allocator_stats alloc =
     \<lparr>st_total_pages = sa_total_pages alloc, st_total_bytes_from_os = sa_total_bytes alloc,
      st_large_alloc_count = sa_large_allocs alloc, st_large_alloc_bytes = sa_large_bytes alloc,
      st_num_pools = sa_num_pools alloc,
      st_pools = map (\<lambda>p. map_option (\<lambda>pool.
          \<lparr>ss_obj_size = sp_obj_size pool, ss_alignment = sp_alignment pool,
           ss_total_allocated = sp_total_allocated pool, ss_total_freed = sp_total_freed pool,
           ss_free_count = sp_free_count pool, ss_alloc_fast = sp_alloc_fast pool,
           ss_alloc_slow = sp_alloc_slow pool, ss_page_count = sp_page_count pool\<rparr>)
        (Option.bind p (sa_store alloc))) (take (sa_num_pools alloc) (sa_pools alloc))\<rparr>"

subsection \<open>Objects of a pool\<close>

definition page_objs :: "u64 \<Rightarrow> SlabPage \<Rightarrow> nat set" where
  "page_objs obj_size page = (\<lambda>i. pg_base page + i * unat obj_size) ` {..<unat (pg_total_objects page)}"

definition pool_objs :: "SlabPool \<Rightarrow> nat set" where
  "pool_objs pool = (\<Union>page \<in> set (sp_pages pool). page_objs (sp_obj_size pool) page)"

definition apart :: "nat \<Rightarrow> nat \<Rightarrow> nat \<Rightarrow> bool" where
  "apart n a b \<longleftrightarrow> a + n \<le> b \<or> b + n \<le> a"

text \<open>
  \<open>out\<close> is the set of objects that callers hold. The free objects and the objects in use partition
  the objects of the pages, the pages do not overlap and the counters agree with the lists.
\<close>

definition pool_inv :: "SlabPool \<Rightarrow> nat set \<Rightarrow> bool" where
  "pool_inv pool out \<longleftrightarrow>
     32 \<le> unat (sp_obj_size pool) \<and> sp_page_size pool = SLAB_PAGE_SIZE \<and>
     (\<forall>page \<in> set (sp_pages pool). unat (pg_total_objects page) = 65536 div unat (sp_obj_size pool)) \<and>
     sorted_wrt (apart 65536) (map pg_base (sp_pages pool)) \<and>
     distinct (sp_free pool) \<and> set (sp_free pool) \<inter> out = {} \<and> set (sp_free pool) \<union> out = pool_objs pool \<and>
     sp_free_count pool = of_nat (length (sp_free pool)) \<and>
     sp_page_count pool = of_nat (length (sp_pages pool))"

text \<open>What \<^verbatim>\<open>posix_memalign\<close> promises: the new page overlaps none of the pages in use.\<close>

definition page_fresh :: "SlabPool \<Rightarrow> nat option \<Rightarrow> bool" where
  "page_fresh pool mem \<longleftrightarrow>
     (case mem of None \<Rightarrow> True | Some b \<Rightarrow> list_all (apart 65536 b) (map pg_base (sp_pages pool)))"

lemma apart_sym: "apart n a b \<longleftrightarrow> apart n b a"
  by (auto simp: apart_def)

lemma obj_in_page: "i < n div s \<Longrightarrow> i * s + s \<le> (n :: nat)"
  by (metis add.commute div_times_less_eq_dividend le_trans mult_Suc mult_le_mono1 Suc_leI)

lemma pool_objsD:
  assumes "pool_inv pool out" and "p \<in> pool_objs pool"
  shows "\<exists>a i. a < length (sp_pages pool) \<and> i < 65536 div unat (sp_obj_size pool) \<and>
    p = pg_base (sp_pages pool ! a) + i * unat (sp_obj_size pool)"
proof -
  obtain page i where "page \<in> set (sp_pages pool)" "i < unat (pg_total_objects page)"
      "p = pg_base page + i * unat (sp_obj_size pool)"
    using assms(2) by (auto simp: pool_objs_def page_objs_def)
  then show ?thesis
    using assms(1) by (auto simp: pool_inv_def in_set_conv_nth)
qed

lemma objs_apart:
  assumes inv: "pool_inv pool out" and p: "p \<in> pool_objs pool" and q: "q \<in> pool_objs pool" and "p \<noteq> q"
  shows "apart (unat (sp_obj_size pool)) p q"
proof -
  let ?s = "unat (sp_obj_size pool)"
  let ?n = "65536 div ?s"
  obtain a i where a: "a < length (sp_pages pool)" "p = pg_base (sp_pages pool ! a) + i * ?s" "i < ?n"
    using pool_objsD [OF inv p] by auto
  obtain b j where b: "b < length (sp_pages pool)" "q = pg_base (sp_pages pool ! b) + j * ?s" "j < ?n"
    using pool_objsD [OF inv q] by auto
  have bnd: "i * ?s + ?s \<le> 65536" "j * ?s + ?s \<le> 65536"
    using a(3) b(3) obj_in_page by blast+
  show ?thesis
  proof (cases "a = b")
    case True
    then consider "Suc i \<le> j" | "Suc j \<le> i"
      using \<open>p \<noteq> q\<close> a b by fastforce
    then show ?thesis
    proof cases
      case 1
      then have "Suc i * ?s \<le> j * ?s"
        by (rule mult_le_mono1)
      then show ?thesis
        using a b True by (simp add: apart_def)
    next
      case 2
      then have "Suc j * ?s \<le> i * ?s"
        by (rule mult_le_mono1)
      then show ?thesis
        using a b True by (simp add: apart_def)
    qed
  next
    case False
    have ord: "apart 65536 (pg_base (sp_pages pool ! x)) (pg_base (sp_pages pool ! y))"
      if "x < y" "y < length (sp_pages pool)" for x y
      using inv that by (auto simp: pool_inv_def sorted_wrt_iff_nth_less)
    have "apart 65536 (pg_base (sp_pages pool ! a)) (pg_base (sp_pages pool ! b))"
    proof (cases "a < b")
      case True
      then show ?thesis
        using ord b(1) by simp
    next
      case not_less: False
      then have "b < a"
        using False by simp
      then show ?thesis
        using ord [of b a] a(1) by (simp add: apart_sym)
    qed
    then show ?thesis
      using a(2) b(2) bnd by (auto simp: apart_def)
  qed
qed

lemma carve_list: "foldl (\<lambda>free i. f i # free) xs is = rev (map f is) @ xs"
  by (induction "is" arbitrary: xs) auto

lemma page_objects:
  assumes "32 \<le> unat s"
  shows "unat (ucast (SLAB_PAGE_SIZE div s) :: u32) = 65536 div unat (s :: u64)"
proof -
  have "65536 div unat s \<le> 65536 div 32"
    using assms by (intro div_le_mono2) auto
  then have "65536 div unat s < 2 ^ 32"
    by simp
  then show ?thesis
    by (simp add: unsigned_ucast_eq take_bit_nat_def unat_div SLAB_PAGE_SIZE_def)
qed

lemma grow_ok:
  assumes inv: "pool_inv pool out" and fresh: "page_fresh pool mem"
  shows "pool_inv (slab_pool_grow mem pool) out"
    and "sp_obj_size (slab_pool_grow mem pool) = sp_obj_size pool"
    and "sp_free (slab_pool_grow mem pool) = [] \<Longrightarrow> mem = None \<or> 65536 < unat (sp_obj_size pool)"
    and "pool_objs pool \<subseteq> pool_objs (slab_pool_grow mem pool)"
proof -
  let ?s = "unat (sp_obj_size pool)"
  let ?n = "65536 div ?s"
  have pos: "32 \<le> ?s" and psz: "sp_page_size pool = SLAB_PAGE_SIZE"
    using inv by (auto simp: pool_inv_def)
  have *: "pool_inv (slab_pool_grow mem pool) out \<and>
    (sp_free (slab_pool_grow mem pool) = [] \<longrightarrow> mem = None \<or> 65536 < ?s) \<and>
    pool_objs pool \<subseteq> pool_objs (slab_pool_grow mem pool)"
  proof (cases mem)
    case None
    then show ?thesis
      using inv by (simp add: slab_pool_grow_def slab_page_create_def)
  next
    case (Some b)
    define page where "page = \<lparr>pg_base = b, pg_obj_size = sp_obj_size pool,
        pg_total_objects = ucast (SLAB_PAGE_SIZE div sp_obj_size pool), pg_allocated = ucast (SLAB_PAGE_SIZE div sp_obj_size pool)\<rparr>"
    define new where "new = rev (map (\<lambda>i. b + i * ?s) [0..<?n])"
    let ?p = "slab_pool_grow mem pool"
    have n: "unat (pg_total_objects page) = ?n"
      using page_objects [OF pos] by (simp add: page_def)
    have g: "sp_pages ?p = page # sp_pages pool" "sp_free ?p = new @ sp_free pool"
      "sp_obj_size ?p = sp_obj_size pool" "sp_page_size ?p = sp_page_size pool"
      "sp_free_count ?p = sp_free_count pool + ucast (pg_total_objects page)"
      "sp_page_count ?p = sp_page_count pool + 1"
      using Some n psz by (simp_all add: slab_pool_grow_def slab_page_create_def page_def new_def Let_def carve_list)
    have set_new: "set new = page_objs (sp_obj_size pool) page"
      using n by (auto simp: new_def page_objs_def page_def)
    have ap: "apart 65536 b (pg_base q)" if "q \<in> set (sp_pages pool)" for q
      using fresh Some that by (simp add: page_fresh_def list_all_iff)
    have objs: "pool_objs ?p = set new \<union> pool_objs pool"
      using g(1,3) set_new by (simp add: pool_objs_def)
    have fo: "set (sp_free pool) \<union> out = pool_objs pool"
      using inv by (simp add: pool_inv_def)
    have "set new \<inter> pool_objs pool = {}"
    proof (intro equals0I, elim IntE)
      fix x assume "x \<in> set new" and "x \<in> pool_objs pool"
      obtain i where i: "x = b + i * ?s" "i < ?n"
        using \<open>x \<in> set new\<close> unfolding new_def set_rev set_map by (elim imageE) (rule that, simp_all)
      obtain a j where x: "a < length (sp_pages pool)" "j < ?n" "x = pg_base (sp_pages pool ! a) + j * ?s"
        using pool_objsD [OF inv \<open>x \<in> pool_objs pool\<close>] by auto
      show False
        using ap [OF nth_mem [OF x(1)]] obj_in_page [OF i(2)] obj_in_page [OF x(2)] i(1) x(3) pos
        by (auto simp: apart_def)
    qed
    moreover have "distinct new"
      using pos by (auto simp: new_def distinct_map inj_on_def)
    moreover have "ucast (pg_total_objects page) = (of_nat (length new) :: u64)"
      using n by (simp add: new_def word_unat_eq_iff unsigned_ucast_eq unat_of_nat take_bit_nat_def)
    moreover have "set new \<inter> set (sp_free pool) = {}" "set new \<inter> out = {}" "pg_base page = b"
      using calculation(1) fo by (auto simp: page_def)
    ultimately have "pool_inv ?p out"
      using inv g n ap unfolding pool_inv_def objs by (simp add: Int_Un_distrib2 Un_assoc)
    moreover have "new \<noteq> [] \<or> 65536 < ?s"
      using pos by (auto simp: new_def div_eq_0_iff)
    ultimately show ?thesis
      using g by (auto simp: pool_objs_def)
  qed
  then show "pool_inv (slab_pool_grow mem pool) out"
    and "sp_free (slab_pool_grow mem pool) = [] \<Longrightarrow> mem = None \<or> 65536 < unat (sp_obj_size pool)"
    and "pool_objs pool \<subseteq> pool_objs (slab_pool_grow mem pool)"
    by auto
  show "sp_obj_size (slab_pool_grow mem pool) = sp_obj_size pool"
    by (simp add: slab_pool_grow_def Let_def split: option.split)
qed

lemma pop_inv:
  assumes "pool_inv pool out" and "sp_free pool = p # rest"
    and "sp_free pool' = rest" "sp_free_count pool' = sp_free_count pool - 1" "sp_pages pool' = sp_pages pool"
      "sp_page_count pool' = sp_page_count pool" "sp_obj_size pool' = sp_obj_size pool" "sp_page_size pool' = sp_page_size pool"
  shows "pool_inv pool' (insert p out)" and "p \<notin> out" and "p \<in> pool_objs pool" and "pool_objs pool' = pool_objs pool"
proof -
  have o: "pool_objs pool' = pool_objs pool"
    using assms by (simp add: pool_objs_def)
  have "pool_inv pool (out :: nat set)" "p \<in> set (sp_free pool)"
    using assms by auto
  then show "p \<notin> out" "p \<in> pool_objs pool"
    by (auto simp: pool_inv_def)
  show "pool_inv pool' (insert p out)"
    using assms o by (auto simp: pool_inv_def)
  show "pool_objs pool' = pool_objs pool"
    by (rule o)
qed

lemma pool_alloc_ok:
  assumes inv: "pool_inv pool out" and fresh: "page_fresh pool mem"
  shows "case slab_pool_alloc mem pool of
      (Some p, pool') \<Rightarrow> p \<in> pool_objs pool' \<and> p \<notin> out \<and> pool_inv pool' (insert p out) \<and>
        (\<forall>q \<in> out. apart (unat (sp_obj_size pool)) p q)
    | (None, pool') \<Rightarrow> pool_inv pool' out \<and> out = pool_objs pool \<and> (mem = None \<or> 65536 < unat (sp_obj_size pool))"
proof (cases "sp_free pool")
  case (Cons p rest)
  let ?p' = "snd (slab_pool_alloc mem pool)"
  have r: "slab_pool_alloc mem pool = (Some p, ?p')"
    using Cons by (simp add: slab_pool_alloc_def)
  have "p \<notin> out" "p \<in> pool_objs pool" "pool_inv ?p' (insert p out)" "pool_objs ?p' = pool_objs pool"
    using pop_inv [OF inv Cons, of ?p'] Cons by (simp_all add: slab_pool_alloc_def)
  moreover have "out \<subseteq> pool_objs pool"
    using inv by (auto simp: pool_inv_def)
  moreover from calculation have "\<forall>q \<in> out. apart (unat (sp_obj_size pool)) p q"
    using objs_apart [OF inv] by blast
  ultimately show ?thesis
    using r by auto
next
  case Nil
  let ?g = "slab_pool_grow mem pool"
  note g = grow_ok [OF inv fresh]
  have out: "out = pool_objs pool"
    using inv Nil by (auto simp: pool_inv_def)
  show ?thesis
  proof (cases "sp_free ?g")
    case Nil2: Nil
    then show ?thesis
      using Nil g out by (simp add: slab_pool_alloc_def Let_def)
  next
    case (Cons p rest)
    let ?p' = "snd (slab_pool_alloc mem pool)"
    have r: "slab_pool_alloc mem pool = (Some p, ?p')"
      using Nil Cons by (simp add: slab_pool_alloc_def Let_def)
    have "p \<notin> out" "p \<in> pool_objs ?g" "pool_inv ?p' (insert p out)" "pool_objs ?p' = pool_objs ?g"
      using pop_inv [OF g(1) Cons, of ?p'] Nil Cons by (simp_all add: slab_pool_alloc_def Let_def)
    moreover from calculation have "\<forall>q \<in> out. apart (unat (sp_obj_size pool)) p q"
      using objs_apart [OF g(1)] g(2,4) out by (metis subsetD)
    ultimately show ?thesis
      using r by auto
  qed
qed

subsection \<open>Properties\<close>

text \<open>
  C27. An allocation hands out an object that no caller holds and that overlaps no object in use, and
  keeps the pool's bookkeeping. It fails only when every object is in use and either no page is to be
  had or the objects are larger than a page.
\<close>

theorem slab_pool_alloc_fresh:
  assumes inv: "pool_inv pool out" and fresh: "page_fresh pool mem"
  shows "case slab_pool_alloc mem pool of
      (Some p, pool') \<Rightarrow> p \<in> pool_objs pool' \<and> p \<notin> out \<and> pool_inv pool' (insert p out) \<and>
        (\<forall>q \<in> out. apart (unat (sp_obj_size pool)) p q)
    | (None, pool') \<Rightarrow> pool_inv pool' out \<and> out = pool_objs pool \<and> (mem = None \<or> 65536 < unat (sp_obj_size pool))"
  using assms by (rule pool_alloc_ok)

lemma pool_inv_new:
  assumes "32 \<le> unat sz"
  shows "pool_inv \<lparr>sp_obj_size = sz, sp_alignment = al, sp_page_size = SLAB_PAGE_SIZE,
     sp_free = [], sp_free_count = 0, sp_pages = [], sp_page_count = 0, sp_total_allocated = 0,
     sp_total_freed = 0, sp_alloc_fast = 0, sp_alloc_slow = 0\<rparr> {}"
  using assms by (simp add: pool_inv_def pool_objs_def)

definition pool64 :: SlabPool where
  "pool64 = \<lparr>sp_obj_size = 64, sp_alignment = 16, sp_page_size = SLAB_PAGE_SIZE, sp_free = [],
     sp_free_count = 0, sp_pages = [], sp_page_count = 0, sp_total_allocated = 0, sp_total_freed = 0,
     sp_alloc_fast = 0, sp_alloc_slow = 0\<rparr>"

lemma pool64_inv: "pool_inv pool64 {}"
  unfolding pool64_def by (rule pool_inv_new) simp

theorem slab_pool_alloc_fresh_witness:
  "\<exists>p. fst (slab_pool_alloc (Some 65536) pool64) = Some p"
  using slab_pool_alloc_fresh [OF pool64_inv, of "Some 65536"]
  by (auto simp: page_fresh_def pool64_def split: prod.splits option.splits)

text \<open>
  Freeing an object in use makes it available again: it is handed out by the next allocation, and
  the bookkeeping is kept.
\<close>

theorem slab_pool_free_reuse:
  assumes inv: "pool_inv pool out" and p: "p \<in> out"
  shows "pool_inv (slab_pool_free pool (Some p)) (out - {p}) \<and>
    fst (slab_pool_alloc mem (slab_pool_free pool (Some p))) = Some p"
  using assms by (auto simp: pool_inv_def slab_pool_free_def slab_pool_alloc_def pool_objs_def)

theorem slab_pool_free_reuse_witness:
  "\<exists>p. fst (slab_pool_alloc None (slab_pool_free (snd (slab_pool_alloc (Some 65536) pool64)) (Some p))) = Some p"
proof -
  obtain p pool' where "slab_pool_alloc (Some 65536) pool64 = (Some p, pool')" "pool_inv pool' {p}"
    using pool_alloc_ok [OF pool64_inv, of "Some 65536"]
    by (auto simp: page_fresh_def pool64_def split: prod.splits option.splits)
  then show ?thesis
    using slab_pool_free_reuse [of pool' "{p}" p None] by auto
qed

lemmas slab_consts = SLAB_PAGE_SIZE_def SLAB_MIN_OBJ_SIZE_def SLAB_MAX_POOLS_def SLAB_DEFAULT_ALIGNMENT_def

text \<open>
  The loop of the destructor. Each pass unregisters one pool, which lowers the bound of the loop, so
  the index and the bound meet halfway.
\<close>

lemma pool_index_at:
  "p \<notin> set ps \<Longrightarrow> pool_index (\<lambda>q. q = p) (replicate i None @ Some p # map Some ps) = Some i"
  by (induction i) simp_all

lemma pool_destroy_at:
  assumes "sa_pools alloc = replicate i None @ map Some (p # ps) @ rest" and "sa_num_pools alloc = Suc (length ps)"
    and "i \<le> length ps" and "p \<notin> set ps"
  shows "sa_store (slab_pool_destroy alloc p) = (sa_store alloc)(p := None)"
    and "sa_num_pools (slab_pool_destroy alloc p) = length ps"
    and "(sa_pools (slab_pool_destroy alloc p))[i := None] = replicate (Suc i) None @ map Some ps @ rest"
proof -
  have "take (sa_num_pools alloc) (sa_pools alloc) = replicate i None @ Some p # map Some (take (length ps - i) ps)"
    using assms(1-3) by (simp add: Suc_diff_le take_map)
  then have "pool_index (\<lambda>q. q = p) (take (sa_num_pools alloc) (sa_pools alloc)) = Some i"
    using pool_index_at [of p "take (length ps - i) ps" i] assms(4) by (auto dest: in_set_takeD)
  then show "sa_store (slab_pool_destroy alloc p) = (sa_store alloc)(p := None)"
    and "sa_num_pools (slab_pool_destroy alloc p) = length ps"
    and "(sa_pools (slab_pool_destroy alloc p))[i := None] = replicate (Suc i) None @ map Some ps @ rest"
    using assms(1,2) by (simp_all add: slab_pool_destroy_def Let_def list_update_append replicate_app_Cons_same)
qed

lemma destroy_loop_half:
  assumes "sa_pools alloc = replicate i None @ map Some ps @ rest" and "sa_num_pools alloc = length ps"
    and "distinct ps" and "length ps \<le> i + 2 * f"
  shows "sa_store (destroy_loop f i alloc) = sa_store alloc |` (- set (take (Suc (length ps - i) div 2) ps))"
  using assms
proof (induction f arbitrary: i ps alloc)
  case 0
  then show ?case
    by simp
next
  case (Suc f)
  show ?case
  proof (cases "i < length ps")
    case True
    then obtain p qs where ps: "ps = p # qs"
      by (cases ps) auto
    let ?a = "slab_pool_destroy alloc p"
    have at: "sa_pools alloc = replicate i None @ map Some (p # qs) @ rest" "sa_num_pools alloc = Suc (length qs)"
        "i \<le> length qs" "p \<notin> set qs"
      using Suc.prems True by (simp_all add: ps)
    note d = pool_destroy_at [OF at]
    have "sa_pools alloc ! i = Some p"
      using at(1) by (simp add: nth_append)
    then have "destroy_loop (Suc f) i alloc = destroy_loop f (Suc i) (?a\<lparr>sa_pools := (sa_pools ?a)[i := None]\<rparr>)"
      using True Suc.prems(2) by (simp add: Let_def)
    moreover have "sa_store (destroy_loop f (Suc i) (?a\<lparr>sa_pools := (sa_pools ?a)[i := None]\<rparr>)) =
        (sa_store alloc)(p := None) |` (- set (take (Suc (length qs - Suc i) div 2) qs))"
      using Suc.IH [of "?a\<lparr>sa_pools := (sa_pools ?a)[i := None]\<rparr>" "Suc i" qs] d Suc.prems(3,4)
      by (auto simp: ps restrict_map_def fun_eq_iff simp del: destroy_loop.simps)
    moreover have "take (Suc (length ps - i) div 2) ps = p # take (Suc (length qs - Suc i) div 2) qs"
    proof -
      have "Suc (length ps - i) div 2 = Suc (Suc (length qs - Suc i) div 2)"
        using at(3) by (cases "length qs = i") (auto simp: ps Suc_diff_le Suc_diff_Suc)
      then show ?thesis
        by (simp add: ps)
    qed
    ultimately show ?thesis
      by (auto simp: restrict_map_def fun_eq_iff simp del: destroy_loop.simps)
  qed (use Suc.prems(2) in simp)
qed

definition three_pools :: SlabAllocator where
  "three_pools =
     (let a1 = snd (slab_pool_create (Some 1) (Some 65536) (snd slab_allocator_init) 64 16);
          a2 = snd (slab_pool_create (Some 2) (Some 131072) a1 128 16)
      in snd (slab_pool_create (Some 3) (Some 196608) a2 256 16))"

lemma slab_pool_create_fields:
  assumes "sa_num_pools alloc < SLAB_MAX_POOLS"
  shows "sa_pools (snd (slab_pool_create (Some p) mem alloc sz al)) = (sa_pools alloc)[sa_num_pools alloc := Some p]"
    and "sa_num_pools (snd (slab_pool_create (Some p) mem alloc sz al)) = Suc (sa_num_pools alloc)"
    and "sa_store (snd (slab_pool_create (Some p) mem alloc sz al)) p \<noteq> None"
  using assms by (simp_all add: slab_pool_create_def Let_def)

lemma three_pools_fields:
  "sa_pools three_pools = Some 1 # Some 2 # Some 3 # replicate 29 None" "sa_num_pools three_pools = 3"
  "sa_store three_pools 3 \<noteq> None"
proof -
  have "replicate SLAB_MAX_POOLS None = None # None # None # replicate 29 (None :: nat option)"
    by (simp add: SLAB_MAX_POOLS_def numeral_eq_Suc)
  then show "sa_pools three_pools = Some 1 # Some 2 # Some 3 # replicate 29 None" "sa_num_pools three_pools = 3"
    "sa_store three_pools 3 \<noteq> None"
    by (simp_all add: three_pools_def Let_def slab_pool_create_fields SLAB_MAX_POOLS_def slab_allocator_init_def)
qed

text \<open>
  C28. The destructor releases only the first half of the pools. For an allocator with any number of
  registered pools, all different, the first half of them, rounded up, is released, and every
  other pool descriptor stays allocated with its pages. Nothing refers to it any more, because the
  number of registered pools is reset. So from two pools on memory is leaked.
\<close>

theorem slab_allocator_destroy_leaks:
  assumes "sa_pools alloc = map Some ps @ rest" and "sa_num_pools alloc = length ps"
    and "length ps \<le> SLAB_MAX_POOLS" and "distinct ps"
  shows "sa_store (slab_allocator_destroy alloc) p =
      (if p \<in> set (take (Suc (length ps) div 2) ps) then None else sa_store alloc p) \<and>
    sa_num_pools (slab_allocator_destroy alloc) = 0"
  using destroy_loop_half [of alloc 0 ps rest SLAB_MAX_POOLS] assms
  by (simp add: slab_allocator_destroy_def restrict_map_def)

theorem slab_allocator_destroy_leaks_witness:
  "sa_store (slab_allocator_destroy three_pools) 2 = None \<and>
   sa_store (slab_allocator_destroy three_pools) 3 = sa_store three_pools 3 \<and> sa_store three_pools 3 \<noteq> None"
  using slab_allocator_destroy_leaks [of three_pools "[1, 2, 3]" "replicate 29 None"] three_pools_fields
  by (simp add: SLAB_MAX_POOLS_def)

lemma round_up_16:
  assumes "unat sz \<le> 2 ^ 64 - 16"
  shows "unat (round_up sz 16) = (unat sz + 15) div 16 * 16"
proof -
  have "sz + 16 - 1 = sz + 15"
    by simp
  moreover have "unat (sz + 15) = unat sz + 15"
    using assms by (simp add: unat_word_ariths)
  moreover have "(unat sz + 15) div 16 * 16 \<le> unat sz + 15"
    by simp
  ultimately show ?thesis
    using assms by (simp add: round_up_def unat_word_ariths unat_div)
qed

lemma round_up_large:
  assumes "65536 < unat sz" and "unat sz \<le> 2 ^ 64 - 16"
  shows "65536 < unat (round_up sz 16)"
  using round_up_16 [OF assms(2)] assms(1) by linarith

text \<open>
  C29. What an allocation of more than 64 KiB returns, when no pool of its size exists yet: as long as
  fewer than 32 pools are registered and the descriptor of a new pool can be allocated the result is
  NULL, whatever memory the system has, because a pool is created whose objects do not fit a page and
  which is therefore empty. Only when no pool can be created does the fallback to the
  system allocator decide. The size must not be within 15 bytes of the end of the 64-bit range, where the rounding wraps.
\<close>

theorem slab_alloc_large_fails:
  assumes "65536 < unat sz" and "unat sz \<le> 2 ^ 64 - 16"
    and "find_pool alloc (\<lambda>pool. sp_obj_size pool = aligned_obj_size sz SLAB_DEFAULT_ALIGNMENT) = None"
  shows "fst (slab_alloc os alloc sz) =
    (if sa_num_pools alloc < SLAB_MAX_POOLS \<and> os_pool os \<noteq> None then None else os_large os)"
proof -
  have "sz \<noteq> 0" "\<not> sz < SLAB_MIN_OBJ_SIZE"
    using assms(1) by (auto simp: word_less_nat_alt slab_consts)
  moreover have "65536 div round_up sz 16 = 0"
    using round_up_large [OF assms(1,2)] by (simp add: word_arith_nat_div)
  ultimately show ?thesis
    using assms(3)
    by (cases "os_pool os"; cases "os_first os"; cases "os_page os")
      (simp_all add: slab_alloc_def slab_find_or_create_pool_def slab_pool_create_def slab_pool_grow_def
        slab_page_create_def alloc_from_def slab_pool_alloc_def large_alloc_def Let_def SLAB_DEFAULT_ALIGNMENT_def
        SLAB_PAGE_SIZE_def not_less split: option.split)
qed

theorem slab_alloc_large_fails_witness:
  "fst (slab_alloc \<lparr>os_pool = Some 1, os_first = Some 65536, os_page = Some 131072, os_large = Some 196608\<rparr>
     (snd slab_allocator_init) 65552) = None"
  using slab_alloc_large_fails [of 65552 "snd slab_allocator_init"
      "\<lparr>os_pool = Some 1, os_first = Some 65536, os_page = Some 131072, os_large = Some 196608\<rparr>"]
  by (simp add: find_pool_def slab_allocator_init_def slab_consts)

end
