(* ===== verification/Slab_Serve.thy ===== *)
theory Slab_Serve
  imports Slab_Alloc
begin

text \<open>
  When the allocator returns memory. As long as every registered pool exists and uses pages of the
  standard size, an allocation whose size fits in a slab page succeeds if the system has memory.
\<close>

definition std_pool :: "(nat \<rightharpoonup> SlabPool) \<Rightarrow> nat \<Rightarrow> bool" where
  "std_pool store q \<longleftrightarrow> (case store q of None \<Rightarrow> False | Some pool \<Rightarrow> sp_page_size pool = SLAB_PAGE_SIZE)"

definition sa_inv :: "SlabAllocator \<Rightarrow> bool" where
  "sa_inv alloc \<longleftrightarrow>
     sa_num_pools alloc \<le> SLAB_MAX_POOLS \<and> length (sa_pools alloc) = SLAB_MAX_POOLS \<and>
     (\<forall>i < sa_num_pools alloc. \<exists>q. sa_pools alloc ! i = Some q \<and> std_pool (sa_store alloc) q)"

lemma std_pool_upd [simp]:
  "std_pool (store(p \<mapsto> pool)) q = (if q = p then sp_page_size pool = SLAB_PAGE_SIZE else std_pool store q)"
  by (simp add: std_pool_def)

definition os_ok :: "SlabOs \<Rightarrow> bool" where
  "os_ok os \<longleftrightarrow> os_pool os \<noteq> None \<and> os_first os \<noteq> None \<and> os_page os \<noteq> None \<and> os_large os \<noteq> None"

lemma slab_init_inv: "sa_inv (snd slab_allocator_init)"
  by (simp add: sa_inv_def slab_allocator_init_def)

lemma pool_index_Some:
  "pool_index test ps = Some i \<Longrightarrow> i < length ps \<and> (\<exists>q. ps ! i = Some q \<and> test q)"
  by (induction ps arbitrary: i) (auto split: if_splits option.splits)

lemma find_pool_Some:
  assumes "find_pool alloc test = Some p"
  obtains pool where "sa_store alloc p = Some pool" and "test pool"
proof -
  obtain i where i: "pool_index (\<lambda>p. case sa_store alloc p of None \<Rightarrow> False | Some pool \<Rightarrow> test pool)
      (take (sa_num_pools alloc) (sa_pools alloc)) = Some i" "sa_pools alloc ! i = Some p"
    using assms by (auto simp: find_pool_def bind_eq_Some_conv)
  then have "case sa_store alloc p of None \<Rightarrow> False | Some pool \<Rightarrow> test pool"
    using pool_index_Some [OF i(1)] by auto
  then show thesis
    using that by (cases "sa_store alloc p") auto
qed

lemma find_pool_registered:
  assumes "find_pool alloc test = Some p" and "sa_inv alloc"
  shows "\<exists>i < sa_num_pools alloc. sa_pools alloc ! i = Some p"
proof -
  obtain i where i: "pool_index (\<lambda>p. case sa_store alloc p of None \<Rightarrow> False | Some pool \<Rightarrow> test pool)
      (take (sa_num_pools alloc) (sa_pools alloc)) = Some i" "sa_pools alloc ! i = Some p"
    using assms by (auto simp: find_pool_def bind_eq_Some_conv)
  then show ?thesis
    using pool_index_Some [OF i(1)] by auto
qed

text \<open>A pool of objects that fit in a page always yields one.\<close>

lemma pool_alloc_serves:
  assumes "mem \<noteq> None" and "sp_page_size pool = SLAB_PAGE_SIZE" and "0 < sp_obj_size pool" and "sp_obj_size pool \<le> 65536"
  shows "fst (slab_pool_alloc mem pool) \<noteq> None" and "sp_page_size (snd (slab_pool_alloc mem pool)) = SLAB_PAGE_SIZE"
proof -
  obtain b where m: "mem = Some b"
    using assms(1) by auto
  have le: "unat (sp_obj_size pool) \<le> 65536"
    using assms(4) by (simp add: word_le_nat_alt)
  have pos: "0 < unat (sp_obj_size pool)"
    using assms(3) by (simp add: unat_gt_0 word_gt_0)
  have "unat (SLAB_PAGE_SIZE div sp_obj_size pool) = 65536 div unat (sp_obj_size pool)"
    by (simp add: unat_div SLAB_PAGE_SIZE_def)
  moreover have "65536 div unat (sp_obj_size pool) < 2 ^ 32"
    by (rule le_less_trans [OF div_le_dividend]) simp
  moreover have "0 < 65536 div unat (sp_obj_size pool)"
    using le pos by (simp add: div_greater_zero_iff)
  ultimately have "0 < unat (ucast (SLAB_PAGE_SIZE div sp_obj_size pool) :: u32)"
    by (simp add: unsigned_ucast_eq take_bit_nat_def)
  then have "sp_free (slab_pool_grow mem pool) \<noteq> []"
    using assms(2) by (simp add: slab_pool_grow_def slab_page_create_def m carve_list Let_def)
  then show "fst (slab_pool_alloc mem pool) \<noteq> None" "sp_page_size (snd (slab_pool_alloc mem pool)) = SLAB_PAGE_SIZE"
    using assms(2) by (auto simp: slab_pool_alloc_def slab_pool_grow_def slab_page_create_def m Let_def split: list.splits)
qed

lemma alloc_from_serves:
  assumes "mem \<noteq> None" and "sa_inv alloc" and "sa_store alloc p = Some pool" and "sp_page_size pool = SLAB_PAGE_SIZE"
    and "0 < sp_obj_size pool" and "sp_obj_size pool \<le> 65536"
  shows "fst (alloc_from mem alloc p) \<noteq> None" and "sa_inv (snd (alloc_from mem alloc p))"
proof -
  note s = pool_alloc_serves [OF assms(1,4-6)]
  obtain r pool' where r: "slab_pool_alloc mem pool = (r, pool')"
    by fastforce
  show "fst (alloc_from mem alloc p) \<noteq> None"
    using s(1) assms(3) r by (simp add: alloc_from_def)
  have "sa_inv (alloc\<lparr>sa_store := (sa_store alloc)(p \<mapsto> pool')\<rparr>)"
    using assms(2) s(2) r by (auto simp: sa_inv_def)
  then show "sa_inv (snd (alloc_from mem alloc p))"
    using assms(3) r by (simp add: alloc_from_def)
qed

lemma sa_inv_page_size:
  assumes "sa_inv alloc" and "i < sa_num_pools alloc" and "sa_pools alloc ! i = Some p" and "sa_store alloc p = Some pool"
  shows "sp_page_size pool = SLAB_PAGE_SIZE"
  using assms by (auto simp: sa_inv_def std_pool_def)

lemma round_up_page:
  assumes "32 \<le> unat sz" and "unat sz \<le> 65536"
  shows "unat (round_up sz 4096) = (unat sz + 4095) div 4096 * 4096"
    and "unat sz \<le> unat (round_up sz 4096)" and "unat (round_up sz 4096) \<le> 65536"
proof -
  have a: "unat (sz + 4096 - 1) = unat sz + 4095"
    using assms(2) by (simp add: unat_word_ariths)
  have b: "(unat sz + 4095) div 4096 \<le> 16"
    using assms(2) by simp
  show e: "unat (round_up sz 4096) = (unat sz + 4095) div 4096 * 4096"
    unfolding round_up_def unat_word_ariths(2) unat_div a using b by (simp add: unat_word_ariths)
  show "unat (round_up sz 4096) \<le> 65536"
    unfolding e using b by simp
  show "unat sz \<le> unat (round_up sz 4096)"
    unfolding e using dividend_less_div_times [of 4096 "unat sz + 4095"] by simp
qed

lemma pool_create_serves:
  assumes inv: "sa_inv alloc" and os: "os_ok os" and sz: "32 \<le> unat sz" "unat sz \<le> 65536"
    and n: "sa_num_pools alloc < SLAB_MAX_POOLS"
  obtains p pool alloc' where "slab_pool_create (os_pool os) (os_first os) alloc sz 4096 = (Some p, alloc')"
    and "sa_inv alloc'" and "sa_store alloc' p = Some pool" and "sp_page_size pool = SLAB_PAGE_SIZE"
    and "sp_obj_size pool = round_up sz 4096"
proof -
  obtain p b where o: "os_pool os = Some p" "os_first os = Some b"
    using os by (auto simp: os_ok_def)
  have "\<not> sz < SLAB_MIN_OBJ_SIZE"
    using sz(1) by (simp add: SLAB_MIN_OBJ_SIZE_def word_less_nat_alt)
  define pool where "pool = slab_pool_grow (os_first os)
      \<lparr>sp_obj_size = round_up sz 4096, sp_alignment = 4096, sp_page_size = SLAB_PAGE_SIZE,
       sp_free = [], sp_free_count = 0, sp_pages = [], sp_page_count = 0,
       sp_total_allocated = 0, sp_total_freed = 0, sp_alloc_fast = 0, sp_alloc_slow = 0\<rparr>"
  have pool: "sp_page_size pool = SLAB_PAGE_SIZE" "sp_obj_size pool = round_up sz 4096"
    by (simp_all add: pool_def slab_pool_grow_def slab_page_create_def o Let_def)
  define alloc' where "alloc' = snd (slab_pool_create (os_pool os) (os_first os) alloc sz 4096)"
  have c: "slab_pool_create (os_pool os) (os_first os) alloc sz 4096 = (Some p, alloc')"
    and st: "sa_store alloc' = (sa_store alloc)(p \<mapsto> pool)" "sa_num_pools alloc' = Suc (sa_num_pools alloc)"
      "sa_pools alloc' = (sa_pools alloc)[sa_num_pools alloc := Some p]"
    using n \<open>\<not> sz < SLAB_MIN_OBJ_SIZE\<close> by (simp_all add: alloc'_def slab_pool_create_def o Let_def pool_def)
  have "sa_inv alloc'"
    using inv n pool(1) unfolding sa_inv_def st by (fastforce simp: less_Suc_eq nth_list_update)
  then show thesis
    using that [OF c] st(1) pool by simp
qed

lemma slab_alloc_page_serves:
  assumes inv: "sa_inv alloc" and os: "os_ok os" and sz: "32 \<le> unat sz" "unat sz \<le> 65536"
  shows "fst (slab_alloc_aligned os alloc sz 4096) \<noteq> None \<and> sa_inv (snd (slab_alloc_aligned os alloc sz 4096))"
proof -
  let ?sz = "round_up sz 4096"
  note r = round_up_page [OF sz]
  have osz: "0 < ?sz" "?sz \<le> 65536" "aligned_obj_size sz 4096 = ?sz"
    using r(2,3) sz(1) unat_gt_0 [of ?sz] by (auto simp: word_gt_0 unat_gt_0 word_le_nat_alt word_less_nat_alt aligned_obj_size_def SLAB_MIN_OBJ_SIZE_def Let_def)
  let ?test = "\<lambda>p. sp_obj_size p = ?sz \<and> sp_alignment p \<ge> 4096"
  have large: "fst (large_alloc os alloc sz) \<noteq> None \<and> sa_inv (snd (large_alloc os alloc sz))"
    using inv os by (auto simp: large_alloc_def os_ok_def sa_inv_def split: option.splits)
  show ?thesis
  proof (cases "find_pool alloc ?test")
    case (Some p)
    obtain pool where p: "sa_store alloc p = Some pool" "sp_obj_size pool = ?sz"
      using find_pool_Some [OF Some] by auto
    have "sp_page_size pool = SLAB_PAGE_SIZE"
      using find_pool_registered [OF Some inv] sa_inv_page_size [OF inv _ _ p(1)] by auto
    then show ?thesis
      using Some alloc_from_serves [of "os_page os" alloc p pool] inv p osz os
      by (simp add: slab_alloc_aligned_def Let_def os_ok_def)
  next
    case None
    show ?thesis
    proof (cases "?sz \<le> SLAB_PAGE_SIZE div 4 \<and> sa_num_pools alloc < SLAB_MAX_POOLS")
      case False
      then have "(if ?sz \<le> SLAB_PAGE_SIZE div 4 then slab_pool_create (os_pool os) (os_first os) alloc sz 4096 else (None, alloc)) =
          (None, alloc)"
        by (auto simp: slab_pool_create_def)
      then show ?thesis
        using None large osz(3) by (simp add: slab_alloc_aligned_def Let_def)
    next
      case True
      obtain p pool alloc' where c: "slab_pool_create (os_pool os) (os_first os) alloc sz 4096 = (Some p, alloc')"
          "sa_inv alloc'" "sa_store alloc' p = Some pool" "sp_page_size pool = SLAB_PAGE_SIZE" "sp_obj_size pool = ?sz"
        by (rule pool_create_serves [OF inv os sz conjunct2 [OF True]])
      then show ?thesis
        using None True alloc_from_serves [of "os_page os" alloc' p pool] osz os
        by (simp add: slab_alloc_aligned_def Let_def os_ok_def)
    qed
  qed
qed

end
