(* ===== verification/Overlay.thy ===== *)
theory Overlay
  imports Rehash Slab_Alloc
begin

text \<open>
  The checkpoint overlay of \<^verbatim>\<open>src/overlay.c\<close>: the embeddings written while a checkpoint is running, in a
  table keyed by entry id that grows by the incremental rehash of \<open>Rehash\<close>, and a list of tombstones.
  The embeddings live in objects of a slab pool of the overlay's own. Every occupied slot owns one
  object (no two objects overlap, see \<open>Slab_Alloc\<close>), so a slot of the model holds the contents of its
  object; the data of a free slot stands for the NULL pointer. The allocator is passed through the
  operations that use it. \<open>None\<close> as the result of an operation means that a probe loop does not end or
  that the code would write outside an array.
\<close>

subsection \<open>Data\<close>

text \<open>An embedding: the bit patterns of its components.\<close>

type_synonym emb = "u32 list"

definition OVERLAY_EMPTY :: u32 where
  "OVERLAY_EMPTY = UINT32_MAX"

definition OVERLAY_INITIAL_CAP :: u32 where
  "OVERLAY_INITIAL_CAP = 256"

definition OVERLAY_TOMB_INITIAL :: u32 where
  "OVERLAY_TOMB_INITIAL = 256"

record OverlaySlot =
  ov_entry_id :: u32
  ov_data :: emb

record OverlayBuffer = "OverlaySlot RehashTable" +
  ob_tombstones :: "u32 list option"
  ob_tomb_capacity :: u32
  ob_memory_used :: u64
  ob_budget_bytes :: u64
  ob_data_pool :: "nat option"
  ob_allocator :: bool

definition ov_empty :: OverlaySlot where
  "ov_empty = \<lparr>ov_entry_id = OVERLAY_EMPTY, ov_data = []\<rparr>"

abbreviation ov_occ :: "OverlaySlot \<Rightarrow> bool" where
  "ov_occ s \<equiv> ov_entry_id s \<noteq> OVERLAY_EMPTY"

subsection \<open>Operations\<close>

definition overlay_full :: "OverlayBuffer \<Rightarrow> bool" where
  "overlay_full ob \<longleftrightarrow> ob_budget_bytes ob \<noteq> 0 \<and> ob_memory_used ob \<ge> ob_budget_bytes ob"

definition overlay_hash :: "u32 \<Rightarrow> u32" where
  "overlay_hash entry_id =
     (let h = entry_id;
          h = h XOR drop_bit 16 h;
          h = h * 0x45d9f3b
      in h XOR drop_bit 16 h)"

definition init_slots :: "u32 \<Rightarrow> OverlaySlot list" where
  "init_slots capacity = replicate (unat capacity) ov_empty"

definition ov_clear :: "OverlaySlot \<Rightarrow> OverlaySlot" where
  "ov_clear s = s\<lparr>ov_entry_id := OVERLAY_EMPTY\<rparr>"

definition overlay_rehash_step :: "OverlayBuffer \<Rightarrow> OverlayBuffer option" where
  "overlay_rehash_step ob = rt_step ov_occ ov_entry_id overlay_hash ov_clear ob"

definition overlay_begin_grow :: "bool \<Rightarrow> OverlayBuffer \<Rightarrow> graveldb_status \<times> OverlayBuffer" where
  "overlay_begin_grow malloc_ok ob = rt_grow ov_empty malloc_ok ob"

text \<open>The structure after \<^verbatim>\<open>memset(ob, 0, sizeof(*ob))\<close>.\<close>

definition overlay_zero :: OverlayBuffer where
  "overlay_zero =
     \<lparr>rt_slots = [], rt_capacity = 0, rt_count = 0, rt_mask = 0, rt_old_slots = None,
      rt_old_capacity = 0, rt_old_mask = 0, rt_rehash_cursor = 0, ob_tombstones = None,
      ob_tomb_capacity = 0, ob_memory_used = 0, ob_budget_bytes = 0, ob_data_pool = None,
      ob_allocator = False\<rparr>"

definition emb_bytes :: "int \<Rightarrow> u64" where
  "emb_bytes dim = of_int dim * 4"

definition overlay_init ::
  "bool \<Rightarrow> bool \<Rightarrow> nat option \<Rightarrow> nat option \<Rightarrow> SlabAllocator \<Rightarrow> OverlayBuffer \<Rightarrow> int
     \<Rightarrow> graveldb_status \<times> OverlayBuffer \<times> SlabAllocator" where
  "overlay_init slots_ok tomb_ok ptr mem alloc ob dim =
     (let cap = OVERLAY_INITIAL_CAP in
      if \<not> slots_ok then (GRAVELDB_ERR_OOM, ob\<lparr>rt_slots := []\<rparr>, alloc)
      else
        let ob = ob\<lparr>rt_slots := init_slots cap, rt_capacity := cap, rt_count := 0, rt_mask := cap - 1,
                    rt_old_slots := None, rt_old_capacity := 0, rt_old_mask := 0, rt_rehash_cursor := 0,
                    ob_tomb_capacity := OVERLAY_TOMB_INITIAL,
                    ob_tombstones := (if tomb_ok then Some [] else None)\<rparr>
        in if \<not> tomb_ok then (GRAVELDB_ERR_OOM, ob\<lparr>rt_slots := []\<rparr>, alloc)
        else
          let ob = ob\<lparr>ob_memory_used := 0, ob_budget_bytes := 0\<rparr> in
          if \<not> ob_allocator ob \<or> dim \<le> 0 then (GRAVELDB_ERR_INVALID, overlay_zero, alloc)
          else case slab_pool_create ptr mem alloc (emb_bytes dim) SLAB_DEFAULT_ALIGNMENT of
              (None, alloc) \<Rightarrow> (GRAVELDB_ERR_OOM, overlay_zero, alloc)
            | (Some p, alloc) \<Rightarrow> (GRAVELDB_OK, ob\<lparr>ob_data_pool := Some p\<rparr>, alloc))"

definition overlay_destroy :: "SlabAllocator \<Rightarrow> OverlayBuffer \<Rightarrow> OverlayBuffer \<times> SlabAllocator" where
  "overlay_destroy alloc ob =
     (overlay_zero,
      (case ob_data_pool ob of
         Some p \<Rightarrow> if ob_allocator ob then slab_pool_destroy alloc p else alloc
       | None \<Rightarrow> alloc))"

text \<open>The size of a slot: an id and a pointer.\<close>

definition OVERLAY_SLOT_SIZE :: u64 where
  "OVERLAY_SLOT_SIZE = 16"

text \<open>The insertion of a new id at the slot where the loop over the current table was left.\<close>

definition overlay_put_new ::
  "nat option \<Rightarrow> SlabAllocator \<Rightarrow> OverlayBuffer \<Rightarrow> u32 \<Rightarrow> u32 \<Rightarrow> emb \<Rightarrow> int
     \<Rightarrow> graveldb_status \<times> OverlayBuffer \<times> SlabAllocator" where
  "overlay_put_new mem alloc ob h entry_id data dim =
     (case (case ob_data_pool ob of None \<Rightarrow> (None, alloc) | Some p \<Rightarrow> alloc_from mem alloc p) of
        (None, alloc) \<Rightarrow> (GRAVELDB_ERR_OOM, ob\<lparr>rt_slots := (rt_slots ob)[unat h := ov_empty]\<rparr>, alloc)
      | (Some ptr, alloc) \<Rightarrow>
          (GRAVELDB_OK,
           ob\<lparr>rt_slots := (rt_slots ob)[unat h := \<lparr>ov_entry_id = entry_id, ov_data = data\<rparr>],
              rt_count := rt_count ob + 1,
              ob_memory_used := ob_memory_used ob + (emb_bytes dim + OVERLAY_SLOT_SIZE)\<rparr>, alloc))"

definition overlay_put_tables ::
  "nat option \<Rightarrow> SlabAllocator \<Rightarrow> OverlayBuffer \<Rightarrow> u32 \<Rightarrow> emb \<Rightarrow> int
     \<Rightarrow> graveldb_status \<times> OverlayBuffer \<times> SlabAllocator" where
  "overlay_put_tables mem alloc ob entry_id data dim =
     (let start = overlay_hash entry_id AND rt_mask ob;
          r = probe_round (\<lambda>s. \<not> ov_occ s \<or> ov_entry_id s = entry_id) (rt_slots ob) (rt_mask ob) start
                (length (rt_slots ob)) start;
          h = (case r of Some h \<Rightarrow> h | None \<Rightarrow> start)
      in if r \<noteq> None \<and> ov_occ (rt_slots ob ! unat h)
         then (GRAVELDB_OK,
               ob\<lparr>rt_slots := (rt_slots ob)[unat h := (rt_slots ob ! unat h)\<lparr>ov_data := data\<rparr>]\<rparr>, alloc)
         else
           case rt_old_slots ob of
             None \<Rightarrow> overlay_put_new mem alloc ob h entry_id data dim
           | Some old \<Rightarrow>
               (case rt_find ov_occ ov_entry_id overlay_hash old (rt_old_mask ob) entry_id of
                  Some oh \<Rightarrow>
                    (GRAVELDB_OK,
                     ob\<lparr>rt_old_slots := Some (old[unat oh := (old ! unat oh)\<lparr>ov_data := data\<rparr>])\<rparr>, alloc)
                | None \<Rightarrow> overlay_put_new mem alloc ob h entry_id data dim))"

definition overlay_put ::
  "bool \<Rightarrow> nat option \<Rightarrow> SlabAllocator \<Rightarrow> OverlayBuffer \<Rightarrow> u32 \<Rightarrow> emb \<Rightarrow> int
     \<Rightarrow> (graveldb_status \<times> OverlayBuffer \<times> SlabAllocator) option" where
  "overlay_put malloc_ok mem alloc ob entry_id data dim =
     (case overlay_rehash_step ob of
        None \<Rightarrow> None
      | Some ob \<Rightarrow>
          if rt_old_slots ob = None \<and> rt_count ob * 10 > rt_capacity ob * 7
          then (case overlay_begin_grow malloc_ok ob of (st, ob) \<Rightarrow>
                  if st \<noteq> GRAVELDB_OK then Some (st, ob, alloc)
                  else Some (overlay_put_tables mem alloc ob entry_id data dim))
          else Some (overlay_put_tables mem alloc ob entry_id data dim))"

definition overlay_get :: "OverlayBuffer \<Rightarrow> u32 \<Rightarrow> (emb option \<times> OverlayBuffer) option" where
  "overlay_get ob entry_id =
     map_option (\<lambda>ob. (map_option ov_data (rt_get ov_occ ov_entry_id overlay_hash ob entry_id), ob))
       (overlay_rehash_step ob)"

definition overlay_contains :: "OverlayBuffer \<Rightarrow> u32 \<Rightarrow> (bool \<times> OverlayBuffer) option" where
  "overlay_contains ob entry_id =
     map_option (\<lambda>ob. (rt_get ov_occ ov_entry_id overlay_hash ob entry_id \<noteq> None, ob))
       (overlay_rehash_step ob)"

definition overlay_tombstone :: "bool \<Rightarrow> OverlayBuffer \<Rightarrow> u32 \<Rightarrow> (graveldb_status \<times> OverlayBuffer) option" where
  "overlay_tombstone realloc_ok ob entry_id =
     (let n = (case ob_tombstones ob of None \<Rightarrow> 0 | Some ts \<Rightarrow> length ts);
          grow = n \<ge> unat (ob_tomb_capacity ob);
          ob = (if grow
                then ob\<lparr>ob_tomb_capacity := ob_tomb_capacity ob * 2,
                        ob_tombstones := (if realloc_ok then Some (case ob_tombstones ob of None \<Rightarrow> [] | Some ts \<Rightarrow> ts)
                                          else None)\<rparr>
                else ob)
      in if grow \<and> \<not> realloc_ok then Some (GRAVELDB_ERR_OOM, ob)
         else case ob_tombstones ob of
             None \<Rightarrow> None
           | Some ts \<Rightarrow>
               if n < unat (ob_tomb_capacity ob)
               then Some (GRAVELDB_OK, ob\<lparr>ob_tombstones := Some (ts @ [entry_id])\<rparr>)
               else None)"

subsection \<open>Contents and invariants\<close>

definition ov_mk :: "u32 \<Rightarrow> emb \<Rightarrow> OverlaySlot" where
  "ov_mk k v = \<lparr>ov_entry_id = k, ov_data = v\<rparr>"

interpretation ov: kv_table ov_occ ov_entry_id overlay_hash ov_empty OVERLAY_EMPTY ov_data ov_mk ov_clear
  by unfold_locales (simp_all add: ov_empty_def ov_mk_def ov_clear_def)

definition overlay_inv :: "OverlayBuffer \<Rightarrow> bool" where
  "overlay_inv ob \<longleftrightarrow> rt_inv ov_occ ov_entry_id overlay_hash ob"

definition overlay_map :: "OverlayBuffer \<Rightarrow> u32 \<rightharpoonup> emb" where
  "overlay_map ob = rt_map ov_occ ov_entry_id ov_data ob"

definition overlay_hidden :: "OverlayBuffer \<Rightarrow> u32 \<Rightarrow> bool" where
  "overlay_hidden ob k = rt_hidden ov_occ ov_entry_id overlay_hash ob k"

lemmas overlay_defs = overlay_inv_def overlay_map_def overlay_hidden_def overlay_rehash_step_def

lemma overlay_step:
  assumes "overlay_inv ob"
  obtains ob1 where "overlay_rehash_step ob = Some ob1" and "overlay_inv ob1" and "overlay_map ob1 = overlay_map ob"
    and "rt_count ob1 = rt_count ob" and "rt_old_slots ob = None \<Longrightarrow> ob1 = ob"
proof -
  have inv: "rt_inv ov_occ ov_entry_id overlay_hash ob" and wf: "rt_wf ov_occ ob"
    using assms by (auto simp: overlay_inv_def rt_inv_def)
  obtain ob1 where s: "rt_step ov_occ ov_entry_id overlay_hash ov_clear ob = Some ob1"
      "rt_count ob1 = rt_count ob" "rt_old_slots ob = None \<Longrightarrow> ob1 = ob"
    using ov.step_total [OF wf] by metis
  then show thesis
    using that ov.step_sem [OF inv s(1)] by (simp add: overlay_defs)
qed

lemma inv_memory [simp]:
  "rt_inv ov_occ ov_entry_id overlay_hash (ob\<lparr>ob_memory_used := m\<rparr>) = rt_inv ov_occ ov_entry_id overlay_hash ob"
  "rt_map ov_occ ov_entry_id ov_data (ob\<lparr>ob_memory_used := m\<rparr>) = rt_map ov_occ ov_entry_id ov_data ob"
  by (simp_all add: rt_inv_def rt_wf_def rt_map_def cong: option.case_cong)

lemma overlay_put_tables_sem:
  assumes inv: "rt_inv ov_occ ov_entry_id overlay_hash ob" and slack: "rt_slack ov_occ ob"
    and k: "k \<noteq> OVERLAY_EMPTY" and vis: "\<not> rt_hidden ov_occ ov_entry_id overlay_hash ob k"
  shows "case overlay_put_tables mem alloc ob k v dim of (st, ob', alloc') \<Rightarrow>
    overlay_inv ob' \<and>
    (st = GRAVELDB_OK \<and> overlay_map ob' = (overlay_map ob)(k \<mapsto> v) \<or>
     st = GRAVELDB_ERR_OOM \<and> overlay_map ob' = overlay_map ob \<and>
       (\<forall>p. ob_data_pool ob = Some p \<longrightarrow> fst (alloc_from mem alloc p) = None))"
proof -
  have wf: "rt_wf ov_occ ob"
    using inv by (simp add: rt_inv_def)
  obtain pl where l: "rt_locate ov_occ ov_entry_id overlay_hash ob k = Some pl"
    by (rule ov.locate_total [OF wf])
  have pm: "pow2_mask (length (rt_slots ob)) (rt_mask ob)"
    by (rule ov.twf_mask [OF wf])
  have round: "probe_round stop (rt_slots ob) (rt_mask ob) (x AND rt_mask ob) (length (rt_slots ob)) (x AND rt_mask ob) =
      probe stop (rt_slots ob) (rt_mask ob) (length (rt_slots ob)) (x AND rt_mask ob)" for stop x
    by (rule probe_round_eq_probe [OF pm pow2_mask_and_less [OF pm]])
  have upd: "xs[i := (xs ! i)\<lparr>ov_data := v\<rparr>] = xs[i := ov_mk k v]" if "ov_entry_id (xs ! i) = k" for xs i
    using that by (cases "xs ! i") (simp add: ov_mk_def)
  note st = ov.store_sem [OF inv slack k vis l, of v]
  show ?thesis
    using wf k l
  proof (cases rule: ov.locate_cases)
    case (new h)
    then show ?thesis
      using st k by (simp add: overlay_put_tables_def round Let_def upd rt_store_def overlay_defs)
  next
    case (old h old)
    then obtain h1 where "probe (\<lambda>s. \<not> ov_occ s \<or> ov_entry_id s = k) (rt_slots ob) (rt_mask ob)
        (length (rt_slots ob)) (overlay_hash k AND rt_mask ob) = Some h1" "\<not> ov_occ (rt_slots ob ! unat h1)"
      using l by (auto simp: rt_locate_def split: option.splits if_splits)
    then show ?thesis
      using st old by (simp add: overlay_put_tables_def round Let_def upd rt_store_def overlay_defs)
  next
    case (fresh h)
    have eq: "overlay_put_tables mem alloc ob k v dim = overlay_put_new mem alloc ob h k v dim"
      using fresh by (cases "rt_old_slots ob") (simp_all add: overlay_put_tables_def round Let_def)
    note sw = ov.swap_free [OF inv fresh(2,3), of ov_empty]
    show ?thesis
      unfolding eq overlay_put_new_def
      using st sw fresh(1)
      by (auto simp: overlay_defs ov_empty_def rt_store_def ov_mk_def split: option.splits prod.splits)
  qed
qed

lemma step_pool: "overlay_rehash_step ob = Some ob1 \<Longrightarrow> ob_data_pool ob1 = ob_data_pool ob"
  by (auto simp: overlay_rehash_step_def rt_step_def split: option.splits if_splits)

lemma overlay_put_sem:
  assumes inv: "overlay_inv ob" and small: "unat (rt_count ob) < 2 ^ 28" and k: "k \<noteq> OVERLAY_EMPTY"
    and step: "overlay_rehash_step ob = Some ob1" and vis: "\<not> overlay_hidden ob1 k"
  shows "\<exists>st ob' alloc'. overlay_put malloc_ok mem alloc ob k v dim = Some (st, ob', alloc') \<and> overlay_inv ob' \<and>
    (st = GRAVELDB_OK \<and> overlay_map ob' = (overlay_map ob)(k \<mapsto> v) \<or>
     st = GRAVELDB_ERR_OOM \<and> overlay_map ob' = overlay_map ob \<and>
       (malloc_ok \<longrightarrow> (\<forall>p. ob_data_pool ob = Some p \<longrightarrow> fst (alloc_from mem alloc p) = None)))"
proof -
  have inv0: "rt_inv ov_occ ov_entry_id overlay_hash ob" and wf0: "rt_wf ov_occ ob"
    using inv by (auto simp: overlay_inv_def rt_inv_def)
  have s: "overlay_inv ob1" "overlay_map ob1 = overlay_map ob" "rt_count ob1 = rt_count ob"
    using overlay_step [OF inv] step by (metis option.inject)+
  have inv1: "rt_inv ov_occ ov_entry_id overlay_hash ob1" and wf1: "rt_wf ov_occ ob1"
    using s(1) by (auto simp: overlay_inv_def rt_inv_def)
  note pool = step_pool [OF step]
  show ?thesis
  proof (cases "rt_old_slots ob1 = None \<and> rt_count ob1 * 10 > rt_capacity ob1 * 7")
    case grow: True
    then have full: "7 * unat (rt_capacity ob1) < 10 * unat (rt_count ob1)"
      using ov.grow_guard [OF wf1] by simp
    show ?thesis
    proof (cases malloc_ok)
      case True
      obtain ob2 where g: "rt_grow ov_empty True ob1 = (GRAVELDB_OK, ob2)" "rt_slack ov_occ ob2"
          "rt_inv ov_occ ov_entry_id overlay_hash ob2" "rt_map ov_occ ov_entry_id ov_data ob2 = rt_map ov_occ ov_entry_id ov_data ob1"
          "\<not> rt_hidden ov_occ ov_entry_id overlay_hash ob2 k"
        using ov.begin_grow_ok [OF wf1 _ full] grow small s(3) inv1 by metis
      have pool2: "ob_data_pool ob2 = ob_data_pool ob1"
        using g(1) by (auto simp: rt_grow_def Let_def)
      show ?thesis
        using overlay_put_tables_sem [OF g(3,2) k g(5), where mem = mem and alloc = alloc and v = v and dim = dim] g(1,4) grow True step s(2) pool pool2
        by (auto simp: overlay_put_def overlay_begin_grow_def overlay_map_def split: prod.splits)
    qed (use grow step s in \<open>simp add: overlay_put_def overlay_begin_grow_def rt_grow_def Let_def\<close>)
  next
    case ng: False
    have "rt_slack ov_occ ob1"
      using ov.step_slack [OF wf0 _ ng] step by (simp add: overlay_rehash_step_def)
    then show ?thesis
      using overlay_put_tables_sem [OF inv1 _ k, where mem = mem and alloc = alloc and v = v and dim = dim] vis ng step s(2) pool
      by (auto simp: overlay_put_def overlay_hidden_def split: prod.splits)
  qed
qed

lemma overlay_init_inv:
  assumes "overlay_init True True (Some p) mem alloc ob dim = (GRAVELDB_OK, ob', alloc')"
  shows "overlay_inv ob'" and "overlay_map ob' = Map.empty" and "rt_count ob' = 0" and "rt_old_slots ob' = None"
proof -
  have f: "rt_slots ob' = replicate 256 ov_empty" "rt_capacity ob' = 256" "rt_count ob' = 0" "rt_mask ob' = 255"
      "rt_old_slots ob' = None"
    using assms by (auto simp: overlay_init_def Let_def init_slots_def OVERLAY_INITIAL_CAP_def split: if_splits prod.splits option.splits)
  have pm: "pow2_mask 256 255"
    by (rule pow2_maskI [of 8]) simp_all
  show "overlay_inv ob'"
    using ov.inv_fresh [OF pm] ov.n_occ_fresh [of 256] pm
    by (simp add: overlay_inv_def rt_inv_def rt_wf_def f)
  show "overlay_map ob' = Map.empty"
    using ov.map_fresh [of ov_data 256] by (simp add: overlay_map_def rt_map_def f)
qed (use assms in \<open>auto simp: overlay_init_def Let_def split: if_splits prod.splits option.splits\<close>)

subsection \<open>Properties\<close>

text \<open>
  C23. Writing an embedding during a checkpoint refines the update of a finite map from entry ids to
  embeddings. The put returns and keeps the invariant. It either stores the embedding, or reports that
  it is out of memory with the contents unchanged; with memory for the table, the latter happens only
  when the slab pool is exhausted. The id must not be hidden in the old table of a rehash in progress.
\<close>

theorem overlay_put_map:
  assumes "overlay_inv ob" and "unat (rt_count ob) < 2 ^ 28" and "k \<noteq> OVERLAY_EMPTY"
    and "overlay_rehash_step ob = Some ob1" and "\<not> overlay_hidden ob1 k"
  shows "\<exists>st ob' alloc'. overlay_put malloc_ok mem alloc ob k v dim = Some (st, ob', alloc') \<and> overlay_inv ob' \<and>
    (st = GRAVELDB_OK \<and> overlay_map ob' = (overlay_map ob)(k \<mapsto> v) \<or>
     st = GRAVELDB_ERR_OOM \<and> overlay_map ob' = overlay_map ob \<and>
       (malloc_ok \<longrightarrow> (\<forall>p. ob_data_pool ob = Some p \<longrightarrow> fst (alloc_from mem alloc p) = None)))"
  using assms by (rule overlay_put_sem)

definition ov_demo :: OverlayBuffer where
  "ov_demo = fst (snd (overlay_init True True (Some 1) (Some 65536) (snd slab_allocator_init)
     (overlay_zero\<lparr>ob_allocator := True\<rparr>) 4))"

lemma ov_demo_init:
  "\<exists>alloc'. overlay_init True True (Some 1) (Some 65536) (snd slab_allocator_init)
     (overlay_zero\<lparr>ob_allocator := True\<rparr>) 4 = (GRAVELDB_OK, ov_demo, alloc')"
  by (simp add: ov_demo_def overlay_init_def overlay_zero_def slab_pool_create_def slab_allocator_init_def
      SLAB_MAX_POOLS_def Let_def)

lemma ov_demo_facts:
  "overlay_inv ov_demo" "overlay_map ov_demo = Map.empty" "rt_count ov_demo = 0" "rt_old_slots ov_demo = None"
  using ov_demo_init overlay_init_inv [where ob' = ov_demo] by auto

lemma ov_demo_step: "overlay_rehash_step ov_demo = Some ov_demo" "\<not> overlay_hidden ov_demo k"
  using ov_demo_facts(4) by (simp_all add: overlay_rehash_step_def rt_step_def overlay_hidden_def rt_hidden_def)

lemma ov_demo_pool: "ob_data_pool ov_demo = Some 1"
  by (simp add: ov_demo_def overlay_init_def overlay_zero_def slab_pool_create_def slab_allocator_init_def
      SLAB_MAX_POOLS_def Let_def)

text \<open>The allocator of the overlay with one free object in its pool.\<close>

definition ov_alloc :: SlabAllocator where
  "ov_alloc = (snd slab_allocator_init)\<lparr>sa_store := [1 \<mapsto> pool64\<lparr>sp_free := [65536], sp_free_count := 1\<rparr>]\<rparr>"

lemma ov_alloc_room: "fst (alloc_from mem ov_alloc 1) = Some 65536"
  by (simp add: ov_alloc_def alloc_from_def slab_pool_alloc_def)

theorem overlay_put_map_witness:
  "\<exists>ob' alloc'. overlay_put True None ov_alloc ov_demo 7 [1, 2, 3, 4] 4 = Some (GRAVELDB_OK, ob', alloc') \<and>
     overlay_inv ob' \<and> overlay_map ob' = [7 \<mapsto> [1, 2, 3, 4]]"
proof -
  have "unat (rt_count ov_demo) < 2 ^ 28" and "(7 :: u32) \<noteq> OVERLAY_EMPTY"
    by (simp_all add: ov_demo_facts OVERLAY_EMPTY_def UINT32_MAX_def)
  from overlay_put_map [OF ov_demo_facts(1) this ov_demo_step, of True None ov_alloc "[1, 2, 3, 4]" 4]
  show ?thesis
    by (auto simp: ov_demo_facts(2) ov_demo_pool ov_alloc_room [unfolded One_nat_def])
qed

text \<open>
  C35. What a read during a checkpoint returns, exactly: the embedding that the map has for the entry,
  unless the entry sits in the old table of a rehash in progress where the probe loop does not reach
  it. The read keeps the contents and the invariant, and the membership test agrees with it.
\<close>

theorem overlay_get_exact:
  assumes inv: "overlay_inv ob" and k: "k \<noteq> OVERLAY_EMPTY"
  shows "\<exists>ob1. overlay_rehash_step ob = Some ob1 \<and> overlay_inv ob1 \<and> overlay_map ob1 = overlay_map ob \<and>
    overlay_get ob k = Some (if overlay_hidden ob1 k then None else overlay_map ob k, ob1) \<and>
    overlay_contains ob k = Some (\<not> overlay_hidden ob1 k \<and> overlay_map ob k \<noteq> None, ob1)"
proof -
  obtain ob1 where s: "overlay_rehash_step ob = Some ob1" "overlay_inv ob1" "overlay_map ob1 = overlay_map ob"
    using overlay_step [OF inv] by metis
  have g: "map_option ov_data (rt_get ov_occ ov_entry_id overlay_hash ob1 k) =
      (if overlay_hidden ob1 k then None else overlay_map ob k)"
    using ov.get_map [OF _ k, of ob1] s(2,3) by (simp add: overlay_defs)
  have "rt_get ov_occ ov_entry_id overlay_hash ob1 k \<noteq> None \<longleftrightarrow>
      map_option ov_data (rt_get ov_occ ov_entry_id overlay_hash ob1 k) \<noteq> None"
    by simp
  also have "\<dots> \<longleftrightarrow> \<not> overlay_hidden ob1 k \<and> overlay_map ob k \<noteq> None"
    unfolding g by simp
  finally show ?thesis
    using s g by (auto simp: overlay_get_def overlay_contains_def)
qed

theorem overlay_get_exact_witness:
  "overlay_get ov_demo 7 = Some (None, ov_demo)"
proof -
  have "(7 :: u32) \<noteq> OVERLAY_EMPTY"
    by (simp add: OVERLAY_EMPTY_def UINT32_MAX_def)
  from overlay_get_exact [OF ov_demo_facts(1) this] show ?thesis
    using ov_demo_step by (auto simp: ov_demo_facts)
qed

lemma pool_index_last:
  "Some p \<notin> set ps \<Longrightarrow> pool_index (\<lambda>q. q = p) (ps @ [Some p]) = Some (length ps)"
  by (induction ps) (auto split: option.splits)

lemma slab_pool_create_SomeD:
  assumes "slab_pool_create (Some p) mem alloc sz al = (Some q, alloc')"
  shows "q = p" and "sa_num_pools alloc < SLAB_MAX_POOLS"
    and "sa_pools alloc' = (sa_pools alloc)[sa_num_pools alloc := Some p]" and "sa_num_pools alloc' = Suc (sa_num_pools alloc)"
    and "\<exists>pool. sa_store alloc' = (sa_store alloc)(p \<mapsto> pool) \<and>
      sa_total_pages alloc' = sa_total_pages alloc + of_nat (length (sp_pages pool)) \<and>
      sa_total_bytes alloc' = sa_total_bytes alloc + of_nat (length (sp_pages pool)) * SLAB_PAGE_SIZE"
  using assms
  by (auto simp: slab_pool_create_def Let_def slab_pool_grow_def slab_page_create_def split: if_splits option.splits)

lemma slab_pool_create_destroy:
  assumes "slab_pool_create (Some p) mem alloc sz al = (Some q, alloc')" and "sa_store alloc p = None"
    and "Some p \<notin> set (take (sa_num_pools alloc) (sa_pools alloc))" and "length (sa_pools alloc) = SLAB_MAX_POOLS"
  shows "case slab_pool_destroy alloc' p of alloc2 \<Rightarrow> sa_store alloc2 = sa_store alloc \<and>
    sa_num_pools alloc2 = sa_num_pools alloc \<and>
    take (sa_num_pools alloc) (sa_pools alloc2) = take (sa_num_pools alloc) (sa_pools alloc) \<and>
    sa_total_pages alloc2 = sa_total_pages alloc \<and> sa_total_bytes alloc2 = sa_total_bytes alloc"
proof -
  let ?n = "sa_num_pools alloc"
  note c = slab_pool_create_SomeD [OF assms(1)]
  have "take (Suc ?n) (sa_pools alloc') = take ?n (sa_pools alloc) @ [Some p]"
    using c(2,3) assms(4) by (simp add: take_Suc_conv_app_nth)
  then have "pool_index (\<lambda>q. q = p) (take (Suc ?n) (sa_pools alloc')) = Some ?n"
    using pool_index_last [OF assms(3)] c(2) assms(4) by simp
  then show ?thesis
    using c(3-5) assms(2) by (auto simp: slab_pool_destroy_def Let_def fun_upd_idem)
qed

text \<open>
  An overlay leaves no trace in the slab allocator: creating one with a fresh pool and destroying
  it again restores the set of pools and the page and byte counts.
\<close>

theorem overlay_init_destroy_roundtrip:
  assumes "overlay_init True True (Some p) mem alloc ob dim = (GRAVELDB_OK, ob', alloc')"
    and "sa_store alloc p = None" and "Some p \<notin> set (take (sa_num_pools alloc) (sa_pools alloc))"
    and "length (sa_pools alloc) = SLAB_MAX_POOLS"
  shows "case overlay_destroy alloc' ob' of (ob2, alloc2) \<Rightarrow>
    ob2 = overlay_zero \<and> sa_store alloc2 = sa_store alloc \<and> sa_num_pools alloc2 = sa_num_pools alloc \<and>
    take (sa_num_pools alloc) (sa_pools alloc2) = take (sa_num_pools alloc) (sa_pools alloc) \<and>
    sa_total_pages alloc2 = sa_total_pages alloc \<and> sa_total_bytes alloc2 = sa_total_bytes alloc"
proof -
  obtain q where q: "slab_pool_create (Some p) mem alloc (emb_bytes dim) SLAB_DEFAULT_ALIGNMENT = (Some q, alloc')"
    and ob': "ob_data_pool ob' = Some q" "ob_allocator ob'"
    using assms(1) by (auto simp: overlay_init_def Let_def split: if_splits prod.splits option.splits)
  then show ?thesis
    using slab_pool_create_destroy [OF q assms(2-4)] slab_pool_create_SomeD(1) [OF q]
    by (simp add: overlay_destroy_def)
qed

theorem overlay_init_destroy_roundtrip_witness:
  "\<exists>alloc' ob2 alloc2. overlay_destroy alloc' ov_demo = (ob2, alloc2) \<and> sa_store alloc2 = Map.empty"
proof -
  obtain alloc' where "overlay_init True True (Some 1) (Some 65536) (snd slab_allocator_init)
      (overlay_zero\<lparr>ob_allocator := True\<rparr>) 4 = (GRAVELDB_OK, ov_demo, alloc')"
    using ov_demo_init by blast
  from overlay_init_destroy_roundtrip [OF this] show ?thesis
    by (cases "overlay_destroy alloc' ov_demo") (auto simp: slab_allocator_init_def)
qed

end
