(* ===== verification/File_Io.thy ===== *)
theory File_Io
  imports Wire Slab_Alloc Dirty_Tracker "HOL-Library.Monad_Syntax"
begin

text \<open>
  Files and the outcomes of system calls. A file is the list of its bytes. A read past the end returns
  fewer bytes and a write past the end fills the hole with zero bytes, as the POSIX calls
  \<^verbatim>\<open>pread\<close> and \<^verbatim>\<open>pwrite\<close> do. The storage layer clears the part of a page that a short read leaves
  untouched, so what matters of a file is \<open>fbyte\<close>, its bytes followed by zero bytes.

  Which system calls and allocations succeed is not known to the program. A \<open>World\<close> holds an
  arbitrary sequence of outcomes, of which every call consumes one, and the slab allocator that the
  bins of a database share. It also says whether the program was built without liburing
  (\<^verbatim>\<open>GRAVELDB_USE_IO_URING\<close> is 0). That build is modelled, and of the other one the case in
  which no ring can be created. Its last component holds the files that are not open as the data of a
  bin, by their paths and in the order in which a directory lists them.
\<close>

subsection \<open>Outcomes\<close>

record World =
  w_alloc :: SlabAllocator
  w_ok :: "nat \<Rightarrow> bool"
  w_addr :: "nat \<Rightarrow> nat"
  w_tick :: nat
  w_portable :: bool
  w_files :: "(string \<times> bytes) list"

definition ask :: "World \<Rightarrow> bool \<times> World" where
  "ask w = (w_ok w (w_tick w), w\<lparr>w_tick := Suc (w_tick w)\<rparr>)"

definition ask_mem :: "World \<Rightarrow> nat option \<times> World" where
  "ask_mem w =
     (if w_ok w (w_tick w) then Some (w_addr w (w_tick w)) else None, w\<lparr>w_tick := Suc (w_tick w)\<rparr>)"

text \<open>A world in which every call succeeds.\<close>

definition all_ok :: "World \<Rightarrow> bool" where
  "all_ok w \<longleftrightarrow> (\<forall>i. w_ok w i)"

text \<open>The requests of one slab allocation, and those of one mark of a dirty tracker.\<close>

definition ask_os :: "World \<Rightarrow> SlabOs \<times> World" where
  "ask_os w =
     (let (a, w) = ask_mem w; (b, w) = ask_mem w; (c, w) = ask_mem w; (d, w) = ask_mem w in
      (\<lparr>os_pool = a, os_first = b, os_page = c, os_large = d\<rparr>, w))"

definition ask_mark :: "World \<Rightarrow> MarkAlloc \<times> World" where
  "ask_mark w =
     (\<lparr>ma_realloc = w_ok w (w_tick w), ma_root = w_ok w (w_tick w + 1),
       ma_node = (\<lambda>depth. w_ok w (w_tick w + 2 + depth))\<rparr>, w\<lparr>w_tick := w_tick w + 258\<rparr>)"

lemma ask_ok [simp]: "all_ok w \<Longrightarrow> fst (ask w)" "all_ok (snd (ask w)) = all_ok w" "w_alloc (snd (ask w)) = w_alloc w"
  by (simp_all add: ask_def all_ok_def)

lemma ask_mem_ok [simp]: "all_ok (snd (ask_mem w)) = all_ok w" "w_alloc (snd (ask_mem w)) = w_alloc w"
  by (simp_all add: ask_mem_def all_ok_def)

lemma all_ok_alloc [simp]: "all_ok (w\<lparr>w_alloc := a\<rparr>) = all_ok w"
  by (simp add: all_ok_def)

subsection \<open>Files\<close>

definition file_read :: "bytes \<Rightarrow> nat \<Rightarrow> nat \<Rightarrow> bytes" where
  "file_read f off n = take n (drop off f)"

definition file_write :: "bytes \<Rightarrow> nat \<Rightarrow> bytes \<Rightarrow> bytes" where
  "file_write f off bs =
     (if bs = [] then f
      else take off (f @ replicate (off - length f) 0) @ bs @ drop (off + length bs) f)"

definition file_resize :: "bytes \<Rightarrow> nat \<Rightarrow> bytes" where
  "file_resize f n = take n f @ replicate (n - length f) 0"

text \<open>A page read that clears what a short read leaves untouched.\<close>

definition read_page :: "bytes \<Rightarrow> nat \<Rightarrow> nat \<Rightarrow> bytes" where
  "read_page f off n = (let rd = file_read f off n in rd @ replicate (n - length rd) 0)"

definition fbyte :: "bytes \<Rightarrow> nat \<Rightarrow> u8" where
  "fbyte f i = (if i < length f then f ! i else 0)"

lemma length_read_page [simp]: "length (read_page f off n) = n"
  by (simp add: read_page_def file_read_def Let_def)

lemma nth_read_page: "i < n \<Longrightarrow> read_page f off n ! i = fbyte f (off + i)"
  by (auto simp: read_page_def file_read_def Let_def fbyte_def nth_append)

lemma fbyte_write:
  "fbyte (file_write f off bs) i = (if off \<le> i \<and> i < off + length bs then bs ! (i - off) else fbyte f i)"
proof -
  have "length (take off (f @ replicate (off - length f) 0)) = off"
    by simp
  moreover have "take off (f @ replicate (off - length f) 0) ! i = fbyte f i" if "i < off" for i
    using that by (auto simp: fbyte_def nth_append)
  ultimately show ?thesis
    by (auto simp: file_write_def fbyte_def nth_append split: if_splits)
qed

lemma length_file_write:
  "length (file_write f off bs) = (if bs = [] then length f else max (length f) (off + length bs))"
  by (auto simp: file_write_def)

lemma fbyte_resize: "length f \<le> n \<Longrightarrow> fbyte (file_resize f n) i = fbyte f i"
  by (auto simp: file_resize_def fbyte_def nth_append)

text \<open>
  \<^verbatim>\<open>pwrite\<close> and \<^verbatim>\<open>pread\<close> with their outcomes. A call that fails may have transferred a part, the
  length of which it returns; otherwise the result is -1.
\<close>

definition pwrite :: "bytes \<Rightarrow> nat \<Rightarrow> bytes \<Rightarrow> World \<Rightarrow> int \<times> bytes \<times> World" where
  "pwrite f off bs w =
     (let k = min (w_addr w (w_tick w)) (length bs - 1); (ok, w) = ask w in
      if ok then (int (length bs), file_write f off bs, w)
      else if k = 0 then (-1, f, w)
      else (int k, file_write f off (take k bs), w))"

definition pread :: "bytes \<Rightarrow> nat \<Rightarrow> nat \<Rightarrow> World \<Rightarrow> bytes option \<times> World" where
  "pread f off n w =
     (let k = min (w_addr w (w_tick w)) (n - 1); (ok, w) = ask w in
      if ok then (Some (file_read f off n), w)
      else if k = 0 then (None, w)
      else (Some (file_read f off k), w))"

text \<open>The read of a page, after which what was not read is cleared.\<close>

definition pread_page :: "bytes \<Rightarrow> nat \<Rightarrow> nat \<Rightarrow> World \<Rightarrow> bytes \<times> World" where
  "pread_page f off n w =
     (let (r, w) = pread f off n w; bs = (case r of None \<Rightarrow> [] | Some bs \<Rightarrow> bs) in
      (bs @ replicate (n - length bs) 0, w))"

lemma pwrite_ok:
  "all_ok w \<Longrightarrow> pwrite f off bs w = (int (length bs), file_write f off bs, snd (ask w))"
  by (simp add: pwrite_def ask_def all_ok_def)

lemma pread_page_ok: "all_ok w \<Longrightarrow> pread_page f off n w = (read_page f off n, snd (ask w))"
  by (simp add: pread_page_def pread_def ask_def all_ok_def read_page_def Let_def)

lemma ask_os_ok [simp]: "all_ok (snd (ask_os w)) = all_ok w" "w_alloc (snd (ask_os w)) = w_alloc w"
  by (simp_all add: ask_os_def Let_def split: prod.splits) (simp_all add: ask_mem_def all_ok_def)

lemma ask_mark_ok [simp]:
  "all_ok (snd (ask_mark w)) = all_ok w" "w_alloc (snd (ask_mark w)) = w_alloc w" "all_ok w \<Longrightarrow> mark_ok (fst (ask_mark w))"
  by (simp_all add: ask_mark_def all_ok_def mark_ok_def)

lemma portable_ask [simp]:
  "w_portable (snd (ask w)) = w_portable w" "w_portable (snd (ask_mem w)) = w_portable w"
  "w_portable (snd (ask_mark w)) = w_portable w"
  by (simp_all add: ask_def ask_mem_def ask_mark_def)

text \<open>A vectored write is the sequence of the writes of its parts.\<close>

lemma file_write_append:
  "file_write f off (xs @ ys) = file_write (file_write f off xs) (off + length xs) ys" (is "?l = ?r")
proof (rule nth_equalityI)
  show "length ?l = length ?r"
    by (auto simp: length_file_write)
  fix i
  assume "i < length ?l"
  moreover have "fbyte ?l i = fbyte ?r i"
    by (auto simp: fbyte_write nth_append)
  ultimately show "?l ! i = ?r ! i"
    using \<open>length ?l = length ?r\<close> by (simp add: fbyte_def)
qed

subsection \<open>Batched writes\<close>

text \<open>
  \<^verbatim>\<open>src/io_uring_flush.c\<close> without liburing: every submission is a synchronous call. A file is passed
  beside its descriptor. The list \<open>uc_fsync_fds\<close> holds the first \<^verbatim>\<open>fsync_fd_count\<close> descriptors.
\<close>

definition URING_MAX_FDS :: nat where
  "URING_MAX_FDS = 64"

record uring_io_ctx =
  uc_pending :: u32
  uc_errors :: u32
  uc_initialized :: bool
  uc_fsync_fds :: "int list"

definition uring_io_init :: "World \<Rightarrow> int \<times> uring_io_ctx" where
  "uring_io_init w =
     (let ctx = \<lparr>uc_pending = 0, uc_errors = 0, uc_initialized = False, uc_fsync_fds = []\<rparr> in
      if w_portable w then (0, ctx\<lparr>uc_initialized := True\<rparr>) else (-1, ctx))"

definition uring_io_track_fd_fallback :: "uring_io_ctx \<Rightarrow> int \<Rightarrow> uring_io_ctx" where
  "uring_io_track_fd_fallback ctx fd =
     (if fd \<in> set (uc_fsync_fds ctx) then ctx
      else if length (uc_fsync_fds ctx) < URING_MAX_FDS
      then ctx\<lparr>uc_fsync_fds := uc_fsync_fds ctx @ [fd]\<rparr>
      else ctx)"

definition uring_io_submit_write ::
  "uring_io_ctx \<Rightarrow> int \<Rightarrow> bytes \<Rightarrow> bytes \<Rightarrow> nat \<Rightarrow> World \<Rightarrow> int \<times> uring_io_ctx \<times> bytes \<times> World" where
  "uring_io_submit_write ctx fd f buf off w =
     (if \<not> uc_initialized ctx then (-1, ctx, f, w)
      else
        let (wr, f, w) = pwrite f off buf w in
        if wr < 0 \<or> wr \<noteq> int (length buf)
        then (-1, ctx\<lparr>uc_errors := uc_errors ctx + 1\<rparr>, f, w)
        else (0, uring_io_track_fd_fallback (ctx\<lparr>uc_pending := uc_pending ctx + 1\<rparr>) fd, f, w))"

definition uring_io_submit_writev ::
  "uring_io_ctx \<Rightarrow> int \<Rightarrow> bytes \<Rightarrow> bytes list \<Rightarrow> nat \<Rightarrow> World \<Rightarrow> int \<times> uring_io_ctx \<times> bytes \<times> World" where
  "uring_io_submit_writev ctx fd f iov off w =
     (if \<not> uc_initialized ctx then (-1, ctx, f, w)
      else
        let (wr, f, w) = pwrite f off (concat iov) w;
            expected = sum_list (map length iov) in
        if wr < 0 \<or> wr \<noteq> int expected
        then (-1, ctx\<lparr>uc_errors := uc_errors ctx + 1\<rparr>, f, w)
        else (0, uring_io_track_fd_fallback (ctx\<lparr>uc_pending := uc_pending ctx + 1\<rparr>) fd, f, w))"

text \<open>The buffer of a read is returned as the bytes that were read, \<open>None\<close> when it is untouched.\<close>

definition uring_io_submit_read ::
  "uring_io_ctx \<Rightarrow> bytes \<Rightarrow> nat \<Rightarrow> nat \<Rightarrow> World \<Rightarrow> int \<times> uring_io_ctx \<times> bytes option \<times> World" where
  "uring_io_submit_read ctx f len off w =
     (if \<not> uc_initialized ctx then (-1, ctx, None, w)
      else
        case pread f off len w of
          (None, w) \<Rightarrow> (-1, ctx\<lparr>uc_errors := uc_errors ctx + 1\<rparr>, None, w)
        | (Some bs, w) \<Rightarrow> (0, ctx\<lparr>uc_pending := uc_pending ctx + 1\<rparr>, Some bs, w))"

text \<open>The result of \<^verbatim>\<open>fdatasync\<close> is not looked at; one outcome per tracked descriptor is consumed.\<close>

definition uring_io_submit_fsyncs :: "uring_io_ctx \<Rightarrow> World \<Rightarrow> int \<times> World" where
  "uring_io_submit_fsyncs ctx w =
     (if \<not> uc_initialized ctx then (-1, w)
      else (0, w\<lparr>w_tick := w_tick w + length (uc_fsync_fds ctx)\<rparr>))"

definition uring_io_wait :: "uring_io_ctx \<Rightarrow> u32 \<times> uring_io_ctx" where
  "uring_io_wait ctx =
     (if \<not> uc_initialized ctx then (uc_errors ctx, ctx)
      else (uc_errors ctx, ctx\<lparr>uc_pending := 0\<rparr>))"

definition uring_io_poll :: "uring_io_ctx \<Rightarrow> int \<times> uring_io_ctx" where
  "uring_io_poll ctx = (if \<not> uc_initialized ctx then (0, ctx) else (0, ctx\<lparr>uc_pending := 0\<rparr>))"

definition uring_io_reset :: "uring_io_ctx \<Rightarrow> uring_io_ctx" where
  "uring_io_reset ctx =
     (if \<not> uc_initialized ctx then ctx
      else ctx\<lparr>uc_pending := 0, uc_errors := 0, uc_fsync_fds := []\<rparr>)"

definition uring_io_destroy :: "uring_io_ctx \<Rightarrow> uring_io_ctx" where
  "uring_io_destroy ctx = ctx\<lparr>uc_initialized := False\<rparr>"

text \<open>With no failure, a write reaches the file at once and leaves the error count alone.\<close>

lemma submit_write_ok:
  assumes "all_ok w" and "uc_initialized ctx"
  shows "\<exists>ctx'. uring_io_submit_write ctx fd f buf off w = (0, ctx', file_write f off buf, snd (ask w)) \<and>
    uc_initialized ctx' \<and> uc_errors ctx' = uc_errors ctx"
  using assms by (auto simp: uring_io_submit_write_def pwrite_ok uring_io_track_fd_fallback_def)

lemma submit_writev_ok:
  assumes "all_ok w" and "uc_initialized ctx"
  shows "\<exists>ctx'. uring_io_submit_writev ctx fd f iov off w = (0, ctx', file_write f off (concat iov), snd (ask w)) \<and>
    uc_initialized ctx' \<and> uc_errors ctx' = uc_errors ctx"
  using assms by (auto simp: uring_io_submit_writev_def pwrite_ok length_concat uring_io_track_fd_fallback_def)

end
