(* ===== verification/Page_Map.thy ===== *)
theory Page_Map
  imports Probe_Deletion File_Io
begin

text \<open>
  The page map of the write buffer (\<^verbatim>\<open>src/dimbin.h\<close> and the top of \<^verbatim>\<open>src/dimbin.c\<close>): an
  open-addressing table from page numbers to page buffers. Every buffer belongs to one slot, so a slot
  holds the address of its buffer together with the contents. The data pointer of an empty slot is never
  read; it is \<open>None\<close> also after the table was filled with 0xFF bytes. \<open>None\<close> as the result of a
  search means that the loop does not end.
\<close>

subsection \<open>Data and operations\<close>

definition PAGE_SLOT_EMPTY :: u32 where
  "PAGE_SLOT_EMPTY = UINT32_MAX"

type_synonym page_buf = "nat \<times> bytes"

record PageSlot =
  ps_page_id :: u32
  ps_data :: "page_buf option"

definition page_slot_empty :: PageSlot where
  "page_slot_empty = \<lparr>ps_page_id = PAGE_SLOT_EMPTY, ps_data = None\<rparr>"

abbreviation ps_occ :: "PageSlot \<Rightarrow> bool" where
  "ps_occ s \<equiv> ps_page_id s \<noteq> PAGE_SLOT_EMPTY"

definition page_hash :: "u32 \<Rightarrow> u32" where
  "page_hash page_id = page_id * 2654435761"

definition pagemap_find :: "PageSlot list \<Rightarrow> u32 \<Rightarrow> u32 \<Rightarrow> u32 option" where
  "pagemap_find slots capacity page_id =
     (let m = capacity - 1 in
      probe (\<lambda>s. ps_page_id s = PAGE_SLOT_EMPTY \<or> ps_page_id s = page_id) slots m (length slots)
        (page_hash page_id AND m))"

fun remove_loop :: "nat \<Rightarrow> PageSlot list \<Rightarrow> u32 \<Rightarrow> u32 \<Rightarrow> PageSlot list option" where
  "remove_loop 0 slots capacity idx = None"
| "remove_loop (Suc f) slots capacity idx =
     (if ps_page_id (slots ! unat idx) = PAGE_SLOT_EMPTY then Some slots
      else
        let tmp = slots ! unat idx;
            slots = slots[unat idx := page_slot_empty]
        in do {
          new_idx \<leftarrow> pagemap_find slots capacity (ps_page_id tmp);
          remove_loop f (slots[unat new_idx := tmp]) capacity ((idx + 1) AND (capacity - 1))
        })"

definition pagemap_remove :: "PageSlot list \<Rightarrow> u32 \<Rightarrow> u32 \<Rightarrow> PageSlot list option" where
  "pagemap_remove slots capacity rm_idx =
     remove_loop (length slots) (slots[unat rm_idx := page_slot_empty]) capacity
       ((rm_idx + 1) AND (capacity - 1))"

text \<open>\<^verbatim>\<open>slots[pagemap_find(slots, cap, s.page_id)] = s\<close> for a sequence of slots.\<close>

fun pagemap_fill :: "PageSlot list \<Rightarrow> u32 \<Rightarrow> PageSlot list \<Rightarrow> PageSlot list option" where
  "pagemap_fill slots capacity [] = Some slots"
| "pagemap_fill slots capacity (s # ss) = do {
     idx \<leftarrow> pagemap_find slots capacity (ps_page_id s);
     pagemap_fill (slots[unat idx := s]) capacity ss
   }"

text \<open>The inner result \<open>None\<close> is the NULL of a failed allocation.\<close>

definition pagemap_grow :: "bool \<Rightarrow> PageSlot list \<Rightarrow> u32 \<Rightarrow> PageSlot list option option" where
  "pagemap_grow malloc_ok old_slots new_cap =
     (if \<not> malloc_ok then Some None
      else map_option Some
        (pagemap_fill (replicate (unat new_cap) page_slot_empty) new_cap (filter ps_occ old_slots)))"

subsection \<open>The map of a table\<close>

interpretation pm: oa_table ps_occ ps_page_id page_hash page_slot_empty
  by unfold_locales (simp add: page_slot_empty_def)

definition pm_inv :: "u32 \<Rightarrow> PageSlot list \<Rightarrow> bool" where
  "pm_inv capacity slots \<longleftrightarrow> length slots = unat capacity \<and> oa_inv ps_occ ps_page_id page_hash (capacity - 1) slots"

definition pm_map :: "PageSlot list \<Rightarrow> u32 \<rightharpoonup> page_buf option" where
  "pm_map slots = oa_map ps_occ ps_page_id ps_data slots"

abbreviation pm_used :: "PageSlot list \<Rightarrow> nat" where
  "pm_used \<equiv> n_occ ps_occ"

lemma pagemap_find_probe:
  "pagemap_find slots capacity page_id =
     probe (\<lambda>s. \<not> ps_occ s \<or> ps_page_id s = page_id) slots (capacity - 1) (length slots)
       (page_hash page_id AND (capacity - 1))"
  by (simp add: pagemap_find_def Let_def)

lemma pm_find:
  assumes inv: "pm_inv capacity slots" and room: "pm_used slots < length slots"
  obtains idx where "pagemap_find slots capacity p = Some idx" and "unat idx < length slots"
    and "\<not> ps_occ (slots ! unat idx) \<or> ps_page_id (slots ! unat idx) = p"
proof -
  have pm: "pow2_mask (length slots) (capacity - 1)"
    using inv by (auto simp: pm_inv_def oa_inv_def)
  obtain q where "q < length slots" "\<not> ps_occ (slots ! q)"
    using room by (auto simp: n_occ_free)
  then obtain idx where i: "probe (\<lambda>s. \<not> ps_occ s \<or> ps_page_id s = p) slots (capacity - 1) (length slots)
      (page_hash p AND (capacity - 1)) = Some idx"
    using pm.find_terminates [OF pm, of q "\<lambda>s. \<not> ps_occ s \<or> ps_page_id s = p"] pow2_mask_and_less [OF pm] by auto
  then show thesis
    using that [of idx] pm.find_SomeD [OF pm i] by (simp add: pagemap_find_probe)
qed

text \<open>Looking up, and storing at the index that a search returned.\<close>

lemma pm_lookup:
  assumes "pm_inv capacity slots" and "pagemap_find slots capacity p = Some idx" and "p \<noteq> PAGE_SLOT_EMPTY"
  shows "pm_map slots p = (if ps_page_id (slots ! unat idx) = p then Some (ps_data (slots ! unat idx)) else None)"
proof -
  have inv: "oa_inv ps_occ ps_page_id page_hash (capacity - 1) slots" and pm: "pow2_mask (length slots) (capacity - 1)"
    using assms(1) by (auto simp: pm_inv_def oa_inv_def)
  note f = assms(2) [unfolded pagemap_find_probe]
  show ?thesis
    using pm.map_find [OF inv f, of ps_data] pm.find_SomeD(3) [OF pm f] assms(3)
    by (auto simp: pm_map_def)
qed

lemma pm_store:
  assumes "pm_inv capacity slots" and "pagemap_find slots capacity p = Some idx" and "p \<noteq> PAGE_SLOT_EMPTY"
    and "ps_page_id s = p"
  shows "pm_inv capacity (slots[unat idx := s])"
    and "pm_map (slots[unat idx := s]) = (pm_map slots)(p \<mapsto> ps_data s)"
    and "pm_used (slots[unat idx := s]) = pm_used slots + (if pm_map slots p = None then 1 else 0)"
proof -
  have inv: "oa_inv ps_occ ps_page_id page_hash (capacity - 1) slots"
    using assms(1) by (auto simp: pm_inv_def)
  note f = assms(2) [unfolded pagemap_find_probe]
  have s: "ps_occ s"
    using assms(3,4) by simp
  show "pm_inv capacity (slots[unat idx := s])"
    using assms(1) pm.inv_store [OF inv f s assms(4)] by (simp add: pm_inv_def)
  show "pm_map (slots[unat idx := s]) = (pm_map slots)(p \<mapsto> ps_data s)"
    using pm.map_store [OF inv f s assms(4), of ps_data] by (simp add: pm_map_def)
  show "pm_used (slots[unat idx := s]) = pm_used slots + (if pm_map slots p = None then 1 else 0)"
    using pm.n_occ_store [OF inv f s] pm.map_find [OF inv f, of ps_data] by (simp add: pm_map_def)
qed

lemma pm_fresh:
  assumes "pow2_mask (unat capacity) (capacity - 1)"
  shows "pm_inv capacity (replicate (unat capacity) page_slot_empty)"
    and "pm_map (replicate n page_slot_empty) = Map.empty" and "pm_used (replicate n page_slot_empty) = 0"
  using pm.inv_fresh [OF assms] pm.map_fresh pm.n_occ_fresh by (simp_all add: pm_inv_def pm_map_def)

lemma pagemap_fill_ok:
  assumes "pm_inv capacity slots" and "pm_used slots + length ss < unat capacity"
    and "\<forall>s \<in> set ss. ps_occ s" and "distinct (map ps_page_id ss)" and "\<forall>s \<in> set ss. pm_map slots (ps_page_id s) = None"
  shows "\<exists>slots'. pagemap_fill slots capacity ss = Some slots' \<and> pm_inv capacity slots' \<and>
    pm_map slots' = pm_map slots ++ map_of (map (\<lambda>s. (ps_page_id s, ps_data s)) ss) \<and>
    pm_used slots' = pm_used slots + length ss"
  using assms
proof (induction ss arbitrary: slots)
  case (Cons s ss)
  let ?p = "ps_page_id s"
  have "length slots = unat capacity"
    using Cons.prems(1) by (simp add: pm_inv_def)
  then obtain idx where i: "pagemap_find slots capacity ?p = Some idx"
    using pm_find [OF Cons.prems(1), of ?p] Cons.prems(2) by auto
  have p: "?p \<noteq> PAGE_SLOT_EMPTY" "pm_map slots ?p = None"
    using Cons.prems(3,5) by auto
  note st = pm_store [OF Cons.prems(1) i p(1) refl]
  have new: "\<forall>x \<in> set ss. pm_map (slots[unat idx := s]) (ps_page_id x) = None"
    using Cons.prems(4,5) st(2) by (auto simp: image_iff)
  obtain slots' where "pagemap_fill (slots[unat idx := s]) capacity ss = Some slots'" "pm_inv capacity slots'"
      "pm_map slots' = pm_map (slots[unat idx := s]) ++ map_of (map (\<lambda>s. (ps_page_id s, ps_data s)) ss)"
      "pm_used slots' = pm_used (slots[unat idx := s]) + length ss"
    using Cons.IH [OF st(1) _ _ _ new] Cons.prems(2-4) st(3) p(2) by auto
  moreover have "?p \<notin> dom (map_of (map (\<lambda>s. (ps_page_id s, ps_data s)) ss))"
    using Cons.prems(4) by (auto simp: dom_map_of_conv_image_fst image_image)
  then have "pm_map (slots[unat idx := s]) ++ map_of (map (\<lambda>s. (ps_page_id s, ps_data s)) ss) =
      pm_map slots ++ map_of (map (\<lambda>s. (ps_page_id s, ps_data s)) (s # ss))"
    unfolding st(2) by (simp add: map_add_upd_left fun_upd_def [symmetric])
  ultimately show ?case
    using i st(3) p(2) by (simp add: fun_upd_def [symmetric])
qed simp

text \<open>Growing the table keeps its map.\<close>

lemma pagemap_grow_ok:
  assumes inv: "pm_inv capacity slots" and room: "pm_used slots < unat new_cap"
    and pm: "pow2_mask (unat new_cap) (new_cap - 1)"
  obtains slots' where "pagemap_grow True slots new_cap = Some (Some slots')" and "pm_inv new_cap slots'"
    and "pm_map slots' = pm_map slots" and "pm_used slots' = pm_used slots"
proof -
  have "uniq_keys ps_occ ps_page_id slots"
    using inv by (simp add: pm_inv_def oa_inv_def)
  then have d: "distinct (map ps_page_id (filter ps_occ slots))"
    by (simp add: uniq_keys_distinct)
  let ?new = "replicate (unat new_cap) page_slot_empty" and ?ss = "filter ps_occ slots"
  have m: "map_of (map (\<lambda>s. (ps_page_id s, ps_data s)) ?ss) = pm_map slots"
    by (simp add: pm_map_def oa_map_def)
  have u: "length ?ss = pm_used slots"
    by (simp add: n_occ_def)
  have occ: "\<forall>s \<in> set ?ss. ps_occ s"
    by simp
  have "pm_used ?new + length ?ss < unat new_cap" "\<forall>s \<in> set ?ss. pm_map ?new (ps_page_id s) = None"
    using room u by (simp_all only: pm_fresh(2,3) [OF pm]) simp_all
  from pagemap_fill_ok [OF pm_fresh(1) [OF pm] this(1) occ d this(2)]
  obtain slots' where "pagemap_fill ?new new_cap ?ss = Some slots'" "pm_inv new_cap slots'"
      "pm_map slots' = pm_map slots" "pm_used slots' = pm_used slots"
    unfolding pm_fresh(2,3) [OF pm] m u by (elim exE conjE) simp
  then show thesis
    using that [of slots'] by (simp add: pagemap_grow_def)
qed

subsection \<open>Removal\<close>

text \<open>
  A slot that is taken out is put back at or before its old position, and no free slot lies between its
  ideal slot and the new position. Positions are counted from a slot \<open>e\<close> that stays free.
\<close>

lemma reinsert_position:
  assumes pm: "pow2_mask (length xs) (capacity - 1)" and e: "e < length xs"
    and uk: "uniq_keys ps_occ ps_page_id xs"
    and i: "i < length xs" "unat idx = (e + i) mod length xs" "ps_occ (xs ! unat idx)"
    and a: "a = cdist (length xs) e (home page_hash (capacity - 1) (ps_page_id (xs ! unat idx)))" "a \<le> i"
  obtains h r where "pagemap_find (xs[unat idx := page_slot_empty]) capacity (ps_page_id (xs ! unat idx)) = Some h"
    and "unat h = (e + r) mod length xs" and "a \<le> r" and "r \<le> i"
    and "\<And>q. a \<le> q \<Longrightarrow> q < r \<Longrightarrow> ps_occ (slot_at xs e q)"
    and "\<not> ps_occ (xs[unat idx := page_slot_empty] ! unat h)"
proof -
  let ?n = "length xs" and ?ys = "xs[unat idx := page_slot_empty]" and ?p = "ps_page_id (xs ! unat idx)"
  let ?home = "home page_hash (capacity - 1) ?p"
  have n0: "0 < ?n"
    using i(1) by linarith
  have ilt: "unat idx < ?n"
    using n0 i(2) by simp
  have free: "\<not> ps_occ (?ys ! unat idx)"
    using ilt by (simp add: page_slot_empty_def)
  have pm': "pow2_mask (length ?ys) (capacity - 1)"
    using pm by simp
  obtain h where h: "probe (\<lambda>s. \<not> ps_occ s \<or> ps_page_id s = ?p) ?ys (capacity - 1) (length ?ys)
      (page_hash ?p AND (capacity - 1)) = Some h"
    using pm.find_terminates [OF pm', of "unat idx" "\<lambda>s. \<not> ps_occ s \<or> ps_page_id s = ?p"] free ilt
      pow2_mask_and_less [OF pm'] by auto
  note hD = pm.find_SomeD [OF pm' h]
  have hl: "unat h < ?n"
    using hD(1) by simp
  have gone: "ps_page_id (?ys ! q) \<noteq> ?p" if "q < ?n" "ps_occ (?ys ! q)" for q
    using that uk i(3) ilt free by (cases "q = unat idx") (auto simp: uniq_keys_def)
  let ?r = "cdist ?n e (unat h)"
  have home: "?home = (e + a) mod ?n" "a < ?n" and hr: "unat h = (e + ?r) mod ?n" "?r < ?n"
    using cdist_add [OF e home_less [OF pm, of page_hash ?p]] cdist_add [OF e hl] n0 a(1) by simp_all
  have dist: "cdist ?n ?home (unat h) = (if a \<le> ?r then ?r - a else ?n + ?r - a)"
    using cdist_shift [OF home(2) hr(2), of e] home(1) hr(1) by simp
  have run: "ps_occ (?ys ! ((e + a + t) mod ?n))" if "t < cdist ?n ?home (unat h)" for t
    using hD(2) that home(1) by (simp add: reaches_def mod_add_left_eq)
  have "\<not> i - a < cdist ?n ?home (unat h)"
    using run [of "i - a"] free a(2) i(2) by auto
  then have ar: "a \<le> ?r" "?r \<le> i"
    using dist a(2) i(1) by (auto split: if_splits)
  have "ps_occ (slot_at xs e q)" if q: "a \<le> q" "q < ?r" for q
  proof -
    have "(e + q) mod ?n \<noteq> unat idx"
      using mod_add_cancel_less [of q ?n i e] q ar(2) i(1,2) by auto
    then show ?thesis
      using run [of "q - a"] dist ar(1) q by (auto simp: slot_at_def)
  qed
  moreover have "\<not> ps_occ (?ys ! unat h)"
    using hD(3) gone [OF hl] by blast
  ultimately show thesis
    using that [of h ?r] h hr(1) ar by (simp add: pagemap_find_probe)
qed

lemma remove_loop_ok:
  assumes pm: "pow2_mask n (capacity - 1)" and len: "length xs = n" and e: "e < n" "\<not> ps_occ (xs ! e)"
    and ord: "0 < d" "d < i" "i \<le> n" and idx: "unat idx = (e + i) mod n" and fuel: "n - i < f"
    and uk: "uniq_keys ps_occ ps_page_id xs"
    and lin: "lin_ok ps_occ (\<lambda>s. home page_hash (capacity - 1) (ps_page_id s)) e (vacated_bad d i) xs"
  shows "\<exists>xs'. remove_loop f xs capacity idx = Some xs' \<and> length xs' = n \<and> \<not> ps_occ (xs' ! e) \<and>
    occ_mset ps_occ xs' = occ_mset ps_occ xs \<and>
    lin_ok ps_occ (\<lambda>s. home page_hash (capacity - 1) (ps_page_id s)) e (\<lambda>_ _. False) xs'"
  using len e(2) ord(2,3) idx fuel uk lin
proof (induction f arbitrary: xs i idx)
  case (Suc f)
  let ?at = "\<lambda>s. home page_hash (capacity - 1) (ps_page_id s)"
  show ?case
  proof (cases "ps_occ (xs ! unat idx)")
    case False
    then have "lin_ok ps_occ ?at e (\<lambda>_ _. False) xs"
      using Suc.prems by (intro lin_ok_stop [OF Suc.prems(8), of i]) (auto simp: vacated_bad_def slot_at_def)
    then show ?thesis
      using False Suc.prems by simp
  next
    case True
    have i: "i < n"
      using True Suc.prems(2,4,5) e(1) by (cases "i = n") auto
    define a where "a = cdist n e (home page_hash (capacity - 1) (ps_page_id (xs ! unat idx)))"
    have sl: "slot_at xs e i = xs ! unat idx"
      using Suc.prems(1,5) by (simp add: slot_at_def)
    have ai: "a \<le> i"
      using lin_okD(1) [OF Suc.prems(8), of i] i True Suc.prems(1) by (simp add: sl a_def)
    have e0: "slot_at xs e 0 = xs ! e"
      using Suc.prems(1) e(1) by (simp add: slot_at_def)
    have a0: "0 < a"
      using lin_okD(2) [OF Suc.prems(8), of i 0] i True Suc.prems(1,2,3) ord(1)
      by (cases a) (auto simp: sl e0 a_def vacated_bad_def)
    have il: "unat idx < n"
      using Suc.prems(5) e(1) by simp
    obtain h r where h: "pagemap_find (xs[unat idx := page_slot_empty]) capacity (ps_page_id (xs ! unat idx)) = Some h"
        "unat h = (e + r) mod n" "a \<le> r" "r \<le> i" "\<And>q. a \<le> q \<Longrightarrow> q < r \<Longrightarrow> ps_occ (slot_at xs e q)"
        "\<not> ps_occ (xs[unat idx := page_slot_empty] ! unat h)"
      using reinsert_position [of xs capacity e i idx a] pm e(1) Suc.prems(1,5,7) i True a_def ai
      by (metis (no_types, lifting))
    let ?ys = "xs[unat idx := page_slot_empty, unat h := xs ! unat idx]"
    have em: "\<not> ps_occ page_slot_empty"
      by (simp add: page_slot_empty_def)
    have hl: "unat h < n"
      using h(2) e(1) by simp
    have lin': "lin_ok ps_occ ?at e (vacated_bad d (Suc i)) ?ys"
      using reinsert_step [OF Suc.prems(8), of r page_slot_empty] i True Suc.prems(1,3,5) h em
      by (simp add: sl a_def)
    have ms: "occ_mset ps_occ ?ys = occ_mset ps_occ xs"
      using h(6) em True il hl Suc.prems(1) by (simp add: occ_mset_def mset_update)
    have "(e + r) mod n \<noteq> e"
      using mod_add_cancel_less [of r n 0 e] h(3,4) a0 i e(1) by auto
    then have e': "\<not> ps_occ (?ys ! e)"
      using h(2) Suc.prems(1,2) e(1) em by (cases "e = unat idx") auto
    have idx': "unat ((idx + 1) AND (capacity - 1)) = (e + Suc i) mod n"
      using pow2_mask_succ [OF pm il] Suc.prems(5) by (simp add: mod_Suc_eq)
    have uk': "uniq_keys ps_occ ps_page_id ?ys"
      using occ_mset_eqD(1) [OF ms Suc.prems(7)] .
    show ?thesis
      using Suc.IH [of ?ys "Suc i", OF _ e' _ _ idx' _ uk' lin'] Suc.prems(1,3,6) i True h(1) ms
      by (auto simp: Let_def)
  qed
qed simp

text \<open>Removing an occupied slot deletes its page from the map and keeps every other page reachable.\<close>

lemma pagemap_remove_ok:
  assumes inv: "pm_inv capacity slots" and room: "pm_used slots < length slots"
    and rm: "unat rm_idx < length slots" "ps_occ (slots ! unat rm_idx)"
  obtains slots' where "pagemap_remove slots capacity rm_idx = Some slots'" and "pm_inv capacity slots'"
    and "pm_map slots' = (pm_map slots)(ps_page_id (slots ! unat rm_idx) := None)"
    and "Suc (pm_used slots') = pm_used slots"
proof -
  let ?n = "length slots" and ?at = "\<lambda>s. home page_hash (capacity - 1) (ps_page_id s)"
  let ?xs = "slots[unat rm_idx := page_slot_empty]"
  have pm: "pow2_mask ?n (capacity - 1)" and ch: "chain_ok ps_occ ?at slots"
    and uk: "uniq_keys ps_occ ps_page_id slots" and len: "?n = unat capacity"
    using inv unfolding pm_inv_def oa_inv_def comp_def by blast+
  obtain e where e: "e < ?n" "\<not> ps_occ (slots ! e)"
    using room by (auto simp: n_occ_free)
  define d where "d = cdist ?n e (unat rm_idx)"
  have d: "d < ?n" "(e + d) mod ?n = unat rm_idx"
    using cdist_add [OF e(1) rm(1)] e(1) rm(1) by (auto simp: d_def intro!: cdist_less)
  have d0: "0 < d"
    using d e rm(2) by (cases d) auto
  have at: "?at s < ?n" for s
    by (rule home_less [OF pm])
  have em: "\<not> ps_occ page_slot_empty"
    by (simp add: page_slot_empty_def)
  have lin: "lin_ok ps_occ ?at e (vacated_bad d (Suc d)) ?xs"
    using vacated_start [where occ = ps_occ and at = ?at and e = e, OF _ d(1) em] chain_ok_line [where occ = ps_occ and at = ?at, OF e at] ch d(2)
    by simp
  note cl = oa_map_clear [where occ = ps_occ and key = ps_page_id, OF uk rm em]
  have e': "\<not> ps_occ (?xs ! e)"
    using e em by (cases "e = unat rm_idx") auto
  have idx: "unat ((rm_idx + 1) AND (capacity - 1)) = (e + Suc d) mod ?n"
    using pow2_mask_succ [OF pm rm(1)] d(2) by (metis add_Suc_right mod_Suc_eq Suc_eq_plus1)
  obtain xs' where x: "remove_loop ?n ?xs capacity ((rm_idx + 1) AND (capacity - 1)) = Some xs'" "length xs' = ?n"
      "\<not> ps_occ (xs' ! e)" "occ_mset ps_occ xs' = occ_mset ps_occ ?xs" "lin_ok ps_occ ?at e (\<lambda>_ _. False) xs'"
  proof -
    have "?n - Suc d < ?n"
      using d(1) by simp
    with remove_loop_ok [OF pm _ e(1) e' d0 _ _ idx this cl(1) lin] show thesis
      using d(1) that by fastforce
  qed
  have "chain_ok ps_occ ?at xs'"
    using chain_ok_line [where occ = ps_occ and at = ?at and xs = xs' and e = e, unfolded x(2), OF e(1) x(3) at]
      x(5) by simp
  then have "pm_inv capacity xs'"
    using x(2) pm len occ_mset_eqD(1) [OF x(4) cl(1)] by (simp add: pm_inv_def oa_inv_def comp_def)
  moreover have "0 < pm_used slots"
    using rm nth_mem [OF rm(1)] by (auto simp: n_occ_def filter_empty_conv)
  ultimately show thesis
    using that [of xs'] x(1) occ_mset_eqD(3) [OF x(4) cl(1)] cl(3) occ_mset_eqD(2) [OF x(4) cl(1), of ps_data]
      cl(2) [of ps_data] by (simp add: pagemap_remove_def pm_map_def)
qed

end
