(* ===== verification/Dim_Bin.thy ===== *)
theory Dim_Bin
  imports Page_Map Key_BTree Overlay
begin

text \<open>
  The storage bin of one dimension (\<^verbatim>\<open>src/dimbin.h\<close>, \<^verbatim>\<open>src/dimbin.c\<close>): allocation of entries, buffered
  keys, buffered pages, the flush and the hand-over to the overlay during a checkpoint. A bin carries
  the contents of its data file and of its key file. \<open>None\<close> as the result of an operation means that
  it does not return: a search does not end, a division is by zero, or memory outside of an object is
  touched. Embeddings are lists of 32-bit patterns and the byte order of the machine is little endian.
\<close>

subsection \<open>Data\<close>

definition GRAVELDB_PAGE_SIZE_DEFAULT :: u32 where
  "GRAVELDB_PAGE_SIZE_DEFAULT = 4096"

definition GRAVELDB_MAX_FLUSH_BATCH :: nat where
  "GRAVELDB_MAX_FLUSH_BATCH = 65536"

record WriteBuffer =
  wb_slots :: "PageSlot list"
  wb_capacity :: u32
  wb_count :: u32
  wb_max_pages :: u64
  wb_flush_bytes :: u64
  wb_page_pool :: "nat list"
  wb_pool_capacity :: u32

record KeyWriteEntry =
  kw_entry_idx :: u32
  kw_feat_id :: u64

record EmbWriteEntry =
  ew_entry_id :: u32
  ew_data :: emb

record DimBin =
  bn_dim :: int
  bn_page_size :: u32
  bn_entry_size :: u64
  bn_entries_per_page :: u32
  bn_fd :: int
  bn_key_fd :: int
  bn_file_path :: string
  bn_key_file_path :: string
  bn_file :: bytes
  bn_key_file :: bytes
  bn_bump_ptr :: u64
  bn_free_list :: "u32 list"
  bn_free_capacity :: u32
  bn_dirty :: DirtyTracker
  bn_write_buf :: WriteBuffer
  bn_key_buf :: KeyBTree
  bn_overlay :: OverlayBuffer
  bn_in_checkpoint :: bool
  bn_flush_needed :: bool
  bn_overlay_budget :: u64
  bn_total_entries :: u64
  bn_total_pages :: u64
  bn_io_errors :: u64
  bn_data_file_size :: u64
  bn_key_file_size :: u64

definition wb_zero :: WriteBuffer where
  "wb_zero =
     \<lparr>wb_slots = [], wb_capacity = 0, wb_count = 0, wb_max_pages = 0, wb_flush_bytes = 0,
      wb_page_pool = [], wb_pool_capacity = 0\<rparr>"

text \<open>The structure after \<^verbatim>\<open>memset(s, 0, sizeof(*s))\<close> and the reset of the descriptors.\<close>

definition bin_zero :: DimBin where
  "bin_zero =
     \<lparr>bn_dim = 0, bn_page_size = 0, bn_entry_size = 0, bn_entries_per_page = 0, bn_fd = -1,
      bn_key_fd = -1, bn_file_path = [], bn_key_file_path = [], bn_file = [], bn_key_file = [],
      bn_bump_ptr = 0, bn_free_list = [], bn_free_capacity = 0,
      bn_dirty = dirty_tracker_destroy (dirty_tracker_init 0), bn_write_buf = wb_zero,
      bn_key_buf = kbt_init False 0, bn_overlay = overlay_zero, bn_in_checkpoint = False,
      bn_flush_needed = False, bn_overlay_budget = 0, bn_total_entries = 0, bn_total_pages = 0,
      bn_io_errors = 0, bn_data_file_size = 0, bn_key_file_size = 0\<rparr>"

definition emb_data :: "emb \<Rightarrow> bytes" where
  "emb_data e = concat (map u32_bytes e)"

subsection \<open>Page buffers\<close>

text \<open>
  \<^verbatim>\<open>write_buf_recycle_page\<close>. When the pool cannot grow the buffer is given to \<^verbatim>\<open>free\<close>, although it
  belongs to the slab allocator: the model does not go on from there.
\<close>

definition write_buf_recycle_page :: "bool \<Rightarrow> WriteBuffer \<Rightarrow> nat \<Rightarrow> WriteBuffer option" where
  "write_buf_recycle_page realloc_ok wb buf =
     (let n = length (wb_page_pool wb) in
      if n \<ge> unat (wb_pool_capacity wb) then
        (let new_cap = (if wb_pool_capacity wb \<noteq> 0 then wb_pool_capacity wb * 2 else 64) in
         if realloc_ok \<and> n < unat new_cap
         then Some (wb\<lparr>wb_pool_capacity := new_cap, wb_page_pool := wb_page_pool wb @ [buf]\<rparr>)
         else None)
      else Some (wb\<lparr>wb_page_pool := wb_page_pool wb @ [buf]\<rparr>))"

definition write_buf_acquire_page :: "WriteBuffer \<Rightarrow> u32 \<Rightarrow> World \<Rightarrow> nat option \<times> WriteBuffer \<times> World" where
  "write_buf_acquire_page wb page_size w =
     (if wb_page_pool wb \<noteq> []
      then (Some (last (wb_page_pool wb)), wb\<lparr>wb_page_pool := butlast (wb_page_pool wb)\<rparr>, w)
      else
        let (os, w) = ask_os w; (mem, alloc) = slab_alloc_aligned os (w_alloc w) (ucast page_size) 4096 in
        (mem, wb, w\<lparr>w_alloc := alloc\<rparr>))"

subsection \<open>Opening and closing\<close>

definition align_up :: "u64 \<Rightarrow> u64 \<Rightarrow> u64" where
  "align_up val align = (if align = 0 then val else (val + align - 1) AND NOT (align - 1))"

text \<open>
  \<^verbatim>\<open>while (wb_cap < write_max * 2) wb_cap *= 2\<close>. The 32-bit capacity becomes 0 after \<open>2 ^ 31\<close>, from
  where the loop never ends; starting from 64, 27 rounds are enough to see which of the two happens.
\<close>

fun wb_cap_loop :: "nat \<Rightarrow> u64 \<Rightarrow> u32 \<Rightarrow> u32 option" where
  "wb_cap_loop 0 write_max wb_cap = None"
| "wb_cap_loop (Suc f) write_max wb_cap =
     (if ucast wb_cap < write_max * 2 then wb_cap_loop f write_max (wb_cap * 2) else Some wb_cap)"

text \<open>
  \<^verbatim>\<open>dimbin_init\<close>. The last two arguments are the contents of the two files, empty when they do not
  exist. The geometry comes first.
\<close>

definition bin_geometry :: "int \<Rightarrow> u32 \<Rightarrow> u32 \<Rightarrow> DimBin option" where
  "bin_geometry dim entry_align page_size =
     (let psz = (if page_size \<noteq> 0 then page_size else GRAVELDB_PAGE_SIZE_DEFAULT);
          esz = align_up (emb_bytes dim) (ucast entry_align);
          epp = (ucast (ucast psz div esz) :: u32)
      in if esz = 0 then None
         else if epp = 0
         then Some (bin_zero\<lparr>bn_dim := dim, bn_entry_size := esz, bn_entries_per_page := 1, bn_page_size := ucast esz\<rparr>)
         else Some (bin_zero\<lparr>bn_dim := dim, bn_entry_size := esz, bn_entries_per_page := epp, bn_page_size := psz\<rparr>))"

text \<open>The counters that are derived from the sizes of the files, and the size of the write buffer.\<close>

definition bin_sizes :: "bool \<Rightarrow> DimBin \<Rightarrow> DimBin" where
  "bin_sizes kstat_ok s =
     (let s = s\<lparr>bn_data_file_size := of_nat (length (bn_file s)),
                bn_key_file_size := (if kstat_ok then of_nat (length (bn_key_file s)) else 0)\<rparr>;
          key_slots = bn_key_file_size s div 8;
          data_slots = (if bn_data_file_size s > 0 then bn_data_file_size s div bn_entry_size s else 0);
          s = s\<lparr>bn_bump_ptr := (if key_slots < data_slots then key_slots else data_slots)\<rparr>;
          epp = ucast (bn_entries_per_page s)
      in s\<lparr>bn_total_entries := bn_bump_ptr s, bn_total_pages := (bn_bump_ptr s + epp - 1) div epp\<rparr>)"

definition key_budget :: "u64 \<Rightarrow> u32 \<Rightarrow> u64" where
  "key_budget write_max epp =
     (let budget = write_max * ucast epp * 40;
          budget = (if budget < 262144 then 262144 else budget)
      in if budget > 16777216 then 16777216 else budget)"

definition max_write_pages :: "u64 \<Rightarrow> u32 \<Rightarrow> u64" where
  "max_write_pages buffer_size page_size =
     (let max_pgs = buffer_size div ucast page_size in if max_pgs = 0 then 1024 else max_pgs)"

text \<open>The free list, the dirty tracker, the write buffer and the key buffer of a bin that was opened.\<close>

definition bin_buffers :: "u64 \<Rightarrow> u32 \<Rightarrow> bool \<Rightarrow> DimBin \<Rightarrow> DimBin" where
  "bin_buffers write_max wb_cap arena_ok s =
     (let initial_pages = (if bn_total_pages s > 0 then ucast (bn_total_pages s) else 1024 :: u32) in
      s\<lparr>bn_free_list := [], bn_free_capacity := 1024, bn_dirty := dirty_tracker_init initial_pages,
        bn_write_buf := wb_zero\<lparr>wb_max_pages := write_max, wb_capacity := wb_cap,
                               wb_slots := replicate (unat wb_cap) page_slot_empty\<rparr>,
        bn_key_buf := kbt_init arena_ok (key_budget write_max (bn_entries_per_page s))\<rparr>)"

definition dimbin_init ::
  "int \<Rightarrow> string \<Rightarrow> u64 \<Rightarrow> u32 \<Rightarrow> u32 \<Rightarrow> bytes \<Rightarrow> bytes \<Rightarrow> World
     \<Rightarrow> (graveldb_status \<times> DimBin \<times> World) option" where
  "dimbin_init dim file_path buffer_size entry_align page_size data keys w = do {
     s \<leftarrow> bin_geometry dim entry_align page_size;
     let (dup_ok, w) = ask w;
     if \<not> dup_ok then Some (GRAVELDB_ERR_OOM, bin_zero, w) else do {
     let (path_ok, w) = ask w;
     if \<not> path_ok then Some (GRAVELDB_ERR_OOM, bin_zero, w) else
     if length file_path < 4 then None else do {
     let s = s\<lparr>bn_file_path := file_path, bn_key_file_path := take (length file_path - 4) file_path @ ''.keys''\<rparr>;
     let (fd, w) = ask_mem w;
     if fd = None then Some (GRAVELDB_ERR_IO, bin_zero, w) else do {
     let (key_fd, w) = ask_mem w;
     if key_fd = None then Some (GRAVELDB_ERR_IO, bin_zero, w) else do {
     let (stat_ok, w) = ask w;
     if \<not> stat_ok then Some (GRAVELDB_ERR_IO, bin_zero, w) else do {
     let (kstat_ok, w) = ask w;
     let s = bin_sizes kstat_ok
       (s\<lparr>bn_fd := int (the fd), bn_key_fd := int (the key_fd), bn_file := data, bn_key_file := keys\<rparr>);
     let (free_ok, w) = ask w;
     if \<not> free_ok then Some (GRAVELDB_ERR_OOM, bin_zero, w) else
     if bn_page_size s = 0 then None else do {
     let write_max = max_write_pages buffer_size (bn_page_size s);
     wb_cap \<leftarrow> wb_cap_loop 28 write_max 64;
     let (slots_ok, w) = ask w;
     if \<not> slots_ok then Some (GRAVELDB_ERR_OOM, bin_zero, w) else do {
     let (buf_ok, w) = ask w;
     if \<not> buf_ok then Some (GRAVELDB_ERR_OOM, bin_zero, w) else do {
     let (arena_ok, w) = ask w;
     Some (GRAVELDB_OK, bin_buffers write_max wb_cap arena_ok s, w)
     }}}}}}}}}"

text \<open>\<^verbatim>\<open>dimbin_destroy\<close> returns the page buffers to the allocator; the files keep their contents.\<close>

definition dimbin_destroy :: "DimBin \<Rightarrow> World \<Rightarrow> DimBin \<times> World" where
  "dimbin_destroy s w =
     (let free = (\<lambda>alloc p. slab_free_aligned alloc (Some p) (ucast (bn_page_size s)));
          bufs = map fst (List.map_filter (\<lambda>sl. if ps_occ sl then ps_data sl else None) (wb_slots (bn_write_buf s)));
          alloc = foldl free (w_alloc w) bufs;
          alloc = foldl free alloc (wb_page_pool (bn_write_buf s));
          (ob, alloc) = overlay_destroy alloc (bn_overlay s)
      in (bin_zero, w\<lparr>w_alloc := alloc\<rparr>))"

subsection \<open>Allocation of entries\<close>

text \<open>
  \<^verbatim>\<open>fallocate\<close> never shrinks a file. When the file system does not support it, \<^verbatim>\<open>ftruncate\<close> is called,
  always with a size that is larger than the tracked one.
\<close>

definition graveldb_preallocate :: "bytes \<Rightarrow> u64 \<Rightarrow> World \<Rightarrow> bool \<times> bytes \<times> World" where
  "graveldb_preallocate f new_size w =
     (let (ok, w) = ask w in
      if ok then (True, f @ replicate (unat new_size - length f) 0, w)
      else
        let (unsupported, w) = ask w in
        if \<not> unsupported then (False, f, w)
        else
          let (ok, w) = ask w in
          if ok then (True, file_resize f (unat new_size), w) else (False, f, w))"

text \<open>
  \<^verbatim>\<open>while (new_size < required) new_size *= 2\<close> on 64-bit sizes: within 64 rounds the size is large
  enough or has become 0, from where the loop never ends.
\<close>

fun grow_size :: "nat \<Rightarrow> u64 \<Rightarrow> u64 \<Rightarrow> u64 option" where
  "grow_size 0 required new_size = None"
| "grow_size (Suc f) required new_size =
     (if new_size < required then grow_size f required (new_size * 2) else Some new_size)"

definition reserve_data :: "DimBin \<Rightarrow> u64 \<Rightarrow> u64 \<Rightarrow> World \<Rightarrow> DimBin \<times> World" where
  "reserve_data s new_size required w =
     (let (ok, f, w) = graveldb_preallocate (bn_file s) new_size w in
      if ok then (s\<lparr>bn_file := f, bn_data_file_size := new_size\<rparr>, w)
      else
        let (ok, f, w) = graveldb_preallocate f required w in
        if ok then (s\<lparr>bn_file := f, bn_data_file_size := required\<rparr>, w) else (s\<lparr>bn_file := f\<rparr>, w))"

definition first_size :: "DimBin \<Rightarrow> u64" where
  "first_size s = (if bn_data_file_size s > 0 then bn_data_file_size s * 2 else ucast (bn_page_size s) * 256)"

definition dimbin_reserve :: "DimBin \<Rightarrow> u32 \<Rightarrow> World \<Rightarrow> (DimBin \<times> World) option" where
  "dimbin_reserve s cnt w = do {
     let future_bump = bn_bump_ptr s + ucast cnt;
     let required_bytes = future_bump * bn_entry_size s;
     (s, w) \<leftarrow>
       (if bn_data_file_size s < required_bytes then do {
          new_size \<leftarrow> grow_size 65 required_bytes (first_size s);
          Some (reserve_data s new_size required_bytes w)
        } else Some (s, w));
     let key_required = future_bump * 8;
     if bn_key_file_size s < key_required then do {
       new_key_size \<leftarrow> grow_size 65 key_required (if bn_key_file_size s > 0 then bn_key_file_size s * 2 else 8192);
       let (ok, f, w) = graveldb_preallocate (bn_key_file s) new_key_size w;
       Some (if ok then (s\<lparr>bn_key_file := f, bn_key_file_size := new_key_size\<rparr>, w) else (s, w))
     } else Some (s, w)
   }"

definition dimbin_alloc_entry :: "DimBin \<Rightarrow> World \<Rightarrow> u32 \<times> DimBin \<times> World" where
  "dimbin_alloc_entry s w =
     (if bn_free_list s \<noteq> []
      then (last (bn_free_list s), s\<lparr>bn_free_list := butlast (bn_free_list s)\<rparr>, w)
      else
        let slot = (ucast (bn_bump_ptr s) :: u32);
            s = s\<lparr>bn_bump_ptr := bn_bump_ptr s + 1\<rparr>;
            required_bytes = ucast (slot + 1) * bn_entry_size s;
            (s, w) =
              (if bn_data_file_size s < required_bytes
               then let new_size = first_size s;
                        new_size = (if new_size < required_bytes then required_bytes * 2 else new_size)
                    in reserve_data s new_size required_bytes w
               else (s, w));
            key_required = ucast (slot + 1) * 8;
            (s, w) =
              (if bn_key_file_size s < key_required
               then let new_key_size = (if bn_key_file_size s > 0 then bn_key_file_size s * 2 else 8192);
                        new_key_size = (if new_key_size < key_required then key_required * 2 else new_key_size);
                        (ok, w) = ask w
                    in if ok then (s\<lparr>bn_key_file := file_resize (bn_key_file s) (unat new_key_size),
                                     bn_key_file_size := new_key_size\<rparr>, w)
                       else (s, w)
               else (s, w));
            epp = ucast (bn_entries_per_page s);
            s = (if ucast slot \<ge> bn_total_entries s
                 then let te = ucast (slot + 1) in
                      s\<lparr>bn_total_entries := te, bn_total_pages := (te + epp - 1) div epp\<rparr>
                 else s)
        in (slot, s, w))"

subsection \<open>Keys\<close>

definition dimbin_put_key :: "DimBin \<Rightarrow> u32 \<Rightarrow> u64 \<Rightarrow> World \<Rightarrow> graveldb_status \<times> DimBin \<times> World" where
  "dimbin_put_key s entry_idx feat_id w =
     (let (wr, f, w) = pwrite (bn_key_file s) (unat entry_idx * 8) (u64_bytes feat_id) w;
          s = s\<lparr>bn_key_file := f\<rparr>
      in if wr \<noteq> 8 then (GRAVELDB_ERR_IO, s\<lparr>bn_io_errors := bn_io_errors s + 1\<rparr>, w)
         else (GRAVELDB_OK, s, w))"

definition KEY_PAGE_SIZE :: nat where
  "KEY_PAGE_SIZE = 4096"

definition KEYS_PER_PAGE :: nat where
  "KEYS_PER_PAGE = KEY_PAGE_SIZE div 8"

definition KEY_COALESCE_THRESH :: nat where
  "KEY_COALESCE_THRESH = 4"

text \<open>The two arrays of \<^verbatim>\<open>flush_key_page\<close> are a list of pairs of a slot in the page and a key.\<close>

fun sparse_keys :: "DimBin \<Rightarrow> nat \<Rightarrow> (nat \<times> u64) list \<Rightarrow> World \<Rightarrow> DimBin \<times> World" where
  "sparse_keys s page_id [] w = (s, w)"
| "sparse_keys s page_id ((slot, v) # kvs) w =
     (let (wr, f, w) = pwrite (bn_key_file s) ((page_id * KEYS_PER_PAGE + slot) * 8) (u64_bytes v) w;
          s = s\<lparr>bn_key_file := f\<rparr>;
          s = (if wr \<noteq> 8 then s\<lparr>bn_io_errors := bn_io_errors s + 1\<rparr> else s)
      in sparse_keys s page_id kvs w)"

definition flush_key_page :: "DimBin \<Rightarrow> nat \<Rightarrow> (nat \<times> u64) list \<Rightarrow> World \<Rightarrow> DimBin \<times> World" where
  "flush_key_page s page_id kvs w =
     (if length kvs \<ge> KEY_COALESCE_THRESH then
        let pg_off = page_id * KEY_PAGE_SIZE;
            (page_buf, w) =
              (if pg_off < unat (bn_key_file_size s)
               then pread_page (bn_key_file s) pg_off KEY_PAGE_SIZE w
               else (replicate KEY_PAGE_SIZE 0, w));
            page_buf = foldl (\<lambda>pb (slot, v). put_at pb (slot * 8) (u64_bytes v)) page_buf kvs;
            (wr, f, w) = pwrite (bn_key_file s) pg_off page_buf w;
            s = s\<lparr>bn_key_file := f\<rparr>
        in (if wr \<noteq> int KEY_PAGE_SIZE then s\<lparr>bn_io_errors := bn_io_errors s + 1\<rparr> else s, w)
      else sparse_keys s page_id kvs w)"

text \<open>
  The pass over the entries: the current page with the keys collected for it. The arrays hold
  \<open>KEYS_PER_PAGE\<close> keys.
\<close>

fun keys_pass ::
  "DimBin \<Rightarrow> nat \<Rightarrow> (nat \<times> u64) list \<Rightarrow> KeyWriteEntry list \<Rightarrow> World \<Rightarrow> (DimBin \<times> World) option" where
  "keys_pass s cur_page kvs [] w = Some (if kvs \<noteq> [] then flush_key_page s cur_page kvs w else (s, w))"
| "keys_pass s cur_page kvs (e # es) w =
     (let pg = unat (kw_entry_idx e) div KEYS_PER_PAGE;
          slot = unat (kw_entry_idx e) mod KEYS_PER_PAGE;
          (s, kvs, w) =
            (if pg \<noteq> cur_page then let (s, w) = flush_key_page s cur_page kvs w in (s, [], w) else (s, kvs, w))
      in if length kvs < KEYS_PER_PAGE
         then keys_pass s pg (kvs @ [(slot, kw_feat_id e)]) es w
         else None)"

fun put_each_key :: "DimBin \<Rightarrow> KeyWriteEntry list \<Rightarrow> World \<Rightarrow> DimBin \<times> World" where
  "put_each_key s [] w = (s, w)"
| "put_each_key s (e # es) w =
     (let (rc, s, w) = dimbin_put_key s (kw_entry_idx e) (kw_feat_id e) w in put_each_key s es w)"

definition dimbin_put_keys_batch :: "DimBin \<Rightarrow> KeyWriteEntry list \<Rightarrow> World \<Rightarrow> (DimBin \<times> World) option" where
  "dimbin_put_keys_batch s entries w =
     (if entries = [] then Some (s, w)
      else if length entries < KEY_COALESCE_THRESH then Some (put_each_key s entries w)
      else keys_pass s (unat (kw_entry_idx (hd entries)) div KEYS_PER_PAGE) [] entries w)"

text \<open>The array that \<^verbatim>\<open>kbt_collect\<close> fills has \<^verbatim>\<open>kb->count\<close> elements.\<close>

definition dimbin_flush_keys :: "DimBin \<Rightarrow> World \<Rightarrow> (graveldb_status \<times> DimBin \<times> World) option" where
  "dimbin_flush_keys s w =
     (let kb = bn_key_buf s in
      if kb_count kb = 0 then Some (GRAVELDB_OK, s, w)
      else
        let (ok, w) = ask w in
        if \<not> ok then Some (GRAVELDB_ERR_OOM, s, w)
        else do {
          let (batch, n) = kbt_collect kb (replicate (unat (kb_count kb)) (0, 0));
          (s, w) \<leftarrow> dimbin_put_keys_batch s
            (map (\<lambda>(i, v). \<lparr>kw_entry_idx = i, kw_feat_id = v\<rparr>) (take n batch)) w;
          Some (GRAVELDB_OK, s\<lparr>bn_key_buf := kbt_clear (bn_key_buf s)\<rparr>, w)
        })"

definition dimbin_buf_key :: "DimBin \<Rightarrow> u32 \<Rightarrow> u64 \<Rightarrow> World \<Rightarrow> (DimBin \<times> World) option" where
  "dimbin_buf_key s entry_idx feat_id w = do {
     (s, w) \<leftarrow> (if kbt_full (bn_key_buf s) then map_option snd (dimbin_flush_keys s w) else Some (s, w));
     (inserted, kb) \<leftarrow> kbt_insert (bn_key_buf s) entry_idx feat_id;
     Some (s\<lparr>bn_key_buf := kb\<rparr>, w)
   }"

definition dimbin_free_entry :: "DimBin \<Rightarrow> u32 \<Rightarrow> World \<Rightarrow> (DimBin \<times> World) option" where
  "dimbin_free_entry s entry_idx w =
     (let n = length (bn_free_list s) in
      if n \<ge> unat (bn_free_capacity s) then
        (let new_cap = bn_free_capacity s * 2; (ok, w) = ask w in
         if \<not> ok then Some (s, w)
         else if n < unat new_cap
         then dimbin_buf_key (s\<lparr>bn_free_capacity := new_cap, bn_free_list := bn_free_list s @ [entry_idx]\<rparr>) entry_idx 0 w
         else None)
      else dimbin_buf_key (s\<lparr>bn_free_list := bn_free_list s @ [entry_idx]\<rparr>) entry_idx 0 w)"

subsection \<open>Flush\<close>

definition PEEPHOLE_GAP_MAX :: u32 where
  "PEEPHOLE_GAP_MAX = 4"

definition FLUSH_IOV_MAX :: nat where
  "FLUSH_IOV_MAX = 1024"

text \<open>The longest prefix of a list that continues the run ending in \<open>p\<close>, and the rest.\<close>

fun run_split :: "(u32 \<Rightarrow> u32 \<Rightarrow> bool) \<Rightarrow> u32 \<Rightarrow> u32 list \<Rightarrow> u32 list \<times> u32 list" where
  "run_split continues p [] = ([], [])"
| "run_split continues p (q # qs) =
     (if continues p q then let (a, b) = run_split continues q qs in (q # a, b) else ([], q # qs))"

text \<open>The buffers of a chunk of pages: pages that the map does not hold are skipped.\<close>

fun chunk_bufs :: "WriteBuffer \<Rightarrow> u32 list \<Rightarrow> page_buf list option" where
  "chunk_bufs wb [] = Some []"
| "chunk_bufs wb (pg # pgs) = do {
     idx \<leftarrow> pagemap_find (wb_slots wb) (wb_capacity wb) pg;
     bufs \<leftarrow> chunk_bufs wb pgs;
     if ps_page_id (wb_slots wb ! unat idx) \<noteq> pg then Some bufs
     else map_option (\<lambda>b. b # bufs) (ps_data (wb_slots wb ! unat idx))
   }"

text \<open>
  The write of one chunk, with the status so far. \<open>None\<close> in the last component but one of the result
  means that no vector could be allocated. The list of vectors that are kept until the end of the
  flush has no effect when every write is synchronous.
\<close>

record FlushState =
  fs_rc :: graveldb_status
  fs_file :: bytes
  fs_ctx :: uring_io_ctx
  fs_world :: World

definition write_bufs :: "bool \<Rightarrow> int \<Rightarrow> nat \<Rightarrow> bytes list \<Rightarrow> nat \<Rightarrow> FlushState \<Rightarrow> FlushState" where
  "write_bufs use_uring fd page_size bufs base_offset fs =
     (if bufs = [] then fs
      else if use_uring then
        let (r, ctx, f, w) =
              (if length bufs = 1
               then uring_io_submit_write (fs_ctx fs) fd (fs_file fs) (hd bufs) base_offset (fs_world fs)
               else uring_io_submit_writev (fs_ctx fs) fd (fs_file fs) bufs base_offset (fs_world fs))
        in fs\<lparr>fs_rc := (if r < 0 then GRAVELDB_ERR_IO else fs_rc fs), fs_ctx := ctx, fs_file := f, fs_world := w\<rparr>
      else
        let (wr, f, w) = pwrite (fs_file fs) base_offset (concat bufs) (fs_world fs)
        in fs\<lparr>fs_rc := (if wr \<noteq> int (length bufs * page_size) then GRAVELDB_ERR_IO else fs_rc fs),
             fs_file := f, fs_world := w\<rparr>)"

definition flush_chunk :: "bool \<Rightarrow> DimBin \<Rightarrow> u32 list \<Rightarrow> FlushState \<Rightarrow> (bool \<times> FlushState) option" where
  "flush_chunk use_uring s pgs fs =
     (let heap = (use_uring \<and> length pgs > 1 \<or> length pgs > 128);
          (ok, w) = (if heap then ask (fs_world fs) else (True, fs_world fs));
          fs = fs\<lparr>fs_world := w\<rparr>
      in if \<not> ok then Some (False, fs\<lparr>fs_rc := GRAVELDB_ERR_OOM\<rparr>)
         else do {
           bufs \<leftarrow> chunk_bufs (bn_write_buf s) pgs;
           Some (True, write_bufs use_uring (bn_fd s) (unat (bn_page_size s)) (map snd bufs)
             (unat (hd pgs) * unat (bn_page_size s)) fs)
         })"

text \<open>A sub-run of consecutive pages in chunks; a chunk without vector ends the sub-run.\<close>

function flush_chunks :: "bool \<Rightarrow> DimBin \<Rightarrow> u32 list \<Rightarrow> FlushState \<Rightarrow> FlushState option" where
  "flush_chunks use_uring s pgs fs =
     (if pgs = [] then Some fs
      else do {
        (go, fs) \<leftarrow> flush_chunk use_uring s (take FLUSH_IOV_MAX pgs) fs;
        if go then flush_chunks use_uring s (drop FLUSH_IOV_MAX pgs) fs else Some fs
      })"
  by pat_completeness auto
termination by (relation "measure (\<lambda>(u, s, pgs, fs). length pgs)") (auto simp: FLUSH_IOV_MAX_def)

declare flush_chunks.simps [simp del]

lemma run_split_append: "run_split c p qs = (a, b) \<Longrightarrow> qs = a @ b"
  by (induction c p qs arbitrary: a b rule: run_split.induct) (auto split: if_splits prod.splits)

lemma run_split_le: "(a, b) = run_split c p qs \<Longrightarrow> length b \<le> length qs"
  using run_split_append [of c p qs a b] by simp

function flush_subruns :: "bool \<Rightarrow> DimBin \<Rightarrow> u32 list \<Rightarrow> FlushState \<Rightarrow> FlushState option" where
  "flush_subruns use_uring s [] fs = Some fs"
| "flush_subruns use_uring s (pg # pgs) fs =
     (let (sub, rest) = run_split (\<lambda>p q. q = p + 1) pg pgs in do {
        fs \<leftarrow> flush_chunks use_uring s (pg # sub) fs;
        flush_subruns use_uring s rest fs
      })"
  by pat_completeness auto
termination
  by (relation "measure (\<lambda>(u, s, pgs, fs). length pgs)")
    (auto simp: less_Suc_eq_le dest: run_split_le)

text \<open>
  The runs with small gaps. Of the first loop over a run only the searches remain, which have no
  effect. \<^verbatim>\<open>flush_bytes\<close> counts the pages of the runs.
\<close>

function flush_runs :: "bool \<Rightarrow> DimBin \<Rightarrow> u32 list \<Rightarrow> FlushState \<Rightarrow> (DimBin \<times> FlushState) option" where
  "flush_runs use_uring s [] fs = Some (s, fs)"
| "flush_runs use_uring s (pg # pgs) fs =
     (let (run, rest) = run_split (\<lambda>p q. q \<le> p + PEEPHOLE_GAP_MAX + 1) pg pgs in do {
        bufs \<leftarrow> chunk_bufs (bn_write_buf s) (pg # run);
        fs \<leftarrow> flush_subruns use_uring s (pg # run) fs;
        let wb = bn_write_buf s;
        let s = s\<lparr>bn_write_buf := wb\<lparr>wb_flush_bytes :=
              wb_flush_bytes wb + of_nat (length (pg # run)) * ucast (bn_page_size s)\<rparr>\<rparr>;
        flush_runs use_uring s rest fs
      })"
  by pat_completeness auto
termination
  by (relation "measure (\<lambda>(u, s, pgs, fs). length pgs)")
    (auto simp: less_Suc_eq_le dest: run_split_le)

text \<open>Waiting for the writes, and the synchronization on request.\<close>

definition flush_sync :: "bool \<Rightarrow> bool \<Rightarrow> FlushState \<Rightarrow> FlushState" where
  "flush_sync use_uring sync fs =
     (if use_uring then
        let w = (if sync then snd (uring_io_submit_fsyncs (fs_ctx fs) (fs_world fs)) else fs_world fs);
            (errors, ctx) = uring_io_wait (fs_ctx fs)
        in fs\<lparr>fs_world := w, fs_ctx := ctx, fs_rc := (if errors > 0 then GRAVELDB_ERR_IO else fs_rc fs)\<rparr>
      else if sync then
        let (key_ok, w) = ask (fs_world fs); (ok, w) = ask w
        in fs\<lparr>fs_world := w, fs_rc := (if key_ok \<and> ok then fs_rc fs else GRAVELDB_ERR_IO)\<rparr>
      else fs)"

text \<open>
  The buffers of the flushed pages go to the pool. In a partial flush their slots are emptied, which
  may break the chains of the pages that stay.
\<close>

fun recycle_pages :: "bool \<Rightarrow> WriteBuffer \<Rightarrow> u32 list \<Rightarrow> World \<Rightarrow> (WriteBuffer \<times> World) option" where
  "recycle_pages empty_slot wb [] w = Some (wb, w)"
| "recycle_pages empty_slot wb (pg # pgs) w = do {
     idx \<leftarrow> pagemap_find (wb_slots wb) (wb_capacity wb) pg;
     if ps_page_id (wb_slots wb ! unat idx) \<noteq> pg then recycle_pages empty_slot wb pgs w
     else do {
       buf \<leftarrow> ps_data (wb_slots wb ! unat idx);
       let (ok, w) =
         (if length (wb_page_pool wb) \<ge> unat (wb_pool_capacity wb) then ask w else (True, w));
       wb \<leftarrow> write_buf_recycle_page ok wb (fst buf);
       let wb = (if empty_slot then wb\<lparr>wb_slots := (wb_slots wb)[unat idx := page_slot_empty]\<rparr> else wb);
       recycle_pages empty_slot wb pgs w
     }
   }"

text \<open>The rehash in place that is used when there is no memory for the remaining slots.\<close>

fun rehash_in_place :: "PageSlot list \<Rightarrow> u32 \<Rightarrow> nat list \<Rightarrow> nat \<Rightarrow> (PageSlot list \<times> nat) option" where
  "rehash_in_place slots capacity [] cnt = Some (slots, cnt)"
| "rehash_in_place slots capacity (ci # cis) cnt =
     (if \<not> ps_occ (slots ! ci) then rehash_in_place slots capacity cis cnt
      else
        let t = slots ! ci; slots = slots[ci := page_slot_empty] in do {
          new_idx \<leftarrow> pagemap_find slots capacity (ps_page_id t);
          rehash_in_place (slots[unat new_idx := t]) capacity cis (Suc cnt)
        })"

definition finish_flush :: "WriteBuffer \<Rightarrow> u32 list \<Rightarrow> World \<Rightarrow> (WriteBuffer \<times> World) option" where
  "finish_flush wb dirty_pages w =
     (let n = length dirty_pages; cleared = replicate (unat (wb_capacity wb)) page_slot_empty in
      if n = unat (wb_count wb) then do {
        (wb, w) \<leftarrow> recycle_pages False wb dirty_pages w;
        Some (wb\<lparr>wb_slots := cleared, wb_count := 0\<rparr>, w)
      } else do {
        (wb, w) \<leftarrow> recycle_pages True wb dirty_pages w;
        let remaining = unat (wb_count wb - of_nat n);
        let (ok, w) = (if remaining > 0 then ask w else (False, w));
        if ok then do {
          let tmp_slots = take remaining (filter ps_occ (wb_slots wb));
          slots \<leftarrow> pagemap_fill cleared (wb_capacity wb) tmp_slots;
          Some (wb\<lparr>wb_slots := slots, wb_count := of_nat (length tmp_slots)\<rparr>, w)
        } else do {
          (slots, cnt) \<leftarrow> rehash_in_place (wb_slots wb) (wb_capacity wb) [0..<unat (wb_capacity wb)] 0;
          Some (wb\<lparr>wb_slots := slots, wb_count := of_nat cnt\<rparr>, w)
        }
      })"

definition dirty_pages_of :: "WriteBuffer \<Rightarrow> u32 list" where
  "dirty_pages_of wb = sort (take GRAVELDB_MAX_FLUSH_BATCH (map ps_page_id (filter ps_occ (wb_slots wb))))"

text \<open>The part of \<^verbatim>\<open>dimbin_flush\<close> after the keys.\<close>

definition flush_pages :: "DimBin \<Rightarrow> bool \<Rightarrow> World \<Rightarrow> (graveldb_status \<times> DimBin \<times> World) option" where
  "flush_pages s sync w =
     (if wb_count (bn_write_buf s) = 0 then Some (GRAVELDB_OK, s, w)
      else
        let dirty_pages = dirty_pages_of (bn_write_buf s) in
        if dirty_pages = [] then Some (GRAVELDB_OK, s, w)
        else do {
          let (r, ctx) = uring_io_init w;
          let use_uring = (r = 0);
          (s, fs) \<leftarrow> flush_runs use_uring s dirty_pages
            \<lparr>fs_rc = GRAVELDB_OK, fs_file = bn_file s, fs_ctx = ctx, fs_world = w\<rparr>;
          let fs = flush_sync use_uring sync fs;
          (wb, w) \<leftarrow> finish_flush (bn_write_buf s) dirty_pages (fs_world fs);
          Some (fs_rc fs, s\<lparr>bn_file := fs_file fs, bn_write_buf := wb\<rparr>, w)
        })"

definition dimbin_flush :: "DimBin \<Rightarrow> bool \<Rightarrow> World \<Rightarrow> (graveldb_status \<times> DimBin \<times> World) option" where
  "dimbin_flush s sync w = do {
     (key_rc, s, w) \<leftarrow> dimbin_flush_keys s w;
     if key_rc \<noteq> GRAVELDB_OK then Some (key_rc, s, w)
     else flush_pages (s\<lparr>bn_flush_needed := False\<rparr>) sync w
   }"

subsection \<open>Pages and embeddings\<close>

text \<open>
  \<^verbatim>\<open>write_buf_ensure_page\<close> returns a pointer to the page buffer. The buffer belongs to a slot, so the
  model returns the index of the slot, and \<open>None\<close> for NULL.
\<close>

definition load_page :: "DimBin \<Rightarrow> u32 \<Rightarrow> World \<Rightarrow> bytes \<times> World" where
  "load_page s page_id w =
     (let first_committed_page = (ucast (bn_bump_ptr s div ucast (bn_entries_per_page s)) :: u32);
          page_offset = unat page_id * unat (bn_page_size s)
      in if page_id < first_committed_page \<and> page_offset < unat (bn_data_file_size s)
         then pread_page (bn_file s) page_offset (unat (bn_page_size s)) w
         else (replicate (unat (bn_page_size s)) 0, w))"

definition insert_page :: "DimBin \<Rightarrow> u32 \<Rightarrow> u32 \<Rightarrow> World \<Rightarrow> u32 option \<times> DimBin \<times> World" where
  "insert_page s page_id idx w =
     (let (mem, wb, w) = write_buf_acquire_page (bn_write_buf s) (bn_page_size s) w;
          s = s\<lparr>bn_write_buf := wb\<rparr>
      in case mem of
           None \<Rightarrow> (None, s, w)
         | Some a \<Rightarrow>
             let (page, w) = load_page s page_id w in
             (Some idx,
              s\<lparr>bn_write_buf := wb\<lparr>wb_slots := (wb_slots wb)[unat idx := \<lparr>ps_page_id = page_id, ps_data = Some (a, page)\<rparr>],
                                   wb_count := wb_count wb + 1\<rparr>\<rparr>, w))"

definition write_buf_ensure_page :: "DimBin \<Rightarrow> u32 \<Rightarrow> World \<Rightarrow> (u32 option \<times> DimBin \<times> World) option" where
  "write_buf_ensure_page s page_id w = do {
     let wb = bn_write_buf s;
     idx \<leftarrow> pagemap_find (wb_slots wb) (wb_capacity wb) page_id;
     if ps_page_id (wb_slots wb ! unat idx) = page_id then Some (Some idx, s, w)
     else do {
       (s, w) \<leftarrow> (if ucast (wb_count wb) \<ge> wb_max_pages wb then map_option snd (dimbin_flush s False w) else Some (s, w));
       let wb = bn_write_buf s;
       idx \<leftarrow> pagemap_find (wb_slots wb) (wb_capacity wb) page_id;
       if wb_count wb * 10 \<ge> wb_capacity wb * 7 then do {
         let new_cap = wb_capacity wb * 2;
         let (ok, w) = ask w;
         grown \<leftarrow> pagemap_grow ok (wb_slots wb) new_cap;
         (case grown of
            None \<Rightarrow> Some (None, s, w)
          | Some slots \<Rightarrow> do {
              idx \<leftarrow> pagemap_find slots new_cap page_id;
              Some (insert_page (s\<lparr>bn_write_buf := wb\<lparr>wb_slots := slots, wb_capacity := new_cap\<rparr>\<rparr>) page_id idx w)
            })
       } else Some (insert_page s page_id idx w)
     }
   }"

text \<open>
  The insertion sort of \<^verbatim>\<open>dimbin_put_batch\<close>: \<open>done\<close> is the sorted part of the array in reverse order,
  through which the new element moves down past larger pages.
\<close>

fun shift_order :: "(EmbWriteEntry \<Rightarrow> u32) \<Rightarrow> EmbWriteEntry \<Rightarrow> EmbWriteEntry list \<Rightarrow> EmbWriteEntry list" where
  "shift_order pg x [] = [x]"
| "shift_order pg x (y # ys) = (if pg y > pg x then y # shift_order pg x ys else x # y # ys)"

definition sort_by_page :: "(EmbWriteEntry \<Rightarrow> u32) \<Rightarrow> EmbWriteEntry list \<Rightarrow> EmbWriteEntry list" where
  "sort_by_page pg entries = rev (foldl (\<lambda>sorted x. shift_order pg x sorted) [] entries)"

text \<open>\<^verbatim>\<open>memcpy\<close> of one entry into the page.\<close>

fun copy_entries :: "DimBin \<Rightarrow> EmbWriteEntry list \<Rightarrow> bytes \<Rightarrow> bytes option" where
  "copy_entries s [] page = Some page"
| "copy_entries s (e # es) page =
     (let offset_in_page = (ew_entry_id e mod bn_entries_per_page s) * ucast (bn_entry_size s);
          n = unat (bn_entry_size s); src = emb_data (ew_data e)
      in if n \<le> length src \<and> unat offset_in_page + n \<le> length page
         then copy_entries s es (put_at page (unat offset_in_page) (take n src))
         else None)"

text \<open>The direct writes when there is no page buffer; each goes through a buffer of 4096 bytes.\<close>

fun write_entries ::
  "DimBin \<Rightarrow> u32 \<Rightarrow> graveldb_status \<Rightarrow> EmbWriteEntry list \<Rightarrow> World \<Rightarrow> (graveldb_status \<times> DimBin \<times> World) option" where
  "write_entries s page_id rc [] w = Some (rc, s, w)"
| "write_entries s page_id rc (e # es) w =
     (let n = unat (bn_entry_size s); src = emb_data (ew_data e) in
      if n > 4096 \<or> n > length src then None
      else do {
        let (wr, f, w) = pwrite (bn_file s) (unat (ew_entry_id e) * n) (take n src) w;
        let (ma, w) = ask_mark w;
        dt \<leftarrow> dirty_tracker_mark ma (bn_dirty s) page_id;
        write_entries (s\<lparr>bn_file := f, bn_dirty := dt\<rparr>) page_id (if wr < 0 then GRAVELDB_ERR_IO else rc) es w
      })"

definition put_page ::
  "DimBin \<Rightarrow> u32 \<Rightarrow> graveldb_status \<Rightarrow> EmbWriteEntry list \<Rightarrow> World \<Rightarrow> (graveldb_status \<times> DimBin \<times> World) option" where
  "put_page s page_id rc es w = do {
     let dt = bn_dirty s;
     let s = s\<lparr>bn_dirty :=
         (if page_id \<ge> dt_capacity dt
          then dirty_tracker_resize dt (if page_id < 1024 then 1024 else (page_id + 1) * 2)
          else dt)\<rparr>;
     (r, s, w) \<leftarrow> write_buf_ensure_page s page_id w;
     (case r of
        Some idx \<Rightarrow> do {
          let wb = bn_write_buf s;
          (a, page) \<leftarrow> ps_data (wb_slots wb ! unat idx);
          page \<leftarrow> copy_entries s es page;
          let (ma, w) = ask_mark w;
          dt \<leftarrow> dirty_tracker_mark ma (bn_dirty s) page_id;
          Some (rc, s\<lparr>bn_write_buf := wb\<lparr>wb_slots :=
                  (wb_slots wb)[unat idx := (wb_slots wb ! unat idx)\<lparr>ps_data := Some (a, page)\<rparr>]\<rparr>, bn_dirty := dt\<rparr>, w)
        }
      | None \<Rightarrow> write_entries s page_id rc es w)
   }"

function put_groups ::
  "DimBin \<Rightarrow> graveldb_status \<Rightarrow> EmbWriteEntry list \<Rightarrow> World \<Rightarrow> (graveldb_status \<times> DimBin \<times> World) option" where
  "put_groups s rc [] w = Some (rc, s, w)"
| "put_groups s rc (e # es) w =
     (let pg = (\<lambda>e. ew_entry_id e div bn_entries_per_page s) in do {
        (rc, s, w) \<leftarrow> put_page s (pg e) rc (e # takeWhile (\<lambda>x. pg x = pg e) es) w;
        put_groups s rc (dropWhile (\<lambda>x. pg x = pg e) es) w
      })"
  by pat_completeness auto
termination
  by (relation "measure (\<lambda>(s, rc, es, w). length es)") (auto simp: less_Suc_eq_le length_dropWhile_le)

definition dimbin_should_flush :: "DimBin \<Rightarrow> bool" where
  "dimbin_should_flush s \<longleftrightarrow>
     wb_count (bn_write_buf s) \<ge> ucast (wb_max_pages (bn_write_buf s) * 3 div 4)"

fun overlay_batch :: "DimBin \<Rightarrow> EmbWriteEntry list \<Rightarrow> World \<Rightarrow> (graveldb_status \<times> DimBin \<times> World) option" where
  "overlay_batch s [] w = Some (GRAVELDB_OK, s, w)"
| "overlay_batch s (e # es) w =
     (if overlay_full (bn_overlay s) then Some (GRAVELDB_ERR_BUSY, s, w)
      else if length (ew_data e) < nat (bn_dim s) then None
      else do {
        let (ok, w) = ask w;
        let (mem, w) = ask_mem w;
        (rc, ob, alloc) \<leftarrow> overlay_put ok mem (w_alloc w) (bn_overlay s) (ew_entry_id e)
          (take (nat (bn_dim s)) (ew_data e)) (bn_dim s);
        let s = s\<lparr>bn_overlay := ob\<rparr>;
        let w = w\<lparr>w_alloc := alloc\<rparr>;
        if rc \<noteq> GRAVELDB_OK then Some (rc, s, w) else overlay_batch s es w
      })"

definition dimbin_put_batch ::
  "DimBin \<Rightarrow> EmbWriteEntry list \<Rightarrow> World \<Rightarrow> (graveldb_status \<times> DimBin \<times> World) option" where
  "dimbin_put_batch s entries w =
     (if entries = [] then Some (GRAVELDB_OK, s, w)
      else if bn_in_checkpoint s then overlay_batch s entries w
      else
        let (ok, w) = (if length entries \<le> 256 then (True, w) else ask w) in
        if \<not> ok then Some (GRAVELDB_ERR_OOM, s, w)
        else if bn_entries_per_page s = 0 then None
        else do {
          (rc, s, w) \<leftarrow> put_groups s GRAVELDB_OK
            (sort_by_page (\<lambda>e. ew_entry_id e div bn_entries_per_page s) entries) w;
          Some (rc, if dimbin_should_flush s then s\<lparr>bn_flush_needed := True\<rparr> else s, w)
        })"

subsection \<open>Checkpoints\<close>

text \<open>The results of the flush and of \<^verbatim>\<open>overlay_init\<close> are not looked at.\<close>

definition dimbin_checkpoint_begin :: "DimBin \<Rightarrow> World \<Rightarrow> (graveldb_status \<times> DimBin \<times> World) option" where
  "dimbin_checkpoint_begin s w = do {
     (rc, s, w) \<leftarrow> dimbin_flush s True w;
     let s = s\<lparr>bn_dirty := dirty_tracker_swap (bn_dirty s)\<rparr>;
     let (slots_ok, w) = ask w;
     let (tomb_ok, w) = ask w;
     let (ptr, w) = ask_mem w;
     let (mem, w) = ask_mem w;
     let (rc, ob, alloc) = overlay_init slots_ok tomb_ok ptr mem (w_alloc w) ((bn_overlay s)\<lparr>ob_allocator := True\<rparr>) (bn_dim s);
     Some (GRAVELDB_OK,
       s\<lparr>bn_overlay := ob\<lparr>ob_budget_bytes := bn_overlay_budget s\<rparr>, bn_in_checkpoint := True\<rparr>, w\<lparr>w_alloc := alloc\<rparr>)
   }"

definition OVERLAY_REPLAY_CHUNK :: nat where
  "OVERLAY_REPLAY_CHUNK = 1024"

function replay_chunks :: "nat \<Rightarrow> DimBin \<Rightarrow> EmbWriteEntry list \<Rightarrow> World \<Rightarrow> (DimBin \<times> World) option" where
  "replay_chunks n s es w =
     (if es = [] \<or> n = 0 then Some (s, w)
      else do {
        (rc, s, w) \<leftarrow> dimbin_put_batch s (take n es) w;
        replay_chunks n s (drop n es) w
      })"
  by pat_completeness auto
termination by (relation "measure (\<lambda>(n, s, es, w). length es)") auto

declare replay_chunks.simps [simp del]

definition overlay_entries :: "OverlaySlot list \<Rightarrow> EmbWriteEntry list" where
  "overlay_entries slots = map (\<lambda>sl. \<lparr>ew_entry_id = ov_entry_id sl, ew_data = ov_data sl\<rparr>) (filter ov_occ slots)"

definition replay_list :: "OverlayBuffer \<Rightarrow> EmbWriteEntry list" where
  "replay_list ob =
     overlay_entries (rt_slots ob) @ (case rt_old_slots ob of None \<Rightarrow> [] | Some old \<Rightarrow> overlay_entries old)"

fun free_entries :: "DimBin \<Rightarrow> u32 list \<Rightarrow> World \<Rightarrow> (DimBin \<times> World) option" where
  "free_entries s [] w = Some (s, w)"
| "free_entries s (e # es) w = do { (s, w) \<leftarrow> dimbin_free_entry s e w; free_entries s es w }"

text \<open>
  The buffer for the replay holds as many entries as the overlay counts. Without it, the entries are
  written one by one.
\<close>

definition dimbin_checkpoint_end :: "DimBin \<Rightarrow> World \<Rightarrow> (graveldb_status \<times> DimBin \<times> World) option" where
  "dimbin_checkpoint_end s w = do {
     let s = s\<lparr>bn_in_checkpoint := False\<rparr>;
     let ob = bn_overlay s;
     let total_overlay = unat (rt_count ob);
     (s, w) \<leftarrow>
       (if total_overlay > 0 then do {
          let (ok, w) = ask w;
          if ok then replay_chunks OVERLAY_REPLAY_CHUNK s (take total_overlay (replay_list ob)) w
          else replay_chunks 1 s (replay_list ob) w
        } else Some (s, w));
     (s, w) \<leftarrow> free_entries s (case ob_tombstones ob of None \<Rightarrow> [] | Some ts \<Rightarrow> ts) w;
     let (ob, alloc) = overlay_destroy (w_alloc w) (bn_overlay s);
     Some (GRAVELDB_OK, s\<lparr>bn_overlay := ob\<rparr>, w\<lparr>w_alloc := alloc\<rparr>)
   }"

end
