(* ===== verification/Bin_Keys.thy ===== *)
theory Bin_Keys
  imports Dim_Bin
begin

text \<open>
  The keys of a bin. \<open>key_at\<close> is the key that the key file holds for an entry. A flush of the key buffer
  writes page by page where keys are dense and key by key where they are sparse; the result is the same
  as writing every key on its own.
\<close>

subsection \<open>Key files\<close>

definition key_at :: "bytes \<Rightarrow> nat \<Rightarrow> u64" where
  "key_at f i = wire_get_u64 (map (fbyte f) [i * 8..<i * 8 + 8]) 0"

definition key_write :: "bytes \<Rightarrow> nat \<times> u64 \<Rightarrow> bytes" where
  "key_write f kv = file_write f (fst kv * 8) (u64_bytes (snd kv))"

lemma key_at_write: "key_at (key_write f (j, v)) i = (if i = j then v else key_at f i)"
proof -
  have "map (fbyte (key_write f (j, v))) [j * 8..<j * 8 + 8] = u64_bytes v"
    by (rule nth_equalityI) (auto simp: key_write_def fbyte_write)
  moreover have "map (fbyte (key_write f (j, v))) [i * 8..<i * 8 + 8] = map (fbyte f) [i * 8..<i * 8 + 8]" if "i \<noteq> j"
    using that by (auto simp: key_write_def fbyte_write)
  ultimately show ?thesis
    by (simp add: key_at_def u64_bytes_inverse cong: map_cong del: map_eq_conv)
qed

lemma key_at_writes:
  "key_at (foldl key_write f kvs) i = (case map_of (rev kvs) i of Some v \<Rightarrow> v | None \<Rightarrow> key_at f i)"
  by (induction kvs rule: rev_induct) (auto simp: key_at_write split: option.splits)

text \<open>Only the bytes of a file matter, not its length.\<close>

lemma key_at_cong: "fbyte f = fbyte g \<Longrightarrow> key_at f = key_at g"
  by (rule ext) (simp add: key_at_def)

lemma key_write_cong: "fbyte f = fbyte g \<Longrightarrow> fbyte (key_write f kv) = fbyte (key_write g kv)"
  by (rule ext) (simp add: key_write_def fbyte_write)

lemma key_writes_cong: "fbyte f = fbyte g \<Longrightarrow> fbyte (foldl key_write f kvs) = fbyte (foldl key_write g kvs)"
proof (induction kvs arbitrary: f g)
  case (Cons kv kvs)
  show ?case
    using Cons.IH [OF key_write_cong [OF Cons.prems]] by simp
qed simp

text \<open>Patching a page in memory and writing it back is the same as writing the keys one by one.\<close>

lemma page_patch:
  assumes "length page = n" and "\<forall>i < n. page ! i = fbyte f (off + i)"
    and "\<forall>i. i < off \<or> off + n \<le> i \<longrightarrow> fbyte f0 i = fbyte f i"
    and "\<forall>kv \<in> set kvs. fst kv * 8 + 8 \<le> n" and "off = p * 8" and "0 < n"
  shows "fbyte (file_write f0 off (foldl (\<lambda>pb (slot, v). put_at pb (slot * 8) (u64_bytes v)) page kvs)) =
    fbyte (foldl key_write f (map (\<lambda>(slot, v). (p + slot, v)) kvs))"
  using assms
proof (induction kvs arbitrary: page f)
  case Nil
  show ?case
  proof
    fix i
    show "fbyte (file_write f0 off (foldl (\<lambda>pb (slot, v). put_at pb (slot * 8) (u64_bytes v)) page [])) i =
        fbyte (foldl key_write f (map (\<lambda>(slot, v). (p + slot, v)) [])) i"
      using Nil(1-3) by (cases "off \<le> i \<and> i < off + n") (auto simp: fbyte_write)
  qed
next
  case (Cons kv kvs)
  obtain slot v where kv: "kv = (slot, v)"
    by (cases kv)
  have b: "slot * 8 + length (u64_bytes v) \<le> length page"
    using Cons.prems(1,4) by (simp add: kv)
  let ?page = "put_at page (slot * 8) (u64_bytes v)" and ?f = "key_write f (p + slot, v)"
  have 1: "length ?page = n"
    using Cons.prems(1) b by simp
  have 2: "\<forall>i < n. ?page ! i = fbyte ?f (off + i)"
    using Cons.prems(1,2,5) b by (auto simp: nth_put_at key_write_def fbyte_write algebra_simps)
  have 3: "\<forall>i. i < off \<or> off + n \<le> i \<longrightarrow> fbyte f0 i = fbyte ?f i"
    using Cons.prems(1,3,5) b by (auto simp: key_write_def fbyte_write algebra_simps)
  show ?case
    using Cons.IH [OF 1 2 3 _ Cons.prems(5,6)] Cons.prems(4) by (simp add: kv)
qed

subsection \<open>Flushing the keys of one page\<close>

abbreviation kwe_pair :: "KeyWriteEntry \<Rightarrow> nat \<times> u64" where
  "kwe_pair e \<equiv> (unat (kw_entry_idx e), kw_feat_id e)"

text \<open>What a step of the flush leaves: only the bytes of the key file change, by the given writes.\<close>

definition keys_done :: "DimBin \<Rightarrow> World \<Rightarrow> (nat \<times> u64) list \<Rightarrow> DimBin \<times> World \<Rightarrow> bool" where
  "keys_done s w kvs r \<longleftrightarrow>
     (\<exists>f. fst r = s\<lparr>bn_key_file := f\<rparr> \<and> fbyte f = fbyte (foldl key_write (bn_key_file s) kvs)) \<and>
     all_ok (snd r) \<and> w_alloc (snd r) = w_alloc w \<and> w_portable (snd r) = w_portable w"

lemma keys_done_refl: "all_ok w \<Longrightarrow> keys_done s w [] (s, w)"
  by (auto simp: keys_done_def intro: exI [of _ "bn_key_file s"])

lemma keys_done_trans:
  assumes "keys_done s w kvs (s', w')" and "keys_done s' w' kvs' r"
  shows "keys_done s w (kvs @ kvs') r"
proof -
  obtain f g where f: "s' = s\<lparr>bn_key_file := f\<rparr>" "fbyte f = fbyte (foldl key_write (bn_key_file s) kvs)"
    and g: "fst r = s\<lparr>bn_key_file := g\<rparr>" "fbyte g = fbyte (foldl key_write f kvs')"
    using assms by (auto simp: keys_done_def)
  have "fbyte g = fbyte (foldl key_write (bn_key_file s) (kvs @ kvs'))"
    using g(2) key_writes_cong [OF f(2)] by simp
  then show ?thesis
    using assms g(1) by (auto simp: keys_done_def)
qed

lemma sparse_keys_done:
  "all_ok w \<Longrightarrow> keys_done s w (map (\<lambda>(slot, v). (p * KEYS_PER_PAGE + slot, v)) kvs) (sparse_keys s p kvs w)"
proof (induction kvs arbitrary: s w)
  case Nil
  then show ?case
    by (simp add: keys_done_refl)
next
  case (Cons kv kvs)
  obtain slot v where kv: "kv = (slot, v)"
    by (cases kv)
  let ?s = "s\<lparr>bn_key_file := key_write (bn_key_file s) (p * KEYS_PER_PAGE + slot, v)\<rparr>"
  have "keys_done s w [(p * KEYS_PER_PAGE + slot, v)] (?s, snd (ask w))"
    using Cons.prems by (auto simp: keys_done_def)
  from keys_done_trans [OF this Cons.IH] show ?case
    using Cons.prems by (simp add: kv pwrite_ok key_write_def)
qed

lemma flush_key_page_done:
  assumes ok: "all_ok w" and slots: "\<forall>kv \<in> set kvs. fst kv < KEYS_PER_PAGE"
    and sz: "kvs \<noteq> [] \<Longrightarrow> p * KEY_PAGE_SIZE < unat (bn_key_file_size s)"
  shows "keys_done s w (map (\<lambda>(slot, v). (p * KEYS_PER_PAGE + slot, v)) kvs) (flush_key_page s p kvs w)"
proof (cases "length kvs \<ge> KEY_COALESCE_THRESH")
  case True
  let ?off = "p * KEY_PAGE_SIZE" and ?f = "bn_key_file s"
  let ?page = "foldl (\<lambda>pb (slot, v). put_at pb (slot * 8) (u64_bytes v)) (read_page ?f ?off KEY_PAGE_SIZE) kvs"
  have ne: "kvs \<noteq> []"
    using True by (auto simp: KEY_COALESCE_THRESH_def)
  have len: "length (foldl (\<lambda>pb (slot, v). put_at pb (slot * 8) (u64_bytes v)) pg kvs) = KEY_PAGE_SIZE"
    if "length pg = KEY_PAGE_SIZE" for pg
    using that slots
  proof (induction kvs arbitrary: pg)
    case (Cons kv kvs)
    then show ?case
      by (cases kv) (auto simp: KEYS_PER_PAGE_def KEY_PAGE_SIZE_def)
  qed simp
  have "fbyte (file_write ?f ?off ?page) =
      fbyte (foldl key_write ?f (map (\<lambda>(slot, v). (p * KEYS_PER_PAGE + slot, v)) kvs))"
    by (rule page_patch [where n = KEY_PAGE_SIZE])
      (use slots in \<open>auto simp: nth_read_page KEYS_PER_PAGE_def KEY_PAGE_SIZE_def\<close>)
  then show ?thesis
    using True ok sz [OF ne] len [of "read_page ?f ?off KEY_PAGE_SIZE"]
    by (auto simp: keys_done_def flush_key_page_def Let_def pread_page_ok pwrite_ok)
next
  case False
  then show ?thesis
    using sparse_keys_done [OF ok] by (simp add: flush_key_page_def)
qed

subsection \<open>The batch\<close>

lemma put_each_done: "all_ok w \<Longrightarrow> keys_done s w (map kwe_pair es) (put_each_key s es w)"
proof (induction es arbitrary: s w)
  case Nil
  then show ?case
    by (simp add: keys_done_refl)
next
  case (Cons e es)
  let ?s = "s\<lparr>bn_key_file := key_write (bn_key_file s) (kwe_pair e)\<rparr>"
  have "keys_done s w [kwe_pair e] (?s, snd (ask w))"
    using Cons.prems by (auto simp: keys_done_def)
  from keys_done_trans [OF this Cons.IH] show ?case
    using Cons.prems by (simp add: dimbin_put_key_def pwrite_ok key_write_def)
qed

text \<open>Different entries of one page fit in the arrays.\<close>

lemma distinct_slots_room:
  assumes "distinct (map fst kvs)" and "\<forall>kv \<in> set kvs. fst kv < n" and "k < n" and "k \<notin> fst ` set kvs"
  shows "length kvs < (n :: nat)"
proof -
  have "insert k (fst ` set kvs) \<subseteq> {..<n}"
    using assms(2,3) by auto
  then have "card (insert k (fst ` set kvs)) \<le> card {..<n}"
    by (intro card_mono) auto
  moreover have "card (fst ` set kvs) = length kvs"
    using distinct_card [OF assms(1)] by simp
  ultimately show ?thesis
    using assms(4) by simp
qed

lemma keys_pass_done:
  assumes "all_ok w" and "\<forall>kv \<in> set kvs. fst kv < KEYS_PER_PAGE"
    and "kvs \<noteq> [] \<Longrightarrow> p * KEY_PAGE_SIZE < unat (bn_key_file_size s)"
    and "\<forall>e \<in> set es. unat (kw_entry_idx e) * 8 < unat (bn_key_file_size s)"
    and "distinct (map (\<lambda>kv. p * KEYS_PER_PAGE + fst kv) kvs @ map (unat \<circ> kw_entry_idx) es)"
  shows "\<exists>r. keys_pass s p kvs es w = Some r \<and>
    keys_done s w (map (\<lambda>(slot, v). (p * KEYS_PER_PAGE + slot, v)) kvs @ map kwe_pair es) r"
  using assms
proof (induction es arbitrary: s p kvs w)
  case Nil
  show ?case
  proof (cases "kvs = []")
    case True
    then show ?thesis
      using keys_done_refl [OF Nil.prems(1)] by simp
  next
    case False
    then show ?thesis
      using flush_key_page_done [OF Nil.prems(1-3)] by simp
  qed
next
  case (Cons e es)
  define pg where "pg = unat (kw_entry_idx e) div KEYS_PER_PAGE"
  define slot where "slot = unat (kw_entry_idx e) mod KEYS_PER_PAGE"
  have idx: "pg * KEYS_PER_PAGE + slot = unat (kw_entry_idx e)" and sl: "slot < KEYS_PER_PAGE"
    by (simp_all add: pg_def slot_def KEYS_PER_PAGE_def KEY_PAGE_SIZE_def)
  have "pg * KEY_PAGE_SIZE \<le> unat (kw_entry_idx e) * 8"
    unfolding idx [symmetric] by (simp add: KEYS_PER_PAGE_def KEY_PAGE_SIZE_def)
  then have sz: "pg * KEY_PAGE_SIZE < unat (bn_key_file_size s)"
    using Cons.prems(4) by (meson le_less_trans list.set_intros(1))
  show ?case
  proof (cases "pg = p")
    case True
    let ?kvs = "kvs @ [(slot, kw_feat_id e)]"
    have "slot \<notin> fst ` set kvs"
      using Cons.prems(5) idx True by (force simp: image_iff)
    moreover have "distinct (map fst kvs)"
      using Cons.prems(5) by (auto simp: distinct_map inj_on_def)
    ultimately have room: "length kvs < KEYS_PER_PAGE"
      using distinct_slots_room [of kvs KEYS_PER_PAGE slot] Cons.prems(2) sl by simp
    have "\<exists>r. keys_pass s pg ?kvs es w = Some r \<and>
        keys_done s w (map (\<lambda>(slot, v). (pg * KEYS_PER_PAGE + slot, v)) ?kvs @ map kwe_pair es) r"
      using Cons.prems sz sl True idx by (intro Cons.IH) auto
    then show ?thesis
      using True room idx by (simp add: pg_def slot_def)
  next
    case False
    obtain s' w' where s': "flush_key_page s p kvs w = (s', w')"
      by fastforce
    have d: "keys_done s w (map (\<lambda>(slot, v). (p * KEYS_PER_PAGE + slot, v)) kvs) (s', w')"
      using flush_key_page_done [OF Cons.prems(1-3)] s' by simp
    have *: "all_ok w'" "bn_key_file_size s' = bn_key_file_size s"
      using d by (auto simp: keys_done_def)
    have "\<exists>r. keys_pass s' pg [(slot, kw_feat_id e)] es w' = Some r \<and>
        keys_done s' w' (map (\<lambda>(slot, v). (pg * KEYS_PER_PAGE + slot, v)) [(slot, kw_feat_id e)] @ map kwe_pair es) r"
      using Cons.prems(4,5) sz sl idx * by (intro Cons.IH) auto
    then obtain r where r: "keys_pass s' pg [(slot, kw_feat_id e)] es w' = Some r"
        "keys_done s' w' (map kwe_pair (e # es)) r"
      using idx by auto
    moreover have "keys_pass s p kvs (e # es) w = keys_pass s' pg [(slot, kw_feat_id e)] es w'"
      using False s' by (simp add: pg_def slot_def Let_def KEYS_PER_PAGE_def KEY_PAGE_SIZE_def)
    ultimately show ?thesis
      using keys_done_trans [OF d r(2)] by auto
  qed
qed

lemma put_keys_batch_done:
  assumes "all_ok w" and "\<forall>e \<in> set es. unat (kw_entry_idx e) * 8 < unat (bn_key_file_size s)"
    and "distinct (map kw_entry_idx es)"
  shows "\<exists>r. dimbin_put_keys_batch s es w = Some r \<and> keys_done s w (map kwe_pair es) r"
proof -
  have "distinct (map (unat \<circ> kw_entry_idx) es)"
    using assms(3) by (simp add: distinct_map comp_inj_on inj_on_def word_unat_eq_iff)
  then have "\<exists>r. keys_pass s p [] es w = Some r \<and> keys_done s w (map kwe_pair es) r" for p
    using keys_pass_done [of w "[]" p s es] assms(1,2) by simp
  then show ?thesis
    using put_each_done [OF assms(1), of s es] keys_done_refl [OF assms(1), of s]
    by (cases "es = []"; cases "put_each_key s es w") (simp_all add: dimbin_put_keys_batch_def)
qed

subsection \<open>Flushing the buffer\<close>

lemma kbt_collect_core:
  assumes "kbt_inv t"
  shows "kbt_collect t (replicate (unat (kb_count t)) x) = (kbt_iterate t, unat (kb_count t))"
    and "sorted_wrt (<) (map fst (kbt_iterate t))" and "length (kbt_iterate t) = unat (kb_count t)"
  using assms collect_ok(1) [of 0 _ "replicate (unat (kb_count t)) x"]
  by (auto simp: kbt_collect_def kbt_inv_def kbt_iterate_def split: option.splits)

definition keys_ok :: "DimBin \<Rightarrow> bool" where
  "keys_ok s \<longleftrightarrow> kbt_inv (bn_key_buf s) \<and>
     (\<forall>kv \<in> set (kbt_iterate (bn_key_buf s)). unat (fst kv) * 8 < unat (bn_key_file_size s))"

text \<open>A key buffer into which a key can always be inserted, after a flush at worst.\<close>

definition kb_ok :: "KeyBTree \<Rightarrow> bool" where
  "kb_ok t \<longleftrightarrow> 4 \<le> unat (kb_arena_cap t) \<and> unat (kb_arena_cap t) \<le> 8320 \<and> (kb_count t = 0 \<longrightarrow> kb_arena_used t = 0)"

lemma flush_keys_done:
  assumes ok: "all_ok w" and k: "keys_ok s"
  shows "\<exists>f t w'. dimbin_flush_keys s w = Some (GRAVELDB_OK, s\<lparr>bn_key_file := f, bn_key_buf := t\<rparr>, w') \<and>
    fbyte f = fbyte (foldl key_write (bn_key_file s) (map (\<lambda>(i, v). (unat i, v)) (kbt_iterate (bn_key_buf s)))) \<and>
    kbt_inv t \<and> kbt_iterate t = [] \<and> kb_arena_cap t = kb_arena_cap (bn_key_buf s) \<and> kb_count t = 0 \<and>
    all_ok w' \<and> w_alloc w' = w_alloc w \<and> w_portable w' = w_portable w \<and> (kb_ok (bn_key_buf s) \<longrightarrow> kb_ok t)"
proof (cases "kb_count (bn_key_buf s) = 0")
  case True
  have inv: "kbt_inv (bn_key_buf s)"
    using k by (simp add: keys_ok_def)
  then have "kbt_iterate (bn_key_buf s) = []"
    using kbt_collect_core(3) [OF inv] True by simp
  then show ?thesis
    using True ok inv by (intro exI [of _ "bn_key_file s"] exI [of _ "bn_key_buf s"] exI [of _ w])
      (simp add: dimbin_flush_keys_def Let_def)
next
  case False
  let ?t = "bn_key_buf s" and ?es = "map (\<lambda>(i, v). \<lparr>kw_entry_idx = i, kw_feat_id = v\<rparr>) (kbt_iterate (bn_key_buf s))"
  have inv: "kbt_inv ?t"
    using k by (simp add: keys_ok_def)
  note c = kbt_collect_core [OF inv]
  have "distinct (map fst (kbt_iterate ?t))"
    using c(2) by (simp add: strict_sorted_iff)
  then have d: "distinct (map kw_entry_idx ?es)"
    by (simp add: comp_def case_prod_unfold)
  have sz: "\<forall>e \<in> set ?es. unat (kw_entry_idx e) * 8 < unat (bn_key_file_size s)"
    using k by (auto simp: keys_ok_def)
  have "all_ok (snd (ask w))"
    using ok by simp
  from put_keys_batch_done [OF this sz d] obtain s' w' where
    r: "dimbin_put_keys_batch s ?es (snd (ask w)) = Some (s', w')" "keys_done s (snd (ask w)) (map kwe_pair ?es) (s', w')"
    by auto
  have m: "map kwe_pair ?es = map (\<lambda>(i, v). (unat i, v)) (kbt_iterate ?t)"
    by auto
  have fl: "dimbin_flush_keys s w = Some (GRAVELDB_OK, s'\<lparr>bn_key_buf := kbt_clear (bn_key_buf s')\<rparr>, w')"
    using False ok r(1) c(1) [of "(0, 0)"] c(3) by (simp add: dimbin_flush_keys_def Let_def split_beta)
  obtain f where f: "s' = s\<lparr>bn_key_file := f\<rparr>"
      "fbyte f = fbyte (foldl key_write (bn_key_file s) (map (\<lambda>(i, v). (unat i, v)) (kbt_iterate ?t)))"
    using r(2) unfolding keys_done_def m by auto
  have "kbt_inv (kbt_clear ?t)" "kbt_iterate (kbt_clear ?t) = []" "kb_arena_cap (kbt_clear ?t) = kb_arena_cap ?t"
      "kb_count (kbt_clear ?t) = 0" "kb_ok ?t \<longrightarrow> kb_ok (kbt_clear ?t)"
    by (simp_all add: kbt_clear_def kbt_inv_def kbt_iterate_def kb_ok_def)
  moreover have "all_ok w'" "w_alloc w' = w_alloc w" "w_portable w' = w_portable w"
    using r(2) by (simp_all add: keys_done_def)
  ultimately show ?thesis
    using fl f by (intro exI [of _ f] exI [of _ "kbt_clear ?t"] exI [of _ w']) simp
qed

end
