(* ===== verification/Bin_Flush.thy ===== *)
theory Bin_Flush
  imports Bin_Keys
begin

text \<open>
  The flush of the page buffers. \<open>data_view\<close> is what a bin stores at a byte offset of its data file: the
  byte of the page buffer if the page is buffered, otherwise the byte of the file. A flush without
  failures moves the buffered pages to the file and leaves the view as it is, although it writes in
  runs, sub-runs and chunks.
\<close>

subsection \<open>The view of a bin\<close>

abbreviation bin_pages :: "DimBin \<Rightarrow> u32 \<rightharpoonup> page_buf option" where
  "bin_pages s \<equiv> pm_map (wb_slots (bn_write_buf s))"

definition page_of :: "DimBin \<Rightarrow> u32 \<Rightarrow> bytes" where
  "page_of s p = (case bin_pages s p of Some (Some b) \<Rightarrow> snd b | _ \<Rightarrow> [])"

definition data_view :: "DimBin \<Rightarrow> nat \<Rightarrow> u8" where
  "data_view s off =
     (let ps = unat (bn_page_size s); p = off div ps in
      if p < 2 ^ 32 \<and> bin_pages s (of_nat p) \<noteq> None then page_of s (of_nat p) ! (off mod ps)
      else fbyte (bn_file s) off)"

lemma data_view_cong:
  assumes "bn_page_size s' = bn_page_size s" and "bin_pages s' = bin_pages s" and "bn_file s' = bn_file s"
  shows "data_view s' = data_view s"
  unfolding fun_eq_iff data_view_def page_of_def assms by (rule allI, rule refl)

definition wb_inv :: "DimBin \<Rightarrow> bool" where
  "wb_inv s \<longleftrightarrow>
     (let wb = bn_write_buf s in
      pm_inv (wb_capacity wb) (wb_slots wb) \<and> pm_used (wb_slots wb) < length (wb_slots wb) \<and>
      unat (wb_count wb) = pm_used (wb_slots wb) \<and>
      length (wb_page_pool wb) \<le> unat (wb_pool_capacity wb)) \<and>
     0 < bn_page_size s \<and>
     (\<forall>p b. bin_pages s p = Some b \<longrightarrow> (\<exists>a pg. b = Some (a, pg) \<and> length pg = unat (bn_page_size s)))"

lemma bin_pages_dom: "dom (bin_pages s) = set (map ps_page_id (filter ps_occ (wb_slots (bn_write_buf s))))"
  by (auto simp: pm_map_def dom_oa_map oa_keys_def)

lemma bin_pages_nonempty: "bin_pages s p \<noteq> None \<Longrightarrow> p \<noteq> PAGE_SLOT_EMPTY"
proof
  assume "bin_pages s p \<noteq> None" "p = PAGE_SLOT_EMPTY"
  then have "PAGE_SLOT_EMPTY \<in> dom (bin_pages s)"
    by auto
  then show False
    unfolding bin_pages_dom by auto
qed

lemma page_succ: "p \<noteq> PAGE_SLOT_EMPTY \<Longrightarrow> unat (p + 1) = Suc (unat p)"
proof -
  assume "p \<noteq> PAGE_SLOT_EMPTY"
  then have "unat p \<noteq> 2 ^ 32 - 1"
    by (simp add: word_unat_eq_iff PAGE_SLOT_EMPTY_def UINT32_MAX_def)
  then have "unat p + 1 < 2 ^ 32"
    using unsigned_less [where 'a = nat, of p] by simp
  then show ?thesis
    by (simp add: unat_word_ariths)
qed

lemma wb_invD:
  assumes "wb_inv s"
  shows "pm_inv (wb_capacity (bn_write_buf s)) (wb_slots (bn_write_buf s))"
    and "pm_used (wb_slots (bn_write_buf s)) < length (wb_slots (bn_write_buf s))"
    and "unat (wb_count (bn_write_buf s)) = pm_used (wb_slots (bn_write_buf s))"
    and "length (wb_page_pool (bn_write_buf s)) \<le> unat (wb_pool_capacity (bn_write_buf s))"
    and "0 < unat (bn_page_size s)"
    and "\<And>p b. bin_pages s p = Some b \<Longrightarrow> \<exists>a pg. b = Some (a, pg) \<and> length pg = unat (bn_page_size s)"
  using assms by (simp_all add: wb_inv_def Let_def unat_gt_0 word_gt_0)

lemma page_of_length: "wb_inv s \<Longrightarrow> bin_pages s p \<noteq> None \<Longrightarrow> length (page_of s p) = unat (bn_page_size s)"
  using wb_invD(6) [of s p] by (auto simp: page_of_def)

text \<open>The search for a buffered page finds its slot.\<close>

lemma find_page:
  assumes "wb_inv s" and "bin_pages s p \<noteq> None"
  obtains idx a where "pagemap_find (wb_slots (bn_write_buf s)) (wb_capacity (bn_write_buf s)) p = Some idx"
    and "ps_page_id (wb_slots (bn_write_buf s) ! unat idx) = p"
    and "ps_data (wb_slots (bn_write_buf s) ! unat idx) = Some (a, page_of s p)"
    and "unat idx < length (wb_slots (bn_write_buf s))"
proof -
  note inv = wb_invD [OF assms(1)]
  obtain idx where i: "pagemap_find (wb_slots (bn_write_buf s)) (wb_capacity (bn_write_buf s)) p = Some idx"
      "unat idx < length (wb_slots (bn_write_buf s))"
    using pm_find [OF inv(1,2)] by metis
  have l: "bin_pages s p = (if ps_page_id (wb_slots (bn_write_buf s) ! unat idx) = p
      then Some (ps_data (wb_slots (bn_write_buf s) ! unat idx)) else None)"
    using pm_lookup [OF inv(1) i(1) bin_pages_nonempty [OF assms(2)]] .
  then obtain a pg where "ps_data (wb_slots (bn_write_buf s) ! unat idx) = Some (a, pg)"
    using assms(2) inv(6) by (auto split: if_splits)
  then show thesis
    using that [of idx a] i l assms(2) by (auto simp: page_of_def split: if_splits)
qed

subsection \<open>Writing pages\<close>

definition page_write :: "DimBin \<Rightarrow> bytes \<Rightarrow> u32 \<Rightarrow> bytes" where
  "page_write s f p = file_write f (unat p * unat (bn_page_size s)) (page_of s p)"

lemma chunk_bufs_ok:
  assumes "wb_inv s" and "set pgs \<subseteq> dom (bin_pages s)"
  shows "\<exists>bufs. chunk_bufs (bn_write_buf s) pgs = Some bufs \<and> map snd bufs = map (page_of s) pgs"
  using assms(2)
proof (induction pgs)
  case (Cons p pgs)
  obtain bufs where b: "chunk_bufs (bn_write_buf s) pgs = Some bufs" "map snd bufs = map (page_of s) pgs"
    using Cons by auto
  have "bin_pages s p \<noteq> None"
    using Cons.prems by auto
  then obtain idx a where "pagemap_find (wb_slots (bn_write_buf s)) (wb_capacity (bn_write_buf s)) p = Some idx"
      "ps_page_id (wb_slots (bn_write_buf s) ! unat idx) = p"
      "ps_data (wb_slots (bn_write_buf s) ! unat idx) = Some (a, page_of s p)"
    by (rule find_page [OF assms(1)])
  then show ?case
    using b by simp
qed simp

abbreviation follows :: "u32 \<Rightarrow> u32 \<Rightarrow> bool" where
  "follows p q \<equiv> q = p + 1"

text \<open>One vectored write of consecutive pages is the sequence of the page writes.\<close>

lemma write_concat:
  assumes "successively follows pgs" and "pgs \<noteq> []" and "set pgs \<subseteq> dom (bin_pages s)" and "wb_inv s"
  shows "file_write f (unat (hd pgs) * unat (bn_page_size s)) (concat (map (page_of s) pgs)) =
    foldl (page_write s) f pgs"
  using assms(1-3)
proof (induction pgs arbitrary: f)
  case (Cons p pgs)
  show ?case
  proof (cases pgs)
    case Nil
    then show ?thesis
      by (simp add: page_write_def)
  next
    case (Cons q qs)
    have q: "q = p + 1" "successively follows pgs"
      using Cons.prems(1) Cons by auto
    have "bin_pages s p \<noteq> None"
      using Cons.prems(3) by auto
    then have "p \<noteq> PAGE_SLOT_EMPTY" and l: "length (page_of s p) = unat (bn_page_size s)"
      using bin_pages_nonempty page_of_length [OF assms(4)] by auto
    then have "unat q = Suc (unat p)"
      unfolding q(1) by (intro page_succ)
    then show ?thesis
      using Cons.IH [of "page_write s f p"] q(2) Cons.prems(3) Cons l
      by (simp add: file_write_append page_write_def algebra_simps)
  qed
qed simp

text \<open>
  What a part of the flush does to its state when nothing fails: the file receives the given pages in
  order.
\<close>

definition wrote :: "DimBin \<Rightarrow> u32 list \<Rightarrow> FlushState \<Rightarrow> FlushState \<Rightarrow> bool" where
  "wrote s pgs fs fs' \<longleftrightarrow>
     fs_rc fs' = fs_rc fs \<and> fs_file fs' = foldl (page_write s) (fs_file fs) pgs \<and>
     all_ok (fs_world fs') \<and> w_alloc (fs_world fs') = w_alloc (fs_world fs) \<and>
     w_portable (fs_world fs') = w_portable (fs_world fs) \<and>
     uc_initialized (fs_ctx fs') = uc_initialized (fs_ctx fs) \<and> uc_errors (fs_ctx fs') = uc_errors (fs_ctx fs)"

lemma wrote_trans: "wrote s pgs fs fs' \<Longrightarrow> wrote s pgs' fs' fs'' \<Longrightarrow> wrote s (pgs @ pgs') fs fs''"
  by (simp add: wrote_def)

definition ready :: "bool \<Rightarrow> FlushState \<Rightarrow> bool" where
  "ready use_uring fs \<longleftrightarrow> all_ok (fs_world fs) \<and> (use_uring \<longrightarrow> uc_initialized (fs_ctx fs))"

lemma wrote_ready: "wrote s pgs fs fs' \<Longrightarrow> ready u fs \<Longrightarrow> ready u fs'"
  by (simp add: wrote_def ready_def)

lemma flush_chunk_wrote:
  assumes inv: "wb_inv s" and pgs: "successively follows pgs" "pgs \<noteq> []" "set pgs \<subseteq> dom (bin_pages s)"
    and r: "ready u fs"
  obtains fs' where "flush_chunk u s pgs fs = Some (True, fs')" and "wrote s pgs fs fs'"
proof -
  let ?ps = "unat (bn_page_size s)" and ?bufs = "map (page_of s) pgs"
  let ?off = "unat (hd pgs) * ?ps"
  obtain bufs where b: "chunk_bufs (bn_write_buf s) pgs = Some bufs" "map snd bufs = ?bufs"
    using chunk_bufs_ok [OF inv pgs(3)] by auto
  have wc: "file_write f ?off (concat ?bufs) = foldl (page_write s) f pgs" for f
    using write_concat [OF pgs inv] .
  have "length (page_of s p) = ?ps" if "p \<in> set pgs" for p
    using that pgs(3) page_of_length [OF inv, of p] by auto
  then have len: "length (concat ?bufs) = length pgs * ?ps"
    by (simp add: length_concat comp_def sum_list_triv cong: map_cong)
  have wb: "wrote s pgs fs (write_bufs u (bn_fd s) ?ps ?bufs ?off fs)" if "ready u fs" for fs
  proof (cases u)
    case True
    then have i: "all_ok (fs_world fs)" "uc_initialized (fs_ctx fs)"
      using that by (auto simp: ready_def)
    show ?thesis
    proof (cases "length pgs = 1")
      case one: True
      then have "concat ?bufs = hd ?bufs"
        by (cases pgs) auto
      then show ?thesis
        using submit_write_ok [OF i, of "bn_fd s" "fs_file fs" "hd ?bufs" ?off] wc [of "fs_file fs"] pgs(2) one True i
        by (auto simp: write_bufs_def wrote_def)
    next
      case False
      then show ?thesis
        using submit_writev_ok [OF i, of "bn_fd s" "fs_file fs" ?bufs ?off] wc [of "fs_file fs"] pgs(2) True i
        by (auto simp: write_bufs_def wrote_def)
    qed
  next
    case False
    then show ?thesis
      using that wc [of "fs_file fs"] pgs(2) len
      by (simp add: write_bufs_def wrote_def ready_def pwrite_ok)
  qed
  let ?w = "if u \<and> length pgs > 1 \<or> length pgs > 128 then snd (ask (fs_world fs)) else fs_world fs"
  let ?fs = "fs\<lparr>fs_world := ?w\<rparr>"
  have "ready u ?fs" and same: "wrote s [] fs ?fs"
    using r by (auto simp: ready_def wrote_def)
  moreover have "flush_chunk u s pgs fs = Some (True, write_bufs u (bn_fd s) ?ps ?bufs ?off ?fs)"
    using b r by (simp add: flush_chunk_def ready_def Let_def split_beta)
  ultimately show thesis
    using that wrote_trans [OF same wb] by fastforce
qed

lemma flush_chunks_wrote:
  assumes "wb_inv s" and "successively follows pgs" and "set pgs \<subseteq> dom (bin_pages s)" and "ready u fs"
  shows "\<exists>fs'. flush_chunks u s pgs fs = Some fs' \<and> wrote s pgs fs fs'"
  using assms
proof (induction u s pgs fs rule: flush_chunks.induct)
  case (1 u s pgs fs)
  show ?case
  proof (cases "pgs = []")
    case True
    then show ?thesis
      using "1.prems"(4) by (simp add: flush_chunks.simps wrote_def ready_def)
  next
    case False
    let ?a = "take FLUSH_IOV_MAX pgs" and ?b = "drop FLUSH_IOV_MAX pgs"
    have sc: "successively follows ?a" "successively follows ?b" "?a \<noteq> []"
      using "1.prems"(2) False successively_append_iff [of follows ?a ?b] by (auto simp: FLUSH_IOV_MAX_def)
    obtain fs1 where f1: "flush_chunk u s ?a fs = Some (True, fs1)" "wrote s ?a fs fs1"
      using flush_chunk_wrote [OF "1.prems"(1) sc(1,3) _ "1.prems"(4)] "1.prems"(3) set_take_subset
      by (metis subset_trans)
    have sub: "set ?b \<subseteq> dom (bin_pages s)"
      using "1.prems"(3) set_drop_subset [of FLUSH_IOV_MAX pgs] by blast
    obtain fs2 where "flush_chunks u s ?b fs1 = Some fs2" "wrote s ?b fs1 fs2"
      using "1.IH" [OF False f1(1) refl _ "1.prems"(1) sc(2) sub wrote_ready [OF f1(2) "1.prems"(4)]] by auto
    then show ?thesis
      using f1 False wrote_trans [OF f1(2), of ?b fs2] by (subst flush_chunks.simps) simp
  qed
qed

lemma run_split_props:
  "run_split c p qs = (a, b) \<Longrightarrow> qs = a @ b \<and> successively c (p # a)"
  by (induction c p qs arbitrary: a b rule: run_split.induct) (auto split: if_splits prod.splits)

lemma flush_subruns_wrote:
  assumes "wb_inv s" and "set pgs \<subseteq> dom (bin_pages s)" and "ready u fs"
  shows "\<exists>fs'. flush_subruns u s pgs fs = Some fs' \<and> wrote s pgs fs fs'"
  using assms
proof (induction u s pgs fs rule: flush_subruns.induct)
  case (1 u s fs)
  then show ?case
    by (simp add: wrote_def ready_def)
next
  case (2 u s p pgs fs)
  obtain sub rest where r: "run_split follows p pgs = (sub, rest)"
    by fastforce
  then have pg: "pgs = sub @ rest" "successively follows (p # sub)"
    using run_split_props by auto
  obtain fs1 where f1: "flush_chunks u s (p # sub) fs = Some fs1" "wrote s (p # sub) fs fs1"
    using flush_chunks_wrote [OF "2.prems"(1) pg(2) _ "2.prems"(3)] "2.prems"(2) pg(1) by auto
  obtain fs2 where "flush_subruns u s rest fs1 = Some fs2" "wrote s rest fs1 fs2"
    using "2.IH" [OF r [symmetric] refl f1(1) "2.prems"(1) _ wrote_ready [OF f1(2) "2.prems"(3)]] "2.prems"(2) pg(1) by auto
  then show ?case
    using f1 r pg(1) wrote_trans [OF f1(2), of rest fs2] by simp
qed

lemma flush_runs_wrote:
  assumes "wb_inv s" and "set pgs \<subseteq> dom (bin_pages s)" and "ready u fs"
  shows "\<exists>n fs'. flush_runs u s pgs fs =
      Some (s\<lparr>bn_write_buf := (bn_write_buf s)\<lparr>wb_flush_bytes := n\<rparr>\<rparr>, fs') \<and> wrote s pgs fs fs'"
  using assms
proof (induction u s pgs fs rule: flush_runs.induct)
  case (1 u s fs)
  then show ?case
    by (intro exI [of _ "wb_flush_bytes (bn_write_buf s)"] exI [of _ fs]) (simp add: wrote_def ready_def)
next
  case (2 u s p pgs fs)
  obtain run rest where r: "run_split (\<lambda>p q. q \<le> p + PEEPHOLE_GAP_MAX + 1) p pgs = (run, rest)"
    by fastforce
  then have pg: "pgs = run @ rest"
    using run_split_props by auto
  have sub: "set (p # run) \<subseteq> dom (bin_pages s)" "set rest \<subseteq> dom (bin_pages s)"
    using "2.prems"(2) pg by auto
  obtain bufs where b: "chunk_bufs (bn_write_buf s) (p # run) = Some bufs"
    using chunk_bufs_ok [OF "2.prems"(1) sub(1)] by auto
  obtain fs1 where f1: "flush_subruns u s (p # run) fs = Some fs1" "wrote s (p # run) fs fs1"
    using flush_subruns_wrote [OF "2.prems"(1) sub(1) "2.prems"(3)] by auto
  define n where "n = wb_flush_bytes (bn_write_buf s) + of_nat (length (p # run)) * ucast (bn_page_size s)"
  let ?s = "s\<lparr>bn_write_buf := (bn_write_buf s)\<lparr>wb_flush_bytes := n\<rparr>\<rparr>"
  have *: "wb_inv ?s" "set rest \<subseteq> dom (bin_pages ?s)" "ready u fs1"
    using "2.prems"(1) sub(2) wrote_ready [OF f1(2) "2.prems"(3)] by (simp_all add: wb_inv_def Let_def)
  obtain m fs2 where f2: "flush_runs u ?s rest fs1 = Some (?s\<lparr>bn_write_buf := (bn_write_buf ?s)\<lparr>wb_flush_bytes := m\<rparr>\<rparr>, fs2)"
      "wrote ?s rest fs1 fs2"
    using "2.IH" [OF r [symmetric] refl b f1(1) refl _ *] n_def by auto
  have "page_write ?s = page_write s"
    by (intro ext) (simp add: page_write_def page_of_def)
  then have "wrote s rest fs1 fs2"
    using f2(2) by (simp add: wrote_def)
  then have "wrote s (p # pgs) fs fs2"
    using wrote_trans [OF f1(2), of rest fs2] pg by simp
  moreover have "flush_runs u s (p # pgs) fs = flush_runs u ?s rest fs1"
    using r b f1(1) by (simp add: n_def Let_def del: chunk_bufs.simps flush_subruns.simps)
  ultimately show ?case
    using f2(1) by auto
qed

lemma block_index: "0 < n \<Longrightarrow> (k * n \<le> x \<and> x < k * n + n) \<longleftrightarrow> x div n = (k :: nat)"
proof
  assume "0 < n" "x div n = k"
  then show "k * n \<le> x \<and> x < k * n + n"
    using dividend_less_div_times [of n x] by auto
qed (auto intro: div_nat_eqI simp: mult.commute)

text \<open>The file after the writes.\<close>

lemma fbyte_page_writes:
  assumes "wb_inv s" and "set pgs \<subseteq> dom (bin_pages s)"
  shows "fbyte (foldl (page_write s) f pgs) off =
    (let p = off div unat (bn_page_size s) in
     if p < 2 ^ 32 \<and> of_nat p \<in> set pgs then page_of s (of_nat p) ! (off mod unat (bn_page_size s)) else fbyte f off)"
  using assms(2)
proof (induction pgs rule: rev_induct)
  case (snoc q pgs)
  let ?ps = "unat (bn_page_size s)" and ?p = "off div unat (bn_page_size s)"
  have ps: "0 < ?ps" and len: "length (page_of s q) = ?ps"
    using wb_invD(5) [OF assms(1)] page_of_length [OF assms(1), of q] snoc.prems by auto
  have iff: "unat q * ?ps \<le> off \<and> off < unat q * ?ps + ?ps \<longleftrightarrow> ?p = unat q"
    using block_index [OF ps] .
  show ?case
  proof (cases "?p = unat q")
    case True
    then have "off - unat q * ?ps = off mod ?ps"
      by (metis minus_div_mult_eq_mod)
    then show ?thesis
      using True iff len unsigned_less [where 'a = nat, of q]
      by (auto simp: page_write_def fbyte_write Let_def)
  next
    case False
    then have "of_nat ?p \<noteq> q" if "?p < 2 ^ 32"
      using that by (auto simp: unat_of_nat)
    then show ?thesis
      using False iff len snoc by (auto simp: page_write_def fbyte_write Let_def)
  qed
qed simp

subsection \<open>Recycling\<close>

lemma recycle_page_ok:
  assumes "length (wb_page_pool wb) \<le> unat (wb_pool_capacity wb)" and "length (wb_page_pool wb) < 2 ^ 31"
  obtains cap where "write_buf_recycle_page True wb a =
      Some (wb\<lparr>wb_page_pool := wb_page_pool wb @ [a], wb_pool_capacity := cap\<rparr>)"
    and "length (wb_page_pool wb) < unat cap"
proof (cases "length (wb_page_pool wb) \<ge> unat (wb_pool_capacity wb)")
  case True
  let ?c = "wb_pool_capacity wb"
  let ?cap = "if ?c \<noteq> 0 then ?c * 2 else 64"
  have e: "length (wb_page_pool wb) = unat ?c"
    using True assms(1) by simp
  have "unat ?c < unat ?cap"
  proof (cases "?c = 0")
    case False
    have "unat (?c * 2) = unat ?c * 2"
      using assms(2) e by (simp add: unat_word_ariths)
    then show ?thesis
      using False by (simp add: unat_gt_0 word_gt_0)
  qed simp
  then show thesis
    using that [of ?cap] True e by (simp add: write_buf_recycle_page_def Let_def)
next
  case False
  then show thesis
    using that [of "wb_pool_capacity wb"] by (simp add: write_buf_recycle_page_def Let_def)
qed

lemma recycle_pages_ok:
  assumes "wb_inv s" and "set pgs \<subseteq> dom (bin_pages s)" and "all_ok w"
    and "length (wb_page_pool (bn_write_buf s)) + length pgs < 2 ^ 31"
  shows "\<exists>pool cap w'. recycle_pages False (bn_write_buf s) pgs w =
      Some ((bn_write_buf s)\<lparr>wb_page_pool := pool, wb_pool_capacity := cap\<rparr>, w') \<and>
    length pool \<le> unat cap \<and> all_ok w' \<and> w_alloc w' = w_alloc w \<and> w_portable w' = w_portable w \<and>
    length pool = length (wb_page_pool (bn_write_buf s)) + length pgs"
  using assms
proof (induction pgs arbitrary: s w)
  case Nil
  then show ?case
    using wb_invD(4) [OF Nil.prems(1)]
    by (intro exI [of _ "wb_page_pool (bn_write_buf s)"] exI [of _ "wb_pool_capacity (bn_write_buf s)"] exI [of _ w]) simp
next
  case (Cons p pgs)
  let ?wb = "bn_write_buf s"
  have "bin_pages s p \<noteq> None"
    using Cons.prems(2) by auto
  then obtain idx a where i: "pagemap_find (wb_slots ?wb) (wb_capacity ?wb) p = Some idx"
      "ps_page_id (wb_slots ?wb ! unat idx) = p" "ps_data (wb_slots ?wb ! unat idx) = Some (a, page_of s p)"
    by (rule find_page [OF Cons.prems(1)])
  obtain cap where c: "write_buf_recycle_page True ?wb a =
      Some (?wb\<lparr>wb_page_pool := wb_page_pool ?wb @ [a], wb_pool_capacity := cap\<rparr>)" "length (wb_page_pool ?wb) < unat cap"
    using recycle_page_ok [OF wb_invD(4) [OF Cons.prems(1)]] Cons.prems(4) by auto
  let ?s = "s\<lparr>bn_write_buf := ?wb\<lparr>wb_page_pool := wb_page_pool ?wb @ [a], wb_pool_capacity := cap\<rparr>\<rparr>"
  let ?w = "if length (wb_page_pool ?wb) \<ge> unat (wb_pool_capacity ?wb) then snd (ask w) else w"
  have "wb_inv ?s"
    using Cons.prems(1) c(2) by (simp add: wb_inv_def Let_def)
  moreover have "recycle_pages False ?wb (p # pgs) w = recycle_pages False (bn_write_buf ?s) pgs ?w"
    using i c(1) Cons.prems(3) by (simp add: split_beta)
  ultimately show ?case
    using Cons.IH [of ?s ?w] Cons.prems(2-4) by auto
qed

subsection \<open>The flush\<close>

lemma dirty_pages_set:
  assumes "pm_used (wb_slots wb) \<le> GRAVELDB_MAX_FLUSH_BATCH"
  shows "set (dirty_pages_of wb) = dom (pm_map (wb_slots wb))" and "length (dirty_pages_of wb) = pm_used (wb_slots wb)"
  using assms by (auto simp: dirty_pages_of_def n_occ_def pm_map_def dom_oa_map oa_keys_def)

text \<open>A page that is buffered or lies in the file as a whole; no operation makes it another.\<close>

definition covered :: "DimBin \<Rightarrow> u32 \<Rightarrow> bool" where
  "covered s p \<longleftrightarrow> bin_pages s p \<noteq> None \<or> Suc (unat p) * unat (bn_page_size s) \<le> length (bn_file s)"

definition covers :: "DimBin \<Rightarrow> DimBin \<Rightarrow> bool" where
  "covers s s' \<longleftrightarrow> (\<forall>p. covered s p \<longrightarrow> covered s' p)"

lemma covers_refl: "covers s s"
  by (simp add: covers_def)

lemma covers_trans: "covers s s' \<Longrightarrow> covers s' s'' \<Longrightarrow> covers s s''"
  by (simp add: covers_def)

lemma covers_more:
  assumes "bn_page_size s' = bn_page_size s" and "dom (bin_pages s) \<subseteq> dom (bin_pages s')" and "length (bn_file s) \<le> length (bn_file s')"
  shows "covers s s'"
  using assms by (auto simp: covers_def covered_def)

lemma length_page_writes:
  assumes "wb_inv s" and "set pgs \<subseteq> dom (bin_pages s)"
  shows "length f \<le> length (foldl (page_write s) f pgs)"
    and "p \<in> set pgs \<Longrightarrow> Suc (unat p) * unat (bn_page_size s) \<le> length (foldl (page_write s) f pgs)"
proof -
  have len: "length (page_write s f q) = max (length f) (Suc (unat q) * unat (bn_page_size s))" if "q \<in> dom (bin_pages s)" for f q
    using page_of_length [OF assms(1), of q] wb_invD(5) [OF assms(1)] that by (auto simp: page_write_def length_file_write)
  have "length f \<le> length (foldl (page_write s) f pgs) \<and>
      (\<forall>p \<in> set pgs. Suc (unat p) * unat (bn_page_size s) \<le> length (foldl (page_write s) f pgs))"
    using assms(2) by (induction pgs rule: rev_induct) (auto simp: len le_max_iff_disj)
  then show "length f \<le> length (foldl (page_write s) f pgs)"
    and "p \<in> set pgs \<Longrightarrow> Suc (unat p) * unat (bn_page_size s) \<le> length (foldl (page_write s) f pgs)"
    by simp_all
qed

text \<open>
  A flush without failures, of at most \<open>GRAVELDB_MAX_FLUSH_BATCH\<close> pages: the buffer is empty afterwards,
  the file holds the view of the bin, and the view is the same as before.
\<close>

definition flushed :: "DimBin \<Rightarrow> DimBin \<Rightarrow> bool" where
  "flushed s s' \<longleftrightarrow>
     wb_inv s' \<and> bin_pages s' = Map.empty \<and> wb_count (bn_write_buf s') = 0 \<and>
     fbyte (bn_file s') = data_view s \<and> data_view s' = data_view s \<and> covers s s' \<and>
     wb_capacity (bn_write_buf s') = wb_capacity (bn_write_buf s) \<and>
     length (wb_page_pool (bn_write_buf s')) = length (wb_page_pool (bn_write_buf s)) + pm_used (wb_slots (bn_write_buf s))"

lemma data_view_empty: "bin_pages s = Map.empty \<Longrightarrow> data_view s = fbyte (bn_file s)"
  by (rule ext) (simp add: data_view_def Let_def)

lemma flushed_key_at:
  assumes "keys_ok s"
    and "fbyte kf = fbyte (foldl key_write (bn_key_file s) (map (\<lambda>(i, v). (unat i, v)) (kbt_iterate (bn_key_buf s))))"
  shows "key_at kf i = (case map_of (map (\<lambda>(i, v). (unat i, v)) (kbt_iterate (bn_key_buf s))) i of
    Some v \<Rightarrow> v | None \<Rightarrow> key_at (bn_key_file s) i)"
proof -
  let ?kvs = "map (\<lambda>(i, v). (unat i, v)) (kbt_iterate (bn_key_buf s))"
  have "sorted_wrt (<) (map fst (kbt_iterate (bn_key_buf s)))"
    using assms(1) kbt_collect_core(2) by (simp add: keys_ok_def)
  then have "distinct (map unat (map fst (kbt_iterate (bn_key_buf s))))"
    by (simp add: strict_sorted_iff distinct_map inj_on_def word_unat_eq_iff del: map_map)
  then have "distinct (map fst ?kvs)"
    by (simp add: comp_def case_prod_unfold)
  then have "map_of (rev ?kvs) = map_of ?kvs"
    by (subst map_of_inject_set) (simp_all add: rev_map [symmetric])
  then show ?thesis
    using key_at_writes [of "bn_key_file s" ?kvs i] key_at_cong [OF assms(2)] by simp
qed

lemma flushed_clear:
  assumes inv: "wb_inv s" and pgs: "set pgs = dom (bin_pages s)" and f: "f = foldl (page_write s) (bn_file s) pgs"
    and pl: "length pl \<le> unat cap" "length pl = length (wb_page_pool (bn_write_buf s)) + pm_used (wb_slots (bn_write_buf s))"
    and s': "bn_file s' = f" "bn_page_size s' = bn_page_size s"
      "bn_write_buf s' = (bn_write_buf s)\<lparr>wb_flush_bytes := n, wb_page_pool := pl, wb_pool_capacity := cap,
        wb_slots := replicate (unat (wb_capacity (bn_write_buf s))) page_slot_empty, wb_count := 0\<rparr>"
  shows "flushed s s'"
proof -
  let ?wb = "bn_write_buf s"
  have pm: "pow2_mask (unat (wb_capacity ?wb)) (wb_capacity ?wb - 1)"
    using wb_invD(1) [OF inv] by (auto simp: pm_inv_def oa_inv_def)
  have em: "bin_pages s' = Map.empty"
    using s'(3) pm_fresh(2) [OF pm] by simp
  have inv': "wb_inv s'"
    using pm_fresh [OF pm] inv pl(1) em s'(2,3) pow2_mask_pos [OF pm] by (simp add: wb_inv_def Let_def)
  have "fbyte f off = data_view s off" for off
    using fbyte_page_writes [OF inv, of pgs "bn_file s" off] pgs f by (auto simp: data_view_def Let_def)
  then have "fbyte (bn_file s') = data_view s"
    using s'(1) by auto
  moreover have "covers s s'"
    using length_page_writes [OF inv, where pgs = pgs and f = "bn_file s"] pgs f s'(1,2) by (fastforce simp: covers_def covered_def)
  ultimately show ?thesis
    using inv' em data_view_empty [OF em] s'(3) pl(2) by (simp add: flushed_def)
qed

lemma flush_sync_ok:
  assumes "wrote s pgs fs0 fs" and "uc_errors (fs_ctx fs0) = 0"
  shows "fs_rc (flush_sync u sync fs) = fs_rc fs" and "fs_file (flush_sync u sync fs) = fs_file fs"
    and "all_ok (fs_world (flush_sync u sync fs))"
    and "w_alloc (fs_world (flush_sync u sync fs)) = w_alloc (fs_world fs)"
    and "w_portable (fs_world (flush_sync u sync fs)) = w_portable (fs_world fs)"
  using assms
  by (auto simp: flush_sync_def wrote_def uring_io_wait_def uring_io_submit_fsyncs_def all_ok_def ask_def Let_def)

lemma flush_pages_ok:
  assumes ok: "all_ok w" and inv: "wb_inv s"
    and few: "pm_used (wb_slots (bn_write_buf s)) \<le> GRAVELDB_MAX_FLUSH_BATCH"
    and pool: "length (wb_page_pool (bn_write_buf s)) + pm_used (wb_slots (bn_write_buf s)) < 2 ^ 31"
  obtains f wb w' where "flush_pages s sync w = Some (GRAVELDB_OK, s\<lparr>bn_file := f, bn_write_buf := wb\<rparr>, w')"
    and "flushed s (s\<lparr>bn_file := f, bn_write_buf := wb\<rparr>)" and "wb_max_pages wb = wb_max_pages (bn_write_buf s)"
    and "all_ok w'" and "w_alloc w' = w_alloc w" and "w_portable w' = w_portable w"
proof -
  let ?wb = "bn_write_buf s"
  note wbi = wb_invD [OF inv]
  show thesis
  proof (cases "wb_count ?wb = 0")
    case True
    then have "dom (bin_pages s) = {}"
      using wbi(3) unfolding bin_pages_dom by (simp add: n_occ_def)
    then have em: "bin_pages s = Map.empty"
      by simp
    then have "flushed s s"
      using True inv wbi(3) data_view_empty [OF em] by (simp add: flushed_def covers_refl)
    then show thesis
      using that [of ?wb "bn_file s" w] True ok by (simp add: flush_pages_def)
  next
    case False
    define pgs where "pgs = dirty_pages_of ?wb"
    have pgs: "set pgs = dom (bin_pages s)" "length pgs = pm_used (wb_slots ?wb)"
      using dirty_pages_set [OF few] by (simp_all add: pgs_def)
    have ne: "pgs \<noteq> []"
      using False pgs(2) wbi(3) by (auto simp: unat_eq_zero)
    obtain r ctx where u: "uring_io_init w = (r, ctx)"
      by fastforce
    let ?fs = "\<lparr>fs_rc = GRAVELDB_OK, fs_file = bn_file s, fs_ctx = ctx, fs_world = w\<rparr>"
    have rdy: "ready (r = 0) ?fs" and er: "uc_errors (fs_ctx ?fs) = 0"
      using u ok by (auto simp: ready_def uring_io_init_def Let_def split: if_splits)
    obtain n fs where f: "flush_runs (r = 0) s pgs ?fs = Some (s\<lparr>bn_write_buf := ?wb\<lparr>wb_flush_bytes := n\<rparr>\<rparr>, fs)"
        "wrote s pgs ?fs fs"
      using flush_runs_wrote [OF inv _ rdy, of pgs] pgs(1) by blast
    define fs2 where "fs2 = flush_sync (r = 0) sync fs"
    note fs2 = flush_sync_ok [OF f(2) er, of "r = 0" sync, folded fs2_def]
    let ?s2 = "s\<lparr>bn_write_buf := ?wb\<lparr>wb_flush_bytes := n\<rparr>\<rparr>"
    have inv2: "wb_inv ?s2"
      using inv by (simp add: wb_inv_def Let_def)
    obtain pl cap w2 where rc: "recycle_pages False (bn_write_buf ?s2) pgs (fs_world fs2) =
        Some ((bn_write_buf ?s2)\<lparr>wb_page_pool := pl, wb_pool_capacity := cap\<rparr>, w2)" "length pl \<le> unat cap"
        "all_ok w2" "w_alloc w2 = w_alloc (fs_world fs2)" "w_portable w2 = w_portable (fs_world fs2)"
        "length pl = length (wb_page_pool (bn_write_buf ?s2)) + length pgs"
      using recycle_pages_ok [OF inv2 _ fs2(3), of pgs] pgs pool by auto
    let ?wb' = "?wb\<lparr>wb_flush_bytes := n, wb_page_pool := pl, wb_pool_capacity := cap,
        wb_slots := replicate (unat (wb_capacity ?wb)) page_slot_empty, wb_count := 0\<rparr>"
    have "finish_flush (bn_write_buf ?s2) pgs (fs_world fs2) = Some (?wb', w2)"
      using rc(1) pgs(2) wbi(3) by (simp add: finish_flush_def Let_def)
    then have "flush_pages s sync w = Some (GRAVELDB_OK, s\<lparr>bn_file := fs_file fs2, bn_write_buf := ?wb'\<rparr>, w2)"
      using False ne u f fs2(1) by (simp add: flush_pages_def pgs_def [symmetric] fs2_def [symmetric] wrote_def Let_def)
    moreover have "flushed s (s\<lparr>bn_file := fs_file fs2, bn_write_buf := ?wb'\<rparr>)"
      using flushed_clear [OF inv pgs(1) _ rc(2), of "fs_file fs2"] pgs(2) rc(6) fs2(2) f(2) by (simp add: wrote_def)
    ultimately show thesis
      using that [of ?wb' "fs_file fs2" w2] rc(3-5) fs2(4,5) f(2) by (simp add: wrote_def)
  qed
qed

text \<open>The whole flush: first the keys, then the pages.\<close>

lemma dimbin_flush_ok:
  assumes ok: "all_ok w" and inv: "wb_inv s" and keys: "keys_ok s"
    and few: "pm_used (wb_slots (bn_write_buf s)) \<le> GRAVELDB_MAX_FLUSH_BATCH"
    and pool: "length (wb_page_pool (bn_write_buf s)) + pm_used (wb_slots (bn_write_buf s)) < 2 ^ 31"
  shows "\<exists>kf t f wb w'. dimbin_flush s sync w = Some (GRAVELDB_OK,
       s\<lparr>bn_key_file := kf, bn_key_buf := t, bn_flush_needed := False, bn_file := f, bn_write_buf := wb\<rparr>, w') \<and>
     flushed s (s\<lparr>bn_key_file := kf, bn_key_buf := t, bn_flush_needed := False, bn_file := f, bn_write_buf := wb\<rparr>) \<and>
     wb_max_pages wb = wb_max_pages (bn_write_buf s) \<and>
     (\<forall>i. key_at kf i = (case map_of (map (\<lambda>(i, v). (unat i, v)) (kbt_iterate (bn_key_buf s))) i of
        Some v \<Rightarrow> v | None \<Rightarrow> key_at (bn_key_file s) i)) \<and>
     kbt_inv t \<and> kbt_iterate t = [] \<and> kb_arena_cap t = kb_arena_cap (bn_key_buf s) \<and>
     all_ok w' \<and> w_alloc w' = w_alloc w \<and> w_portable w' = w_portable w \<and> (kb_ok (bn_key_buf s) \<longrightarrow> kb_ok t)"
proof -
  obtain kf t w1 where k: "dimbin_flush_keys s w = Some (GRAVELDB_OK, s\<lparr>bn_key_file := kf, bn_key_buf := t\<rparr>, w1)"
      "fbyte kf = fbyte (foldl key_write (bn_key_file s) (map (\<lambda>(i, v). (unat i, v)) (kbt_iterate (bn_key_buf s))))"
      "kbt_inv t" "kbt_iterate t = []" "kb_arena_cap t = kb_arena_cap (bn_key_buf s)"
      "all_ok w1" "w_alloc w1 = w_alloc w" "w_portable w1 = w_portable w" "kb_ok (bn_key_buf s) \<longrightarrow> kb_ok t"
    using flush_keys_done [OF ok keys] by blast
  let ?s1 = "s\<lparr>bn_key_file := kf, bn_key_buf := t, bn_flush_needed := False\<rparr>"
  have inv1: "wb_inv ?s1" and few1: "pm_used (wb_slots (bn_write_buf ?s1)) \<le> GRAVELDB_MAX_FLUSH_BATCH"
    and pool1: "length (wb_page_pool (bn_write_buf ?s1)) + pm_used (wb_slots (bn_write_buf ?s1)) < 2 ^ 31"
    using inv few pool by (simp_all add: wb_inv_def)
  obtain f wb w2 where p: "flush_pages ?s1 sync w1 = Some (GRAVELDB_OK, ?s1\<lparr>bn_file := f, bn_write_buf := wb\<rparr>, w2)"
      "flushed ?s1 (?s1\<lparr>bn_file := f, bn_write_buf := wb\<rparr>)" "wb_max_pages wb = wb_max_pages (bn_write_buf ?s1)"
      "all_ok w2" "w_alloc w2 = w_alloc w1" "w_portable w2 = w_portable w1"
    by (rule flush_pages_ok [OF k(6) inv1 few1 pool1])
  have "data_view ?s1 = data_view s"
    by (rule data_view_cong) simp_all
  moreover have "covered ?s1 = covered s"
    by (simp add: covered_def fun_eq_iff)
  ultimately have "flushed s (?s1\<lparr>bn_file := f, bn_write_buf := wb\<rparr>)"
    using p(2) by (simp add: flushed_def covers_def)
  then show ?thesis
    using k p flushed_key_at [OF keys k(2)]
    by (intro exI [of _ kf] exI [of _ t] exI [of _ f] exI [of _ wb] exI [of _ w2]) (simp add: dimbin_flush_def)
qed

end
