(* ===== verification/Bin_Init.thy ===== *)
theory Bin_Init
  imports Bin_Flush
begin

text \<open>
  Opening a bin: every way through \<^verbatim>\<open>dimbin_init\<close> that reports success leaves a well-formed, empty
  write buffer over the file that was found on disk.
\<close>

definition geo_ok :: "DimBin \<Rightarrow> bool" where
  "geo_ok s \<longleftrightarrow> 0 < unat (bn_entries_per_page s) \<and> 0 < unat (bn_entry_size s) \<and>
     unat (bn_entries_per_page s) * unat (bn_entry_size s) \<le> unat (bn_page_size s)"

subsection \<open>The successful path\<close>

lemma bin_sizes_frame [simp]:
  "bn_page_size (bin_sizes k s) = bn_page_size s" "bn_entry_size (bin_sizes k s) = bn_entry_size s"
  "bn_entries_per_page (bin_sizes k s) = bn_entries_per_page s" "bn_file (bin_sizes k s) = bn_file s"
  "bn_key_file (bin_sizes k s) = bn_key_file s" "bn_write_buf (bin_sizes k s) = bn_write_buf s"
  "bn_overlay (bin_sizes k s) = bn_overlay s" "bn_in_checkpoint (bin_sizes k s) = bn_in_checkpoint s"
  by (simp_all add: bin_sizes_def Let_def)

lemma dimbin_init_OK_D:
  assumes "dimbin_init dim path buffer_size al ps data keys w = Some (GRAVELDB_OK, s, w')"
  shows "\<exists>g k fd kfd cap aok. bin_geometry dim al ps = Some g \<and> bn_page_size g \<noteq> 0 \<and>
    wb_cap_loop 28 (max_write_pages buffer_size (bn_page_size g)) 64 = Some cap \<and>
    s = bin_buffers (max_write_pages buffer_size (bn_page_size g)) cap aok
      (bin_sizes k (g\<lparr>bn_file_path := path, bn_key_file_path := take (length path - 4) path @ ''.keys'',
         bn_fd := fd, bn_key_fd := kfd, bn_file := data, bn_key_file := keys\<rparr>))"
proof -
  obtain g where g: "bin_geometry dim al ps = Some g"
    using assms by (cases "bin_geometry dim al ps") (auto simp: dimbin_init_def)
  show ?thesis
    using assms unfolding dimbin_init_def g
    by (simp add: split_beta Let_def split: if_split_asm option.split_asm bind_splits) blast
qed

lemma wb_cap_zero: "0 < m * 2 \<Longrightarrow> wb_cap_loop f m 0 = None"
  by (induction f) simp_all

lemma wb_cap_loop_pow2:
  assumes "wb_cap_loop f m (2 ^ k) = Some cap" and "k < 32"
  shows "\<exists>j < 32. k \<le> j \<and> cap = 2 ^ j"
  using assms
proof (induction f arbitrary: k)
  case (Suc f)
  show ?case
  proof (cases "(ucast (2 ^ k :: u32) :: u64) < m * 2")
    case True
    then have c: "wb_cap_loop f m (2 ^ Suc k) = Some cap"
      using Suc.prems(1) by (simp add: mult.commute)
    show ?thesis
    proof (cases "Suc k < 32")
      case less: True
      then show ?thesis
        using Suc.IH [OF c] by auto
    next
      case False
      then have "k = 31"
        using Suc.prems(2) by simp
      moreover have "0 < m * 2"
        using True by (metis word_gt_0 word_not_simps(1))
      moreover have "wb_cap_loop f m (2 ^ Suc 31) = wb_cap_loop f m 0"
        by (rule arg_cong [where f = "wb_cap_loop f m"]) simp
      ultimately show ?thesis
        using c wb_cap_zero [of m f] by (metis option.distinct(1))
    qed
  next
    case False
    then show ?thesis
      using Suc.prems by auto
  qed
qed simp

lemma bin_geometry_ok:
  assumes "bin_geometry dim al ps = Some g" and "0 < dim" and "dim < 2 ^ 28" and "al < 2 ^ 28" and "bn_page_size g \<noteq> 0"
  shows "geo_ok g"
proof -
  define es where "es = align_up (emb_bytes dim) (ucast al)"
  have "unat (word_of_int dim :: u64) = nat dim"
    using assms(2,3) by (simp add: unsigned_of_int take_bit_int_eq_self)
  then have d: "unat (emb_bytes dim) = nat dim * 4"
    using assms(2,3) by (simp add: emb_bytes_def unat_word_ariths nat_less_iff)
  have al: "unat (ucast al :: u64) < 2 ^ 28"
    using assms(4) by (simp add: word_less_nat_alt unsigned_ucast_eq take_bit_nat_def)
  have "unat (emb_bytes dim + ucast al - 1) \<le> nat dim * 4 + unat (ucast al :: u64)"
  proof -
    have "unat (emb_bytes dim + ucast al) = nat dim * 4 + unat (ucast al :: u64)"
      using d al assms(3) by (simp add: unat_word_ariths)
    moreover have "unat (x - 1) \<le> unat x" if "0 < unat x" for x :: u64
      using that by (simp add: unat_sub_if_size)
    ultimately show ?thesis
      using assms(2) by (metis add_is_0 gr0I mult_is_0 nat_eq_iff2 not_less zero_neq_numeral zero_less_nat_eq)
  qed
  then have es: "unat es < 2 ^ 32"
    using d al assms(3) word_and_le2 [of "emb_bytes dim + ucast al - 1" "NOT (ucast al - 1)"]
    by (auto simp: es_def align_up_def word_le_nat_alt)
  let ?p = "if ps \<noteq> 0 then ps else GRAVELDB_PAGE_SIZE_DEFAULT"
  have pos: "0 < unat es" and epp: "unat (ucast (ucast ?p div es :: u64) :: u32) = unat ?p div unat es"
  proof -
    show "0 < unat es"
      using assms(1) by (auto simp: bin_geometry_def es_def Let_def unat_gt_0 split: if_splits)
    have "unat ?p div unat es < 2 ^ 32"
      using unsigned_less [where 'a = nat, of ?p] by (intro le_less_trans [OF div_le_dividend]) simp
    then show "unat (ucast (ucast ?p div es :: u64) :: u32) = unat ?p div unat es"
      using unsigned_less [where 'a = nat, of ?p] by (simp add: unsigned_ucast_eq take_bit_nat_def unat_div)
  qed
  have geo: "g = (let epp = (ucast (ucast ?p div es :: u64) :: u32) in if epp = 0
      then bin_zero\<lparr>bn_dim := dim, bn_entry_size := es, bn_entries_per_page := 1, bn_page_size := ucast es\<rparr>
      else bin_zero\<lparr>bn_dim := dim, bn_entry_size := es, bn_entries_per_page := epp, bn_page_size := ?p\<rparr>)"
    using assms(1) unfolding bin_geometry_def es_def [symmetric] Let_def by (simp split: if_split_asm)
  show ?thesis
  proof (cases "(ucast (ucast ?p div es :: u64) :: u32) = 0")
    case True
    then show ?thesis
      using es pos unfolding geo geo_ok_def Let_def by (simp add: unsigned_ucast_eq take_bit_nat_def)
  next
    case False
    then have "0 < unat (ucast (ucast ?p div es :: u64) :: u32)"
      by (simp only: unat_gt_0 not_False_eq_True)
    moreover have "unat ?p div unat es * unat es \<le> unat ?p"
      by (rule div_times_less_eq_dividend)
    ultimately show ?thesis
      using False pos unfolding geo geo_ok_def Let_def epp by (simp add: epp)
  qed
qed

lemma bin_sizes_bounds:
  assumes "geo_ok s"
  shows "unat (bn_bump_ptr (bin_sizes k s)) * 8 \<le> length (bn_key_file s)"
    and "unat (bn_bump_ptr (bin_sizes k s)) * unat (bn_entry_size s) \<le> length (bn_file s)"
proof -
  have len: "unat (of_nat n :: u64) \<le> n" for n
    by (simp add: unat_of_nat)
  have div: "unat (x div y) * unat y \<le> unat x" for x y :: u64
    by (simp add: unat_div)
  let ?ks = "if k then of_nat (length (bn_key_file s)) else 0 :: u64"
  let ?ds = "of_nat (length (bn_file s)) :: u64"
  let ?b = "bn_bump_ptr (bin_sizes k s)"
  have "?b \<le> ?ks div 8" "?b \<le> ?ds div bn_entry_size s"
    by (auto simp: bin_sizes_def Let_def word_gt_0)
  then have b: "unat ?b * 8 \<le> unat (?ks div 8) * unat (8 :: u64)"
      "unat ?b * unat (bn_entry_size s) \<le> unat (?ds div bn_entry_size s) * unat (bn_entry_size s)"
    by (simp_all only: word_le_nat_alt mult_le_mono1) simp
  show "unat ?b * 8 \<le> length (bn_key_file s)"
    using order_trans [OF b(1) div] len [of "length (bn_key_file s)"] by (cases k) auto
  show "unat ?b * unat (bn_entry_size s) \<le> length (bn_file s)"
    using order_trans [OF b(2) div] len [of "length (bn_file s)"] by auto
qed

lemma pow2_mask_power: "j < 32 \<Longrightarrow> pow2_mask (unat (2 ^ j :: u32)) (2 ^ j - 1 :: u32)"
  using unat_of_nat [of "2 ^ j", where 'a = 32] power_strict_increasing [of j 32 "2 :: nat"]
  by (intro pow2_maskI [of j]) simp_all

text \<open>
  C33. A bin that was opened is well formed, whatever its two files hold and whichever of the optional
  resources (the size of the key file, the arena of the key buffer) could not be had.
\<close>

theorem dimbin_init_type:
  assumes "dimbin_init dim path buffer_size al ps data keys w = Some (GRAVELDB_OK, s, w')"
    and "0 < dim" and "dim < 2 ^ 28" and "al < 2 ^ 28"
  shows "wb_inv s \<and> keys_ok s \<and> geo_ok s \<and> dt_wf (bn_dirty s) \<and> bin_pages s = Map.empty \<and> data_view s = fbyte data \<and>
    unat (bn_bump_ptr s) * 8 \<le> length keys \<and> unat (bn_bump_ptr s) * unat (bn_entry_size s) \<le> length data"
proof -
  obtain g k fd kfd cap aok where g: "bin_geometry dim al ps = Some g" "bn_page_size g \<noteq> 0"
      "wb_cap_loop 28 (max_write_pages buffer_size (bn_page_size g)) 64 = Some cap"
    and s: "s = bin_buffers (max_write_pages buffer_size (bn_page_size g)) cap aok
      (bin_sizes k (g\<lparr>bn_file_path := path, bn_key_file_path := take (length path - 4) path @ ''.keys'',
         bn_fd := fd, bn_key_fd := kfd, bn_file := data, bn_key_file := keys\<rparr>))"
    using dimbin_init_OK_D [OF assms(1)] by blast
  let ?s0 = "g\<lparr>bn_file_path := path, bn_key_file_path := take (length path - 4) path @ ''.keys'',
         bn_fd := fd, bn_key_fd := kfd, bn_file := data, bn_key_file := keys\<rparr>"
  have geo: "geo_ok g" "geo_ok ?s0"
    using bin_geometry_ok [OF g(1) assms(2-4) g(2)] by (simp_all add: geo_ok_def)
  obtain j where j: "j < 32" "cap = 2 ^ j"
    using wb_cap_loop_pow2 [of 28 _ 6 cap] g(3) by auto
  have pm: "pow2_mask (unat cap) (cap - 1)"
    unfolding j(2) by (rule pow2_mask_power [OF j(1)])
  have em: "bin_pages s = Map.empty"
    using pm_fresh(2) [OF pm] by (simp add: s bin_buffers_def Let_def)
  moreover have "wb_inv s"
    using pm_fresh [OF pm] pow2_mask_pos [OF pm] g(2) em by (simp add: wb_inv_def s bin_buffers_def Let_def wb_zero_def word_gt_0)
  moreover have "keys_ok s"
    by (simp add: keys_ok_def s bin_buffers_def Let_def kbt_init_inv kbt_init_iterate)
  moreover have "geo_ok s" "dt_wf (bn_dirty s)"
    using geo(1) by (simp_all add: geo_ok_def s bin_buffers_def Let_def dt_wf_init)
  moreover have "data_view s = fbyte data"
    using em by (simp add: data_view_def fun_eq_iff s bin_buffers_def Let_def)
  ultimately show ?thesis
    using bin_sizes_bounds [OF geo(2), of k] by (simp add: s bin_buffers_def Let_def)
qed

definition demo_world :: "nat set \<Rightarrow> World" where
  "demo_world failing = \<lparr>w_alloc = snd slab_allocator_init, w_ok = (\<lambda>i. i \<notin> failing), w_addr = (\<lambda>i. 0), w_tick = 0, w_portable = True,
     w_files = []\<rparr>"

lemma dimbin_init_returns:
  assumes "all_ok w" and "bin_geometry dim al ps = Some g" and "bn_page_size g \<noteq> 0" and "4 \<le> length path"
    and "wb_cap_loop 28 (max_write_pages buffer_size (bn_page_size g)) 64 = Some cap"
  shows "\<exists>s w'. dimbin_init dim path buffer_size al ps data keys w = Some (GRAVELDB_OK, s, w')"
proof -
  have "\<exists>a. fst (ask_mem v) = Some a" if "all_ok v" for v
    using that by (simp add: ask_mem_def all_ok_def)
  then obtain fd kfd where "fst (ask_mem (snd (ask (snd (ask w))))) = Some fd"
      "fst (ask_mem (snd (ask_mem (snd (ask (snd (ask w))))))) = Some kfd"
    using assms(1) by (metis ask_ok(2) ask_mem_ok(1))
  then show ?thesis
    using assms by (simp add: dimbin_init_def Let_def split_beta not_less)
qed

lemma wb_cap_loop_now: "\<not> ucast c < m * 2 \<Longrightarrow> wb_cap_loop 28 m c = Some c"
  using wb_cap_loop.simps(2) [of 27 m c] by simp

theorem dimbin_init_type_witness:
  "\<exists>s w'. dimbin_init 2 ''d/dim_0002.bin'' 1024 8 64 (replicate 24 1) (replicate 16 2) (demo_world {}) =
      Some (GRAVELDB_OK, s, w') \<and> wb_inv s \<and> data_view s = fbyte (replicate 24 1) \<and> unat (bn_bump_ptr s) * 8 \<le> 16"
proof -
  have "bin_geometry 2 8 64 = Some (bin_zero\<lparr>bn_dim := 2, bn_entry_size := 8, bn_entries_per_page := 8, bn_page_size := 64\<rparr>)"
    by (simp add: bin_geometry_def emb_bytes_def align_up_def Let_def)
  moreover have "wb_cap_loop 28 (max_write_pages 1024 64) 64 = Some 64"
    by (rule wb_cap_loop_now) (simp add: max_write_pages_def)
  moreover have "all_ok (demo_world {})"
    by (simp add: all_ok_def demo_world_def)
  ultimately obtain s w' where i: "dimbin_init 2 ''d/dim_0002.bin'' 1024 8 64 (replicate 24 1) (replicate 16 2) (demo_world {}) =
      Some (GRAVELDB_OK, s, w')"
    using dimbin_init_returns [of "demo_world {}" 2 8 64 _ "''d/dim_0002.bin''" 1024 64] by fastforce
  from dimbin_init_type [OF this] show ?thesis
    using i by simp
qed

end
