(* ===== verification/Bin_Put.thy ===== *)
theory Bin_Put
  imports Bin_Init Slab_Serve
begin

text \<open>
  Batched writes of embeddings. A write replaces the bytes of its entry in the view of the bin and marks
  its page dirty; flushes and growth of the page map that happen on the way do not show. A page that is
  not buffered and that the program takes for untouched is not loaded but cleared.
\<close>

subsection \<open>States and bounds\<close>

text \<open>The fields that a write does not change.\<close>

definition same_shape :: "DimBin \<Rightarrow> DimBin \<Rightarrow> bool" where
  "same_shape s s' \<longleftrightarrow>
     bn_dim s' = bn_dim s \<and> bn_page_size s' = bn_page_size s \<and> bn_entry_size s' = bn_entry_size s \<and>
     bn_entries_per_page s' = bn_entries_per_page s \<and> bn_bump_ptr s' = bn_bump_ptr s \<and>
     bn_data_file_size s' = bn_data_file_size s \<and> bn_key_file_size s' = bn_key_file_size s \<and>
     bn_overlay s' = bn_overlay s \<and> bn_in_checkpoint s' = bn_in_checkpoint s \<and> bn_free_list s' = bn_free_list s"

text \<open>
  The bounds under which no counter overflows while \<open>n\<close> more pages are buffered. The default
  configuration (256 MiB of buffer in pages of 4096 bytes) gives 65536 pages.
\<close>

definition bin_ok :: "DimBin \<Rightarrow> nat \<Rightarrow> bool" where
  "bin_ok s n \<longleftrightarrow>
     wb_inv s \<and> keys_ok s \<and>
     (let wb = bn_write_buf s in
      1 \<le> unat (wb_max_pages wb) \<and> unat (wb_max_pages wb) \<le> GRAVELDB_MAX_FLUSH_BATCH \<and>
      pm_used (wb_slots wb) \<le> unat (wb_max_pages wb) \<and>
      64 \<le> unat (wb_capacity wb) \<and> unat (wb_capacity wb) \<le> 2 ^ 28 \<and>
      length (wb_page_pool wb) + pm_used (wb_slots wb) + n < 2 ^ 31) \<and>
     32 \<le> unat (bn_page_size s) \<and> unat (bn_page_size s) \<le> 65536 \<and>
     dt_wf (bn_dirty s) \<and> length (tr_segments (dt_active (bn_dirty s))) + n \<le> 32768"

definition world_ok :: "World \<Rightarrow> bool" where
  "world_ok w \<longleftrightarrow> all_ok w \<and> sa_inv (w_alloc w)"

text \<open>A page whose contents survive being buffered.\<close>

definition page_kept :: "DimBin \<Rightarrow> u32 \<Rightarrow> bool" where
  "page_kept s p \<longleftrightarrow>
     bin_pages s p \<noteq> None \<or>
     p < ucast (bn_bump_ptr s div ucast (bn_entries_per_page s)) \<and>
     unat p * unat (bn_page_size s) < unat (bn_data_file_size s)"

definition ensured_view :: "DimBin \<Rightarrow> u32 \<Rightarrow> nat \<Rightarrow> u8" where
  "ensured_view s p off =
     (if off div unat (bn_page_size s) = unat p \<and> \<not> page_kept s p then 0 else data_view s off)"

text \<open>What stays true of the bin: the pages that are there, and that keys can be buffered.\<close>

definition retains :: "DimBin \<Rightarrow> DimBin \<Rightarrow> bool" where
  "retains s s' \<longleftrightarrow> covers s s' \<and> (kb_ok (bn_key_buf s) \<longrightarrow> kb_ok (bn_key_buf s'))"

lemma retains_refl: "retains s s"
  by (simp add: retains_def covers_refl)

lemma retains_trans: "retains s s' \<Longrightarrow> retains s' s'' \<Longrightarrow> retains s s''"
  by (auto simp: retains_def intro: covers_trans)

lemma retains_more:
  assumes "bn_page_size s' = bn_page_size s" and "dom (bin_pages s) \<subseteq> dom (bin_pages s')" and "length (bn_file s) \<le> length (bn_file s')"
    and "bn_key_buf s' = bn_key_buf s"
  shows "retains s s'"
  using covers_more [OF assms(1-3)] assms(4) by (simp add: retains_def covers_def)

text \<open>
  Whether the write buffer has room for the pages \<open>P\<close>, so that nothing is evicted while they are buffered;
  and what is then in it.
\<close>

definition buffer_room :: "DimBin \<Rightarrow> u32 set \<Rightarrow> bool" where
  "buffer_room s P \<longleftrightarrow>
     pm_used (wb_slots (bn_write_buf s)) + card (P - dom (bin_pages s)) \<le> unat (wb_max_pages (bn_write_buf s))"

definition fills :: "DimBin \<Rightarrow> u32 set \<Rightarrow> DimBin \<Rightarrow> bool" where
  "fills s P s' \<longleftrightarrow> wb_max_pages (bn_write_buf s') = wb_max_pages (bn_write_buf s) \<and>
     (buffer_room s P \<longrightarrow> dom (bin_pages s') = dom (bin_pages s) \<union> P \<and>
        pm_used (wb_slots (bn_write_buf s')) = pm_used (wb_slots (bn_write_buf s)) + card (P - dom (bin_pages s)))"

lemma fills_empty: "fills s {} s"
  by (simp add: fills_def)

lemma card_new_pages: "card ((P \<union> Q) - D) = card (P - D) + card (Q - (D \<union> P))" for P Q D :: "u32 set"
proof -
  have "(P \<union> Q) - D = (P - D) \<union> (Q - (D \<union> P))"
    by auto
  then show ?thesis
    by (simp only:) (rule card_Un_disjoint, auto)
qed

lemma buffer_room_mono: "buffer_room s (P \<union> Q) \<Longrightarrow> buffer_room s P"
  using card_new_pages [of P Q "dom (bin_pages s)"] by (simp add: buffer_room_def)

lemma fills_room: "fills s P s1 \<Longrightarrow> buffer_room s (P \<union> Q) \<Longrightarrow> buffer_room s1 Q"
  using card_new_pages [of P Q "dom (bin_pages s)"] buffer_room_mono [of s P Q] by (simp add: fills_def buffer_room_def)

lemma fills_trans:
  assumes "fills s P s1" and "fills s1 Q s2"
  shows "fills s (P \<union> Q) s2"
  using assms buffer_room_mono [of s P Q] fills_room [OF assms(1), of Q] card_new_pages [of P Q "dom (bin_pages s)"]
  unfolding fills_def by auto

lemma same_shape_refl: "same_shape s s"
  by (simp add: same_shape_def)

lemma same_shape_trans: "same_shape s s' \<Longrightarrow> same_shape s' s'' \<Longrightarrow> same_shape s s''"
  by (simp add: same_shape_def)

subsection \<open>Buffering a page\<close>

lemma acquire_ok:
  assumes "world_ok w" and "32 \<le> unat ps" and "unat ps \<le> 65536"
  obtains a pool w' where "write_buf_acquire_page wb ps w = (Some a, wb\<lparr>wb_page_pool := pool\<rparr>, w')"
    and "world_ok w'" and "length pool \<le> length (wb_page_pool wb)"
proof (cases "wb_page_pool wb = []")
  case False
  then show thesis
    using that [of "last (wb_page_pool wb)" "butlast (wb_page_pool wb)" w] assms(1) by (simp add: write_buf_acquire_page_def)
next
  case True
  obtain os w1 where o: "ask_os w = (os, w1)"
    by fastforce
  have w1: "all_ok w1" "w_alloc w1 = w_alloc w"
    using ask_os_ok [of w] o assms(1) by (simp_all add: world_ok_def)
  have "os_ok os"
    using o assms(1) by (auto simp: ask_os_def ask_mem_def os_ok_def world_ok_def all_ok_def Let_def)
  then have s: "fst (slab_alloc_aligned os (w_alloc w) (ucast ps) 4096) \<noteq> None"
      "sa_inv (snd (slab_alloc_aligned os (w_alloc w) (ucast ps) 4096))"
    using slab_alloc_page_serves [of "w_alloc w" os "ucast ps"] assms by (simp_all add: world_ok_def unsigned_ucast_eq take_bit_nat_def)
  then obtain a alloc where "slab_alloc_aligned os (w_alloc w) (ucast ps) 4096 = (Some a, alloc)" "sa_inv alloc"
    by (cases "slab_alloc_aligned os (w_alloc w) (ucast ps) 4096") auto
  then show thesis
    using that [of a "wb_page_pool wb" "w1\<lparr>w_alloc := alloc\<rparr>"] True o w1
    by (simp add: write_buf_acquire_page_def world_ok_def)
qed

lemma load_page_ok:
  assumes "all_ok w" and "bin_pages s p = None"
  obtains page w' where "load_page s p w = (page, w')" and "all_ok w'" and "w_alloc w' = w_alloc w"
    and "length page = unat (bn_page_size s)"
    and "\<And>i. i < unat (bn_page_size s) \<Longrightarrow> page ! i =
      (if page_kept s p then fbyte (bn_file s) (unat p * unat (bn_page_size s) + i) else 0)"
proof -
  let ?c = "p < ucast (bn_bump_ptr s div ucast (bn_entries_per_page s)) \<and>
     unat p * unat (bn_page_size s) < unat (bn_data_file_size s)"
  have k: "page_kept s p = ?c"
    using assms(2) by (simp add: page_kept_def)
  show thesis
  proof (cases ?c)
    case True
    then show thesis
      using that [of "read_page (bn_file s) (unat p * unat (bn_page_size s)) (unat (bn_page_size s))" "snd (ask w)"] assms(1) k
      by (simp add: load_page_def Let_def pread_page_ok nth_read_page)
  next
    case False
    then show thesis
      using that [of "replicate (unat (bn_page_size s)) 0" w] assms(1) k by (auto simp: load_page_def Let_def)
  qed
qed

text \<open>The view after a page was put into a slot.\<close>

lemma view_store:
  assumes inv: "wb_inv s" and find: "pagemap_find (wb_slots (bn_write_buf s)) (wb_capacity (bn_write_buf s)) p = Some idx"
    and p: "p \<noteq> PAGE_SLOT_EMPTY" and pg: "length pg = unat (bn_page_size s)"
    and s': "bn_file s' = bn_file s" "bn_page_size s' = bn_page_size s"
      "wb_slots (bn_write_buf s') = (wb_slots (bn_write_buf s))[unat idx := \<lparr>ps_page_id = p, ps_data = Some (a, pg)\<rparr>]"
  shows "data_view s' = (\<lambda>off. if off div unat (bn_page_size s) = unat p then pg ! (off mod unat (bn_page_size s)) else data_view s off)"
    and "bin_pages s' = (bin_pages s)(p \<mapsto> Some (a, pg))" and "page_of s' p = pg"
proof -
  show m: "bin_pages s' = (bin_pages s)(p \<mapsto> Some (a, pg))"
    using pm_store(2) [OF wb_invD(1) [OF inv] find p, of "\<lparr>ps_page_id = p, ps_data = Some (a, pg)\<rparr>"] s'(3) by simp
  then show po: "page_of s' p = pg"
    by (simp add: page_of_def)
  have "of_nat q = p \<longleftrightarrow> q = unat p" if "q < 2 ^ 32" for q
    using that by (auto simp: unat_of_nat)
  moreover have "page_of s' q = page_of s q" if "q \<noteq> p" for q
    using m that by (simp add: page_of_def)
  ultimately show "data_view s' = (\<lambda>off. if off div unat (bn_page_size s) = unat p then pg ! (off mod unat (bn_page_size s)) else data_view s off)"
    using m po s'(1,2) unsigned_less [where 'a = nat, of p] by (auto simp: fun_eq_iff data_view_def Let_def)
qed

text \<open>A page is found where it was stored.\<close>

lemma find_hit_store:
  assumes inv: "wb_inv s" and find: "pagemap_find (wb_slots (bn_write_buf s)) (wb_capacity (bn_write_buf s)) p = Some idx"
    and p: "p \<noteq> PAGE_SLOT_EMPTY" and sl: "ps_page_id sl = p"
  shows "pagemap_find ((wb_slots (bn_write_buf s))[unat idx := sl]) (wb_capacity (bn_write_buf s)) p = Some idx"
proof -
  let ?slots = "wb_slots (bn_write_buf s)" and ?cap = "wb_capacity (bn_write_buf s)"
  have inv': "oa_inv ps_occ ps_page_id page_hash (?cap - 1) (?slots[unat idx := sl])"
    using pm_store(1) [OF wb_invD(1) [OF inv] find p sl] by (simp add: pm_inv_def)
  have il: "unat idx < length ?slots"
    using pm_find [OF wb_invD(1,2) [OF inv], of p] find by auto
  show ?thesis
    using pm.find_hit [OF inv', of "unat idx" p] il p sl by (simp add: pagemap_find_probe)
qed

text \<open>What buffering a page achieves.\<close>

definition ensured :: "DimBin \<Rightarrow> u32 \<Rightarrow> nat \<Rightarrow> (u32 option \<times> DimBin \<times> World) option \<Rightarrow> bool" where
  "ensured s p n r \<longleftrightarrow>
     (\<exists>idx s' w' a. r = Some (Some idx, s', w') \<and> world_ok w' \<and> bin_ok s' n \<and> same_shape s s' \<and>
        bn_dirty s' = bn_dirty s \<and>
        pagemap_find (wb_slots (bn_write_buf s')) (wb_capacity (bn_write_buf s')) p = Some idx \<and>
        unat idx < length (wb_slots (bn_write_buf s')) \<and>
        wb_slots (bn_write_buf s') ! unat idx = \<lparr>ps_page_id = p, ps_data = Some (a, page_of s' p)\<rparr> \<and>
        bin_pages s' p \<noteq> None \<and> data_view s' = ensured_view s p \<and> retains s s' \<and> fills s {p} s')"

lemma insert_page_ok:
  assumes w: "world_ok w" and ok: "bin_ok s (Suc n)" and p: "p \<noteq> PAGE_SLOT_EMPTY" "bin_pages s p = None"
    and find: "pagemap_find (wb_slots (bn_write_buf s)) (wb_capacity (bn_write_buf s)) p = Some idx"
    and lim: "pm_used (wb_slots (bn_write_buf s)) < unat (wb_max_pages (bn_write_buf s))"
    and room: "Suc (pm_used (wb_slots (bn_write_buf s))) < length (wb_slots (bn_write_buf s))"
  shows "ensured s p n (Some (insert_page s p idx w))"
proof -
  let ?wb = "bn_write_buf s" and ?ps = "unat (bn_page_size s)"
  have inv: "wb_inv s"
    using ok by (simp add: bin_ok_def)
  have il: "unat idx < length (wb_slots ?wb)"
    using pm_find [OF wb_invD(1,2) [OF inv], of p] find by auto
  have ps: "32 \<le> ?ps" "?ps \<le> 65536"
    using ok by (simp_all add: bin_ok_def)
  obtain a pool w1 where acq: "write_buf_acquire_page ?wb (bn_page_size s) w = (Some a, ?wb\<lparr>wb_page_pool := pool\<rparr>, w1)"
      "world_ok w1" "length pool \<le> length (wb_page_pool ?wb)"
    by (rule acquire_ok [OF w ps])
  let ?s1 = "s\<lparr>bn_write_buf := ?wb\<lparr>wb_page_pool := pool\<rparr>\<rparr>"
  have "bin_pages ?s1 p = None" "all_ok w1"
    using p(2) acq(2) by (simp_all add: world_ok_def)
  then obtain page w2 where ld: "load_page ?s1 p w1 = (page, w2)" "all_ok w2" "w_alloc w2 = w_alloc w1"
      "length page = unat (bn_page_size ?s1)"
      "\<And>i. i < unat (bn_page_size ?s1) \<Longrightarrow> page ! i =
        (if page_kept ?s1 p then fbyte (bn_file ?s1) (unat p * unat (bn_page_size ?s1) + i) else 0)"
    using load_page_ok [of w1 ?s1 p] by metis
  have kept: "page_kept ?s1 p = page_kept s p"
    by (simp add: page_kept_def)
  let ?sl = "\<lparr>ps_page_id = p, ps_data = Some (a, page)\<rparr>"
  let ?wb' = "?wb\<lparr>wb_page_pool := pool, wb_slots := (wb_slots ?wb)[unat idx := ?sl], wb_count := wb_count ?wb + 1\<rparr>"
  let ?s' = "s\<lparr>bn_write_buf := ?wb'\<rparr>"
  have r: "insert_page s p idx w = (Some idx, ?s', w2)"
    using acq(1) ld(1) by (simp add: insert_page_def Let_def)
  have vs: "data_view ?s' = (\<lambda>off. if off div ?ps = unat p then page ! (off mod ?ps) else data_view s off)"
      "bin_pages ?s' = (bin_pages s)(p \<mapsto> Some (a, page))" "page_of ?s' p = page"
    using view_store [OF inv find p(1), of page ?s' a] ld(4) by simp_all
  note st = pm_store [OF wb_invD(1) [OF inv] find p(1), of ?sl]
  have used: "pm_used (wb_slots ?wb') = Suc (pm_used (wb_slots ?wb))"
    using st(3) p(2) by simp
  have cnt: "unat (wb_count ?wb + 1) = Suc (pm_used (wb_slots ?wb))"
    using wb_invD(2,3) [OF inv] room ok unfolding bin_ok_def
    by (simp add: unat_word_ariths Let_def wb_inv_def pm_inv_def)
  have inv': "wb_inv ?s'"
    using inv st(1) used cnt room acq(3) vs(2) ld(4) by (auto simp: wb_inv_def Let_def)
  have ok': "bin_ok ?s' n"
    using ok inv' used lim acq(3) by (simp add: bin_ok_def Let_def keys_ok_def)
  have view: "data_view ?s' = ensured_view s p"
  proof
    fix off
    show "data_view ?s' off = ensured_view s p off"
    proof (cases "off div ?ps = unat p")
      case True
      have "0 < ?ps"
        using wb_invD(5) [OF inv] .
      then have "page ! (off mod ?ps) = (if page_kept s p then fbyte (bn_file s) off else 0)"
        using ld(5) [of "off mod ?ps"] kept True [symmetric] by simp
      moreover have "data_view s off = fbyte (bn_file s) off"
        using True p(2) by (simp add: data_view_def Let_def)
      ultimately show ?thesis
        using True vs(1) by (simp add: ensured_view_def)
    qed (simp add: vs(1) ensured_view_def)
  qed
  have fnd: "pagemap_find (wb_slots ?wb') (wb_capacity ?wb') p = Some idx"
    using find_hit_store [OF inv find p(1), of ?sl] by simp
  have "world_ok w2"
    using acq(2) ld(2,3) by (simp add: world_ok_def)
  moreover have "retains s ?s'"
    by (rule retains_more) (use vs(2) in auto)
  moreover have "fills s {p} ?s'"
    using used p(2) vs(2) by (simp add: fills_def insert_Diff_if domIff)
  ultimately show ?thesis
    unfolding ensured_def r using ok' vs(2,3) view fnd il
    by (intro exI [of _ idx] exI [of _ ?s'] exI [of _ w2] exI [of _ a]) (simp add: same_shape_def)
qed

lemma bin_ok_wbD:
  assumes "bin_ok s n"
  shows "wb_inv s" and "keys_ok s" and "1 \<le> unat (wb_max_pages (bn_write_buf s))"
    and "unat (wb_max_pages (bn_write_buf s)) \<le> 65536"
    and "pm_used (wb_slots (bn_write_buf s)) \<le> unat (wb_max_pages (bn_write_buf s))"
    and "64 \<le> unat (wb_capacity (bn_write_buf s))" and "unat (wb_capacity (bn_write_buf s)) \<le> 2 ^ 28"
    and "length (wb_page_pool (bn_write_buf s)) + pm_used (wb_slots (bn_write_buf s)) + n < 2 ^ 31"
    and "length (wb_slots (bn_write_buf s)) = unat (wb_capacity (bn_write_buf s))"
  using assms by (auto simp: bin_ok_def Let_def GRAVELDB_MAX_FLUSH_BATCH_def wb_inv_def pm_inv_def)

text \<open>Making room: a flush when the buffer is full.\<close>

lemma wb_count_used:
  assumes "bin_ok s n"
  shows "unat (ucast (wb_count (bn_write_buf s)) :: u64) = pm_used (wb_slots (bn_write_buf s))"
  using wb_invD(3) [OF bin_ok_wbD(1) [OF assms]] unsigned_less [where 'a = nat, of "wb_count (bn_write_buf s)"]
  by (simp add: unsigned_ucast_eq take_bit_nat_def)

lemma make_room:
  assumes w: "world_ok w" and ok: "bin_ok s n" and p: "bin_pages s p = None"
  obtains s' w' where "(if ucast (wb_count (bn_write_buf s)) \<ge> wb_max_pages (bn_write_buf s)
      then map_option snd (dimbin_flush s False w) else Some (s, w)) = Some (s', w')"
    and "world_ok w'" and "bin_ok s' n" and "same_shape s s'" and "bn_dirty s' = bn_dirty s"
    and "data_view s' = data_view s" and "bin_pages s' p = None"
    and "pm_used (wb_slots (bn_write_buf s')) < unat (wb_max_pages (bn_write_buf s'))" and "retains s s'"
    and "wb_max_pages (bn_write_buf s') = wb_max_pages (bn_write_buf s)" and "buffer_room s {p} \<longrightarrow> s' = s"
proof (cases "ucast (wb_count (bn_write_buf s)) \<ge> wb_max_pages (bn_write_buf s)")
  case False
  have "pm_used (wb_slots (bn_write_buf s)) < unat (wb_max_pages (bn_write_buf s))"
    using False wb_count_used [OF ok] by (simp add: not_le word_less_nat_alt)
  then show thesis
    using that [of s w] False assms same_shape_refl retains_refl by simp
next
  case True
  note b = bin_ok_wbD [OF ok]
  have pre: "all_ok w" "pm_used (wb_slots (bn_write_buf s)) \<le> GRAVELDB_MAX_FLUSH_BATCH"
      "length (wb_page_pool (bn_write_buf s)) + pm_used (wb_slots (bn_write_buf s)) < 2 ^ 31"
    using w b(4,5,8) by (simp_all add: world_ok_def GRAVELDB_MAX_FLUSH_BATCH_def)
  obtain kf t f wb w' where fl: "dimbin_flush s False w = Some (GRAVELDB_OK,
       s\<lparr>bn_key_file := kf, bn_key_buf := t, bn_flush_needed := False, bn_file := f, bn_write_buf := wb\<rparr>, w')"
     "flushed s (s\<lparr>bn_key_file := kf, bn_key_buf := t, bn_flush_needed := False, bn_file := f, bn_write_buf := wb\<rparr>)"
     "wb_max_pages wb = wb_max_pages (bn_write_buf s)" "kbt_inv t" "kbt_iterate t = []" "all_ok w'" "w_alloc w' = w_alloc w"
     "kb_ok (bn_key_buf s) \<longrightarrow> kb_ok t"
    using dimbin_flush_ok [OF pre(1) b(1,2) pre(2,3), of False] by blast
  let ?s' = "s\<lparr>bn_key_file := kf, bn_key_buf := t, bn_flush_needed := False, bn_file := f, bn_write_buf := wb\<rparr>"
  have f': "wb_inv ?s'" "bin_pages ?s' = Map.empty" "wb_count wb = 0" "data_view ?s' = data_view s"
      "wb_capacity wb = wb_capacity (bn_write_buf s)"
      "length (wb_page_pool wb) = length (wb_page_pool (bn_write_buf s)) + pm_used (wb_slots (bn_write_buf s))" "retains s ?s'"
    using fl(2,8) by (simp_all add: flushed_def retains_def)
  have u0: "pm_used (wb_slots wb) = 0"
    using wb_invD(3) [OF f'(1)] f'(3) by simp
  have ok': "bin_ok ?s' n"
    using ok f' u0 fl(3-5) b by (simp add: bin_ok_def Let_def keys_ok_def)
  have nr: "\<not> buffer_room s {p}"
    using True p wb_count_used [OF ok] by (simp add: buffer_room_def word_le_nat_alt insert_Diff_if domIff)
  show thesis
  proof (rule that [of ?s' w'])
    show "(if ucast (wb_count (bn_write_buf s)) \<ge> wb_max_pages (bn_write_buf s)
        then map_option snd (dimbin_flush s False w) else Some (s, w)) = Some (?s', w')"
      using True fl(1) by simp
  qed (use fl(3,6,7) f' u0 w b(3) ok' nr in \<open>simp_all add: world_ok_def same_shape_def\<close>)
qed

lemma bin_ok_mono: "bin_ok s n \<Longrightarrow> m \<le> n \<Longrightarrow> bin_ok s m"
  by (simp add: bin_ok_def Let_def)

lemma ensured_transfer:
  assumes "ensured s' p n r" and "same_shape s s'" and "bn_dirty s' = bn_dirty s" and "data_view s' = data_view s"
    and "bin_pages s p = None" and "bin_pages s' p = None" and "retains s s'"
    and "wb_max_pages (bn_write_buf s') = wb_max_pages (bn_write_buf s)"
    and "buffer_room s {p} \<Longrightarrow> dom (bin_pages s') = dom (bin_pages s) \<and> pm_used (wb_slots (bn_write_buf s')) = pm_used (wb_slots (bn_write_buf s))"
  shows "ensured s p n r"
proof -
  have "fills s {p} s2" if "fills s' {p} s2" for s2
    using that assms(8,9) by (auto simp: fills_def buffer_room_def)
  have "page_kept s' p = page_kept s p"
    using assms(2,5,6) by (simp add: page_kept_def same_shape_def)
  then have "ensured_view s' p = ensured_view s p"
    using assms(2,4) by (simp add: ensured_view_def fun_eq_iff same_shape_def)
  with \<open>\<And>s2. fills s' {p} s2 \<Longrightarrow> fills s {p} s2\<close> show ?thesis
    using assms(1,3) same_shape_trans [OF assms(2)] retains_trans [OF assms(7)] unfolding ensured_def by metis
qed

text \<open>The growth of the page map.\<close>

lemma grow_map:
  assumes ok: "bin_ok s n" and small: "unat (wb_capacity (bn_write_buf s)) \<le> 2 ^ 27"
  obtains slots where "pagemap_grow True (wb_slots (bn_write_buf s)) (wb_capacity (bn_write_buf s) * 2) = Some (Some slots)"
    and "pm_map slots = bin_pages s" and "length slots = 2 * unat (wb_capacity (bn_write_buf s))"
    and "bin_ok (s\<lparr>bn_write_buf := (bn_write_buf s)\<lparr>wb_slots := slots, wb_capacity := wb_capacity (bn_write_buf s) * 2\<rparr>\<rparr>) n"
    and "pm_used slots = pm_used (wb_slots (bn_write_buf s))"
proof -
  let ?wb = "bn_write_buf s"
  note b = bin_ok_wbD [OF ok] and i = wb_invD [OF bin_ok_wbD(1) [OF ok]]
  have "pow2_mask (unat (wb_capacity ?wb)) (wb_capacity ?wb - 1)"
    using i(1) by (auto simp: pm_inv_def oa_inv_def)
  note d = pow2_mask_double [OF this b(7)]
  have "pm_used (wb_slots ?wb) < unat (wb_capacity ?wb * 2)"
    using i(2) b(9) d(2) by simp
  then obtain slots where g: "pagemap_grow True (wb_slots ?wb) (wb_capacity ?wb * 2) = Some (Some slots)"
      "pm_inv (wb_capacity ?wb * 2) slots" "pm_map slots = bin_pages s" "pm_used slots = pm_used (wb_slots ?wb)"
    using pagemap_grow_ok [OF i(1) _ d(1)] by metis
  have len: "length slots = 2 * unat (wb_capacity ?wb)"
    using g(2) d(2) by (simp add: pm_inv_def)
  let ?s' = "s\<lparr>bn_write_buf := ?wb\<lparr>wb_slots := slots, wb_capacity := wb_capacity ?wb * 2\<rparr>\<rparr>"
  have "wb_inv ?s'"
    using b(1) g(2-4) len i(2) b(9) by (simp add: wb_inv_def Let_def)
  then have "bin_ok ?s' n"
    using ok g(4) d(2) small by (simp add: bin_ok_def Let_def keys_ok_def)
  then show thesis
    using that [OF g(1,3) len _ g(4)] by simp
qed

lemma load_factor:
  assumes ok: "bin_ok s n"
  shows "wb_count (bn_write_buf s) * 10 \<ge> wb_capacity (bn_write_buf s) * 7 \<longleftrightarrow>
    pm_used (wb_slots (bn_write_buf s)) * 10 \<ge> unat (wb_capacity (bn_write_buf s)) * 7"
proof -
  note b = bin_ok_wbD [OF ok]
  have "unat (wb_count (bn_write_buf s) * 10) = pm_used (wb_slots (bn_write_buf s)) * 10"
    using wb_invD(3) [OF b(1)] b(4,5) by (simp add: unat_word_ariths)
  moreover have "unat (wb_capacity (bn_write_buf s) * 7) = unat (wb_capacity (bn_write_buf s)) * 7"
    using b(7) by (simp add: unat_word_ariths)
  ultimately show ?thesis
    by (simp add: word_le_nat_alt)
qed

lemma ensure_page_ok:
  assumes w: "world_ok w" and ok: "bin_ok s (Suc n)" and p: "p \<noteq> PAGE_SLOT_EMPTY"
  shows "ensured s p n (write_buf_ensure_page s p w)"
proof -
  let ?wb = "bn_write_buf s"
  note inv = bin_ok_wbD(1) [OF ok]
  obtain idx where i: "pagemap_find (wb_slots ?wb) (wb_capacity ?wb) p = Some idx" "unat idx < length (wb_slots ?wb)"
    using pm_find [OF wb_invD(1,2) [OF inv]] by metis
  show ?thesis
  proof (cases "bin_pages s p")
    case (Some b)
    obtain a where a: "ps_page_id (wb_slots ?wb ! unat idx) = p" "ps_data (wb_slots ?wb ! unat idx) = Some (a, page_of s p)"
      using find_page [OF inv, of p] Some i(1) by (metis option.distinct(1) option.inject)
    have "ensured_view s p = data_view s"
      using Some by (simp add: fun_eq_iff ensured_view_def page_kept_def)
    moreover have "wb_slots ?wb ! unat idx = \<lparr>ps_page_id = p, ps_data = Some (a, page_of s p)\<rparr>"
      using a by simp
    moreover have "fills s {p} s"
      using Some by (auto simp: fills_def insert_absorb domIff)
    ultimately show ?thesis
      unfolding ensured_def write_buf_ensure_page_def
      using i a Some w bin_ok_mono [OF ok, of n] same_shape_refl retains_refl
      by (intro exI [of _ idx] exI [of _ s] exI [of _ w] exI [of _ a]) simp
  next
    case None
    have nf: "ps_page_id (wb_slots ?wb ! unat idx) \<noteq> p"
      using pm_lookup [OF wb_invD(1) [OF inv] i(1) p] None by (auto split: if_splits)
    obtain s1 w1 where r: "(if ucast (wb_count ?wb) \<ge> wb_max_pages ?wb
        then map_option snd (dimbin_flush s False w) else Some (s, w)) = Some (s1, w1)"
        "world_ok w1" "bin_ok s1 (Suc n)" "same_shape s s1" "bn_dirty s1 = bn_dirty s"
        "data_view s1 = data_view s" "bin_pages s1 p = None"
        "pm_used (wb_slots (bn_write_buf s1)) < unat (wb_max_pages (bn_write_buf s1))" "retains s s1"
        "wb_max_pages (bn_write_buf s1) = wb_max_pages (bn_write_buf s)" "buffer_room s {p} \<longrightarrow> s1 = s"
      by (rule make_room [OF w ok None])
    let ?wb1 = "bn_write_buf s1"
    note b = bin_ok_wbD [OF r(3)] and lf = load_factor [OF r(3)]
    obtain idx1 where i1: "pagemap_find (wb_slots ?wb1) (wb_capacity ?wb1) p = Some idx1"
      using pm_find [OF wb_invD(1,2) [OF b(1)]] by metis
    have "ensured s1 p n (write_buf_ensure_page s p w)"
    proof (cases "wb_count ?wb1 * 10 \<ge> wb_capacity ?wb1 * 7")
      case False
      have "write_buf_ensure_page s p w = Some (insert_page s1 p idx1 w1)"
        using i(1) nf r(1) i1 False by (simp add: write_buf_ensure_page_def Let_def)
      moreover have "Suc (pm_used (wb_slots ?wb1)) < length (wb_slots ?wb1)"
        using False b(6,9) unfolding lf by simp
      ultimately show ?thesis
        using insert_page_ok [OF r(2,3) p r(7) i1 r(8)] by simp
    next
      case True
      then have small: "unat (wb_capacity ?wb1) \<le> 2 ^ 27"
        using b(4,5) unfolding lf by simp
      let ?cap = "wb_capacity ?wb1 * 2"
      obtain slots where g: "pagemap_grow True (wb_slots ?wb1) ?cap = Some (Some slots)" "pm_map slots = bin_pages s1"
          "length slots = 2 * unat (wb_capacity ?wb1)"
          "bin_ok (s1\<lparr>bn_write_buf := ?wb1\<lparr>wb_slots := slots, wb_capacity := ?cap\<rparr>\<rparr>) (Suc n)"
          "pm_used slots = pm_used (wb_slots ?wb1)"
        by (rule grow_map [OF r(3) small])
      let ?s2 = "s1\<lparr>bn_write_buf := ?wb1\<lparr>wb_slots := slots, wb_capacity := ?cap\<rparr>\<rparr>"
      note ok2 = g(4)
      obtain idx2 where i2: "pagemap_find slots ?cap p = Some idx2"
        using pm_find [OF wb_invD(1,2) [OF bin_ok_wbD(1) [OF ok2]], of p] by auto
      have w2: "world_ok (snd (ask w1))" "fst (ask w1)"
        using r(2) by (simp_all add: world_ok_def)
      have "ensured ?s2 p n (Some (insert_page ?s2 p idx2 (snd (ask w1))))"
        using insert_page_ok [OF w2(1) ok2 p, of idx2] r(7,8) g(2,3,5) i2 wb_invD(2) [OF b(1)] b(9) b(6) by simp
      moreover have "write_buf_ensure_page s p w = Some (insert_page ?s2 p idx2 (snd (ask w1)))"
        using i(1) nf r(1) i1 True g(1) i2 w2(2) by (simp add: write_buf_ensure_page_def Let_def split_beta)
      moreover have "data_view ?s2 = data_view s1"
        by (rule data_view_cong) (simp_all add: g(2))
      moreover have "retains s1 ?s2"
        by (rule retains_more) (simp_all add: g(2))
      ultimately show ?thesis
        using ensured_transfer [of ?s2 p n _ s1] r(7) g(2,5) by (simp add: same_shape_def)
    qed
    then show ?thesis
      using ensured_transfer [OF _ r(4-6) None r(7) r(9,10)] r(11) by simp
  qed
qed

subsection \<open>Writing entries\<close>

abbreviation entry_page :: "DimBin \<Rightarrow> EmbWriteEntry \<Rightarrow> u32" where
  "entry_page s x \<equiv> ew_entry_id x div bn_entries_per_page s"

definition entry_off :: "DimBin \<Rightarrow> u32 \<Rightarrow> nat" where
  "entry_off s e = unat (e div bn_entries_per_page s) * unat (bn_page_size s) +
     unat (e mod bn_entries_per_page s) * unat (bn_entry_size s)"

definition entry_write :: "DimBin \<Rightarrow> (nat \<Rightarrow> u8) \<Rightarrow> EmbWriteEntry \<Rightarrow> nat \<Rightarrow> u8" where
  "entry_write s v x off =
     (let o1 = entry_off s (ew_entry_id x) in
      if o1 \<le> off \<and> off < o1 + unat (bn_entry_size s) then emb_data (ew_data x) ! (off - o1) else v off)"

text \<open>The caller provides at least \<^verbatim>\<open>entry_size\<close> bytes, and the page is not the marker of empty slots.\<close>

definition entry_fits :: "DimBin \<Rightarrow> EmbWriteEntry \<Rightarrow> bool" where
  "entry_fits s x \<longleftrightarrow> unat (bn_entry_size s) \<le> length (emb_data (ew_data x)) \<and> entry_page s x \<noteq> PAGE_SLOT_EMPTY"

lemma entry_in_page:
  assumes "geo_ok s"
  shows "unat (e mod bn_entries_per_page s) * unat (bn_entry_size s) + unat (bn_entry_size s) \<le> unat (bn_page_size s)"
proof -
  have "unat (e mod bn_entries_per_page s) < unat (bn_entries_per_page s)"
    using assms by (simp add: geo_ok_def unat_mod)
  then have "Suc (unat (e mod bn_entries_per_page s)) * unat (bn_entry_size s) \<le>
      unat (bn_entries_per_page s) * unat (bn_entry_size s)"
    by (intro mult_le_mono1) simp
  then show ?thesis
    using assms by (simp add: geo_ok_def algebra_simps)
qed

text \<open>A write only changes bytes of its page.\<close>

lemma entry_write_page:
  assumes "geo_ok s" and "off div unat (bn_page_size s) \<noteq> unat (entry_page s x)"
  shows "entry_write s v x off = v off"
proof -
  let ?ps = "unat (bn_page_size s)" and ?o = "entry_off s (ew_entry_id x)"
  have "off div ?ps = unat (entry_page s x)" if "?o \<le> off" "off < ?o + unat (bn_entry_size s)"
    using that entry_in_page [OF assms(1), of "ew_entry_id x"]
    by (intro div_nat_eqI) (auto simp: entry_off_def mult.commute)
  then show ?thesis
    using assms(2) by (auto simp: entry_write_def Let_def)
qed

lemma entry_writes_page:
  assumes "geo_ok s" and "\<forall>x \<in> set es. off div unat (bn_page_size s) \<noteq> unat (entry_page s x)"
  shows "foldl (entry_write s) v es off = v off"
  using assms(2) by (induction es rule: rev_induct) (simp_all add: entry_write_page [OF assms(1)])

lemma entry_writes_filter:
  assumes "geo_ok s"
  shows "foldl (entry_write s) v es off =
    foldl (entry_write s) v (filter (\<lambda>x. off div unat (bn_page_size s) = unat (entry_page s x)) es) off"
proof (induction es rule: rev_induct)
  case (snoc x es)
  show ?case
  proof (cases "off div unat (bn_page_size s) = unat (entry_page s x)")
    case True
    then show ?thesis
      using snoc.IH by (simp add: entry_write_def Let_def)
  next
    case False
    then show ?thesis
      using entry_write_page [OF assms False] snoc.IH by simp
  qed
qed simp

lemma copy_entries_ok:
  assumes geo: "geo_ok s" and ps: "unat (bn_page_size s) \<le> 65536"
    and es: "\<forall>x \<in> set es. entry_fits s x \<and> entry_page s x = p"
    and page: "length page = unat (bn_page_size s)"
    and v: "\<forall>i < unat (bn_page_size s). page ! i = v (unat p * unat (bn_page_size s) + i)"
  shows "\<exists>page'. copy_entries s es page = Some page' \<and> length page' = unat (bn_page_size s) \<and>
    (\<forall>i < unat (bn_page_size s). page' ! i = foldl (entry_write s) v es (unat p * unat (bn_page_size s) + i))"
  using es page v
proof (induction es arbitrary: page v)
  case (Cons x es)
  let ?ps = "unat (bn_page_size s)" and ?n = "unat (bn_entry_size s)" and ?e = "ew_entry_id x"
  let ?k = "unat (?e mod bn_entries_per_page s)"
  note ip = entry_in_page [OF geo, of ?e]
  have sz: "unat (ucast (bn_entry_size s) :: u32) = ?n"
    using ip ps by (simp add: unsigned_ucast_eq take_bit_nat_def)
  have o: "unat ((?e mod bn_entries_per_page s) * ucast (bn_entry_size s)) = ?k * ?n"
    using ip ps sz by (simp add: unat_word_ariths)
  have eo: "entry_off s ?e = unat p * ?ps + ?k * ?n"
    using Cons.prems(1) by (auto simp: entry_off_def)
  have len: "?n \<le> length (emb_data (ew_data x))"
    using Cons.prems(1) by (simp add: entry_fits_def)
  let ?page = "put_at page (?k * ?n) (take ?n (emb_data (ew_data x)))"
  have lp: "length ?page = ?ps"
    using Cons.prems(2) ip len by simp
  have "\<forall>i < ?ps. ?page ! i = entry_write s v x (unat p * ?ps + i)"
    using Cons.prems(2,3) ip len by (auto simp: nth_put_at entry_write_def eo Let_def)
  then have "\<exists>page'. copy_entries s es ?page = Some page' \<and> length page' = ?ps \<and>
      (\<forall>i < ?ps. page' ! i = foldl (entry_write s) (entry_write s v x) es (unat p * ?ps + i))"
    using Cons.IH [of ?page "entry_write s v x"] Cons.prems(1) lp by simp
  then show ?case
    using o ip len Cons.prems(2) by (simp add: Let_def)
qed auto

lemma resize_dirty: "dt_active (dirty_tracker_resize dt c) = dt_active dt" "dt_ckpt (dirty_tracker_resize dt c) = dt_ckpt dt"
  by (simp_all add: dirty_tracker_resize_def)

text \<open>What writing a group of entries of one page achieves.\<close>

definition put_done ::
  "DimBin \<Rightarrow> graveldb_status \<Rightarrow> nat \<Rightarrow> (nat \<Rightarrow> u8) \<Rightarrow> u32 set \<Rightarrow> (graveldb_status \<times> DimBin \<times> World) option \<Rightarrow> bool" where
  "put_done s rc n v ps r \<longleftrightarrow>
     (\<exists>s' w'. r = Some (rc, s', w') \<and> world_ok w' \<and> bin_ok s' n \<and> same_shape s s' \<and> data_view s' = v \<and>
        dt_marked (bn_dirty s') = ps \<union> dt_marked (bn_dirty s) \<and> dt_marked_ckpt (bn_dirty s') = dt_marked_ckpt (bn_dirty s) \<and>
        retains s s' \<and> (\<forall>p \<in> ps. covered s' p) \<and> fills s ps s')"

lemma put_page_ok:
  assumes w: "world_ok w" and ok: "bin_ok s (Suc n)" and geo: "geo_ok s"
    and es: "\<forall>x \<in> set es. entry_fits s x \<and> entry_page s x = p" and p: "p \<noteq> PAGE_SLOT_EMPTY"
  shows "put_done s rc n (foldl (entry_write s) (ensured_view s p) es) {p} (put_page s p rc es w)"
proof -
  define dt where "dt = (if p \<ge> dt_capacity (bn_dirty s)
     then dirty_tracker_resize (bn_dirty s) (if p < 1024 then 1024 else (p + 1) * 2) else bn_dirty s)"
  have dt: "dt_active dt = dt_active (bn_dirty s)" "dt_ckpt dt = dt_ckpt (bn_dirty s)"
    by (simp_all add: dt_def resize_dirty)
  let ?s0 = "s\<lparr>bn_dirty := dt\<rparr>"
  have ok0: "bin_ok ?s0 (Suc n)" and view0: "ensured_view ?s0 p = ensured_view s p"
  proof -
    show "bin_ok ?s0 (Suc n)"
      using ok dt by (simp add: bin_ok_def wb_inv_def keys_ok_def dt_wf_def Let_def)
    have "data_view ?s0 = data_view s" "page_kept ?s0 p = page_kept s p"
      by (rule data_view_cong) (simp_all add: page_kept_def)
    then show "ensured_view ?s0 p = ensured_view s p"
      by (intro ext) (simp add: ensured_view_def)
  qed
  obtain idx s1 w1 a where e: "write_buf_ensure_page ?s0 p w = Some (Some idx, s1, w1)" "world_ok w1" "bin_ok s1 n"
      "same_shape ?s0 s1" "bn_dirty s1 = bn_dirty ?s0"
      "pagemap_find (wb_slots (bn_write_buf s1)) (wb_capacity (bn_write_buf s1)) p = Some idx"
      "unat idx < length (wb_slots (bn_write_buf s1))"
      "wb_slots (bn_write_buf s1) ! unat idx = \<lparr>ps_page_id = p, ps_data = Some (a, page_of s1 p)\<rparr>"
      "bin_pages s1 p \<noteq> None" "data_view s1 = ensured_view s p" "retains ?s0 s1"
      "fills ?s0 {p} s1"
    using ensure_page_ok [OF w ok0 p] unfolding ensured_def view0 by blast
  let ?wb = "bn_write_buf s1" and ?ps = "unat (bn_page_size s)"
  have sh: "same_shape s s1"
    using e(4) by (simp add: same_shape_def)
  then have geo1: "geo_ok s1" and ew: "entry_write s1 = entry_write s" and fit: "entry_fits s1 = entry_fits s"
    and eq: "bn_page_size s1 = bn_page_size s" "bn_entries_per_page s1 = bn_entries_per_page s"
    using geo by (simp_all add: same_shape_def geo_ok_def entry_write_def entry_off_def entry_fits_def fun_eq_iff)
  have inv1: "wb_inv s1" and ps: "?ps \<le> 65536"
    using e(3) eq(1) by (simp_all add: bin_ok_def)
  have page: "length (page_of s1 p) = ?ps"
    using page_of_length [OF inv1 e(9)] eq(1) by simp
  have pv: "page_of s1 p ! i = ensured_view s p (unat p * ?ps + i)" if "i < ?ps" for i
    unfolding e(10) [symmetric] using that e(9) eq(1) unsigned_less [where 'a = nat, of p] by (auto simp: data_view_def Let_def)
  obtain pg where c: "copy_entries s1 es (page_of s1 p) = Some pg" "length pg = ?ps"
      "\<forall>i < ?ps. pg ! i = foldl (entry_write s) (ensured_view s p) es (unat p * ?ps + i)"
    using copy_entries_ok [OF geo1, of es p "page_of s1 p" "ensured_view s p"] es page pv ps unfolding ew fit eq by auto
  obtain ma w2 where m: "ask_mark w1 = (ma, w2)" "mark_ok ma" "world_ok w2"
    using ask_mark_ok [of w1] e(2) by (cases "ask_mark w1") (simp add: world_ok_def)
  have dwf: "tree_wf (dt_active dt)" "tree_wf (dt_ckpt dt)" "length (tr_segments (dt_active dt)) + Suc n \<le> 32768"
    using ok dt by (simp_all add: bin_ok_def dt_wf_def)
  obtain t where t: "tree_mark ma (dt_active dt) p = Some t" "tree_wf t" "set (tree_list t) = insert p (set (tree_list (dt_active dt)))"
      "length (tr_segments t) \<le> Suc (length (tr_segments (dt_active dt)))"
    using tree_mark_ok [OF dwf(1) m(2), of p] dwf(3) by auto
  let ?sl = "\<lparr>ps_page_id = p, ps_data = Some (a, pg)\<rparr>"
  let ?s' = "s1\<lparr>bn_write_buf := ?wb\<lparr>wb_slots := (wb_slots ?wb)[unat idx := ?sl]\<rparr>, bn_dirty := dt\<lparr>dt_active := t\<rparr>\<rparr>"
  have r: "put_page s p rc es w = Some (rc, ?s', w2)"
    using e(1,5,8) c(1) m(1) t(1) by (simp add: put_page_def dt_def [symmetric] Let_def dirty_tracker_mark_def)
  have vs: "data_view ?s' = (\<lambda>off. if off div ?ps = unat p then pg ! (off mod ?ps) else data_view s1 off)"
      "bin_pages ?s' = (bin_pages s1)(p \<mapsto> Some (a, pg))"
    using view_store(1,2) [OF inv1 e(6) p, of pg ?s' a] c(2) unfolding eq(1) by (simp_all add: eq(1))
  note st = pm_store [OF wb_invD(1) [OF inv1] e(6) p, of ?sl]
  have "wb_inv ?s'"
    using inv1 st(1,3) e(9) vs(2) c(2) eq(1) by (auto simp: wb_inv_def Let_def)
  then have "bin_ok ?s' n"
    using e(3) st(3) e(9) t(2,4) dwf by (simp add: bin_ok_def Let_def keys_ok_def dt_wf_def)
  moreover have "data_view ?s' = foldl (entry_write s) (ensured_view s p) es"
  proof
    fix off
    show "data_view ?s' off = foldl (entry_write s) (ensured_view s p) es off"
    proof (cases "off div ?ps = unat p")
      case True
      have "off mod ?ps < ?ps"
        using wb_invD(5) [OF inv1] eq(1) by simp
      then show ?thesis
        using c(3) True [symmetric] vs(1) by simp
    next
      case False
      then show ?thesis
        using entry_writes_page [OF geo, of es off] es vs(1) e(10) by simp
    qed
  qed
  moreover have "retains s ?s'" "covered ?s' p"
  proof -
    have "retains s s1"
      using e(11) by (simp add: retains_def covers_def covered_def)
    moreover have "retains s1 ?s'"
      by (rule retains_more) (use vs(2) in auto)
    ultimately show "retains s ?s'"
      by (rule retains_trans)
    show "covered ?s' p"
      using vs(2) by (simp add: covered_def)
  qed
  moreover have "fills s {p} ?s'"
    using e(12) st(3) e(9) vs(2) by (auto simp: fills_def buffer_room_def)
  ultimately show ?thesis
    unfolding put_done_def r using m(3) sh dt t(3)
    by (intro exI [of _ ?s'] exI [of _ w2]) (simp add: same_shape_def dt_marked_def dt_marked_ckpt_def)
qed

subsection \<open>Sorting a batch by page\<close>

lemma mset_shift_order: "mset (shift_order pg x ys) = add_mset x (mset ys)"
  by (induction pg x ys rule: shift_order.induct) auto

lemma shift_order_sorted:
  "sorted_wrt (\<lambda>a b. pg a \<ge> pg b) ys \<Longrightarrow> sorted_wrt (\<lambda>a b. pg a \<ge> pg b) (shift_order pg x ys)"
proof (induction pg x ys rule: shift_order.induct)
  case (2 pg x y ys)
  have "set (shift_order pg x ys) = insert x (set ys)"
    using mset_shift_order [of pg x ys] by (metis set_mset_mset set_mset_add_mset_insert)
  then show ?case
    using 2 by (auto intro: order_trans)
qed simp

lemma shift_order_filter:
  "filter (\<lambda>y. pg y = q) (shift_order pg x ys) = (if pg x = q then [x] else []) @ filter (\<lambda>y. pg y = q) ys"
  by (induction pg x ys rule: shift_order.induct) auto

text \<open>The insertion sort sorts by page and keeps the order of the entries of a page.\<close>

lemma sort_by_page_spec:
  shows "mset (sort_by_page pg es) = mset es" and "sorted (map pg (sort_by_page pg es))"
    and "filter (\<lambda>x. pg x = q) (sort_by_page pg es) = filter (\<lambda>x. pg x = q) es"
proof -
  let ?f = "\<lambda>sorted x. shift_order pg x sorted"
  have "mset (foldl ?f [] es) = mset es"
    by (induction es rule: rev_induct) (simp_all add: mset_shift_order)
  then show "mset (sort_by_page pg es) = mset es"
    by (simp add: sort_by_page_def)
  have "sorted_wrt (\<lambda>a b. pg a \<ge> pg b) (foldl ?f [] es)"
    by (induction es rule: rev_induct) (simp_all add: shift_order_sorted)
  then show "sorted (map pg (sort_by_page pg es))"
    by (simp add: sort_by_page_def sorted_wrt_map sorted_wrt_rev)
  have "filter (\<lambda>x. pg x = q) (foldl ?f [] es) = rev (filter (\<lambda>x. pg x = q) es)"
    by (induction es rule: rev_induct) (simp_all add: shift_order_filter)
  then show "filter (\<lambda>x. pg x = q) (sort_by_page pg es) = filter (\<lambda>x. pg x = q) es"
    by (simp add: sort_by_page_def rev_filter [symmetric])
qed

subsection \<open>A batch\<close>

text \<open>
  A page is safe if it is loaded from the file when it is buffered again, or if there is nothing to
  lose. The page of the last, incomplete group of entries is not safe once it was flushed.
\<close>

definition page_safe :: "DimBin \<Rightarrow> u32 \<Rightarrow> bool" where
  "page_safe s p \<longleftrightarrow>
     p < ucast (bn_bump_ptr s div ucast (bn_entries_per_page s)) \<and>
     unat p * unat (bn_page_size s) < unat (bn_data_file_size s) \<or>
     (\<forall>off. off div unat (bn_page_size s) = unat p \<longrightarrow> data_view s off = 0)"

text \<open>
  A batch on the pages \<open>P\<close> that is not disturbed by evictions: there is room for its pages, or an eviction
  does no harm to them.
\<close>

definition undisturbed :: "DimBin \<Rightarrow> u32 set \<Rightarrow> bool" where
  "undisturbed s P \<longleftrightarrow> buffer_room s P \<or> (\<forall>p \<in> P. page_safe s p)"

text \<open>
  What a batch on the pages \<open>P\<close> is written over: a page that is neither buffered nor a complete page of the
  file is cleared.
\<close>

definition loaded_view :: "DimBin \<Rightarrow> u32 set \<Rightarrow> nat \<Rightarrow> u8" where
  "loaded_view s P off =
     (if \<exists>p \<in> P. off div unat (bn_page_size s) = unat p \<and> \<not> page_kept s p then 0 else data_view s off)"

lemma page_safe_view: "page_safe s p \<Longrightarrow> \<not> page_kept s p \<Longrightarrow> off div unat (bn_page_size s) = unat p \<Longrightarrow> data_view s off = 0"
  by (auto simp: page_safe_def page_kept_def)

lemma loaded_view_safe: "\<forall>p \<in> P. page_safe s p \<Longrightarrow> loaded_view s P = data_view s"
  by (auto simp: loaded_view_def fun_eq_iff dest: page_safe_view)

lemma loaded_view_kept: "\<forall>p \<in> P. page_kept s p \<Longrightarrow> loaded_view s P = data_view s"
  by (auto simp: loaded_view_def fun_eq_iff)

lemma page_safe_other:
  assumes "page_safe s q" and "same_shape s s'"
    and "\<And>off. off div unat (bn_page_size s) = unat q \<Longrightarrow> data_view s' off = data_view s off"
  shows "page_safe s' q"
  using assms by (auto simp: page_safe_def same_shape_def)

lemma entry_writes_cong: "v off = v' off \<Longrightarrow> foldl (entry_write s) v es off = foldl (entry_write s) v' es off"
  by (induction es rule: rev_induct) (simp_all add: entry_write_def Let_def)

text \<open>After the entries of the first page, the rest of a batch is as undisturbed and is written over the same.\<close>

lemma after_page:
  assumes u: "undisturbed s (insert p Q)" and p: "p \<notin> Q" and sh: "same_shape s s1" and geo: "geo_ok s"
    and f: "fills s {p} s1" and g: "\<forall>x \<in> set g. entry_page s x = p"
    and v: "data_view s1 = foldl (entry_write s) (ensured_view s p) g"
  shows "undisturbed s1 Q" and "loaded_view s1 Q = foldl (entry_write s) (loaded_view s (insert p Q)) g"
proof -
  have ps: "bn_page_size s1 = bn_page_size s"
    using sh by (simp add: same_shape_def)
  have other: "data_view s1 off = data_view s off" if "off div unat (bn_page_size s) \<noteq> unat p" for off
    using entry_writes_page [OF geo, of g off "ensured_view s p"] g that by (simp add: v ensured_view_def)
  have Q: "q \<noteq> p" "unat q \<noteq> unat p" if "q \<in> Q" for q
    using p that by (metis word_unat_eq_iff)+
  have safe1: "page_safe s1 q" if "page_safe s q" "q \<in> Q" for q
    by (rule page_safe_other [OF that(1) sh]) (use other Q [OF that(2)] in simp)
  have room: "dom (bin_pages s1) = insert p (dom (bin_pages s))" "buffer_room s1 Q" if "buffer_room s (insert p Q)"
  proof -
    have "buffer_room s ({p} \<union> Q)"
      using that by simp
    then show "buffer_room s1 Q"
      by (rule fills_room [OF f])
    show "dom (bin_pages s1) = insert p (dom (bin_pages s))"
      using f buffer_room_mono [OF \<open>buffer_room s ({p} \<union> Q)\<close>] by (simp add: fills_def)
  qed
  show "undisturbed s1 Q"
    using u room(2) safe1 by (auto simp: undisturbed_def)
  have kept: "(if page_kept s1 q then data_view s off else 0) = (if page_kept s q then data_view s off else 0)"
    if "q \<in> Q" "off div unat (bn_page_size s) = unat q" for q off
    using u unfolding undisturbed_def
  proof (elim disjE)
    assume "buffer_room s (insert p Q)"
    from room(1) [OF this] have "bin_pages s1 q = None \<longleftrightarrow> bin_pages s q = None"
      using Q(1) [OF that(1)] by (metis domIff insert_iff)
    then show ?thesis
      using sh by (simp add: page_kept_def same_shape_def)
  next
    assume "\<forall>p \<in> insert p Q. page_safe s p"
    then have "page_safe s q" "page_safe s1 q"
      using that(1) safe1 by simp_all
    then show ?thesis
      using page_safe_view [of s q off] page_safe_view [of s1 q off] that(2) ps other [of off] Q(2) [OF that(1)] by auto
  qed
  show "loaded_view s1 Q = foldl (entry_write s) (loaded_view s (insert p Q)) g"
  proof
    fix off
    let ?q = "off div unat (bn_page_size s)"
    show "loaded_view s1 Q off = foldl (entry_write s) (loaded_view s (insert p Q)) g off"
    proof (cases "?q = unat p")
      case True
      then have "\<forall>q \<in> Q. ?q \<noteq> unat q"
        using Q(2) by metis
      then have "loaded_view s1 Q off = data_view s1 off" "loaded_view s (insert p Q) off = ensured_view s p off"
        using True ps by (auto simp: loaded_view_def ensured_view_def)
      then show ?thesis
        using entry_writes_cong [of "ensured_view s p" off "loaded_view s (insert p Q)"] by (simp add: v)
    next
      case False
      then have "foldl (entry_write s) (loaded_view s (insert p Q)) g off = loaded_view s (insert p Q) off"
        using g by (intro entry_writes_page [OF geo]) simp
      moreover have "loaded_view s1 Q off = loaded_view s (insert p Q) off"
      proof (cases "\<exists>q \<in> Q. ?q = unat q")
        case True
        then obtain q where q: "q \<in> Q" "?q = unat q"
          by blast
        have uniq: "?q = unat r \<longleftrightarrow> r = q" for r
          using q(2) by (metis word_unat_eq_iff)
        then have "loaded_view s1 Q off = (if page_kept s1 q then data_view s off else 0)"
            "loaded_view s (insert p Q) off = (if page_kept s q then data_view s off else 0)"
          using q(1) other [OF False] ps by (auto simp: loaded_view_def)
        then show ?thesis
          using kept [OF q] by simp
      next
        case no: False
        then show ?thesis
          using False other [OF False] ps by (auto simp: loaded_view_def)
      qed
      ultimately show ?thesis
        by simp
    qed
  qed
qed

lemma put_groups_ok:
  assumes "world_ok w" and "bin_ok s (length es0)" and "geo_ok s" and "\<forall>x \<in> set es0. entry_fits s x"
    and "undisturbed s (entry_page s ` set es0)" and "sorted (map (entry_page s) es0)"
  shows "put_done s rc 0 (foldl (entry_write s) (loaded_view s (entry_page s ` set es0)) es0) (entry_page s ` set es0) (put_groups s rc es0 w)"
  using assms
proof (induction es0 arbitrary: s rc w rule: length_induct)
  case (1 es0 s rc w)
  show ?case
  proof (cases es0)
    case Nil
    then show ?thesis
      using "1.prems" by (simp add: put_done_def same_shape_refl retains_refl fills_empty loaded_view_kept)
  next
    case (Cons e es)
    note prems = "1.prems" [unfolded Cons]
    define p where "p = entry_page s e"
    define g where "g = e # takeWhile (\<lambda>x. entry_page s x = p) es"
    define rest where "rest = dropWhile (\<lambda>x. entry_page s x = p) es"
    have split: "e # es = g @ rest"
      by (simp add: g_def rest_def)
    have gp: "\<forall>x \<in> set g. entry_fits s x \<and> entry_page s x = p" and p: "p \<noteq> PAGE_SLOT_EMPTY"
      using prems(4) split by (auto simp: g_def p_def entry_fits_def dest: set_takeWhileD)
    have rp: "entry_page s x \<noteq> p" if "x \<in> set rest" for x
    proof -
      obtain y ys where r: "rest = y # ys"
        using \<open>x \<in> set rest\<close> by (cases rest) auto
      have "entry_page s y \<noteq> p"
        using r hd_dropWhile [of "\<lambda>x. entry_page s x = p" es] by (simp add: rest_def)
      moreover have "p \<le> entry_page s y" "sorted (map (entry_page s) (y # ys))"
        using prems(6) unfolding split r by (auto simp: sorted_append g_def p_def)
      ultimately show ?thesis
        using \<open>x \<in> set rest\<close> r by (auto simp: order_le_less)
    qed
    let ?Q = "entry_page s ` set rest"
    have "e \<in> set g" "entry_page s e = p"
      by (simp_all add: g_def p_def)
    then have "entry_page s ` set g = {p}"
      using gp by (intro equalityI subsetI) (auto intro: image_eqI [of p _ e])
    then have es0: "entry_page s ` set es0 = insert p ?Q"
      unfolding Cons split by (simp add: image_Un)
    have "bin_ok s (Suc (length es))"
      using prems(2) by simp
    from put_page_ok [OF prems(1) this prems(3) gp p]
    obtain s1 w1 where r1: "put_page s p rc g w = Some (rc, s1, w1)" "world_ok w1" "bin_ok s1 (length es)" "same_shape s s1"
        "data_view s1 = foldl (entry_write s) (ensured_view s p) g" "dt_marked (bn_dirty s1) = {p} \<union> dt_marked (bn_dirty s)"
        "dt_marked_ckpt (bn_dirty s1) = dt_marked_ckpt (bn_dirty s)" "retains s s1" "covered s1 p" "fills s {p} s1"
      unfolding put_done_def by blast
    have eq: "bn_entries_per_page s1 = bn_entries_per_page s" "entry_fits s1 = entry_fits s" "entry_write s1 = entry_write s" "geo_ok s1 = geo_ok s"
      using r1(4) by (simp_all add: same_shape_def entry_fits_def entry_write_def entry_off_def geo_ok_def fun_eq_iff)
    note after = after_page [OF "1.prems"(5) [unfolded es0] _ r1(4) prems(3) r1(10) _ r1(5)]
    have u1: "undisturbed s1 ?Q" and v1: "loaded_view s1 ?Q = foldl (entry_write s) (loaded_view s (insert p ?Q)) g"
      using after gp rp by auto
    have "length rest \<le> length es"
      by (simp add: rest_def length_dropWhile_le)
    then have ok1: "bin_ok s1 (length rest)"
      using bin_ok_mono [OF r1(3)] by simp
    have fits: "\<forall>x \<in> set rest. entry_fits s1 x" and srt: "sorted (map (entry_page s1) rest)"
      using prems(4,6) unfolding eq split by (auto simp: sorted_append)
    have "put_done s1 rc 0 (foldl (entry_write s1) (loaded_view s1 ?Q) rest) ?Q (put_groups s1 rc rest w1)"
      using "1.IH" [rule_format, of rest w1 s1 rc] r1(2) ok1 prems(3) fits u1 srt \<open>length rest \<le> length es\<close> eq Cons by simp
    then obtain s2 w2 where r2: "put_groups s1 rc rest w1 = Some (rc, s2, w2)" "world_ok w2" "bin_ok s2 0" "same_shape s1 s2"
        "data_view s2 = foldl (entry_write s) (loaded_view s1 ?Q) rest"
        "dt_marked (bn_dirty s2) = ?Q \<union> dt_marked (bn_dirty s1)"
        "dt_marked_ckpt (bn_dirty s2) = dt_marked_ckpt (bn_dirty s1)" "retains s1 s2" "\<forall>p \<in> ?Q. covered s2 p" "fills s1 ?Q s2"
      unfolding put_done_def eq by blast
    have pg: "put_groups s rc es0 w = Some (rc, s2, w2)"
      using r1(1) r2(1) Cons by (simp add: g_def rest_def p_def)
    moreover have "data_view s2 = foldl (entry_write s) (loaded_view s (insert p ?Q)) es0"
      unfolding Cons split using v1 r2(5) by simp
    moreover have "covered s2 p"
      using r1(9) r2(8) by (simp add: retains_def covers_def)
    moreover have "fills s (insert p ?Q) s2"
      using fills_trans [OF r1(10) r2(10)] by simp
    ultimately show ?thesis
      unfolding put_done_def es0
      using r1(6,7) r2(2-7,9) same_shape_trans [OF r1(4) r2(4)] retains_trans [OF r1(8) r2(8)] by (intro exI [of _ s2] exI [of _ w2]) auto
  qed
qed

lemma same_entries:
  assumes "geo_ok s" and "\<And>q. filter (\<lambda>x. entry_page s x = q) es = filter (\<lambda>x. entry_page s x = q) es'"
  shows "foldl (entry_write s) v es = foldl (entry_write s) v es'"
proof
  fix off
  let ?q = "off div unat (bn_page_size s)"
  have "filter (\<lambda>x. ?q = unat (entry_page s x)) es = filter (\<lambda>x. ?q = unat (entry_page s x)) es'"
  proof (cases "?q < 2 ^ 32")
    case True
    then have "?q = unat (entry_page s x) \<longleftrightarrow> entry_page s x = of_nat ?q" for x
      by (auto simp: word_unat_eq_iff unat_of_nat)
    then show ?thesis
      using assms(2) [of "of_nat ?q"] by simp
  next
    case False
    then have "?q \<noteq> unat (entry_page s x)" for x
      using unsigned_less [where 'a = nat, of "entry_page s x"] by auto
    then show ?thesis
      by simp
  qed
  then show "foldl (entry_write s) v es off = foldl (entry_write s) v es' off"
    using entry_writes_filter [OF assms(1), of v es off] entry_writes_filter [OF assms(1), of v es' off] by simp
qed

lemma dimbin_put_batch_ok:
  assumes w: "world_ok w" and ok: "bin_ok s (length es)" and geo: "geo_ok s" and ck: "\<not> bn_in_checkpoint s"
    and fits: "\<forall>x \<in> set es. entry_fits s x" and und: "undisturbed s (entry_page s ` set es)"
  shows "put_done s GRAVELDB_OK 0 (foldl (entry_write s) (loaded_view s (entry_page s ` set es)) es) (entry_page s ` set es) (dimbin_put_batch s es w)"
proof (cases "es = []")
  case True
  then show ?thesis
    using w ok by (simp add: put_done_def dimbin_put_batch_def same_shape_refl retains_refl fills_empty loaded_view_kept)
next
  case False
  let ?es = "sort_by_page (entry_page s) es"
  let ?w = "if length es \<le> 256 then w else snd (ask w)"
  note sp = sort_by_page_spec [where pg = "entry_page s" and es = es]
  have set: "set ?es = set es" and len: "length ?es = length es"
    using mset_eq_setD [OF sp(1)] mset_eq_length [OF sp(1)] .
  have "world_ok ?w"
    using w by (simp add: world_ok_def)
  then have "put_done s GRAVELDB_OK 0 (foldl (entry_write s) (loaded_view s (entry_page s ` set es)) ?es) (entry_page s ` set ?es)
      (put_groups s GRAVELDB_OK ?es ?w)"
    using put_groups_ok [of ?w s ?es] ok geo fits und sp(2) unfolding set len by simp
  then obtain s1 w1 where r: "put_groups s GRAVELDB_OK ?es ?w = Some (GRAVELDB_OK, s1, w1)" "world_ok w1" "bin_ok s1 0"
      "same_shape s s1" "data_view s1 = foldl (entry_write s) (loaded_view s (entry_page s ` set es)) es"
      "dt_marked (bn_dirty s1) = entry_page s ` set es \<union> dt_marked (bn_dirty s)"
      "dt_marked_ckpt (bn_dirty s1) = dt_marked_ckpt (bn_dirty s)" "retains s s1" "\<forall>p \<in> entry_page s ` set es. covered s1 p"
      "fills s (entry_page s ` set es) s1"
    unfolding put_done_def set same_entries [OF geo sp(3)] by blast
  let ?s' = "if dimbin_should_flush s1 then s1\<lparr>bn_flush_needed := True\<rparr> else s1"
  have "bin_ok ?s' 0" "same_shape s ?s'" "bn_dirty ?s' = bn_dirty s1"
    using r(3,4) by (simp_all add: bin_ok_def wb_inv_def keys_ok_def same_shape_def)
  moreover have "data_view ?s' = data_view s1"
    by (rule data_view_cong) simp_all
  moreover have "dimbin_put_batch s es w = Some (GRAVELDB_OK, ?s', w1)"
    using r(1) False ck w geo by (auto simp: dimbin_put_batch_def world_ok_def geo_ok_def Let_def split_beta)
  moreover have "covered ?s' = covered s1"
    by (simp add: covered_def fun_eq_iff)
  moreover have "fills s (entry_page s ` set es) ?s'"
    using r(10) by (simp add: fills_def)
  ultimately show ?thesis
    unfolding put_done_def using r(2,5-9) by (intro exI [of _ ?s'] exI [of _ w1]) (simp add: retains_def covers_def)
qed

end
