(* ===== verification/Bin_Contract.thy ===== *)
theory Bin_Contract
  imports Bin_Put
begin

text \<open>
  What a bin promises to the engine: batches of embeddings, batches of keys, flushes and the page map,
  stated over the bytes and keys that a bin stands for; and two ways in which the promise is broken.
\<close>

subsection \<open>A small bin\<close>

text \<open>Entries of eight bytes, eight of them on a page of 64 bytes, as \<^verbatim>\<open>dimbin_init\<close> builds it.\<close>

definition demo_bin :: "bytes \<Rightarrow> DimBin" where
  "demo_bin data =
     bin_zero\<lparr>bn_dim := 2, bn_page_size := 64, bn_entry_size := 8, bn_entries_per_page := 8, bn_fd := 3, bn_key_fd := 4,
       bn_file := data, bn_data_file_size := of_nat (length data), bn_bump_ptr := of_nat (length data div 8),
       bn_free_capacity := 1024, bn_dirty := dirty_tracker_init 1024,
       bn_write_buf := wb_zero\<lparr>wb_max_pages := 16, wb_capacity := 64, wb_slots := replicate 64 page_slot_empty\<rparr>,
       bn_key_buf := kbt_init True 262144\<rparr>"

lemma demo_pow2: "pow2_mask (unat (64 :: u32)) (64 - 1)"
  using pow2_mask_power [of 6] by simp

lemmas demo_fresh = pm_fresh [OF demo_pow2, simplified]

lemma demo_world_ok: "world_ok (demo_world {})" "all_ok (demo_world {})"
  by (simp_all add: world_ok_def demo_world_def all_ok_def slab_init_inv)

lemma demo_bin_ok: "n \<le> 1000 \<Longrightarrow> bin_ok (demo_bin data) n" "geo_ok (demo_bin data)" "\<not> bn_in_checkpoint (demo_bin data)"
  "bin_pages (demo_bin data) = Map.empty" "wb_inv (demo_bin data)" "keys_ok (demo_bin data)"
proof -
  show w: "wb_inv (demo_bin data)" and k: "keys_ok (demo_bin data)"
    using demo_fresh by (simp_all add: wb_inv_def keys_ok_def demo_bin_def wb_zero_def kbt_init_inv kbt_init_iterate)
  show "geo_ok (demo_bin data)" "\<not> bn_in_checkpoint (demo_bin data)" "bin_pages (demo_bin data) = Map.empty"
    using demo_fresh by (simp_all add: geo_ok_def demo_bin_def bin_zero_def)
  show "bin_ok (demo_bin data) n" if "n \<le> 1000"
    using that w k demo_fresh
    by (simp add: bin_ok_def demo_bin_def wb_zero_def GRAVELDB_MAX_FLUSH_BATCH_def dt_wf_init)
      (simp add: dirty_tracker_init_def Let_def tree_init_def)
qed

lemma demo_view: "data_view (demo_bin data) = fbyte data"
  using data_view_empty [OF demo_bin_ok(4)] by (simp add: demo_bin_def)

lemma demo_fields [simp]:
  "bn_page_size (demo_bin data) = 64" "bn_entry_size (demo_bin data) = 8" "bn_entries_per_page (demo_bin data) = 8"
  "bn_file (demo_bin data) = data" "bn_bump_ptr (demo_bin data) = of_nat (length data div 8)"
  "bn_data_file_size (demo_bin data) = of_nat (length data)" "dt_marked (bn_dirty (demo_bin data)) = {}"
  by (simp_all add: demo_bin_def dt_init_empty)

text \<open>The same bin with its last page, which is not complete yet, in the write buffer.\<close>

definition demo_dirty :: DimBin where
  "demo_dirty = (demo_bin [])\<lparr>bn_write_buf := wb_zero\<lparr>wb_max_pages := 16, wb_capacity := 64, wb_count := 1,
     wb_slots := (replicate 64 page_slot_empty)[0 := \<lparr>ps_page_id = 0, ps_data = Some (4096, replicate 64 5)\<rparr>]\<rparr>\<rparr>"

lemma demo_dirty_slots: "wb_slots (bn_write_buf demo_dirty) = \<lparr>ps_page_id = 0, ps_data = Some (4096, replicate 64 5)\<rparr> # replicate 63 page_slot_empty"
  using replicate_Suc [of 63 page_slot_empty] by (simp add: demo_dirty_def)

lemma probe_hit: "0 < n \<Longrightarrow> stop (xs ! unat h) \<Longrightarrow> probe stop xs m n h = Some h"
  by (cases n) simp_all

lemma demo_dirty_find: "pagemap_find (\<lparr>ps_page_id = 0, ps_data = d\<rparr> # replicate 63 page_slot_empty) 64 0 = Some 0"
  by (simp add: pagemap_find_def page_hash_def probe_hit)

lemma demo_dirty_inv:
  "wb_inv demo_dirty" "pm_used (wb_slots (bn_write_buf demo_dirty)) = 1" "data_view demo_dirty 3 = 5" "kb_count (bn_key_buf demo_dirty) = 0"
  "bin_pages demo_dirty = [0 \<mapsto> Some (4096, replicate 64 5)]"
proof -
  let ?e = "replicate 64 page_slot_empty" and ?x = "\<lparr>ps_page_id = 0, ps_data = Some (4096, replicate 64 5)\<rparr>"
  have "pagemap_find ?e 64 0 = Some 0"
    by (simp add: pagemap_find_def page_hash_def probe_hit page_slot_empty_def)
  note st = pm_store [OF demo_fresh(1) this, of ?x, simplified, unfolded demo_fresh]
  show m: "bin_pages demo_dirty = [0 \<mapsto> Some (4096, replicate 64 5)]"
    using st(2) by (simp add: demo_dirty_def PAGE_SLOT_EMPTY_def UINT32_MAX_def)
  show u: "pm_used (wb_slots (bn_write_buf demo_dirty)) = 1"
    using st(3) by (simp add: demo_dirty_def PAGE_SLOT_EMPTY_def UINT32_MAX_def)
  show "wb_inv demo_dirty"
    using st(1) m u by (auto simp: wb_inv_def) (simp_all add: demo_dirty_def wb_zero_def PAGE_SLOT_EMPTY_def UINT32_MAX_def)
  show "data_view demo_dirty 3 = 5"
    unfolding data_view_def page_of_def m by (simp add: demo_dirty_def)
  show "kb_count (bn_key_buf demo_dirty) = 0"
    by (simp add: demo_dirty_def demo_bin_def kbt_init_def Let_def)
qed

lemma demo_dirty_fields [simp]:
  "bn_page_size demo_dirty = 64" "bn_entry_size demo_dirty = 8" "bn_entries_per_page demo_dirty = 8"
  "dt_marked (bn_dirty demo_dirty) = {}"
  by (simp_all add: demo_dirty_def)

lemma demo_dirty_ok: "bin_ok demo_dirty 1" "geo_ok demo_dirty" "\<not> bn_in_checkpoint demo_dirty"
proof -
  have "keys_ok demo_dirty" "dt_wf (bn_dirty demo_dirty)" "bn_dirty demo_dirty = dirty_tracker_init 1024"
      "wb_max_pages (bn_write_buf demo_dirty) = 16" "wb_capacity (bn_write_buf demo_dirty) = 64"
      "wb_page_pool (bn_write_buf demo_dirty) = []"
    using demo_bin_ok(6) [of "[]"] by (simp_all add: demo_dirty_def keys_ok_def demo_bin_def wb_zero_def dt_wf_init)
  then show "bin_ok demo_dirty 1"
    using demo_dirty_inv(1,2)
    by (simp add: bin_ok_def GRAVELDB_MAX_FLUSH_BATCH_def) (simp add: dirty_tracker_init_def Let_def tree_init_def)
  show "geo_ok demo_dirty" "\<not> bn_in_checkpoint demo_dirty"
    using demo_bin_ok(2,3) [of "[]"] by (simp_all add: demo_dirty_def geo_ok_def)
qed

definition demo_entry :: EmbWriteEntry where
  "demo_entry = \<lparr>ew_entry_id = 1, ew_data = [7, 258]\<rparr>"

lemma demo_entry_ok: "entry_fits demo_dirty demo_entry" "undisturbed demo_dirty (entry_page demo_dirty ` set [demo_entry])"
  "loaded_view demo_dirty (entry_page demo_dirty ` set [demo_entry]) = data_view demo_dirty"
proof -
  show "entry_fits demo_dirty demo_entry"
    by (simp add: demo_entry_def entry_fits_def emb_data_def u32_bytes_def PAGE_SLOT_EMPTY_def UINT32_MAX_def)
  show "undisturbed demo_dirty (entry_page demo_dirty ` set [demo_entry])"
    using demo_dirty_inv(2,5) by (simp add: undisturbed_def buffer_room_def demo_entry_def) (simp add: demo_dirty_def)
  show "loaded_view demo_dirty (entry_page demo_dirty ` set [demo_entry]) = data_view demo_dirty"
    using demo_dirty_inv(5) by (intro loaded_view_kept) (simp add: page_kept_def demo_entry_def)
qed

lemma demo_written:
  "ew_entry_id demo_entry div 8 = 0"
  "entry_write demo_dirty (data_view demo_dirty) demo_entry 3 = 5"
  "entry_write demo_dirty (data_view demo_dirty) demo_entry 8 = 7"
  "entry_write demo_dirty (data_view demo_dirty) demo_entry 12 = 2"
  using demo_dirty_inv(3) by (simp_all add: demo_entry_def entry_write_def entry_off_def emb_data_def u32_bytes_def)

subsection \<open>Batches of embeddings\<close>

text \<open>
  C4. A batch of writes to a sound bin outside of a checkpoint, when no allocation and no system call fails
  and no counter of the bin is near its bound, changes the
  bytes of its entries in the order of the batch, and marks exactly their pages dirty; the sorting by
  pages and the growth of the page map do not show. This holds when the write buffer has room for the
  pages of the batch, so that nothing is evicted on the way, or else when each of these pages is either
  complete in the file or still empty. What is written over is exactly this: pages of the batch that are
  buffered or complete in the file keep their bytes, as do all other pages, and a page of the batch that is
  neither is cleared, whether or not the file has older entries on it.
\<close>

theorem dimbin_put_batch_view:
  assumes "world_ok w" and "bin_ok s (length es)" and "geo_ok s" and "\<not> bn_in_checkpoint s"
    and "\<forall>x \<in> set es. entry_fits s x" and "undisturbed s (entry_page s ` set es)"
  shows "\<exists>s' w'. dimbin_put_batch s es w = Some (GRAVELDB_OK, s', w') \<and> bin_ok s' 0 \<and> same_shape s s' \<and>
    data_view s' = foldl (entry_write s) (loaded_view s (entry_page s ` set es)) es \<and>
    dt_marked (bn_dirty s') = entry_page s ` set es \<union> dt_marked (bn_dirty s)"
  using dimbin_put_batch_ok [OF assms] unfolding put_done_def by blast

theorem dimbin_put_batch_view_witness:
  "\<exists>s' w'. data_view demo_dirty 3 = 5 \<and> dimbin_put_batch demo_dirty [demo_entry] (demo_world {}) = Some (GRAVELDB_OK, s', w') \<and>
     data_view s' 3 = 5 \<and> data_view s' 8 = 7 \<and> data_view s' 12 = 2 \<and> dt_marked (bn_dirty s') = {0}"
proof -
  have "\<exists>s' w'. dimbin_put_batch demo_dirty [demo_entry] (demo_world {}) = Some (GRAVELDB_OK, s', w') \<and>
    bin_ok s' 0 \<and> same_shape demo_dirty s' \<and>
    data_view s' = foldl (entry_write demo_dirty) (loaded_view demo_dirty (entry_page demo_dirty ` set [demo_entry])) [demo_entry] \<and>
    dt_marked (bn_dirty s') = entry_page demo_dirty ` set [demo_entry] \<union> dt_marked (bn_dirty demo_dirty)"
    by (rule dimbin_put_batch_view) (use demo_world_ok demo_dirty_ok demo_entry_ok in simp_all)
  then show ?thesis
    unfolding demo_entry_ok(3) using demo_dirty_inv(3) by (elim ex_forward conjE) (simp add: demo_written)
qed

text \<open>
  C3. What a batch of writes to a sound bin outside of a checkpoint writes is on disk after a flush, when no
  call fails and no counter of the bin is near its bound: the bytes of the data file are those
  that the bin stood for, with the entries of the batch replaced, and nothing is left in the write
  buffer; the buffered keys are in the key file. As for the batch alone, the write buffer must have room
  for the pages of the batch, or these must be complete in the file or still empty; and a page of the batch
  that is neither buffered nor complete in the file is cleared before it is written.
\<close>

theorem dimbin_put_flush_roundtrip:
  assumes "world_ok w" and "bin_ok s (length es)" and "geo_ok s" and "\<not> bn_in_checkpoint s"
    and "\<forall>x \<in> set es. entry_fits s x" and "undisturbed s (entry_page s ` set es)"
  shows "\<exists>s1 w1 s2 w2. dimbin_put_batch s es w = Some (GRAVELDB_OK, s1, w1) \<and>
    dimbin_flush s1 sync w1 = Some (GRAVELDB_OK, s2, w2) \<and> wb_inv s2 \<and> bin_pages s2 = Map.empty \<and>
    fbyte (bn_file s2) = foldl (entry_write s) (loaded_view s (entry_page s ` set es)) es \<and>
    (\<forall>i. key_at (bn_key_file s2) i =
       (case map_of (map (\<lambda>(i, v). (unat i, v)) (kbt_iterate (bn_key_buf s1))) i of
          Some v \<Rightarrow> v | None \<Rightarrow> key_at (bn_key_file s1) i))"
proof -
  obtain s1 w1 where p: "dimbin_put_batch s es w = Some (GRAVELDB_OK, s1, w1)" "world_ok w1" "bin_ok s1 0"
      "data_view s1 = foldl (entry_write s) (loaded_view s (entry_page s ` set es)) es"
    using dimbin_put_batch_ok [OF assms] unfolding put_done_def by blast
  have "all_ok w1" "wb_inv s1" "keys_ok s1" "pm_used (wb_slots (bn_write_buf s1)) \<le> GRAVELDB_MAX_FLUSH_BATCH"
      "length (wb_page_pool (bn_write_buf s1)) + pm_used (wb_slots (bn_write_buf s1)) < 2 ^ 31"
    using p(2,3) by (simp_all add: world_ok_def bin_ok_def Let_def)
  from dimbin_flush_ok [OF this, of sync] obtain s2 w2 where "dimbin_flush s1 sync w1 = Some (GRAVELDB_OK, s2, w2)"
      "flushed s1 s2" "\<forall>i. key_at (bn_key_file s2) i =
       (case map_of (map (\<lambda>(i, v). (unat i, v)) (kbt_iterate (bn_key_buf s1))) i of
          Some v \<Rightarrow> v | None \<Rightarrow> key_at (bn_key_file s1) i)"
    by auto
  then show ?thesis
    using p(1,4) unfolding flushed_def
    by (intro exI [of _ s1] exI [of _ w1] exI [of _ s2] exI [of _ w2]) simp
qed

theorem dimbin_put_flush_roundtrip_witness:
  "\<exists>s1 w1 s2 w2. dimbin_put_batch demo_dirty [demo_entry] (demo_world {}) = Some (GRAVELDB_OK, s1, w1) \<and>
     dimbin_flush s1 True w1 = Some (GRAVELDB_OK, s2, w2) \<and> fbyte (bn_file s2) 3 = 5 \<and> fbyte (bn_file s2) 8 = 7"
proof -
  have ok: "bin_ok demo_dirty (length [demo_entry])" "\<forall>x \<in> set [demo_entry]. entry_fits demo_dirty x"
    using demo_dirty_ok(1) demo_entry_ok(1) by simp_all
  show ?thesis
    using dimbin_put_flush_roundtrip [OF demo_world_ok(1) ok(1) demo_dirty_ok(2,3) ok(2) demo_entry_ok(2), of True]
    unfolding demo_entry_ok(3) by (elim ex_forward conjE) (simp add: demo_written)
qed

subsection \<open>Batches of keys\<close>

text \<open>
  C34. Writing a batch of keys page by page, with its sorting into sparse and dense pages, leaves the same
  keys as writing each of them alone.
\<close>

theorem dimbin_put_keys_batch_equiv:
  assumes "all_ok w" and "\<forall>e \<in> set es. unat (kw_entry_idx e) * 8 < unat (bn_key_file_size s)"
    and "distinct (map kw_entry_idx es)"
  shows "\<exists>s' w'. dimbin_put_keys_batch s es w = Some (s', w') \<and>
    fbyte (bn_key_file s') = fbyte (bn_key_file (fst (put_each_key s es w)))"
proof -
  obtain r where "dimbin_put_keys_batch s es w = Some r" "keys_done s w (map kwe_pair es) r"
    using put_keys_batch_done [OF assms] by blast
  with put_each_done [OF assms(1), of s es] show ?thesis
    by (cases r) (auto simp: keys_done_def)
qed

theorem dimbin_put_keys_batch_equiv_witness:
  "let s = (demo_bin [])\<lparr>bn_key_file_size := 8192\<rparr>;
       es = map (\<lambda>i. \<lparr>kw_entry_idx = i, kw_feat_id = 70 + ucast i\<rparr>) [5, 2, 3, 4, 600]
   in \<exists>s' w'. dimbin_put_keys_batch s es (demo_world {}) = Some (s', w') \<and>
        fbyte (bn_key_file s') = fbyte (bn_key_file (fst (put_each_key s es (demo_world {}))))"
  unfolding Let_def by (rule dimbin_put_keys_batch_equiv) (simp_all add: demo_world_ok)

subsection \<open>Lost writes\<close>

lemma flush_runs_frame:
  assumes "flush_runs u s pgs fs = Some (s', fs')"
  shows "\<exists>b. s' = s\<lparr>bn_write_buf := (bn_write_buf s)\<lparr>wb_flush_bytes := b\<rparr>\<rparr>"
  using assms
proof (induction pgs arbitrary: s fs rule: length_induct)
  case (1 pgs)
  show ?case
  proof (cases pgs)
    case Nil
    then show ?thesis
      using 1(2) by (auto intro: exI [of _ "wb_flush_bytes (bn_write_buf s)"])
  next
    case (Cons pg qs)
    obtain run rest where r: "run_split (\<lambda>p q. q \<le> p + PEEPHOLE_GAP_MAX + 1) pg qs = (run, rest)"
      by fastforce
    let ?s = "s\<lparr>bn_write_buf := (bn_write_buf s)\<lparr>wb_flush_bytes :=
      wb_flush_bytes (bn_write_buf s) + of_nat (length (pg # run)) * ucast (bn_page_size s)\<rparr>\<rparr>"
    obtain fs1 where "flush_runs u ?s rest fs1 = Some (s', fs')"
      using 1(2) Cons r by (auto simp: Let_def split: bind_splits)
    moreover have "length rest < length pgs"
      using run_split_le [OF r [symmetric]] Cons by simp
    ultimately obtain b where "s' = ?s\<lparr>bn_write_buf := (bn_write_buf ?s)\<lparr>wb_flush_bytes := b\<rparr>\<rparr>"
      using 1(1) by blast
    then show ?thesis
      by (intro exI [of _ b]) simp
  qed
qed

lemma recycle_pages_frame:
  "recycle_pages False wb pgs w = Some (wb', w') \<Longrightarrow> wb_capacity wb' = wb_capacity wb"
proof (induction pgs arbitrary: wb w)
  case (Cons pg pgs)
  then show ?case
    by (fastforce simp: Let_def write_buf_recycle_page_def split_beta split: bind_splits if_split_asm)
qed simp

lemma pm_used_0: "pm_used slots = 0 \<Longrightarrow> pm_map slots = Map.empty"
  by (simp add: pm_map_def oa_map_def n_occ_def)

lemma flush_pages_drops:
  assumes inv: "wb_inv s" and few: "pm_used (wb_slots (bn_write_buf s)) \<le> GRAVELDB_MAX_FLUSH_BATCH"
    and r: "flush_pages s sync w = Some (rc, s', w')"
  shows "bin_pages s' = Map.empty"
proof (cases "wb_count (bn_write_buf s) = 0")
  case True
  then show ?thesis
    using r inv pm_used_0 by (auto simp: flush_pages_def wb_inv_def Let_def)
next
  case False
  let ?d = "dirty_pages_of (bn_write_buf s)"
  have len: "length ?d = unat (wb_count (bn_write_buf s))"
    using inv few by (simp add: wb_inv_def dirty_pages_of_def n_occ_def Let_def)
  then have "?d \<noteq> []"
    using False by (auto simp: unat_eq_zero)
  then obtain s1 fs1 wb where f: "flush_runs (fst (uring_io_init w) = 0) s ?d
        \<lparr>fs_rc = GRAVELDB_OK, fs_file = bn_file s, fs_ctx = snd (uring_io_init w), fs_world = w\<rparr> = Some (s1, fs1)"
      "finish_flush (bn_write_buf s1) ?d (fs_world (flush_sync (fst (uring_io_init w) = 0) sync fs1)) = Some (wb, w')"
      "bn_write_buf s' = wb"
    using r False by (auto simp: flush_pages_def Let_def split_beta split: bind_splits)
  obtain b where s1: "s1 = s\<lparr>bn_write_buf := (bn_write_buf s)\<lparr>wb_flush_bytes := b\<rparr>\<rparr>"
    using flush_runs_frame [OF f(1)] by blast
  have "\<exists>n. wb_slots wb = replicate n page_slot_empty"
    using f(2) len unfolding finish_flush_def s1 by (auto simp: Let_def split: bind_splits)
  then show ?thesis
    using pm_fresh(2) [OF demo_pow2] f(3) by auto
qed

text \<open>
  C31. A flush of a bin without buffered keys empties the write buffer even when a write failed: whatever it returns, the bin stands for
  the bytes of the file afterwards, and the pages that did not reach the file are gone.
\<close>

theorem dimbin_flush_forgets:
  assumes "wb_inv s" and "pm_used (wb_slots (bn_write_buf s)) \<le> GRAVELDB_MAX_FLUSH_BATCH"
    and "kb_count (bn_key_buf s) = 0" and "dimbin_flush s sync w = Some (rc, s', w')"
  shows "bin_pages s' = Map.empty \<and> data_view s' = fbyte (bn_file s')"
proof -
  have "flush_pages (s\<lparr>bn_flush_needed := False\<rparr>) sync w = Some (rc, s', w')"
    using assms(3,4) by (simp add: dimbin_flush_def dimbin_flush_keys_def Let_def)
  then have "bin_pages s' = Map.empty"
    by (rule flush_pages_drops [rotated 2]) (use assms(1,2) in \<open>simp_all add: wb_inv_def\<close>)
  then show ?thesis
    by (simp add: data_view_empty)
qed

lemma demo_dirty_flush:
  "\<exists>s' w'. dimbin_flush demo_dirty True (demo_world {0}) = Some (GRAVELDB_ERR_IO, s', w') \<and> bn_file s' = []"
proof -
  have d: "dirty_pages_of (bn_write_buf demo_dirty) = [0]" "wb_capacity (bn_write_buf demo_dirty) = 64"
      "bn_page_size demo_dirty = 64" "bn_file demo_dirty = []" "wb_count (bn_write_buf demo_dirty) = 1"
      "wb_page_pool (bn_write_buf demo_dirty) = []" "wb_pool_capacity (bn_write_buf demo_dirty) = 0"
    by (simp_all add: dirty_pages_of_def demo_dirty_slots PAGE_SLOT_EMPTY_def UINT32_MAX_def page_slot_empty_def GRAVELDB_MAX_FLUSH_BATCH_def)
      (simp_all add: demo_dirty_def wb_zero_def)
  show ?thesis
    by (simp add: dimbin_flush_def dimbin_flush_keys_def flush_pages_def Let_def split_beta d demo_dirty_inv(4)
        flush_chunks.simps flush_chunk_def FLUSH_IOV_MAX_def demo_dirty_slots demo_dirty_find write_bufs_def
        uring_io_init_def uring_io_submit_write_def pwrite_def ask_def demo_world_def flush_sync_def
        uring_io_submit_fsyncs_def uring_io_wait_def finish_flush_def write_buf_recycle_page_def)
qed

theorem dimbin_flush_forgets_witness:
  "\<exists>s' w'. data_view demo_dirty 3 = 5 \<and>
     dimbin_flush demo_dirty True (demo_world {0}) = Some (GRAVELDB_ERR_IO, s', w') \<and> data_view s' 3 = 0"
proof -
  obtain s' w' where r: "dimbin_flush demo_dirty True (demo_world {0}) = Some (GRAVELDB_ERR_IO, s', w')" "bn_file s' = []"
    using demo_dirty_flush by blast
  have "data_view s' = fbyte (bn_file s')"
    using dimbin_flush_forgets [OF demo_dirty_inv(1) _ demo_dirty_inv(4) r(1)] demo_dirty_inv(2)
    by (simp add: GRAVELDB_MAX_FLUSH_BATCH_def)
  then show ?thesis
    using r demo_dirty_inv(3) by (intro exI [of _ s'] exI [of _ w']) (simp add: fbyte_def)
qed

lemma dimbin_put_one:
  assumes w: "world_ok w" and ok: "bin_ok s (Suc n)" and geo: "geo_ok s" and ck: "\<not> bn_in_checkpoint s" and fits: "entry_fits s x"
  shows "put_done s GRAVELDB_OK n (entry_write s (ensured_view s (entry_page s x)) x) {entry_page s x} (dimbin_put_batch s [x] w)"
proof -
  obtain s1 w1 where r: "put_page s (entry_page s x) GRAVELDB_OK [x] w = Some (GRAVELDB_OK, s1, w1)" "world_ok w1" "bin_ok s1 n"
      "same_shape s s1" "data_view s1 = entry_write s (ensured_view s (entry_page s x)) x"
      "dt_marked (bn_dirty s1) = {entry_page s x} \<union> dt_marked (bn_dirty s)"
      "dt_marked_ckpt (bn_dirty s1) = dt_marked_ckpt (bn_dirty s)" "retains s s1" "covered s1 (entry_page s x)" "fills s {entry_page s x} s1"
    using put_page_ok [of w s n "[x]" "entry_page s x" GRAVELDB_OK] assms unfolding put_done_def by (auto simp: entry_fits_def)
  let ?s' = "if dimbin_should_flush s1 then s1\<lparr>bn_flush_needed := True\<rparr> else s1"
  have "bin_ok ?s' n" "same_shape s ?s'" "bn_dirty ?s' = bn_dirty s1"
    using r(3,4) by (simp_all add: bin_ok_def wb_inv_def keys_ok_def same_shape_def)
  moreover have "data_view ?s' = data_view s1"
    by (rule data_view_cong) simp_all
  moreover have "dimbin_put_batch s [x] w = Some (GRAVELDB_OK, ?s', w1)"
    using r(1) ck geo by (auto simp: dimbin_put_batch_def geo_ok_def Let_def sort_by_page_def)
  moreover have "covered ?s' = covered s1"
    by (simp add: covered_def fun_eq_iff)
  moreover have "fills s {entry_page s x} ?s'"
    using r(10) by (simp add: fills_def)
  ultimately show ?thesis
    unfolding put_done_def using r(2,5-9) by (intro exI [of _ ?s'] exI [of _ w1]) (simp add: retains_def covers_def)
qed

text \<open>
  C32. A write to the last, partly filled page loses the older entries of that page when the page is no longer
  buffered: it is not read back from the file, because only full pages count as committed.
\<close>

theorem dimbin_put_clears_partial_page:
  assumes "world_ok w" and "bin_ok s 1" and "geo_ok s" and "\<not> bn_in_checkpoint s" and "entry_fits s x"
    and "bin_pages s (entry_page s x) = None"
    and "ucast (bn_bump_ptr s div ucast (bn_entries_per_page s)) \<le> entry_page s x"
  shows "\<exists>s' w'. dimbin_put_batch s [x] w = Some (GRAVELDB_OK, s', w') \<and>
    (\<forall>off. off div unat (bn_page_size s) = unat (entry_page s x) \<longrightarrow>
       data_view s' off = entry_write s (\<lambda>_. 0) x off)"
proof -
  have "\<not> page_kept s (entry_page s x)"
    using assms(6,7) by (auto simp: page_kept_def)
  then show ?thesis
    using dimbin_put_one [OF assms(1) assms(2) [unfolded One_nat_def] assms(3-5)] unfolding put_done_def
    by (elim ex_forward conjE) (simp add: ensured_view_def entry_write_def Let_def)
qed

theorem dimbin_put_clears_partial_page_witness:
  "\<exists>s' w'. data_view (demo_bin (replicate 8 3)) 0 = 3 \<and>
     dimbin_put_batch (demo_bin (replicate 8 3)) [\<lparr>ew_entry_id = 1, ew_data = [7, 258]\<rparr>] (demo_world {}) =
       Some (GRAVELDB_OK, s', w') \<and> data_view s' 0 = 0 \<and> data_view s' 8 = 7"
proof -
  let ?s = "demo_bin (replicate 8 3)" and ?x = "\<lparr>ew_entry_id = 1, ew_data = [7, 258]\<rparr> :: EmbWriteEntry"
  have ok: "bin_ok ?s 1"
    by (rule demo_bin_ok) simp
  have fits: "entry_fits ?s ?x" "bin_pages ?s (entry_page ?s ?x) = None"
      "ucast (bn_bump_ptr ?s div ucast (bn_entries_per_page ?s)) \<le> entry_page ?s ?x"
    using demo_bin_ok(4) by (simp_all add: entry_fits_def emb_data_def u32_bytes_def PAGE_SLOT_EMPTY_def UINT32_MAX_def)
  from dimbin_put_clears_partial_page [OF demo_world_ok(1) ok demo_bin_ok(2,3) fits]
  obtain s' w' where r: "dimbin_put_batch ?s [?x] (demo_world {}) = Some (GRAVELDB_OK, s', w')"
      "\<And>off. off div unat (bn_page_size ?s) = unat (entry_page ?s ?x) \<Longrightarrow> data_view s' off = entry_write ?s (\<lambda>_. 0) ?x off"
    by blast
  show ?thesis
    using r(1) r(2) [of 0] r(2) [of 8]
    by (intro exI [of _ s'] exI [of _ w'])
      (simp add: demo_view fbyte_def entry_write_def entry_off_def emb_data_def u32_bytes_def)
qed

subsection \<open>The page map\<close>

text \<open>
  Deleting a page from the map by shifting the pages behind it backwards deletes this page and no other,
  and keeps every remaining page reachable by its probe sequence.
\<close>

theorem pagemap_remove_map:
  assumes "pm_inv capacity slots" and "pm_used slots < length slots"
    and "unat rm_idx < length slots" and "ps_occ (slots ! unat rm_idx)"
  shows "\<exists>slots'. pagemap_remove slots capacity rm_idx = Some slots' \<and> pm_inv capacity slots' \<and>
    pm_map slots' = (pm_map slots)(ps_page_id (slots ! unat rm_idx) := None) \<and> Suc (pm_used slots') = pm_used slots"
  using pagemap_remove_ok [OF assms] by blast

theorem pagemap_remove_map_witness:
  "\<exists>slots'. pagemap_remove (wb_slots (bn_write_buf demo_dirty)) 64 0 = Some slots' \<and> pm_map slots' = Map.empty"
proof -
  let ?sl = "wb_slots (bn_write_buf demo_dirty)"
  have "pm_inv 64 ?sl" "pm_used ?sl < length ?sl"
    using demo_dirty_inv(1) by (simp_all add: wb_inv_def Let_def) (simp add: demo_dirty_def)
  moreover have "unat 0 < length ?sl" "ps_occ (?sl ! unat (0 :: u32))"
    by (simp_all add: demo_dirty_slots PAGE_SLOT_EMPTY_def UINT32_MAX_def)
  ultimately have "\<exists>slots'. pagemap_remove ?sl 64 0 = Some slots' \<and> pm_inv 64 slots' \<and>
      pm_map slots' = (pm_map ?sl)(ps_page_id (?sl ! unat (0 :: u32)) := None) \<and> Suc (pm_used slots') = pm_used ?sl"
    by (rule pagemap_remove_map)
  then show ?thesis
    using pm_used_0 demo_dirty_inv(2) by auto
qed

end
