(* ===== verification/File_System.thy ===== *)
theory File_System
  imports File_Io "HOL-Library.AList"
begin

text \<open>
  Files by their paths: opening, reading and writing through descriptors, renaming and removing, and the
  names that the program builds with \<^verbatim>\<open>snprintf\<close> and takes apart with \<^verbatim>\<open>sscanf\<close>. A descriptor of a file
  that is written is its path, since every such file is written at its end; a descriptor of a file that
  is read is the contents with a position. Directories are not modelled: \<^verbatim>\<open>ensure_dir\<close> has no effect,
  and a directory that could not be created shows as a failing \<^verbatim>\<open>open\<close>.
\<close>

subsection \<open>Files\<close>

definition file_at :: "World \<Rightarrow> string \<Rightarrow> bytes option" where
  "file_at w path = map_of (w_files w) path"

definition put_file :: "string \<Rightarrow> bytes \<Rightarrow> World \<Rightarrow> World" where
  "put_file path f w = w\<lparr>w_files := AList.update path f (w_files w)\<rparr>"

definition contents :: "World \<Rightarrow> string \<Rightarrow> bytes" where
  "contents w path = (case file_at w path of None \<Rightarrow> [] | Some f \<Rightarrow> f)"

text \<open>\<^verbatim>\<open>open(path, O_WRONLY | O_CREAT | O_TRUNC, 0644)\<close>\<close>

definition open_trunc :: "string \<Rightarrow> World \<Rightarrow> bool \<times> World" where
  "open_trunc path w = (let (ok, w) = ask w in if ok then (True, put_file path [] w) else (False, w))"

text \<open>\<^verbatim>\<open>open(path, O_RDONLY)\<close>\<close>

definition open_rdonly :: "string \<Rightarrow> World \<Rightarrow> bytes option \<times> World" where
  "open_rdonly path w = (let (ok, w) = ask w in (if ok then file_at w path else None, w))"

text \<open>\<^verbatim>\<open>write\<close> at the end of a file, and \<^verbatim>\<open>pwrite\<close>.\<close>

definition fd_write :: "string \<Rightarrow> bytes \<Rightarrow> World \<Rightarrow> int \<times> World" where
  "fd_write path bs w =
     (let f = contents w path; (wr, f, w) = pwrite f (length f) bs w in (wr, put_file path f w))"

definition fd_pwrite :: "string \<Rightarrow> nat \<Rightarrow> bytes \<Rightarrow> World \<Rightarrow> int \<times> World" where
  "fd_pwrite path off bs w =
     (let (wr, f, w) = pwrite (contents w path) off bs w in (wr, put_file path f w))"

text \<open>\<^verbatim>\<open>read\<close>: the bytes, \<open>None\<close> for -1, and the position after the call.\<close>

definition fd_read :: "bytes \<Rightarrow> nat \<Rightarrow> nat \<Rightarrow> World \<Rightarrow> bytes option \<times> nat \<times> World" where
  "fd_read f pos n w =
     (let (r, w) = pread f pos n w in (r, pos + (case r of None \<Rightarrow> 0 | Some bs \<Rightarrow> length bs), w))"

definition unlink :: "string \<Rightarrow> World \<Rightarrow> bool \<times> World" where
  "unlink path w =
     (let (ok, w) = ask w in
      if ok \<and> file_at w path \<noteq> None then (True, w\<lparr>w_files := AList.delete path (w_files w)\<rparr>) else (False, w))"

definition rename :: "string \<Rightarrow> string \<Rightarrow> World \<Rightarrow> bool \<times> World" where
  "rename from_path to_path w =
     (let (ok, w) = ask w in
      case file_at w from_path of
        None \<Rightarrow> (False, w)
      | Some f \<Rightarrow>
          if \<not> ok then (False, w)
          else (True, put_file to_path f (w\<lparr>w_files := AList.delete from_path (w_files w)\<rparr>)))"

lemma file_at_put [simp]: "file_at (put_file p f w) q = (if q = p then Some f else file_at w q)"
  by (simp add: file_at_def put_file_def update_conv')

lemma contents_put [simp]: "contents (put_file p f w) q = (if q = p then f else contents w q)"
  by (simp add: contents_def)

lemma put_file_fields [simp]:
  "w_alloc (put_file p f w) = w_alloc w" "w_portable (put_file p f w) = w_portable w" "w_tick (put_file p f w) = w_tick w"
  "w_ok (put_file p f w) = w_ok w" "w_addr (put_file p f w) = w_addr w" "all_ok (put_file p f w) = all_ok w"
  by (simp_all add: put_file_def all_ok_def)

lemma ask_files [simp]:
  "file_at (snd (ask w)) = file_at w" "file_at (snd (ask_mem w)) = file_at w"
  "file_at (w\<lparr>w_alloc := a\<rparr>) = file_at w" "contents (snd (ask w)) = contents w"
  by (simp_all add: ask_def ask_mem_def file_at_def contents_def fun_eq_iff)

lemma put_file_put_file [simp]: "file_at (put_file p g (put_file p f w)) = file_at (put_file p g w)"
  by (simp add: fun_eq_iff)

text \<open>What the calls do when none fails.\<close>

lemma open_trunc_ok: "all_ok w \<Longrightarrow> open_trunc p w = (True, put_file p [] (snd (ask w)))"
  by (simp add: open_trunc_def split_beta)

lemma open_rdonly_ok: "all_ok w \<Longrightarrow> open_rdonly p w = (file_at w p, snd (ask w))"
  by (simp add: open_rdonly_def split_beta)

lemma file_write_end: "file_write f (length f) bs = f @ bs"
  by (simp add: file_write_def)

lemma fd_write_ok:
  "all_ok w \<Longrightarrow> fd_write p bs w = (int (length bs), put_file p (contents w p @ bs) (snd (ask w)))"
  by (simp add: fd_write_def pwrite_ok file_write_end)

lemma fd_pwrite_ok:
  "all_ok w \<Longrightarrow> fd_pwrite p off bs w = (int (length bs), put_file p (file_write (contents w p) off bs) (snd (ask w)))"
  by (simp add: fd_pwrite_def pwrite_ok)

lemma pread_ok: "all_ok w \<Longrightarrow> pread f off n w = (Some (file_read f off n), snd (ask w))"
  by (simp add: pread_def ask_def all_ok_def)

lemma fd_read_ok:
  "all_ok w \<Longrightarrow> fd_read f pos n w = (Some (file_read f pos n), pos + min n (length f - pos), snd (ask w))"
  by (simp add: fd_read_def pread_ok file_read_def min.commute)

subsection \<open>Names\<close>

text \<open>Decimal numbers: \<^verbatim>\<open>%d\<close>, \<^verbatim>\<open>%llu\<close> and \<^verbatim>\<open>%04llu\<close>.\<close>

definition digit :: "nat \<Rightarrow> char" where
  "digit d = char_of (48 + d)"

fun dec_nat :: "nat \<Rightarrow> string" where
  "dec_nat n = (if n < 10 then [digit n] else dec_nat (n div 10) @ [digit (n mod 10)])"

declare dec_nat.simps [simp del]

definition dec_int :: "int \<Rightarrow> string" where
  "dec_int i = (if i < 0 then CHR ''-'' # dec_nat (nat (- i)) else dec_nat (nat i))"

definition dec_pad4 :: "nat \<Rightarrow> string" where
  "dec_pad4 n = (let s = dec_nat n in replicate (4 - length s) CHR ''0'' @ s)"

text \<open>\<^verbatim>\<open>snprintf\<close> into a buffer of the given size cuts the text off.\<close>

definition snprintf :: "nat \<Rightarrow> string \<Rightarrow> string" where
  "snprintf bufsize text = take (bufsize - 1) text"

text \<open>
  The conversions \<^verbatim>\<open>%llu\<close> and \<^verbatim>\<open>%d\<close> of \<^verbatim>\<open>sscanf\<close>: white space, an optional sign and at least one
  digit. A number out of range becomes the largest value of the type that the C library converts to,
  64 bits wide in both cases; for \<^verbatim>\<open>%d\<close> the result is then cut down to 32 bits.
\<close>

definition is_digit :: "char \<Rightarrow> bool" where
  "is_digit c \<longleftrightarrow> 48 \<le> (of_char c :: nat) \<and> (of_char c :: nat) \<le> 57"

definition is_space :: "char \<Rightarrow> bool" where
  "is_space c \<longleftrightarrow> (of_char c :: nat) = 32 \<or> 9 \<le> (of_char c :: nat) \<and> (of_char c :: nat) \<le> 13"

definition num_of :: "string \<Rightarrow> nat" where
  "num_of ds = foldl (\<lambda>n c. n * 10 + (of_char c - 48)) 0 ds"

definition scan_number :: "string \<Rightarrow> (int \<times> string) option" where
  "scan_number s =
     (let s = dropWhile is_space s;
          neg = (s \<noteq> [] \<and> hd s = CHR ''-'');
          s = (if s \<noteq> [] \<and> (hd s = CHR ''-'' \<or> hd s = CHR ''+'') then tl s else s);
          ds = takeWhile is_digit s
      in if ds = [] then None
         else Some (if neg then - int (num_of ds) else int (num_of ds), dropWhile is_digit s))"

definition to_ull :: "int \<Rightarrow> u64" where
  "to_ull v = (if \<bar>v\<bar> < 2 ^ 64 then word_of_int v else - 1)"

definition to_int32 :: "int \<Rightarrow> int" where
  "to_int32 v = (let v = max (- (2 ^ 63)) (min (2 ^ 63 - 1) v) in (v + 2 ^ 31) mod 2 ^ 32 - 2 ^ 31)"

definition strip_prefix :: "string \<Rightarrow> string \<Rightarrow> string option" where
  "strip_prefix p s = (if take (length p) s = p then Some (drop (length p) s) else None)"

end
