(* ===== verification/Ckpt_Files.thy ===== *)
theory Ckpt_Files
  imports Dim_Bin File_System
begin

text \<open>
  The files of a checkpoint in \<^verbatim>\<open>src/checkpoint.c\<close>: delta files with the pages that changed, full
  copies of the data file, and the metadata file with the generation. A delta file is a header and,
  for every run of consecutive dirty pages, an entry with its first page and its length followed by
  the contents of the pages.
\<close>

subsection \<open>Names\<close>

definition GRAVELDB_DELTA_MAGIC :: u32 where
  "GRAVELDB_DELTA_MAGIC = 0x44454C54"

definition GRAVELDB_MAX_DIRTY :: nat where
  "GRAVELDB_MAX_DIRTY = 2 ^ 20"

definition META_MAGIC :: u32 where
  "META_MAGIC = 0x4D455441"

record BinMeta =
  bm_magic :: u32
  bm_generation :: u64
  bm_checksum :: u32

definition ckpt_dir_path :: "string \<Rightarrow> string" where
  "ckpt_dir_path data_dir = snprintf 512 (data_dir @ ''/ckpt'')"

definition delta_file_path :: "string \<Rightarrow> u64 \<Rightarrow> int \<Rightarrow> string" where
  "delta_file_path data_dir generation dim =
     snprintf 512 (data_dir @ ''/ckpt/gen_'' @ dec_pad4 (unat generation) @ ''_d'' @ dec_int dim @ ''_delta.bin'')"

definition full_file_path :: "string \<Rightarrow> u64 \<Rightarrow> int \<Rightarrow> string" where
  "full_file_path data_dir generation dim =
     snprintf 512 (snprintf 512 (data_dir @ ''/ckpt/gen_'' @ dec_pad4 (unat generation) @ ''_full'') @
       ''/emb_d'' @ dec_int dim @ ''.bin'')"

definition meta_file_path :: "string \<Rightarrow> int \<Rightarrow> string" where
  "meta_file_path data_dir dim = snprintf 512 (data_dir @ ''/emb_d'' @ dec_int dim @ ''.meta'')"

definition meta_tmp_path :: "string \<Rightarrow> int \<Rightarrow> string" where
  "meta_tmp_path data_dir dim = snprintf 512 (data_dir @ ''/emb_d'' @ dec_int dim @ ''.meta.tmp'')"

subsection \<open>Delta files\<close>

definition delta_header :: "DimBin \<Rightarrow> DeltaHeader" where
  "delta_header s =
     \<lparr>dh_magic = GRAVELDB_DELTA_MAGIC, dh_version = 1, dh_generation = dt_generation (bn_dirty s),
      dh_dim = word_of_int (bn_dim s), dh_entry_size = ucast (bn_entry_size s), dh_bump_ptr = bn_bump_ptr s,
      dh_num_entries = 0, dh_checksum = 0\<rparr>"

definition encode_delta_hdr :: "DeltaHeader \<Rightarrow> bytes" where
  "encode_delta_hdr h = wire_encode_delta_hdr (replicate WIRE_DELTA_HDR_SIZE 0) h"

definition encode_delta_entry :: "u32 \<Rightarrow> u32 \<Rightarrow> bytes" where
  "encode_delta_entry pg_start pg_count = wire_encode_delta_entry (replicate WIRE_DELTA_ENTRY_SIZE 0) pg_start pg_count"

text \<open>
  One run of pages is written when it could be read in full; the result is the run as it was written,
  \<open>None\<close> when any of the four calls failed. What a failed \<^verbatim>\<open>write\<close> left in the file stays there.
\<close>

definition dump_run :: "DimBin \<Rightarrow> string \<Rightarrow> u32 \<Rightarrow> nat \<Rightarrow> World \<Rightarrow> bytes option \<times> World" where
  "dump_run s path pg_start pg_count w =
     (let byte_len = pg_count * unat (bn_page_size s);
          entry_buf = encode_delta_entry pg_start (of_nat pg_count);
          (mem_ok, w) = ask w
      in if \<not> mem_ok then (None, w)
         else
           let (rd, w) = pread (bn_file s) (unat pg_start * unat (bn_page_size s)) byte_len w in
           case rd of
             None \<Rightarrow> (None, w)
           | Some buf \<Rightarrow>
               if length buf \<noteq> byte_len then (None, w)
               else
                 let (wr, w) = fd_write path entry_buf w in
                 if wr \<noteq> int WIRE_DELTA_ENTRY_SIZE then (None, w)
                 else
                   let (wr, w) = fd_write path buf w in
                   if wr \<noteq> int byte_len then (None, w) else (Some (entry_buf @ buf), w))"

record DumpState =
  du_crc :: u32
  du_bytes :: u64
  du_entries :: u32
  du_world :: World

function dump_runs :: "DimBin \<Rightarrow> string \<Rightarrow> u32 list \<Rightarrow> DumpState \<Rightarrow> DumpState" where
  "dump_runs s path [] d = d"
| "dump_runs s path (pg # pgs) d =
     (let (run, rest) = run_split (\<lambda>p q. q = p + 1) pg pgs;
          (r, w) = dump_run s path pg (length (pg # run)) (du_world d);
          d = (case r of
                 None \<Rightarrow> d\<lparr>du_world := w\<rparr>
               | Some bs \<Rightarrow>
                   d\<lparr>du_crc := crc32_update (du_crc d) bs, du_bytes := du_bytes d + of_nat (length bs),
                     du_entries := du_entries d + 1, du_world := w\<rparr>)
      in dump_runs s path rest d)"
  by pat_completeness auto
termination
  by (relation "measure (\<lambda>(s, p, pgs, d). length pgs)") (auto simp: less_Suc_eq_le dest: run_split_le)

text \<open>
  \<^verbatim>\<open>ckpt_dump_delta\<close>. The number of entries and the checksum are patched into the header at the end.
  The second component of the result is \<^verbatim>\<open>*out_bytes\<close> where it is set.
\<close>

definition ckpt_dump_delta :: "DimBin \<Rightarrow> string \<Rightarrow> World \<Rightarrow> graveldb_status \<times> u64 option \<times> World" where
  "ckpt_dump_delta s data_dir w =
     (let path = delta_file_path data_dir (dt_generation (bn_dirty s)) (bn_dim s);
          (ok, w) = open_trunc path w
      in if \<not> ok then (GRAVELDB_ERR_IO, None, w)
         else
           let (ok, w) = ask w in
           if \<not> ok then (GRAVELDB_ERR_OOM, None, w)
           else
             let dirty_pages = dirty_tracker_scan_ckpt (bn_dirty s) GRAVELDB_MAX_DIRTY;
                 hdr = delta_header s;
                 (wr, w) = fd_write path (encode_delta_hdr hdr) w
             in if wr \<noteq> int WIRE_DELTA_HDR_SIZE then (GRAVELDB_ERR_IO, None, w)
                else
                  let d = dump_runs s path dirty_pages
                        \<lparr>du_crc = 0xFFFFFFFF, du_bytes = of_nat WIRE_DELTA_HDR_SIZE, du_entries = 0, du_world = w\<rparr>;
                      (wr, w) = fd_pwrite path 32 (u32_bytes (du_entries d)) (du_world d)
                  in if wr \<noteq> 4 then (GRAVELDB_ERR_IO, None, w)
                     else
                       let full_hdr = encode_delta_hdr (hdr\<lparr>dh_num_entries := du_entries d\<rparr>);
                           hdr_crc = crc32_simple (take (WIRE_DELTA_HDR_SIZE - 4) full_hdr);
                           body_crc = NOT (du_crc d);
                           (wr, w) = fd_pwrite path 36 (u32_bytes (hdr_crc XOR body_crc)) w
                       in if wr \<noteq> 4 then (GRAVELDB_ERR_IO, None, w)
                          else (GRAVELDB_OK, Some (du_bytes d), snd (ask w)))"

text \<open>
  \<^verbatim>\<open>ckpt_replay_delta\<close>: the entries of the file are written over the pages of the bin. A short read
  ends the replay without an error; the checksum is not verified.
\<close>

fun replay_entries :: "nat \<Rightarrow> bytes \<Rightarrow> nat \<Rightarrow> DimBin \<Rightarrow> World \<Rightarrow> bool \<times> DimBin \<times> World" where
  "replay_entries 0 f pos s w = (True, s, w)"
| "replay_entries (Suc n) f pos s w =
     (let (r, pos, w) = fd_read f pos WIRE_DELTA_ENTRY_SIZE w in
      case r of
        None \<Rightarrow> (True, s, w)
      | Some entry_buf \<Rightarrow>
          if length entry_buf \<noteq> WIRE_DELTA_ENTRY_SIZE then (True, s, w)
          else
            let (pg_start, pg_count) = wire_decode_delta_entry entry_buf;
                byte_len = unat pg_count * unat (bn_page_size s);
                (mem_ok, w) = ask w
            in if \<not> mem_ok then (True, s, w)
               else
                 let (r, pos, w) = fd_read f pos byte_len w in
                 case r of
                   None \<Rightarrow> (True, s, w)
                 | Some buf \<Rightarrow>
                     if length buf \<noteq> byte_len then (True, s, w)
                     else
                       let (wr, df, w) = pwrite (bn_file s) (unat pg_start * unat (bn_page_size s)) buf w;
                           s = s\<lparr>bn_file := df\<rparr>
                       in if wr \<noteq> int byte_len then (False, s, w) else replay_entries n f pos s w)"

definition replay_bump :: "DimBin \<Rightarrow> u64 \<Rightarrow> DimBin option" where
  "replay_bump s bump =
     (if bump \<le> bn_bump_ptr s then Some s
      else if bn_entries_per_page s = 0 then None
      else let epp = ucast (bn_entries_per_page s) in
        Some (s\<lparr>bn_bump_ptr := bump, bn_total_entries := bump, bn_total_pages := (bump + epp - 1) div epp\<rparr>))"

definition ckpt_replay_delta :: "DimBin \<Rightarrow> string \<Rightarrow> World \<Rightarrow> (graveldb_status \<times> DimBin \<times> World) option" where
  "ckpt_replay_delta s delta_path w =
     (case open_rdonly delta_path w of
        (None, w) \<Rightarrow> Some (GRAVELDB_ERR_IO, s, w)
      | (Some f, w) \<Rightarrow>
          let (r, pos, w) = fd_read f 0 WIRE_DELTA_HDR_SIZE w in
          if r = None \<or> length (the r) \<noteq> WIRE_DELTA_HDR_SIZE then Some (GRAVELDB_ERR_CORRUPT, s, w)
          else
            let hdr = wire_decode_delta_hdr (the r) in
            if dh_magic hdr \<noteq> GRAVELDB_DELTA_MAGIC \<or> dh_version hdr \<noteq> 1 then Some (GRAVELDB_ERR_CORRUPT, s, w)
            else if sint (dh_dim hdr) \<noteq> bn_dim s then Some (GRAVELDB_ERR_INVALID, s, w)
            else
              let (ok, s, w) = replay_entries (unat (dh_num_entries hdr)) f pos s w in
              if \<not> ok then Some (GRAVELDB_ERR_IO, s, w)
              else do {
                s \<leftarrow> replay_bump s (dh_bump_ptr hdr);
                Some (GRAVELDB_OK, s, w)
              })"

subsection \<open>Full copies\<close>

definition FULL_COPY_BUF :: nat where
  "FULL_COPY_BUF = 4 * 1024 * 1024"

text \<open>The copy loop returns what remains to be copied.\<close>

function full_copy :: "bytes \<Rightarrow> string \<Rightarrow> nat \<Rightarrow> nat \<Rightarrow> World \<Rightarrow> nat \<times> World" where
  "full_copy f path remaining offset w =
     (if remaining = 0 then (0, w)
      else
        case pread f offset (min remaining FULL_COPY_BUF) w of
          (None, w) \<Rightarrow> (remaining, w)
        | (Some bs, w) \<Rightarrow>
            if bs = [] then (remaining, w)
            else
              let (wr, w) = fd_write path bs w in
              if wr \<noteq> int (length bs) then (remaining, w)
              else full_copy f path (remaining - length bs) (offset + length bs) w)"
  by pat_completeness auto
termination
  by (relation "measure (\<lambda>(f, p, remaining, off, w). remaining)") auto

declare full_copy.simps [simp del]

definition ckpt_dump_full :: "DimBin \<Rightarrow> string \<Rightarrow> World \<Rightarrow> graveldb_status \<times> World" where
  "ckpt_dump_full s data_dir w =
     (let path = full_file_path data_dir (dt_generation (bn_dirty s)) (bn_dim s);
          (ok, w) = open_trunc path w
      in if \<not> ok then (GRAVELDB_ERR_IO, w)
         else
           let (ok, w) = ask w in
           if \<not> ok then (GRAVELDB_ERR_IO, w)
           else
             let (ok, w) = ask w in
             if \<not> ok then (GRAVELDB_ERR_OOM, w)
             else
               let (remaining, w) = full_copy (bn_file s) path (length (bn_file s)) 0 w;
                   w = snd (ask w)
               in (if remaining = 0 then GRAVELDB_OK else GRAVELDB_ERR_IO, w))"

subsection \<open>Metadata\<close>

definition meta_bytes :: "u64 \<Rightarrow> bytes" where
  "meta_bytes generation =
     (let buf = wire_put_u64 (wire_put_u32 (replicate WIRE_META_SIZE 0) 0 META_MAGIC) 4 generation
      in wire_put_u32 buf 12 (crc32_simple (take 12 buf)))"

text \<open>\<^verbatim>\<open>ckpt_persist_meta\<close>. The results of closing and of synchronizing the directory are not looked at.\<close>

definition ckpt_persist_meta :: "DimBin \<Rightarrow> string \<Rightarrow> u64 \<Rightarrow> World \<Rightarrow> graveldb_status \<times> World" where
  "ckpt_persist_meta s data_dir generation w =
     (let tmp_path = meta_tmp_path data_dir (bn_dim s);
          final_path = meta_file_path data_dir (bn_dim s);
          (ok, w) = open_trunc tmp_path w
      in if \<not> ok then (GRAVELDB_ERR_IO, w)
         else
           let (wr, w) = fd_write tmp_path (meta_bytes generation) w in
           if wr \<noteq> int WIRE_META_SIZE then (GRAVELDB_ERR_IO, snd (unlink tmp_path w))
           else
             let (ok, w) = ask w in
             if \<not> ok then (GRAVELDB_ERR_IO, snd (unlink tmp_path w))
             else
               let (ok, w) = rename tmp_path final_path w in
               if \<not> ok then (GRAVELDB_ERR_IO, snd (unlink tmp_path w))
               else
                 let (ok, w) = ask w in
                 (GRAVELDB_OK, if ok then snd (ask w) else w))"

definition ckpt_read_meta :: "string \<Rightarrow> int \<Rightarrow> World \<Rightarrow> graveldb_status \<times> BinMeta option \<times> World" where
  "ckpt_read_meta data_dir dim w =
     (case open_rdonly (meta_file_path data_dir dim) w of
        (None, w) \<Rightarrow> (GRAVELDB_ERR_CORRUPT, None, w)
      | (Some f, w) \<Rightarrow>
          let (r, pos, w) = fd_read f 0 WIRE_META_SIZE w in
          if r = None \<or> length (the r) \<noteq> WIRE_META_SIZE then (GRAVELDB_ERR_CORRUPT, None, w)
          else
            let (magic, generation, checksum) = wire_decode_meta (the r) in
            if magic \<noteq> META_MAGIC then (GRAVELDB_ERR_CORRUPT, None, w)
            else if checksum \<noteq> crc32_simple (take 12 (the r)) then (GRAVELDB_ERR_CORRUPT, None, w)
            else (GRAVELDB_OK, Some \<lparr>bm_magic = magic, bm_generation = generation, bm_checksum = checksum\<rparr>, w))"

subsection \<open>Listing and purging delta files\<close>

text \<open>
  \<^verbatim>\<open>sscanf(name, "gen_%llu_d%d_delta.bin", ...)\<close> has converted both numbers before it compares the
  text behind the second one, so that text does not matter.
\<close>

definition parse_delta_filename :: "string \<Rightarrow> (u64 \<times> int) option" where
  "parse_delta_filename name = do {
     s \<leftarrow> strip_prefix ''gen_'' name;
     (g, s) \<leftarrow> scan_number s;
     s \<leftarrow> strip_prefix ''_d'' s;
     (d, s) \<leftarrow> scan_number s;
     Some (to_ull g, to_int32 d)
   }"

record CkptDeltaInfo =
  ci_path :: "string option"
  ci_generation :: u64
  ci_dim :: int

definition dir_names :: "World \<Rightarrow> string \<Rightarrow> string list" where
  "dir_names w dir =
     filter (\<lambda>n. CHR ''/'' \<notin> set n) (List.map_filter (strip_prefix (dir @ ''/'')) (map fst (w_files w)))"

text \<open>The loop over the directory. \<open>None\<close> is the early return when the array cannot grow.\<close>

fun list_loop ::
  "string \<Rightarrow> int \<Rightarrow> string list \<Rightarrow> nat \<Rightarrow> CkptDeltaInfo list \<Rightarrow> World \<Rightarrow> CkptDeltaInfo list option \<times> World" where
  "list_loop dir dim [] capacity deltas w = (Some deltas, w)"
| "list_loop dir dim (name # names) capacity deltas w =
     (case parse_delta_filename name of
        None \<Rightarrow> list_loop dir dim names capacity deltas w
      | Some (gen, d) \<Rightarrow>
          if d \<noteq> dim then list_loop dir dim names capacity deltas w
          else
            let (ok, w) = (if length deltas \<ge> capacity then ask w else (True, w));
                capacity = (if length deltas \<ge> capacity then capacity * 2 else capacity)
            in if \<not> ok then (None, w)
               else
                 let (dup_ok, w) = ask w;
                     path = (if dup_ok then Some (snprintf 1024 (dir @ ''/'' @ name)) else None)
                 in list_loop dir dim names capacity
                      (deltas @ [\<lparr>ci_path = path, ci_generation = gen, ci_dim = d\<rparr>]) w)"

definition ckpt_list_deltas :: "string \<Rightarrow> int \<Rightarrow> World \<Rightarrow> CkptDeltaInfo list \<times> World" where
  "ckpt_list_deltas data_dir dim w =
     (let dir = ckpt_dir_path data_dir;
          (dir_ok, w) = ask w
      in if \<not> dir_ok then ([], w)
         else
           let (ok, w) = ask w in
           if \<not> ok then ([], w)
           else
             case list_loop dir dim (dir_names w dir) 32 [] w of
               (None, w) \<Rightarrow> ([], w)
             | (Some deltas, w) \<Rightarrow> (sort_key ci_generation deltas, w))"

fun purge_loop :: "u64 \<Rightarrow> CkptDeltaInfo list \<Rightarrow> World \<Rightarrow> World" where
  "purge_loop last_full [] w = w"
| "purge_loop last_full (d # ds) w =
     (if ci_generation d \<le> last_full
      then purge_loop last_full ds
        (case ci_path d of None \<Rightarrow> snd (ask w) | Some p \<Rightarrow> snd (unlink p w))
      else purge_loop last_full ds w)"

definition ckpt_purge_old_deltas :: "string \<Rightarrow> int \<Rightarrow> u64 \<Rightarrow> World \<Rightarrow> graveldb_status \<times> World" where
  "ckpt_purge_old_deltas data_dir dim last_full_generation w =
     (let (deltas, w) = ckpt_list_deltas data_dir dim w in
      (GRAVELDB_OK, purge_loop last_full_generation deltas w))"

end
