(* ===== verification/Ckpt_Meta.thy ===== *)
theory Ckpt_Meta
  imports Ckpt_Files Bin_Init
begin

text \<open>
  The metadata file of a bin, \<^verbatim>\<open>ckpt_persist_meta\<close> and \<^verbatim>\<open>ckpt_read_meta\<close> of
  \<^verbatim>\<open>src/src/checkpoint.c\<close>: a crash or a failure at any point leaves the old metadata or the new.
\<close>

text \<open>Metadata.\<close>

lemma length_meta_bytes [simp]: "length (meta_bytes g) = 16"
  by (simp add: meta_bytes_def Let_def WIRE_META_SIZE_def)

lemma meta_decode: "wire_decode_meta (meta_bytes g) = (META_MAGIC, g, crc32_simple (take 12 (meta_bytes g)))"
proof -
  let ?b = "wire_put_u64 (wire_put_u32 (replicate WIRE_META_SIZE 0) 0 META_MAGIC) 4 g"
  have l: "length ?b = 16"
    by (simp add: WIRE_META_SIZE_def)
  then have "take 12 (meta_bytes g) = take 12 ?b"
    by (simp add: meta_bytes_def Let_def wire_put_u32_def put_at_def)
  then show ?thesis
    by (simp add: wire_decode_meta_def meta_bytes_def Let_def wire_simps WIRE_META_SIZE_def)
qed

lemma ckpt_read_meta_ok:
  assumes "all_ok w" and "file_at w (meta_file_path dir dim) = Some (meta_bytes g)"
  shows "\<exists>m. ckpt_read_meta dir dim w = (GRAVELDB_OK, Some m, snd (ask (snd (ask w)))) \<and> bm_generation m = g"
  using assms meta_decode [of g]
  by (simp add: ckpt_read_meta_def open_rdonly_ok fd_read_ok file_read_def WIRE_META_SIZE_def split_beta)

text \<open>Names that are not cut off differ.\<close>

lemma meta_paths_differ:
  assumes "length (meta_tmp_path dir dim) < 511"
  shows "meta_tmp_path dir dim \<noteq> meta_file_path dir dim"
proof
  assume eq: "meta_tmp_path dir dim = meta_file_path dir dim"
  have "length (meta_file_path dir dim) < length (meta_tmp_path dir dim)"
    using assms by (simp add: meta_tmp_path_def meta_file_path_def snprintf_def)
  then show False
    using eq by simp
qed

lemma file_at_unlink: "q \<noteq> p \<Longrightarrow> file_at (snd (unlink p w)) q = file_at w q"
  by (simp add: unlink_def split_beta Let_def) (simp add: file_at_def delete_conv' ask_def)

lemma file_at_rename:
  "rename p q w = (ok, w') \<Longrightarrow> file_at w' r = (if ok \<and> r = q then file_at w p else if ok \<and> r = p then None else file_at w r)"
  by (auto simp: rename_def split_beta Let_def file_at_def delete_conv' put_file_def update_conv' ask_def split: option.splits if_splits)

lemma file_at_fd_write: "q \<noteq> p \<Longrightarrow> file_at (snd (fd_write p bs w)) q = file_at w q"
  by (simp add: fd_write_def split_beta Let_def pwrite_def ask_def file_at_def put_file_def update_conv')

lemma file_at_open_trunc: "q \<noteq> p \<Longrightarrow> file_at (snd (open_trunc p w)) q = file_at w q"
  by (simp add: open_trunc_def split_beta Let_def)

lemma fd_write_whole:
  assumes "fd_write p bs w = (int (length bs), w')" and "bs \<noteq> []"
  shows "file_at w' p = Some (contents w p @ bs)"
  using assms by (auto simp: fd_write_def pwrite_def ask_def Let_def file_write_end split: if_splits)

text \<open>
  C8. Whatever fails on the way, the metadata file holds either its old contents or the complete new
  ones, and the status tells which; from the new ones the generation is read back.
\<close>

theorem ckpt_persist_meta_atomic:
  assumes "length (meta_tmp_path dir (bn_dim s)) < 511" and "ckpt_persist_meta s dir g w = (rc, w')"
  shows "file_at w' (meta_file_path dir (bn_dim s)) =
      (if rc = GRAVELDB_OK then Some (meta_bytes g) else file_at w (meta_file_path dir (bn_dim s))) \<and>
    (\<forall>v. rc = GRAVELDB_OK \<and> all_ok v \<and> file_at v = file_at w' \<longrightarrow>
       (\<exists>m v'. ckpt_read_meta dir (bn_dim s) v = (GRAVELDB_OK, Some m, v') \<and> bm_generation m = g))"
proof -
  let ?t = "meta_tmp_path dir (bn_dim s)" and ?f = "meta_file_path dir (bn_dim s)"
  have ne: "?f \<noteq> ?t"
    using meta_paths_differ [OF assms(1)] by simp
  obtain ok1 w1 where o1: "open_trunc ?t w = (ok1, w1)"
    by fastforce
  obtain wr w2 where o2: "fd_write ?t (meta_bytes g) w1 = (wr, w2)"
    by fastforce
  obtain ok3 w3 where o3: "ask w2 = (ok3, w3)"
    by fastforce
  obtain ok4 w4 where o4: "rename ?t ?f w3 = (ok4, w4)"
    by fastforce
  have f1: "file_at w1 ?f = file_at w ?f" "file_at w2 ?f = file_at w1 ?f" "file_at w3 = file_at w2"
    using file_at_open_trunc [OF ne, of w] file_at_fd_write [OF ne, of "meta_bytes g" w1] o1 o2 ask_files(1) [of w2] o3
    by simp_all
  have new: "file_at w2 ?t = Some (meta_bytes g)" if "ok1" "wr = 16"
  proof -
    have "contents w1 ?t = []"
      using o1 that(1) by (auto simp: open_trunc_def Let_def split: prod.splits if_splits)
    moreover have "meta_bytes g \<noteq> []"
      using length_meta_bytes [of g] by force
    ultimately show ?thesis
      using fd_write_whole [of ?t "meta_bytes g" w1 w2] o2 that(2) by simp
  qed
  have fin: "file_at w' ?f = (if rc = GRAVELDB_OK then Some (meta_bytes g) else file_at w ?f)"
    using assms(2) o1 o2 o3 o4 ne f1 new file_at_rename [OF o4, of ?f] file_at_unlink [OF ne]
    by (auto simp: ckpt_persist_meta_def Let_def WIRE_META_SIZE_def split_beta split: if_splits)
  then show ?thesis
    using ckpt_read_meta_ok [of _ dir "bn_dim s" g] by metis
qed

theorem ckpt_persist_meta_atomic_witness:
  "\<exists>w'. ckpt_persist_meta (bin_zero\<lparr>bn_dim := 8\<rparr>) ''db'' 5 (demo_world {1}) = (GRAVELDB_ERR_IO, w') \<and>
     file_at w' (meta_file_path ''db'' 8) = file_at (demo_world {1}) (meta_file_path ''db'' 8)"
proof -
  let ?s = "bin_zero\<lparr>bn_dim := 8\<rparr>"
  have l: "length (meta_tmp_path ''db'' (bn_dim ?s)) < 511"
    by (simp add: meta_tmp_path_def snprintf_def dec_int_def dec_nat.simps)
  obtain w' where r: "ckpt_persist_meta ?s ''db'' 5 (demo_world {1}) = (GRAVELDB_ERR_IO, w')"
    by (simp add: ckpt_persist_meta_def open_trunc_def fd_write_def pwrite_def ask_def demo_world_def Let_def split_beta WIRE_META_SIZE_def)
  with ckpt_persist_meta_atomic [OF l r] show ?thesis
    by (intro exI [of _ w']) simp
qed

end
