(* ===== verification/Engine.thy ===== *)
theory Engine
  imports Ckpt_Files Dim_Registry Hash_Index Overlay
begin

text \<open>
  The store of \<^verbatim>\<open>src/graveldb.c\<close>: the hash index, the registry of dimensions and the bins behind one
  interface. The registry holds pointers to bins, so bins live in a heap from addresses to bins, and
  an operation that follows a pointer to no bin does not return. The slab allocator that the bins
  share is the one of the \<open>World\<close>.
\<close>

subsection \<open>State\<close>

text \<open>The two configuration fields that the program never reads are left out.\<close>

record GravelDBConfig =
  cf_data_dir :: "string option"
  cf_dims :: "int list option"
  cf_num_dims :: int
  cf_buffer_size :: u64
  cf_index_capacity :: u32
  cf_entry_align :: u32
  cf_page_size :: u32
  cf_auto_create_bins :: bool
  cf_overlay_budget :: u64

datatype CkptPhase = CKPT_IDLE | CKPT_FLUSHING | CKPT_DUMPING | CKPT_FINISHING

text \<open>
  The descriptor of the delta file is its path, and \<open>None\<close> for -1. The list of dirty blocks has
  \<^verbatim>\<open>dirty_count\<close> elements.
\<close>

record CkptProgress =
  cp_phase :: CkptPhase
  cp_current_bin :: u16
  cp_fd :: "string option"
  cp_dirty_blocks :: "u32 list"
  cp_dirty_cursor :: nat
  cp_entries_written :: u32
  cp_max_pages :: u32

record GravelDB =
  db_config :: GravelDBConfig
  db_dim_reg :: "nat DimRegistry"
  db_bins :: "nat \<rightharpoonup> DimBin"
  db_index :: HashIndex
  db_current_epoch :: u64
  db_io_ring :: uring_io_ctx
  db_data_dir :: string
  db_auto_create_bins :: bool
  db_ckpt :: CkptProgress

definition get_bin :: "GravelDB \<Rightarrow> u16 \<Rightarrow> (nat \<times> DimBin) option" where
  "get_bin db i = do {
     p \<leftarrow> dim_registry_get_bin (db_dim_reg db) i;
     s \<leftarrow> db_bins db p;
     Some (p, s)
   }"

definition set_bin :: "nat \<Rightarrow> DimBin \<Rightarrow> GravelDB \<Rightarrow> GravelDB" where
  "set_bin p s db = db\<lparr>db_bins := (db_bins db)(p \<mapsto> s)\<rparr>"

definition num_bins :: "GravelDB \<Rightarrow> u16" where
  "num_bins db = dim_registry_count (db_dim_reg db)"

text \<open>\<^verbatim>\<open>for (uint16_t i = 0; i < num_bins; i++)\<close>\<close>

definition bin_indices :: "GravelDB \<Rightarrow> u16 list" where
  "bin_indices db = map of_nat [0..<unat (num_bins db)]"

definition ask_reg :: "World \<Rightarrow> RegAlloc \<times> World" where
  "ask_reg w =
     (let (a, w) = ask w; (b, w) = ask w; (c, w) = ask w; (d, w) = ask w in
      (\<lparr>ra_bins = a, ra_entries = b, ra_slots = c, ra_upgrade = d\<rparr>, w))"

subsection \<open>Opening and closing\<close>

text \<open>
  \<^verbatim>\<open>detect_page_size\<close>: the fragment size that \<^verbatim>\<open>statvfs\<close> reports and, for a block device, the size of a
  physical sector, \<open>None\<close> where the call failed.
\<close>

fun pow2_from :: "nat \<Rightarrow> u32 \<Rightarrow> u32 \<Rightarrow> u32 option" where
  "pow2_from 0 p detected = None"
| "pow2_from (Suc f) p detected = (if p < detected then pow2_from f (push_bit 1 p) detected else Some p)"

definition detect_page_size :: "u64 option \<Rightarrow> u32 option \<Rightarrow> u32 option" where
  "detect_page_size frsize phys_sz =
     (let detected = (case frsize of Some n \<Rightarrow> (if n > 0 then ucast n else (0 :: u32)) | None \<Rightarrow> 0);
          detected = (case phys_sz of Some n \<Rightarrow> (if n > 0 then n else detected) | None \<Rightarrow> detected)
      in if detected = 0 then Some GRAVELDB_PAGE_SIZE_DEFAULT
         else
           let detected = (if detected < 512 then 512 else detected);
               detected = (if detected > 65536 then 65536 else detected)
           in pow2_from 17 1 detected)"

definition bin_file_path :: "string \<Rightarrow> int \<Rightarrow> string" where
  "bin_file_path data_dir dim = snprintf 512 (data_dir @ ''/emb_d'' @ dec_int dim @ ''.bin'')"

definition keys_path_of :: "string \<Rightarrow> string" where
  "keys_path_of path = take (length path - 4) path @ ''.keys''"

text \<open>\<^verbatim>\<open>calloc\<close>, \<^verbatim>\<open>dimbin_init\<close> on the files of a dimension, and the registration.\<close>

definition register_bin ::
  "GravelDB \<Rightarrow> int \<Rightarrow> u64 \<Rightarrow> u32 \<Rightarrow> u32 \<Rightarrow> u64 \<Rightarrow> World \<Rightarrow> ((graveldb_status + int) \<times> GravelDB \<times> World) option" where
  "register_bin db dim per_bin_buf entry_align page_size overlay_budget w =
     (case ask_mem w of
        (None, w) \<Rightarrow> Some (Inl GRAVELDB_ERR_OOM, db, w)
      | (Some p, w) \<Rightarrow> do {
          let path = bin_file_path (db_data_dir db) dim;
          (rc, s, w) \<leftarrow> dimbin_init dim path per_bin_buf entry_align page_size
            (contents w path) (contents w (keys_path_of path)) w;
          if rc \<noteq> GRAVELDB_OK then Some (Inl rc, db, w)
          else do {
            let s = s\<lparr>bn_overlay_budget := overlay_budget\<rparr>;
            let (ra, w) = ask_reg w;
            (bin_idx, reg) \<leftarrow> dim_registry_put ra (db_dim_reg db) dim p;
            let db = db\<lparr>db_dim_reg := reg\<rparr>;
            if bin_idx < 0 then Some (Inl GRAVELDB_ERR_OOM, db, snd (dimbin_destroy s w))
            else Some (Inr bin_idx, set_bin p s db, w)
          }
        })"

definition DEFAULT_BUFFER :: u64 where
  "DEFAULT_BUFFER = 256 * 1024 * 1024"

definition create_and_register_bin :: "GravelDB \<Rightarrow> int \<Rightarrow> World \<Rightarrow> (int \<times> GravelDB \<times> World) option" where
  "create_and_register_bin db dim w =
     (let cf = db_config db;
          buf_size = (if cf_buffer_size cf > 0 then cf_buffer_size cf else DEFAULT_BUFFER);
          per_bin_buf = buf_size div (ucast (num_bins db) + 1);
          per_bin_buf = (if per_bin_buf < 4 * 1024 * 1024 then 4 * 1024 * 1024 else per_bin_buf)
      in do {
        (r, db, w) \<leftarrow> register_bin db dim per_bin_buf (cf_entry_align cf) (cf_page_size cf) (cf_overlay_budget cf) w;
        Some (case r of Inl rc \<Rightarrow> -1 | Inr bin_idx \<Rightarrow> bin_idx, db, w)
      })"

text \<open>
  \<^verbatim>\<open>rebuild_index_from_keys\<close>. A key that an earlier bin already holds is removed from both.
\<close>

definition zero_key :: "nat \<Rightarrow> DimBin \<Rightarrow> u32 \<Rightarrow> GravelDB \<Rightarrow> World \<Rightarrow> (GravelDB \<times> World) option" where
  "zero_key p s entry_idx db w = do {
     let (wr, f, w) = pwrite (bn_key_file s) (unat entry_idx * 8) (replicate 8 0) w;
     (s, w) \<leftarrow> dimbin_free_entry (s\<lparr>bn_key_file := f\<rparr>) entry_idx w;
     Some (set_bin p s db, w)
   }"

definition rebuild_entry :: "u16 \<Rightarrow> u32 \<Rightarrow> u64 \<Rightarrow> GravelDB \<Rightarrow> World \<Rightarrow> (GravelDB \<times> World) option" where
  "rebuild_entry dim_idx entry_idx feat_id db w = do {
     (p, s) \<leftarrow> get_bin db dim_idx;
     if feat_id = 0 then do {
       (s, w) \<leftarrow> dimbin_free_entry s entry_idx w;
       Some (set_bin p s db, w)
     } else do {
       (r, idx) \<leftarrow> hash_index_get (db_index db) feat_id;
       let db = db\<lparr>db_index := idx\<rparr>;
       (case r of
          Some (prev_dim_idx, prev_entry_idx) \<Rightarrow>
            if prev_dim_idx \<noteq> dim_idx then do {
              (prev_p, prev_s) \<leftarrow> get_bin db prev_dim_idx;
              (db, w) \<leftarrow> zero_key prev_p prev_s prev_entry_idx db w;
              (st, idx) \<leftarrow> hash_index_remove (db_index db) feat_id;
              (p, s) \<leftarrow> get_bin (db\<lparr>db_index := idx\<rparr>) dim_idx;
              zero_key p s entry_idx (db\<lparr>db_index := idx\<rparr>) w
            } else do {
              let (ok, w) = ask w;
              (st, idx) \<leftarrow> hash_index_put ok (db_index db) feat_id dim_idx entry_idx;
              Some (db\<lparr>db_index := idx\<rparr>, w)
            }
        | None \<Rightarrow> do {
            let (ok, w) = ask w;
            (st, idx) \<leftarrow> hash_index_put ok (db_index db) feat_id dim_idx entry_idx;
            Some (db\<lparr>db_index := idx\<rparr>, w)
          })
     }
   }"

fun rebuild_entries :: "u16 \<Rightarrow> nat \<Rightarrow> u64 list \<Rightarrow> GravelDB \<Rightarrow> World \<Rightarrow> (GravelDB \<times> World) option" where
  "rebuild_entries dim_idx i [] db w = Some (db, w)"
| "rebuild_entries dim_idx i (k # ks) db w = do {
     (db, w) \<leftarrow> rebuild_entry dim_idx (of_nat i) k db w;
     rebuild_entries dim_idx (Suc i) ks db w
   }"

text \<open>The array of keys that a read gave, cut to whole keys.\<close>

definition keys_of_bytes :: "bytes \<Rightarrow> u64 list" where
  "keys_of_bytes bs = map (\<lambda>i. wire_get_u64 bs (i * 8)) [0..<length bs div 8]"

definition rebuild_bin :: "u16 \<Rightarrow> GravelDB \<Rightarrow> World \<Rightarrow> (graveldb_status \<times> GravelDB \<times> World) option" where
  "rebuild_bin dim_idx db w = do {
     (p, s) \<leftarrow> get_bin db dim_idx;
     if bn_bump_ptr s = 0 then Some (GRAVELDB_OK, db, w)
     else do {
       let keys_bytes = bn_bump_ptr s * 8;
       let (ok, w) = ask w;
       if \<not> ok then Some (GRAVELDB_ERR_OOM, db, w)
       else do {
         let (rd, w) = pread (bn_key_file s) 0 (unat keys_bytes) w;
         (case rd of
            None \<Rightarrow> Some (GRAVELDB_OK, db, w)
          | Some bs \<Rightarrow> do {
              (db, w) \<leftarrow> rebuild_entries dim_idx 0 (keys_of_bytes bs) db w;
              Some (GRAVELDB_OK, db, w)
            })
       }
     }
   }"

fun rebuild_bins :: "u16 list \<Rightarrow> GravelDB \<Rightarrow> World \<Rightarrow> (graveldb_status \<times> GravelDB \<times> World) option" where
  "rebuild_bins [] db w = Some (GRAVELDB_OK, db, w)"
| "rebuild_bins (i # is) db w = do {
     (rc, db, w) \<leftarrow> rebuild_bin i db w;
     if rc \<noteq> GRAVELDB_OK then Some (rc, db, w) else rebuild_bins is db w
   }"

definition rebuild_index_from_keys :: "GravelDB \<Rightarrow> World \<Rightarrow> (graveldb_status \<times> GravelDB \<times> World) option" where
  "rebuild_index_from_keys db w = rebuild_bins (bin_indices db) db w"

definition ckpt_zero :: CkptProgress where
  "ckpt_zero =
     \<lparr>cp_phase = CKPT_IDLE, cp_current_bin = 0, cp_fd = None, cp_dirty_blocks = [], cp_dirty_cursor = 0,
      cp_entries_written = 0, cp_max_pages = 0\<rparr>"

text \<open>The bins of the configured dimensions; the first failure ends the loop.\<close>

fun open_bins ::
  "GravelDBConfig \<Rightarrow> u64 \<Rightarrow> int list \<Rightarrow> GravelDB \<Rightarrow> World \<Rightarrow> (graveldb_status \<times> GravelDB \<times> World) option" where
  "open_bins cf per_bin_buf [] db w = Some (GRAVELDB_OK, db, w)"
| "open_bins cf per_bin_buf (dim # dims) db w = do {
     (r, db, w) \<leftarrow> register_bin db dim per_bin_buf (cf_entry_align cf) (cf_page_size cf) (cf_overlay_budget cf) w;
     (case r of
        Inl rc \<Rightarrow> Some (rc, db, w)
      | Inr bin_idx \<Rightarrow> open_bins cf per_bin_buf dims db w)
   }"

fun restore_generations :: "u16 list \<Rightarrow> GravelDB \<Rightarrow> World \<Rightarrow> (GravelDB \<times> World) option" where
  "restore_generations [] db w = Some (db, w)"
| "restore_generations (i # is) db w = do {
     (p, s) \<leftarrow> get_bin db i;
     let (frc, meta, w) = ckpt_read_meta (db_data_dir db) (bn_dim s) w;
     (case meta of
        None \<Rightarrow> restore_generations is db w
      | Some m \<Rightarrow>
          restore_generations is
            (set_bin p (s\<lparr>bn_dirty := (bn_dirty s)\<lparr>dt_generation := bm_generation m\<rparr>\<rparr>) db) w)
   }"

text \<open>Both ways out of an open database destroy the bins and put their files back.\<close>

definition destroy_bin :: "DimBin \<Rightarrow> World \<Rightarrow> World" where
  "destroy_bin s w =
     put_file (bn_key_file_path s) (bn_key_file s)
       (put_file (bn_file_path s) (bn_file s) (snd (dimbin_destroy s w)))"

fun destroy_bins :: "u16 list \<Rightarrow> GravelDB \<Rightarrow> World \<Rightarrow> World option" where
  "destroy_bins [] db w = Some w"
| "destroy_bins (i # is) db w = do {
     (p, s) \<leftarrow> get_bin db i;
     destroy_bins is db (destroy_bin s w)
   }"

definition destroy_allocator :: "World \<Rightarrow> World" where
  "destroy_allocator w = w\<lparr>w_alloc := slab_allocator_destroy (w_alloc w)\<rparr>"

definition copy_dims :: "GravelDBConfig \<Rightarrow> World \<Rightarrow> (int list option \<times> World) option" where
  "copy_dims cf w =
     (if cf_num_dims cf > 0 then
        case cf_dims cf of
          None \<Rightarrow> Some (None, w)
        | Some ds \<Rightarrow>
            let (ok, w) = ask w in
            if \<not> ok then Some (None, w)
            else if length ds < nat (cf_num_dims cf) then None
            else Some (Some (take (nat (cf_num_dims cf)) ds), w)
      else Some (Some [], w))"

text \<open>
  \<^verbatim>\<open>graveldb_open\<close>. The arguments \<open>frsize\<close> and \<open>phys\<close> are what the file system and the device report.
  The bins get the page size of the caller's configuration, not the detected one.
\<close>

definition graveldb_open ::
  "GravelDBConfig \<Rightarrow> u64 option \<Rightarrow> u32 option \<Rightarrow> World \<Rightarrow> (graveldb_status \<times> GravelDB option \<times> World) option" where
  "graveldb_open config frsize phys w =
     (case cf_data_dir config of
        None \<Rightarrow> Some (GRAVELDB_ERR_INVALID, None, w)
      | Some dir \<Rightarrow>
          if cf_num_dims config > 0 \<and> cf_dims config = None then Some (GRAVELDB_ERR_INVALID, None, w)
          else do {
            let (ok, w) = ask w;
            if \<not> ok then Some (GRAVELDB_ERR_OOM, None, w) else do {
            (dims, w) \<leftarrow> copy_dims config w;
            (case dims of None \<Rightarrow> Some (GRAVELDB_ERR_OOM, None, w) | Some dims \<Rightarrow> do {
            let (ok, w) = ask w;
            if \<not> ok then Some (GRAVELDB_ERR_OOM, None, w) else do {
            page_size \<leftarrow> (if cf_page_size config = 0 then detect_page_size frsize phys else Some (cf_page_size config));
            let w = w\<lparr>w_alloc := snd slab_allocator_init\<rparr>;
            let (r, ring) = uring_io_init w;
            let ring = (if r \<noteq> 0 then ring\<lparr>uc_initialized := False\<rparr> else ring);
            let (calloc_ok, w) = ask w;
            (rc, idx) \<leftarrow> hash_index_init calloc_ok (if cf_index_capacity config > 0 then cf_index_capacity config else 16777216);
            (case idx of None \<Rightarrow> Some (rc, None, destroy_allocator w) | Some idx \<Rightarrow> do {
            let (entries_ok, w) = ask w;
            let (bins_ok, w) = ask w;
            let db = \<lparr>db_config = config\<lparr>cf_dims := Some dims, cf_num_dims := int (length dims), cf_page_size := page_size\<rparr>,
              db_dim_reg = dim_registry_init entries_ok bins_ok, db_bins = Map.empty, db_index = idx,
              db_current_epoch = 0, db_io_ring = ring, db_data_dir = dir,
              db_auto_create_bins = cf_auto_create_bins config, db_ckpt = ckpt_zero\<rparr>;
            let buf_size = (if cf_buffer_size config > 0 then cf_buffer_size config else DEFAULT_BUFFER);
            (rc, db, w) \<leftarrow> open_bins config (buf_size div of_nat (length dims)) dims db w;
            if rc \<noteq> GRAVELDB_OK then do {
              w \<leftarrow> destroy_bins (bin_indices db) db w;
              Some (rc, None, destroy_allocator w)
            } else do {
            (rc, db, w) \<leftarrow> rebuild_index_from_keys db w;
            (db, w) \<leftarrow> restore_generations (bin_indices db) db w;
            Some (GRAVELDB_OK, Some db, w)
            }})}})}})"

fun close_bins :: "u16 list \<Rightarrow> GravelDB \<Rightarrow> World \<Rightarrow> World option" where
  "close_bins [] db w = Some w"
| "close_bins (i # is) db w = do {
     (p, s) \<leftarrow> get_bin db i;
     (rc, s, w) \<leftarrow> dimbin_flush s True w;
     close_bins is db (destroy_bin s w)
   }"

definition graveldb_close :: "GravelDB \<Rightarrow> World \<Rightarrow> World option" where
  "graveldb_close db w = do {
     w \<leftarrow> close_bins (bin_indices db) db w;
     Some (destroy_allocator w)
   }"

subsection \<open>Batched reads\<close>

text \<open>
  A bin is named by its address. The caller's output buffers are distinct; the model holds for each of
  them the bytes that were copied into it, \<open>None\<close> while there are none. A request without a buffer
  only asks for the dimension.
\<close>

record BatchGetDiskRead =
  gd_req_idx :: nat
  gd_bin :: nat
  gd_entry_id :: u32
  gd_page_id :: u32
  gd_offset_in_page :: u32

datatype page_read_buf = NoBuf | OutBuf | PageBuf bytes

record BatchGetPageRead =
  gp_bin :: nat
  gp_page_id :: u32
  gp_buf :: page_read_buf
  gp_first_idx :: nat
  gp_count :: nat

record AsyncGetState =
  ag_disk_reads :: "BatchGetDiskRead list"
  ag_page_reads :: "BatchGetPageRead list"
  ag_io_ctx :: uring_io_ctx
  ag_use_uring :: bool
  ag_submit_rc :: graveldb_status

type_synonym outputs = "bytes option list"

definition mem_slice :: "bytes \<Rightarrow> u32 \<Rightarrow> u64 \<Rightarrow> bytes option" where
  "mem_slice page off n =
     (if unat off + unat n \<le> length page then Some (take (unat n) (drop (unat off) page)) else None)"

text \<open>
  The first phase: one request. The dimensions are collected in order; a request that is not answered
  from memory is added to the reads.
\<close>

definition resolve_one ::
  "nat \<Rightarrow> u64 \<Rightarrow> bool \<Rightarrow> GravelDB \<Rightarrow> outputs \<Rightarrow> BatchGetDiskRead list
     \<Rightarrow> (int \<times> GravelDB \<times> outputs \<times> BatchGetDiskRead list) option" where
  "resolve_one i feat_id wanted db out reads = do {
     (r, idx) \<leftarrow> hash_index_get (db_index db) feat_id;
     let db = db\<lparr>db_index := idx\<rparr>;
     (case r of
        None \<Rightarrow> Some (0, db, out, reads)
      | Some (dim_idx, entry_idx) \<Rightarrow> do {
          (p, s) \<leftarrow> get_bin db dim_idx;
          if \<not> wanted then Some (bn_dim s, db, out, reads)
          else do {
            (hit, s) \<leftarrow>
              (if bn_in_checkpoint s then
                 map_option (\<lambda>(c, ob). (c, s\<lparr>bn_overlay := ob\<rparr>)) (overlay_contains (bn_overlay s) entry_idx)
               else Some (False, s));
            if hit then do {
              (e, ob) \<leftarrow> overlay_get (bn_overlay s) entry_idx;
              let out = (case e of None \<Rightarrow> out | Some v \<Rightarrow> out[i := Some (emb_data v)]);
              Some (bn_dim s, set_bin p (s\<lparr>bn_overlay := ob\<rparr>) db, out, reads)
            } else if bn_entries_per_page s = 0 then None
            else do {
              let page_id = entry_idx div bn_entries_per_page s;
              let offset_in_page = (entry_idx mod bn_entries_per_page s) * ucast (bn_entry_size s);
              let wb = bn_write_buf s;
              wb_idx \<leftarrow> pagemap_find (wb_slots wb) (wb_capacity wb) page_id;
              if ps_page_id (wb_slots wb ! unat wb_idx) = page_id then do {
                (a, page) \<leftarrow> ps_data (wb_slots wb ! unat wb_idx);
                v \<leftarrow> mem_slice page offset_in_page (bn_entry_size s);
                Some (bn_dim s, set_bin p s db, out[i := Some v], reads)
              } else
                Some (bn_dim s, set_bin p s db, out,
                  reads @ [\<lparr>gd_req_idx = i, gd_bin = p, gd_entry_id = entry_idx, gd_page_id = page_id,
                            gd_offset_in_page = offset_in_page\<rparr>])
            }
          }
        })
   }"

fun resolve_all ::
  "nat \<Rightarrow> (u64 \<times> bool) list \<Rightarrow> GravelDB \<Rightarrow> outputs \<Rightarrow> BatchGetDiskRead list
     \<Rightarrow> (int list \<times> GravelDB \<times> outputs \<times> BatchGetDiskRead list) option" where
  "resolve_all i [] db out reads = Some ([], db, out, reads)"
| "resolve_all i ((feat_id, wanted) # qs) db out reads = do {
     (d, db, out, reads) \<leftarrow> resolve_one i feat_id wanted db out reads;
     (ds, db, out, reads) \<leftarrow> resolve_all (Suc i) qs db out reads;
     Some (d # ds, db, out, reads)
   }"

text \<open>The insertion sort by bin and page; the sorted part is held in reverse order.\<close>

definition read_after :: "BatchGetDiskRead \<Rightarrow> BatchGetDiskRead \<Rightarrow> bool" where
  "read_after x key \<longleftrightarrow>
     gd_bin x > gd_bin key \<or> gd_bin x = gd_bin key \<and> gd_page_id x > gd_page_id key"

fun shift_read :: "BatchGetDiskRead \<Rightarrow> BatchGetDiskRead list \<Rightarrow> BatchGetDiskRead list" where
  "shift_read key [] = [key]"
| "shift_read key (x # xs) = (if read_after x key then x # shift_read key xs else key # x # xs)"

definition sort_reads :: "BatchGetDiskRead list \<Rightarrow> BatchGetDiskRead list" where
  "sort_reads reads = rev (foldl (\<lambda>sorted x. shift_read x sorted) [] reads)"

definition same_page :: "BatchGetDiskRead \<Rightarrow> BatchGetDiskRead \<Rightarrow> bool" where
  "same_page x y \<longleftrightarrow> gd_bin y = gd_bin x \<and> gd_page_id y = gd_page_id x"

function page_groups :: "nat \<Rightarrow> BatchGetDiskRead list \<Rightarrow> BatchGetPageRead list" where
  "page_groups i [] = []"
| "page_groups i (r # rs) =
     (let n = Suc (length (takeWhile (same_page r) rs)) in
      \<lparr>gp_bin = gd_bin r, gp_page_id = gd_page_id r, gp_buf = NoBuf, gp_first_idx = i, gp_count = n\<rparr> #
      page_groups (i + n) (dropWhile (same_page r) rs))"
  by pat_completeness auto
termination
  by (relation "measure (\<lambda>(i, rs). length rs)") (auto simp: less_Suc_eq_le length_dropWhile_le)

text \<open>
  A page buffer from \<^verbatim>\<open>malloc\<close> holds arbitrary bytes, here the digits to base 256 of the arbitrary
  address. A read overwrites them from the front.
\<close>

definition junk_bytes :: "nat \<Rightarrow> nat \<Rightarrow> bytes" where
  "junk_bytes a n = map (\<lambda>i. of_nat (a div 256 ^ i)) [0..<n]"

definition read_into :: "bytes \<Rightarrow> bytes option \<Rightarrow> bytes" where
  "read_into buf r = (case r of None \<Rightarrow> buf | Some bs \<Rightarrow> bs @ drop (length bs) buf)"

record GetIo =
  gi_out :: outputs
  gi_ctx :: uring_io_ctx
  gi_rc :: graveldb_status
  gi_world :: World

definition issue_read :: "bool \<Rightarrow> bytes \<Rightarrow> nat \<Rightarrow> nat \<Rightarrow> GetIo \<Rightarrow> bytes option \<times> GetIo" where
  "issue_read use_uring f len off g =
     (if use_uring then
        let (r, ctx, bs, w) = uring_io_submit_read (gi_ctx g) f len off (gi_world g)
        in (bs, g\<lparr>gi_ctx := ctx, gi_world := w\<rparr>)
      else
        let (bs, w) = pread f off len (gi_world g)
        in (bs, g\<lparr>gi_rc := (if bs = None then GRAVELDB_ERR_IO else gi_rc g), gi_world := w\<rparr>))"

definition submit_page ::
  "GravelDB \<Rightarrow> bool \<Rightarrow> BatchGetDiskRead list \<Rightarrow> BatchGetPageRead \<Rightarrow> GetIo \<Rightarrow> (BatchGetPageRead \<times> GetIo) option" where
  "submit_page db use_uring reads pr g = do {
     s \<leftarrow> db_bins db (gp_bin pr);
     if gp_count pr = 1 \<and> bn_entries_per_page s = 1 then
       (let rd = reads ! gp_first_idx pr;
            (bs, g) = issue_read use_uring (bn_file s) (unat (bn_entry_size s))
              (unat (gd_entry_id rd) * unat (bn_entry_size s)) g
        in Some (pr\<lparr>gp_buf := OutBuf\<rparr>,
             case bs of None \<Rightarrow> g | Some v \<Rightarrow> g\<lparr>gi_out := (gi_out g)[gd_req_idx rd := Some v]\<rparr>))
     else
       (case ask_mem (gi_world g) of
          (None, w) \<Rightarrow> Some (pr, g\<lparr>gi_rc := GRAVELDB_ERR_OOM, gi_world := w\<rparr>)
        | (Some a, w) \<Rightarrow>
            let n = unat (bn_page_size s);
                (bs, g) = issue_read use_uring (bn_file s) n (unat (gp_page_id pr) * n) (g\<lparr>gi_world := w\<rparr>)
            in Some (pr\<lparr>gp_buf := PageBuf (read_into (junk_bytes a n) bs)\<rparr>, g))
   }"

fun submit_reads ::
  "GravelDB \<Rightarrow> bool \<Rightarrow> BatchGetDiskRead list \<Rightarrow> BatchGetPageRead list \<Rightarrow> GetIo \<Rightarrow> (BatchGetPageRead list \<times> GetIo) option" where
  "submit_reads db use_uring reads [] g = Some ([], g)"
| "submit_reads db use_uring reads (pr # prs) g = do {
     (pr, g) \<leftarrow> submit_page db use_uring reads pr g;
     (prs, g) \<leftarrow> submit_reads db use_uring reads prs g;
     Some (pr # prs, g)
   }"

text \<open>
  The allocations of the two arrays and of the state that outlives the call: on the heap from the
  start when there are more than 64 elements, copied there otherwise.
\<close>

definition get_arrays :: "nat \<Rightarrow> nat \<Rightarrow> World \<Rightarrow> bool \<times> World" where
  "get_arrays n disk_count w =
     (let (pages_ok, w) = (if disk_count \<le> 64 then (True, w) else ask w) in
      if \<not> pages_ok then (False, w)
      else
        let (state_ok, w) = ask w in
        if \<not> state_ok then (False, w)
        else
          let (reads_ok, w) = (if n \<le> 64 then ask w else (True, w)) in
          if \<not> reads_ok then (False, w)
          else if disk_count \<le> 64 then ask w else (True, w))"

definition graveldb_batch_get_submit ::
  "GravelDB \<Rightarrow> (u64 \<times> bool) list \<Rightarrow> World
     \<Rightarrow> (graveldb_status \<times> AsyncGetState option \<times> outputs \<times> int list \<times> GravelDB \<times> World) option" where
  "graveldb_batch_get_submit db qs w =
     (let n = length qs; out = replicate n None in
      if n = 0 then Some (GRAVELDB_OK, None, [], [], db, w)
      else
        let (ok, w) = (if n \<le> 64 then (True, w) else ask w) in
        if \<not> ok then Some (GRAVELDB_ERR_OOM, None, out, [], db, w)
        else do {
          (dims, db, out, reads) \<leftarrow> resolve_all 0 qs db out [];
          if reads = [] then Some (GRAVELDB_OK, None, out, dims, db, w)
          else do {
            let reads = sort_reads reads;
            let (ok, w) = get_arrays n (length reads) w;
            if \<not> ok then Some (GRAVELDB_ERR_OOM, None, out, dims, db, w)
            else do {
              let (r, ctx) = uring_io_init w;
              (prs, g) \<leftarrow> submit_reads db (r = 0) reads (page_groups 0 reads)
                \<lparr>gi_out = out, gi_ctx = ctx, gi_rc = GRAVELDB_OK, gi_world = w\<rparr>;
              Some (GRAVELDB_OK,
                Some \<lparr>ag_disk_reads = reads, ag_page_reads = prs, ag_io_ctx = gi_ctx g, ag_use_uring = (r = 0),
                      ag_submit_rc = gi_rc g\<rparr>,
                gi_out g, dims, db, gi_world g)
            }
          }
        })"

text \<open>
  The last phase copies the entries out of the page buffers. A page that was read directly into an
  output buffer, or for which there was no buffer, is skipped.
\<close>

fun scatter_entries :: "u64 \<Rightarrow> bytes \<Rightarrow> BatchGetDiskRead list \<Rightarrow> outputs \<Rightarrow> outputs option" where
  "scatter_entries entry_size buf [] out = Some out"
| "scatter_entries entry_size buf (rd # rds) out = do {
     v \<leftarrow> mem_slice buf (gd_offset_in_page rd) entry_size;
     scatter_entries entry_size buf rds (out[gd_req_idx rd := Some v])
   }"

fun scatter_pages ::
  "GravelDB \<Rightarrow> BatchGetDiskRead list \<Rightarrow> BatchGetPageRead list \<Rightarrow> outputs \<Rightarrow> outputs option" where
  "scatter_pages db reads [] out = Some out"
| "scatter_pages db reads (pr # prs) out =
     (case gp_buf pr of
        PageBuf buf \<Rightarrow> do {
          s \<leftarrow> db_bins db (gp_bin pr);
          out \<leftarrow> scatter_entries (bn_entry_size s) buf (take (gp_count pr) (drop (gp_first_idx pr) reads)) out;
          scatter_pages db reads prs out
        }
      | _ \<Rightarrow> scatter_pages db reads prs out)"

definition graveldb_batch_get_poll ::
  "GravelDB \<Rightarrow> AsyncGetState option \<Rightarrow> outputs \<Rightarrow> (graveldb_status \<times> AsyncGetState option \<times> outputs) option" where
  "graveldb_batch_get_poll db st out =
     (case st of
        None \<Rightarrow> Some (GRAVELDB_OK, None, out)
      | Some ag \<Rightarrow>
          let (still_pending, ctx) = (if ag_use_uring ag then uring_io_poll (ag_io_ctx ag) else (0, ag_io_ctx ag)) in
          if still_pending > 0 then Some (GRAVELDB_AGAIN, Some (ag\<lparr>ag_io_ctx := ctx\<rparr>), out)
          else do {
            let rc = (if ag_use_uring ag \<and> uc_errors ctx > 0 then GRAVELDB_ERR_IO else ag_submit_rc ag);
            out \<leftarrow> scatter_pages db (ag_disk_reads ag) (ag_page_reads ag) out;
            Some (rc, None, out)
          })"

text \<open>\<^verbatim>\<open>graveldb_batch_get_cancel\<close> only waits and frees: nothing is left of the request.\<close>

definition graveldb_batch_get_cancel :: "AsyncGetState option \<Rightarrow> AsyncGetState option" where
  "graveldb_batch_get_cancel st = None"

partial_function (option) poll_loop ::
  "GravelDB \<Rightarrow> AsyncGetState option \<Rightarrow> outputs \<Rightarrow> (graveldb_status \<times> outputs) option" where
  "poll_loop db st out =
     graveldb_batch_get_poll db st out \<bind>
       (\<lambda>(rc, st, out). if rc = GRAVELDB_AGAIN then poll_loop db st out else Some (rc, out))"

declare poll_loop.simps [code]

definition graveldb_batch_get ::
  "GravelDB \<Rightarrow> (u64 \<times> bool) list \<Rightarrow> World \<Rightarrow> (graveldb_status \<times> outputs \<times> int list \<times> GravelDB \<times> World) option" where
  "graveldb_batch_get db qs w = do {
     (rc, st, out, dims, db, w) \<leftarrow> graveldb_batch_get_submit db qs w;
     if rc \<noteq> GRAVELDB_OK then Some (rc, out, dims, db, w)
     else do {
       (rc, out) \<leftarrow> poll_loop db st out;
       Some (rc, out, dims, db, w)
     }
   }"

subsection \<open>Batched writes\<close>

text \<open>
  A request is a feature, its dimension and its embedding, \<open>None\<close> for NULL. The requests are sorted
  by dimension with the same insertion sort.
\<close>

type_synonym put_item = "u64 \<times> int \<times> emb option"

fun shift_item :: "put_item \<Rightarrow> put_item list \<Rightarrow> put_item list" where
  "shift_item key [] = [key]"
| "shift_item key (x # xs) = (if fst (snd x) > fst (snd key) then x # shift_item key xs else key # x # xs)"

definition sort_by_dim :: "put_item list \<Rightarrow> put_item list" where
  "sort_by_dim items = rev (foldl (\<lambda>sorted x. shift_item x sorted) [] items)"

text \<open>
  The key of an entry is buffered and its embedding deferred. Without the array of deferred entries
  the embedding is written at once.
\<close>

definition put_entry_at ::
  "bool \<Rightarrow> nat \<Rightarrow> u32 \<Rightarrow> u64 \<Rightarrow> emb \<Rightarrow> graveldb_status \<Rightarrow> GravelDB \<Rightarrow> World
     \<Rightarrow> (EmbWriteEntry option \<times> graveldb_status \<times> GravelDB \<times> World) option" where
  "put_entry_at deferring p entry_id feat_id e rc db w = do {
     s \<leftarrow> db_bins db p;
     (s, w) \<leftarrow> dimbin_buf_key s entry_id feat_id w;
     let single = \<lparr>ew_entry_id = entry_id, ew_data = e\<rparr>;
     if deferring then Some (Some single, rc, set_bin p s db, w)
     else do {
       (wrc, s, w) \<leftarrow> dimbin_put_batch s [single] w;
       Some (None, if wrc \<noteq> GRAVELDB_OK then wrc else rc, set_bin p s db, w)
     }
   }"

text \<open>
  One request of a group: the entry whose embedding is to be written, unless the request is skipped or
  was written at once, and the status so far.
\<close>

definition put_one ::
  "bool \<Rightarrow> int \<Rightarrow> nat \<Rightarrow> u64 \<Rightarrow> emb option \<Rightarrow> graveldb_status \<Rightarrow> GravelDB \<Rightarrow> World
     \<Rightarrow> (EmbWriteEntry option \<times> graveldb_status \<times> GravelDB \<times> World) option" where
  "put_one deferring dim_idx p feat_id emb rc db w =
     (case emb of
        None \<Rightarrow> Some (None, rc, db, w)
      | Some e \<Rightarrow>
          if feat_id = 0 then Some (None, rc, db, w)
          else do {
            (r, idx) \<leftarrow> hash_index_get (db_index db) feat_id;
            let db = db\<lparr>db_index := idx\<rparr>;
            s \<leftarrow> db_bins db p;
            (case r of
               Some (existing_dim_idx, existing_entry) \<Rightarrow>
                 if existing_dim_idx \<noteq> word_of_int dim_idx then Some (None, GRAVELDB_ERR_DIM_MISMATCH, db, w)
                 else put_entry_at deferring p existing_entry feat_id e rc db w
             | None \<Rightarrow> do {
                 let (entry_id, s, w) = dimbin_alloc_entry s w;
                 let (ok, w) = ask w;
                 (st, idx) \<leftarrow> hash_index_put ok (db_index db) feat_id (word_of_int dim_idx) entry_id;
                 put_entry_at deferring p entry_id feat_id e rc (set_bin p s (db\<lparr>db_index := idx\<rparr>)) w
               })
          })"

fun put_items ::
  "bool \<Rightarrow> int \<Rightarrow> nat \<Rightarrow> put_item list \<Rightarrow> graveldb_status \<Rightarrow> GravelDB \<Rightarrow> World
     \<Rightarrow> (EmbWriteEntry list \<times> graveldb_status \<times> GravelDB \<times> World) option" where
  "put_items deferring dim_idx p [] rc db w = Some ([], rc, db, w)"
| "put_items deferring dim_idx p ((feat_id, d, emb) # items) rc db w = do {
     (x, rc, db, w) \<leftarrow> put_one deferring dim_idx p feat_id emb rc db w;
     (xs, rc, db, w) \<leftarrow> put_items deferring dim_idx p items rc db w;
     Some (case x of None \<Rightarrow> xs | Some e \<Rightarrow> e # xs, rc, db, w)
   }"

fun put_singles ::
  "EmbWriteEntry list \<Rightarrow> graveldb_status \<Rightarrow> DimBin \<Rightarrow> World \<Rightarrow> (graveldb_status \<times> DimBin \<times> World) option" where
  "put_singles [] rc s w = Some (rc, s, w)"
| "put_singles (e # es) rc s w = do {
     (wrc, s, w) \<leftarrow> dimbin_put_batch s [e] w;
     put_singles es (if wrc \<noteq> GRAVELDB_OK then wrc else rc) s w
   }"

text \<open>The embeddings of a group in one batch, or one by one when there is no memory for the batch.\<close>

definition write_group ::
  "nat \<Rightarrow> EmbWriteEntry list \<Rightarrow> graveldb_status \<Rightarrow> GravelDB \<Rightarrow> World \<Rightarrow> (graveldb_status \<times> GravelDB \<times> World) option" where
  "write_group p es rc db w =
     (if es = [] then Some (rc, db, w)
      else do {
        s \<leftarrow> db_bins db p;
        let (ok, w) = ask w;
        (rc, s, w) \<leftarrow>
          (if ok then
             map_option (\<lambda>(wrc, s, w). (if wrc \<noteq> GRAVELDB_OK then wrc else rc, s, w)) (dimbin_put_batch s es w)
           else put_singles es rc s w);
        Some (rc, set_bin p s db, w)
      })"

text \<open>
  A group of requests of one dimension. The first component of the result tells whether the loop over
  the groups goes on.
\<close>

definition put_group ::
  "int \<Rightarrow> put_item list \<Rightarrow> graveldb_status \<Rightarrow> GravelDB \<Rightarrow> World
     \<Rightarrow> (bool \<times> graveldb_status \<times> GravelDB \<times> World) option" where
  "put_group dim items rc db w = do {
     (dim_idx, reg) \<leftarrow> dim_registry_find (db_dim_reg db) dim;
     let db = db\<lparr>db_dim_reg := reg\<rparr>;
     (dim_idx, db, w) \<leftarrow>
       (if dim_idx < 0 \<and> db_auto_create_bins db then create_and_register_bin db dim w else Some (dim_idx, db, w));
     if dim_idx < 0 then
       Some (False, if db_auto_create_bins db then GRAVELDB_ERR_OOM else GRAVELDB_ERR_INVALID, db, w)
     else do {
       (p, s) \<leftarrow> get_bin db (word_of_int dim_idx);
       let (deferring, w) = ask w;
       (s, w) \<leftarrow> dimbin_reserve s (of_nat (length items)) w;
       (es, rc, db, w) \<leftarrow> put_items deferring dim_idx p items rc (set_bin p s db) w;
       (rc, db, w) \<leftarrow> write_group p es rc db w;
       Some (True, rc, db, w)
     }
   }"

function put_by_dim ::
  "put_item list \<Rightarrow> graveldb_status \<Rightarrow> GravelDB \<Rightarrow> World \<Rightarrow> (graveldb_status \<times> GravelDB \<times> World) option" where
  "put_by_dim [] rc db w = Some (rc, db, w)"
| "put_by_dim (x # xs) rc db w =
     (let same = (\<lambda>y. fst (snd y) = fst (snd x)) in do {
        (go, rc, db, w) \<leftarrow> put_group (fst (snd x)) (x # takeWhile same xs) rc db w;
        if go then put_by_dim (dropWhile same xs) rc db w else Some (rc, db, w)
      })"
  by pat_completeness auto
termination
  by (relation "measure (\<lambda>(xs, rc, db, w). length xs)") (auto simp: less_Suc_eq_le length_dropWhile_le)

definition graveldb_batch_put ::
  "GravelDB \<Rightarrow> put_item list \<Rightarrow> World \<Rightarrow> (graveldb_status \<times> GravelDB \<times> World) option" where
  "graveldb_batch_put db items w =
     (if items = [] then Some (GRAVELDB_OK, db, w)
      else
        let (ok, w) = ask w in
        if \<not> ok then Some (GRAVELDB_ERR_OOM, db, w)
        else put_by_dim (sort_by_dim items) GRAVELDB_OK db w)"

subsection \<open>Deletion\<close>

text \<open>Neither the result of the tombstone nor that of the removal is looked at.\<close>

definition delete_one :: "u64 \<Rightarrow> GravelDB \<Rightarrow> World \<Rightarrow> (GravelDB \<times> World) option" where
  "delete_one feat_id db w =
     (if feat_id = 0 then Some (db, w)
      else do {
        (r, idx) \<leftarrow> hash_index_get (db_index db) feat_id;
        let db = db\<lparr>db_index := idx\<rparr>;
        (case r of
           None \<Rightarrow> Some (db, w)
         | Some (dim_idx, entry_idx) \<Rightarrow> do {
             (p, s) \<leftarrow> get_bin db dim_idx;
             (s, w) \<leftarrow>
               (if bn_in_checkpoint s then do {
                  let (ok, w) = ask w;
                  (rc, ob) \<leftarrow> overlay_tombstone ok (bn_overlay s) entry_idx;
                  Some (s\<lparr>bn_overlay := ob\<rparr>, w)
                } else dimbin_free_entry s entry_idx w);
             (st, idx) \<leftarrow> hash_index_remove (db_index db) feat_id;
             Some (set_bin p s (db\<lparr>db_index := idx\<rparr>), w)
           })
      })"

fun graveldb_batch_delete :: "GravelDB \<Rightarrow> u64 list \<Rightarrow> World \<Rightarrow> (graveldb_status \<times> GravelDB \<times> World) option" where
  "graveldb_batch_delete db [] w = Some (GRAVELDB_OK, db, w)"
| "graveldb_batch_delete db (k # ks) w = do {
     (db, w) \<leftarrow> delete_one k db w;
     graveldb_batch_delete db ks w
   }"

end
