(* ===== verification/Engine_Flush.thy ===== *)
theory Engine_Flush
  imports Engine
begin

text \<open>
  Flushing and checkpointing the whole store, in \<^verbatim>\<open>src/graveldb.c\<close>: the flush across all bins, its
  asynchronous variant, the checkpoint in one call, the checkpoint in steps, and the statistics.
\<close>

subsection \<open>The flush of all bins\<close>

text \<open>
  Keys first. The synchronous and the asynchronous flush differ in which bins they visit: \<open>visit\<close>
  tells it of a bin.
\<close>

fun flush_all_keys ::
  "(DimBin \<Rightarrow> bool) \<Rightarrow> u16 list \<Rightarrow> graveldb_status \<Rightarrow> GravelDB \<Rightarrow> World \<Rightarrow> (graveldb_status \<times> GravelDB \<times> World) option" where
  "flush_all_keys visit [] rc db w = Some (rc, db, w)"
| "flush_all_keys visit (i # is) rc db w = do {
     (p, s) \<leftarrow> get_bin db i;
     if \<not> visit s then flush_all_keys visit is rc db w
     else do {
       (krc, s, w) \<leftarrow> dimbin_flush_keys s w;
       flush_all_keys visit is (if krc \<noteq> GRAVELDB_OK then krc else rc) (set_bin p (s\<lparr>bn_flush_needed := False\<rparr>) db) w
     }
   }"

fun sync_files ::
  "(DimBin \<Rightarrow> bool) \<Rightarrow> u16 list \<Rightarrow> graveldb_status \<Rightarrow> GravelDB \<Rightarrow> World \<Rightarrow> (graveldb_status \<times> World) option" where
  "sync_files open_fd [] rc db w = Some (rc, w)"
| "sync_files open_fd (i # is) rc db w = do {
     (p, s) \<leftarrow> get_bin db i;
     if \<not> open_fd s then sync_files open_fd is rc db w
     else
       let (ok, w) = ask w in
       sync_files open_fd is (if ok then rc else GRAVELDB_ERR_IO) db w
   }"

text \<open>
  Every page of a bin is written on its own; the runs with small gaps only matter for the counter.
  The state is the one of a flush of a single bin, with the ring of the store.
\<close>

definition write_one_page :: "bool \<Rightarrow> DimBin \<Rightarrow> u32 \<Rightarrow> FlushState \<Rightarrow> FlushState option" where
  "write_one_page use_uring s pg fs = do {
     let wb = bn_write_buf s;
     slot_idx \<leftarrow> pagemap_find (wb_slots wb) (wb_capacity wb) pg;
     if ps_page_id (wb_slots wb ! unat slot_idx) \<noteq> pg then Some fs
     else do {
       (a, page) \<leftarrow> ps_data (wb_slots wb ! unat slot_idx);
       let off = unat pg * unat (bn_page_size s);
       (if use_uring then
          (let (r, ctx, f, w) = uring_io_submit_write (fs_ctx fs) (bn_fd s) (fs_file fs) page off (fs_world fs)
           in Some (fs\<lparr>fs_rc := (if r < 0 then GRAVELDB_ERR_IO else fs_rc fs), fs_ctx := ctx, fs_file := f, fs_world := w\<rparr>))
        else
          (let (wr, f, w) = pwrite (fs_file fs) off page (fs_world fs)
           in Some (fs\<lparr>fs_rc := (if wr \<noteq> int (unat (bn_page_size s)) then GRAVELDB_ERR_IO else fs_rc fs),
                       fs_file := f, fs_world := w\<rparr>)))
     }
   }"

fun write_pages :: "bool \<Rightarrow> DimBin \<Rightarrow> u32 list \<Rightarrow> FlushState \<Rightarrow> FlushState option" where
  "write_pages use_uring s [] fs = Some fs"
| "write_pages use_uring s (pg # pgs) fs = do {
     fs \<leftarrow> write_one_page use_uring s pg fs;
     write_pages use_uring s pgs fs
   }"

function write_runs :: "bool \<Rightarrow> DimBin \<Rightarrow> u32 list \<Rightarrow> FlushState \<Rightarrow> (DimBin \<times> FlushState) option" where
  "write_runs use_uring s [] fs = Some (s, fs)"
| "write_runs use_uring s (pg # pgs) fs =
     (let (run, rest) = run_split (\<lambda>p q. q \<le> p + PEEPHOLE_GAP_MAX + 1) pg pgs in do {
        fs \<leftarrow> write_pages use_uring s (pg # run) fs;
        let wb = bn_write_buf s;
        let s = s\<lparr>bn_write_buf := wb\<lparr>wb_flush_bytes :=
              wb_flush_bytes wb + of_nat (length (pg # run)) * ucast (bn_page_size s)\<rparr>\<rparr>;
        write_runs use_uring s rest fs
      })"
  by pat_completeness auto
termination
  by (relation "measure (\<lambda>(u, s, pgs, fs). length pgs)") (auto simp: less_Suc_eq_le dest: run_split_le)

definition write_bin :: "bool \<Rightarrow> DimBin \<Rightarrow> graveldb_status \<Rightarrow> uring_io_ctx \<Rightarrow> World
    \<Rightarrow> (graveldb_status \<times> uring_io_ctx \<times> DimBin \<times> World) option" where
  "write_bin use_uring s rc ctx w =
     (if wb_count (bn_write_buf s) = 0 then Some (rc, ctx, s, w)
      else do {
        (s, fs) \<leftarrow> write_runs use_uring s (dirty_pages_of (bn_write_buf s))
          \<lparr>fs_rc = rc, fs_file = bn_file s, fs_ctx = ctx, fs_world = w\<rparr>;
        Some (fs_rc fs, fs_ctx fs, s\<lparr>bn_file := fs_file fs\<rparr>, fs_world fs)
      })"

fun write_bins :: "bool \<Rightarrow> u16 list \<Rightarrow> graveldb_status \<Rightarrow> GravelDB \<Rightarrow> World \<Rightarrow> (graveldb_status \<times> GravelDB \<times> World) option" where
  "write_bins use_uring [] rc db w = Some (rc, db, w)"
| "write_bins use_uring (i # is) rc db w = do {
     (p, s) \<leftarrow> get_bin db i;
     (rc, ctx, s, w) \<leftarrow> write_bin use_uring s rc (db_io_ring db) w;
     write_bins use_uring is rc (set_bin p s (db\<lparr>db_io_ring := ctx\<rparr>)) w
   }"

text \<open>The pages are given back in the order of the slots, without sorting.\<close>

definition slot_pages :: "WriteBuffer \<Rightarrow> u32 list" where
  "slot_pages wb = take GRAVELDB_MAX_FLUSH_BATCH (map ps_page_id (filter ps_occ (wb_slots wb)))"

fun release_bins :: "u16 list \<Rightarrow> GravelDB \<Rightarrow> World \<Rightarrow> (GravelDB \<times> World) option" where
  "release_bins [] db w = Some (db, w)"
| "release_bins (i # is) db w = do {
     (p, s) \<leftarrow> get_bin db i;
     if wb_count (bn_write_buf s) = 0 then release_bins is db w
     else do {
       (wb, w) \<leftarrow> finish_flush (bn_write_buf s) (slot_pages (bn_write_buf s)) w;
       release_bins is (set_bin p (s\<lparr>bn_write_buf := wb\<rparr>) db) w
     }
   }"

definition reset_ring :: "GravelDB \<Rightarrow> GravelDB" where
  "reset_ring db = (if uc_initialized (db_io_ring db) then db\<lparr>db_io_ring := uring_io_reset (db_io_ring db)\<rparr> else db)"

text \<open>\<^verbatim>\<open>graveldb_flush\<close>\<close>

definition graveldb_flush :: "GravelDB \<Rightarrow> World \<Rightarrow> (graveldb_status \<times> GravelDB \<times> World) option" where
  "graveldb_flush db w =
     (let bins = bin_indices db in
      if bins = [] then Some (GRAVELDB_OK, db, w)
      else do {
        (rc, db, w) \<leftarrow> flush_all_keys (\<lambda>s. kb_count (bn_key_buf s) \<noteq> 0) bins GRAVELDB_OK db w;
        (rc, w) \<leftarrow> sync_files (\<lambda>s. bn_key_fd s \<ge> 0) bins rc db w;
        let use_uring = uc_initialized (db_io_ring db);
        (rc, db, w) \<leftarrow> write_bins use_uring bins rc (reset_ring db) w;
        (rc, db, w) \<leftarrow>
          (if use_uring then
             (let (r, w) = uring_io_submit_fsyncs (db_io_ring db) w;
                  (errors, ctx) = uring_io_wait (db_io_ring db)
              in Some (if errors > 0 then GRAVELDB_ERR_IO else rc, db\<lparr>db_io_ring := ctx\<rparr>, w))
           else map_option (\<lambda>(rc, w). (rc, db, w)) (sync_files (\<lambda>s. wb_count (bn_write_buf s) \<noteq> 0) bins rc db w));
        (db, w) \<leftarrow> release_bins bins db w;
        Some (rc, db, w)
      })"

fun any_flush_needed :: "u16 list \<Rightarrow> GravelDB \<Rightarrow> bool option" where
  "any_flush_needed [] db = Some False"
| "any_flush_needed (i # is) db = do {
     (p, s) \<leftarrow> get_bin db i;
     if bn_flush_needed s then Some True else any_flush_needed is db
   }"

definition graveldb_flush_needed :: "GravelDB \<Rightarrow> bool option" where
  "graveldb_flush_needed db = any_flush_needed (bin_indices db) db"

subsection \<open>The asynchronous flush\<close>

record AsyncFlushState =
  af_use_uring :: bool
  af_submit_rc :: graveldb_status

definition graveldb_flush_submit ::
  "GravelDB \<Rightarrow> World \<Rightarrow> (graveldb_status \<times> AsyncFlushState option \<times> GravelDB \<times> World) option" where
  "graveldb_flush_submit db w =
     (let bins = bin_indices db in
      if bins = [] then Some (GRAVELDB_OK, None, db, w)
      else do {
        (rc, db, w) \<leftarrow> flush_all_keys (\<lambda>s. bn_flush_needed s \<or> kb_count (bn_key_buf s) \<noteq> 0) bins GRAVELDB_OK db w;
        (rc, w) \<leftarrow> sync_files (\<lambda>s. bn_key_fd s \<ge> 0) bins rc db w;
        let (ok, w) = ask w;
        if \<not> ok then Some (GRAVELDB_ERR_OOM, None, db, w)
        else do {
          let use_uring = uc_initialized (db_io_ring db);
          (rc, db, w) \<leftarrow> write_bins use_uring bins rc (reset_ring db) w;
          (rc, w) \<leftarrow>
            (if use_uring then Some (rc, snd (uring_io_submit_fsyncs (db_io_ring db) w))
             else sync_files (\<lambda>s. wb_count (bn_write_buf s) \<noteq> 0) bins rc db w);
          Some (GRAVELDB_OK, Some \<lparr>af_use_uring = use_uring, af_submit_rc = rc\<rparr>, db, w)
        }
      })"

definition graveldb_flush_poll ::
  "AsyncFlushState option \<Rightarrow> GravelDB \<Rightarrow> World \<Rightarrow> (graveldb_status \<times> AsyncFlushState option \<times> GravelDB \<times> World) option" where
  "graveldb_flush_poll st db w =
     (case st of
        None \<Rightarrow> Some (GRAVELDB_OK, None, db, w)
      | Some af \<Rightarrow>
          let (still_pending, ctx) = (if af_use_uring af then uring_io_poll (db_io_ring db) else (0, db_io_ring db));
              db = db\<lparr>db_io_ring := ctx\<rparr>
          in if still_pending > 0 then Some (GRAVELDB_AGAIN, Some af, db, w)
             else do {
               let rc = (if af_use_uring af \<and> uc_errors ctx > 0 then GRAVELDB_ERR_IO else af_submit_rc af);
               (db, w) \<leftarrow> release_bins (bin_indices db) db w;
               Some (rc, None, db, w)
             })"

subsection \<open>The checkpoint in one call\<close>

fun begin_bins :: "u16 list \<Rightarrow> GravelDB \<Rightarrow> World \<Rightarrow> (graveldb_status \<times> GravelDB \<times> World) option" where
  "begin_bins [] db w = Some (GRAVELDB_OK, db, w)"
| "begin_bins (i # is) db w = do {
     (p, s) \<leftarrow> get_bin db i;
     (rc, s, w) \<leftarrow> dimbin_checkpoint_begin s w;
     if rc \<noteq> GRAVELDB_OK then Some (rc, set_bin p s db, w) else begin_bins is (set_bin p s db) w
   }"

fun end_bins :: "u16 list \<Rightarrow> GravelDB \<Rightarrow> World \<Rightarrow> (graveldb_status \<times> GravelDB \<times> World) option" where
  "end_bins [] db w = Some (GRAVELDB_OK, db, w)"
| "end_bins (i # is) db w = do {
     (p, s) \<leftarrow> get_bin db i;
     (rc, s, w) \<leftarrow> dimbin_checkpoint_end s w;
     if rc \<noteq> GRAVELDB_OK then Some (rc, set_bin p s db, w) else end_bins is (set_bin p s db) w
   }"

text \<open>
  The delta file of one bin. Unlike \<^verbatim>\<open>ckpt_dump_delta\<close>, this writer leaves the checksum 0 and reports
  nothing; a bin whose file cannot be opened is left out.
\<close>

function store_runs :: "DimBin \<Rightarrow> string \<Rightarrow> u32 list \<Rightarrow> u32 \<Rightarrow> World \<Rightarrow> u32 \<times> World" where
  "store_runs s path [] entries w = (entries, w)"
| "store_runs s path (pg # pgs) entries w =
     (let (run, rest) = run_split (\<lambda>p q. q = p + 1) pg pgs;
          (r, w) = dump_run s path pg (length (pg # run)) w
      in store_runs s path rest (if r = None then entries else entries + 1) w)"
  by pat_completeness auto
termination
  by (relation "measure (\<lambda>(s, p, pgs, e, w). length pgs)") (auto simp: less_Suc_eq_le dest: run_split_le)

definition store_delta :: "string \<Rightarrow> DimBin \<Rightarrow> World \<Rightarrow> World" where
  "store_delta data_dir s w =
     (let path = delta_file_path data_dir (dt_generation (bn_dirty s)) (bn_dim s);
          (ok, w) = open_trunc path w
      in if \<not> ok then w
         else
           let (ok, w) = ask w in
           if \<not> ok then w
           else
             let (wr, w) = fd_write path (encode_delta_hdr (delta_header s)) w in
             if wr \<noteq> int WIRE_DELTA_HDR_SIZE then w
             else
               let (entries, w) = store_runs s path (dirty_tracker_scan_ckpt (bn_dirty s) GRAVELDB_MAX_DIRTY) 0 w;
                   (wr, w) = fd_pwrite path 32 (u32_bytes entries) w
               in snd (ask w))"

fun store_deltas :: "u16 list \<Rightarrow> GravelDB \<Rightarrow> World \<Rightarrow> World option" where
  "store_deltas [] db w = Some w"
| "store_deltas (i # is) db w = do {
     (p, s) \<leftarrow> get_bin db i;
     store_deltas is db (store_delta (db_data_dir db) s w)
   }"

definition graveldb_checkpoint :: "GravelDB \<Rightarrow> World \<Rightarrow> (graveldb_status \<times> GravelDB \<times> World) option" where
  "graveldb_checkpoint db w = do {
     let bins = bin_indices db;
     (rc, db, w) \<leftarrow> begin_bins bins db w;
     if rc \<noteq> GRAVELDB_OK then Some (rc, db, w)
     else do {
       w \<leftarrow> store_deltas bins db w;
       (rc, db, w) \<leftarrow> end_bins bins db w;
       if rc \<noteq> GRAVELDB_OK then Some (rc, db, w)
       else Some (GRAVELDB_OK, db\<lparr>db_current_epoch := db_current_epoch db + 1\<rparr>, w)
     }
   }"

subsection \<open>The checkpoint in steps\<close>

definition graveldb_checkpoint_in_progress :: "GravelDB \<Rightarrow> bool" where
  "graveldb_checkpoint_in_progress db \<longleftrightarrow> cp_phase (db_ckpt db) \<noteq> CKPT_IDLE"

text \<open>
  The loop of one step over the dirty blocks of a bin, within a budget of pages. A run is cut when it
  does not fit. The result is the new cursor and the number of entries.
\<close>

function dump_some ::
  "DimBin \<Rightarrow> string \<Rightarrow> u32 \<Rightarrow> u32 list \<Rightarrow> nat \<Rightarrow> u32 \<Rightarrow> u32 \<Rightarrow> World \<Rightarrow> nat \<times> u32 \<times> World" where
  "dump_some s path max_pages blocks cursor pages_done entries w =
     (if cursor < length blocks \<and> pages_done < max_pages then
        let blk_start = blocks ! cursor;
            (run, rest) = run_split (\<lambda>p q. q = p + 1) blk_start (drop (Suc cursor) blocks);
            blk_count = (of_nat (length (blk_start # run)) :: u32);
            cut = (pages_done + blk_count > max_pages);
            j = (if cut then cursor + unat (max_pages - pages_done) else cursor + length (blk_start # run));
            blk_count = (if cut then max_pages - pages_done else blk_count);
            (r, w) = dump_run s path blk_start (unat blk_count) w
        in dump_some s path max_pages blocks j (pages_done + blk_count) (if r = None then entries else entries + 1) w
      else (cursor, entries, w))"
  by pat_completeness auto
termination
proof (relation "measure (\<lambda>(s, p, m, blocks, cursor, pd, e, w). length blocks - cursor)", goal_cases)
  case (2 s path m blocks cursor pd e w blk_start sp run rest blk_count cut j blk_count' x r w')
  then have "cursor < length blocks" and "pd < m" and j: "cursor < j"
    by (auto simp: word_less_nat_alt unat_sub_if')
  then show ?case
    by simp
qed simp

declare dump_some.simps [simp del]

text \<open>The first visit to a bin opens its delta file. The first component tells whether it is open.\<close>

definition open_delta :: "GravelDB \<Rightarrow> DimBin \<Rightarrow> World \<Rightarrow> bool \<times> CkptProgress \<times> World" where
  "open_delta db s w =
     (let p = db_ckpt db;
          skip = p\<lparr>cp_fd := None, cp_current_bin := cp_current_bin p + 1\<rparr>;
          path = delta_file_path (db_data_dir db) (dt_generation (bn_dirty s)) (bn_dim s);
          (ok, w) = open_trunc path w
      in if \<not> ok then (False, skip, w)
         else
           let (ok, w) = ask w in
           if \<not> ok then (False, skip, w)
           else
             let (wr, w) = fd_write path (encode_delta_hdr (delta_header s)) w in
             if wr \<noteq> int WIRE_DELTA_HDR_SIZE
             then (False, skip\<lparr>cp_dirty_blocks := [], cp_dirty_cursor := 0, cp_entries_written := 0\<rparr>, w)
             else (True, p\<lparr>cp_fd := Some path,
                 cp_dirty_blocks := dirty_tracker_scan_ckpt (bn_dirty s) GRAVELDB_MAX_DIRTY,
                 cp_dirty_cursor := 0, cp_entries_written := 0\<rparr>, w))"

definition dump_open :: "u32 \<Rightarrow> string \<Rightarrow> CkptProgress \<Rightarrow> DimBin \<Rightarrow> World \<Rightarrow> CkptProgress \<times> World" where
  "dump_open max_pages path p s w =
     (let (cursor, entries, w) =
            dump_some s path max_pages (cp_dirty_blocks p) (cp_dirty_cursor p) 0 (cp_entries_written p) w;
          p = p\<lparr>cp_dirty_cursor := cursor, cp_entries_written := entries\<rparr>
      in if cursor \<ge> length (cp_dirty_blocks p) then
           let (wr, w) = fd_pwrite path 32 (u32_bytes entries) w;
               w = snd (ask w)
           in (p\<lparr>cp_fd := None, cp_current_bin := cp_current_bin p + 1\<rparr>, w)
         else (p, w))"

definition step_flushing :: "GravelDB \<Rightarrow> World \<Rightarrow> (graveldb_status \<times> GravelDB \<times> World) option" where
  "step_flushing db w =
     (let p = db_ckpt db in
      if cp_current_bin p \<ge> num_bins db
      then Some (GRAVELDB_OK, db\<lparr>db_ckpt := p\<lparr>cp_phase := CKPT_DUMPING, cp_current_bin := 0\<rparr>\<rparr>, w)
      else do {
        (a, s) \<leftarrow> get_bin db (cp_current_bin p);
        (rc, s, w) \<leftarrow> dimbin_checkpoint_begin s w;
        let db = set_bin a s db;
        if rc \<noteq> GRAVELDB_OK then Some (rc, db, w)
        else Some (GRAVELDB_OK, db\<lparr>db_ckpt := p\<lparr>cp_current_bin := cp_current_bin p + 1\<rparr>\<rparr>, w)
      })"

definition step_dumping :: "GravelDB \<Rightarrow> World \<Rightarrow> (graveldb_status \<times> GravelDB \<times> World) option" where
  "step_dumping db w =
     (let p = db_ckpt db in
      if cp_current_bin p \<ge> num_bins db
      then Some (GRAVELDB_OK, db\<lparr>db_ckpt := p\<lparr>cp_phase := CKPT_FINISHING, cp_current_bin := 0\<rparr>\<rparr>, w)
      else do {
        (a, s) \<leftarrow> get_bin db (cp_current_bin p);
        let (opened, p, w) = (if cp_fd p = None then open_delta db s w else (True, p, w));
        (case cp_fd p of
           Some path \<Rightarrow>
             (let (p, w) = dump_open (cp_max_pages p) path p s w
              in Some (GRAVELDB_OK, db\<lparr>db_ckpt := p\<rparr>, w))
         | None \<Rightarrow> Some (GRAVELDB_OK, db\<lparr>db_ckpt := p\<rparr>, w))
      })"

definition step_finishing :: "GravelDB \<Rightarrow> World \<Rightarrow> (graveldb_status \<times> GravelDB \<times> World) option" where
  "step_finishing db w = do {
     (rc, db, w) \<leftarrow> end_bins (bin_indices db) db w;
     if rc \<noteq> GRAVELDB_OK then Some (rc, db, w)
     else Some (GRAVELDB_OK, db\<lparr>db_current_epoch := db_current_epoch db + 1,
                                db_ckpt := (db_ckpt db)\<lparr>cp_phase := CKPT_IDLE\<rparr>\<rparr>, w)
   }"

definition graveldb_checkpoint_step :: "GravelDB \<Rightarrow> u32 \<Rightarrow> World \<Rightarrow> (graveldb_status \<times> GravelDB \<times> World) option" where
  "graveldb_checkpoint_step db max_pages_per_step w =
     (let max_pages = (if max_pages_per_step = 0 then 64 else max_pages_per_step);
          p = (db_ckpt db)\<lparr>cp_max_pages := max_pages\<rparr>
      in case cp_phase p of
           CKPT_IDLE \<Rightarrow>
             step_flushing (db\<lparr>db_ckpt := p\<lparr>cp_phase := CKPT_FLUSHING, cp_current_bin := 0, cp_fd := None,
               cp_dirty_blocks := [], cp_dirty_cursor := 0, cp_entries_written := 0\<rparr>\<rparr>) w
         | CKPT_FLUSHING \<Rightarrow> step_flushing (db\<lparr>db_ckpt := p\<rparr>) w
         | CKPT_DUMPING \<Rightarrow> step_dumping (db\<lparr>db_ckpt := p\<rparr>) w
         | CKPT_FINISHING \<Rightarrow> step_finishing (db\<lparr>db_ckpt := p\<rparr>) w)"

subsection \<open>Statistics\<close>

text \<open>The fields that are always 0 are left out.\<close>

record GravelDBStats =
  st_total_features :: u64
  st_total_entries :: u64
  st_flush_bytes :: u64
  st_checkpoint_generation :: u64

fun sum_bins :: "u16 list \<Rightarrow> GravelDB \<Rightarrow> (u64 \<times> u64) option" where
  "sum_bins [] db = Some (0, 0)"
| "sum_bins (i # is) db = do {
     (p, s) \<leftarrow> get_bin db i;
     (total_flush, total_entries) \<leftarrow> sum_bins is db;
     Some (wb_flush_bytes (bn_write_buf s) + total_flush, bn_bump_ptr s + total_entries)
   }"

definition graveldb_stats :: "GravelDB \<Rightarrow> GravelDBStats option" where
  "graveldb_stats db = do {
     (total_flush, total_entries) \<leftarrow> sum_bins (bin_indices db) db;
     Some \<lparr>st_total_features = ucast (rt_count (db_index db)), st_total_entries = total_entries,
           st_flush_bytes = total_flush, st_checkpoint_generation = db_current_epoch db\<rparr>
   }"

end
