(* ===== verification/Ckpt_Delta.thy ===== *)
theory Ckpt_Delta
  imports Ckpt_Files Bin_Contract
begin

text \<open>
  Delta files, \<^verbatim>\<open>ckpt_dump_delta\<close> and \<^verbatim>\<open>ckpt_replay_delta\<close> of
  \<^verbatim>\<open>src/src/checkpoint.c\<close>: the dump writes the runs of dirty pages, and replaying the file over
  another copy of the bin restores exactly these pages.
\<close>

subsection \<open>Runs of pages\<close>

function page_runs :: "u32 list \<Rightarrow> (u32 \<times> nat) list" where
  "page_runs [] = []"
| "page_runs (pg # pgs) =
     (let (run, rest) = run_split follows pg pgs in (pg, length (pg # run)) # page_runs rest)"
  by pat_completeness auto
termination by (relation "measure length") (auto simp: less_Suc_eq_le dest: run_split_le)

lemma run_interval:
  assumes "successively follows (p # a)" and "sorted_wrt (<) (p # a)"
  shows "map unat (p # a) = [unat p..<unat p + length (p # a)]"
  using assms
proof (induction a arbitrary: p)
  case (Cons q a)
  then have q: "q = p + 1" "p < q"
    by auto
  have "1 + p \<noteq> 0"
  proof
    assume "1 + p = 0"
    then show False
      using q by (simp add: add.commute)
  qed
  then have "unat q = Suc (unat p)"
    using unatSuc [of p] by (simp add: q(1) add.commute)
  moreover have "successively follows (q # a)" "sorted_wrt (<) (q # a)"
    using Cons.prems(1) unfolding successively.simps by blast (use Cons.prems(2) in simp)
  then have "map unat (q # a) = [unat q..<unat q + length (q # a)]"
    by (rule Cons.IH)
  ultimately show ?case
    by (simp add: upt_conv_Cons del: upt_Suc)
qed simp

definition in_run :: "nat \<Rightarrow> u32 \<times> nat \<Rightarrow> bool" where
  "in_run k r \<longleftrightarrow> unat (fst r) \<le> k \<and> k < unat (fst r) + snd r"

lemma page_runs_cover:
  "sorted_wrt (<) pgs \<Longrightarrow> (\<exists>r \<in> set (page_runs pgs). in_run k r) \<longleftrightarrow> k \<in> unat ` set pgs"
proof (induction pgs rule: page_runs.induct)
  case (2 pg pgs)
  obtain run rest where r: "run_split follows pg pgs = (run, rest)"
    by fastforce
  have p: "pgs = run @ rest" "successively follows (pg # run)"
    using run_split_props [OF r] by auto
  have s: "sorted_wrt (<) (pg # run)" "sorted_wrt (<) rest"
    using 2(2) p(1) by (auto simp: sorted_wrt_append)
  have "unat ` set (pg # run) = {unat pg..<unat pg + length (pg # run)}"
    using arg_cong [OF run_interval [OF p(2) s(1)], of set] by (simp only: set_map set_upt)
  then have "in_run k (pg, length (pg # run)) \<longleftrightarrow> k \<in> unat ` set (pg # run)"
    by (simp add: in_run_def)
  then show ?case
    using 2(1) [OF r [symmetric] refl s(2)] r p(1) by (simp add: Let_def image_Un)
qed simp

lemma page_runs_pos: "r \<in> set (page_runs pgs) \<Longrightarrow> 0 < snd r"
  by (induction pgs rule: page_runs.induct) (auto simp: Let_def split: prod.splits)

lemma page_runs_length: "length (page_runs pgs) \<le> length pgs"
proof (induction pgs rule: page_runs.induct)
  case (2 pg pgs)
  obtain run rest where r: "run_split follows pg pgs = (run, rest)"
    by fastforce
  then show ?case
    using 2 [OF r [symmetric] refl] run_split_le [OF r [symmetric]] by simp
qed simp

subsection \<open>Writing\<close>

definition run_data :: "DimBin \<Rightarrow> u32 \<times> nat \<Rightarrow> bytes" where
  "run_data s r = file_read (bn_file s) (unat (fst r) * unat (bn_page_size s)) (snd r * unat (bn_page_size s))"

definition run_bytes :: "DimBin \<Rightarrow> u32 \<times> nat \<Rightarrow> bytes" where
  "run_bytes s r = encode_delta_entry (fst r) (of_nat (snd r)) @ run_data s r"

definition run_in_file :: "DimBin \<Rightarrow> u32 \<times> nat \<Rightarrow> bool" where
  "run_in_file s r \<longleftrightarrow> (unat (fst r) + snd r) * unat (bn_page_size s) \<le> length (bn_file s)"

lemma length_run_data: "run_in_file s r \<Longrightarrow> length (run_data s r) = snd r * unat (bn_page_size s)"
  by (simp add: run_data_def run_in_file_def file_read_def add_mult_distrib)

lemma length_encode_delta [simp]: "length (encode_delta_entry a b) = 8" "length (encode_delta_hdr h) = 40"
  by (simp_all add: encode_delta_entry_def wire_encode_delta_entry_def WIRE_DELTA_ENTRY_SIZE_def
      encode_delta_hdr_def wire_encode_delta_hdr_def WIRE_DELTA_HDR_SIZE_def Let_def)

text \<open>The world after something was appended to a file.\<close>

definition appended :: "string \<Rightarrow> bytes \<Rightarrow> World \<Rightarrow> World \<Rightarrow> bool" where
  "appended p bs w w' \<longleftrightarrow> all_ok w' \<and> contents w' p = contents w p @ bs"

lemma appended_trans: "appended p a w w1 \<Longrightarrow> appended p b w1 w2 \<Longrightarrow> appended p (a @ b) w w2"
  by (simp add: appended_def)

lemma dump_run_ok:
  assumes "all_ok w" and "run_in_file s (pg, n)"
  shows "\<exists>w'. dump_run s path pg n w = (Some (run_bytes s (pg, n)), w') \<and> appended path (run_bytes s (pg, n)) w w'"
  using assms length_run_data [OF assms(2)]
  by (simp add: dump_run_def Let_def split_beta pread_ok fd_write_ok WIRE_DELTA_ENTRY_SIZE_def run_bytes_def appended_def)
    (simp add: run_data_def)

lemma dump_runs_ok:
  assumes "all_ok (du_world d)" and "\<forall>r \<in> set (page_runs pgs). run_in_file s r"
  shows "\<exists>d'. dump_runs s path pgs d = d' \<and>
    appended path (concat (map (run_bytes s) (page_runs pgs))) (du_world d) (du_world d') \<and>
    du_entries d' = du_entries d + of_nat (length (page_runs pgs))"
  using assms
proof (induction pgs arbitrary: d rule: length_induct)
  case (1 pgs)
  show ?case
  proof (cases pgs)
    case Nil
    then show ?thesis
      using 1(2) by (simp add: appended_def)
  next
    case (Cons pg qs)
    obtain run rest where r: "run_split follows pg qs = (run, rest)"
      by fastforce
    let ?b = "run_bytes s (pg, length (pg # run))"
    have runs: "page_runs pgs = (pg, length (pg # run)) # page_runs rest"
      using r Cons by simp
    obtain w1 where w1: "dump_run s path pg (length (pg # run)) (du_world d) = (Some ?b, w1)" "appended path ?b (du_world d) w1"
      using dump_run_ok [OF 1(2), of s pg "length (pg # run)" path] 1(3) unfolding runs by auto
    let ?d = "d\<lparr>du_crc := crc32_update (du_crc d) ?b, du_bytes := du_bytes d + of_nat (length ?b),
      du_entries := du_entries d + 1, du_world := w1\<rparr>"
    have step: "dump_runs s path pgs d = dump_runs s path rest ?d"
      using r w1(1) Cons by simp
    have "all_ok (du_world ?d)" and fits: "\<forall>r \<in> set (page_runs rest). run_in_file s r" and "length rest < length pgs"
      using w1(2) 1(3) run_split_le [OF r [symmetric]] Cons unfolding runs by (simp_all add: appended_def)
    then obtain d' where "dump_runs s path rest ?d = d'"
        "appended path (concat (map (run_bytes s) (page_runs rest))) (du_world ?d) (du_world d')"
        "du_entries d' = du_entries ?d + of_nat (length (page_runs rest))"
      using 1(1) [rule_format, of rest ?d] by metis
    then show ?thesis
      using appended_trans [OF w1(2)] unfolding step runs by (intro exI [of _ d']) simp
  qed
qed

subsection \<open>Reading back\<close>

lemma decode_delta_entry [simp]: "wire_decode_delta_entry (encode_delta_entry a b) = (a, b)"
  by (simp add: wire_decode_delta_entry_def encode_delta_entry_def wire_encode_delta_entry_def wire_simps WIRE_DELTA_ENTRY_SIZE_def)

definition put_run :: "DimBin \<Rightarrow> bytes \<Rightarrow> u32 \<times> nat \<Rightarrow> bytes" where
  "put_run s f r = file_write f (unat (fst r) * unat (bn_page_size s)) (run_data s r)"

lemma replay_entries_ok:
  assumes "all_ok w" and "drop pos f = concat (map (run_bytes s) rs)" and "bn_page_size t = bn_page_size s"
    and "\<forall>r \<in> set rs. run_in_file s r \<and> snd r < 2 ^ 32"
  shows "\<exists>w'. replay_entries (length rs) f pos t w = (True, t\<lparr>bn_file := foldl (put_run s) (bn_file t) rs\<rparr>, w') \<and> all_ok w'"
  using assms
proof (induction rs arbitrary: pos t w)
  case (Cons r rs)
  obtain pg n where r: "r = (pg, n)"
    by fastforce
  have n: "unat (of_nat n :: u32) = n"
    using Cons.prems(4) r by (simp add: unat_of_nat)
  have d: "drop pos f = encode_delta_entry pg (of_nat n) @ run_data s r @ concat (map (run_bytes s) rs)"
    using Cons.prems(2) run_bytes_def [of s r] by (simp add: r)
  have l: "length (run_data s r) = n * unat (bn_page_size s)"
    using length_run_data [of s r] Cons.prems(4) r by simp
  have "length f - pos \<ge> 8 + n * unat (bn_page_size s)"
    using arg_cong [OF d, of length] l by simp
  moreover have "drop (pos + 8) f = run_data s r @ concat (map (run_bytes s) rs)"
    using arg_cong [OF d, of "drop 8"] by (simp add: add.commute)
  moreover have "drop (pos + 8 + n * unat (bn_page_size s)) f = concat (map (run_bytes s) rs)"
    using arg_cong [OF d, of "drop (8 + n * unat (bn_page_size s))"] l by (simp add: ac_simps)
  ultimately have rd: "file_read f pos 8 = encode_delta_entry pg (of_nat n)"
      "file_read f (pos + 8) (n * unat (bn_page_size s)) = run_data s r"
      "min 8 (length f - pos) = 8" "min (n * unat (bn_page_size s)) (length f - (pos + 8)) = n * unat (bn_page_size s)"
      "drop (pos + 8 + n * unat (bn_page_size s)) f = concat (map (run_bytes s) rs)"
    using d l by (simp_all add: file_read_def)
  let ?w = "snd (ask (snd (ask (snd (ask (snd (ask w)))))))" and ?t = "t\<lparr>bn_file := put_run s (bn_file t) r\<rparr>"
  have "replay_entries (length (r # rs)) f pos t w = replay_entries (length rs) f (pos + 8 + n * unat (bn_page_size s)) ?t ?w"
    using Cons.prems(1,3) n l
    by (simp add: fd_read_ok WIRE_DELTA_ENTRY_SIZE_def Let_def split_beta pwrite_ok rd put_run_def r)
  moreover have "\<exists>w'. replay_entries (length rs) f (pos + 8 + n * unat (bn_page_size s)) ?t ?w =
      (True, ?t\<lparr>bn_file := foldl (put_run s) (bn_file ?t) rs\<rparr>, w') \<and> all_ok w'"
    by (rule Cons.IH) (use Cons.prems rd(5) in simp_all)
  ultimately show ?case
    by simp
qed simp

lemma fbyte_put_run:
  assumes "run_in_file s r" and "0 < unat (bn_page_size s)"
  shows "fbyte (put_run s f r) off = (if in_run (off div unat (bn_page_size s)) r then fbyte (bn_file s) off else fbyte f off)"
proof -
  let ?ps = "unat (bn_page_size s)" and ?a = "unat (fst r)"
  have "in_run (off div ?ps) r \<longleftrightarrow> ?a * ?ps \<le> off \<and> off < ?a * ?ps + snd r * ?ps"
    using assms(2) by (auto simp: in_run_def less_eq_div_iff_mult_less_eq div_less_iff_less_mult add_mult_distrib [symmetric])
  moreover have "run_data s r ! (off - ?a * ?ps) = fbyte (bn_file s) off" if "?a * ?ps \<le> off" "off < ?a * ?ps + snd r * ?ps"
    using that assms(1) by (simp add: run_data_def run_in_file_def file_read_def fbyte_def add_mult_distrib)
  ultimately show ?thesis
    using length_run_data [OF assms(1)] by (simp add: put_run_def fbyte_write)
qed

lemma fbyte_put_runs:
  assumes "\<forall>r \<in> set rs. run_in_file s r" and "0 < unat (bn_page_size s)"
  shows "fbyte (foldl (put_run s) f rs) off =
    (if \<exists>r \<in> set rs. in_run (off div unat (bn_page_size s)) r then fbyte (bn_file s) off else fbyte f off)"
  using assms(1) by (induction rs arbitrary: f) (auto simp: fbyte_put_run [OF _ assms(2)])

subsection \<open>The header\<close>

lemma file_write_inside: "off + length bs \<le> length f \<Longrightarrow> file_write f off bs = put_at f off bs"
  by (simp add: file_write_def put_at_def)

lemma put_at_append: "off + length bs \<le> length f \<Longrightarrow> put_at (f @ g) off bs = put_at f off bs @ g"
  by (simp add: put_at_def)

lemma patched_header:
  "wire_decode_delta_hdr (put_at (put_at (encode_delta_hdr h) 32 (u32_bytes n)) 36 (u32_bytes c)) =
     h\<lparr>dh_num_entries := n, dh_checksum := c\<rparr>"
  by (simp add: wire_decode_delta_hdr_def encode_delta_hdr_def wire_encode_delta_hdr_def Let_def wire_simps WIRE_DELTA_HDR_SIZE_def
      flip: wire_put_u32_def)

lemma ckpt_dump_delta_ok:
  assumes "all_ok w" and "\<forall>r \<in> set (page_runs (dirty_tracker_scan_ckpt (bn_dirty s) GRAVELDB_MAX_DIRTY)). run_in_file s r"
  shows "\<exists>n h c w'. ckpt_dump_delta s dir w = (GRAVELDB_OK, Some n, w') \<and> length h = 40 \<and>
    wire_decode_delta_hdr h =
      (delta_header s)\<lparr>dh_num_entries := of_nat (length (page_runs (dirty_tracker_scan_ckpt (bn_dirty s) GRAVELDB_MAX_DIRTY))),
        dh_checksum := c\<rparr> \<and>
    file_at w' (delta_file_path dir (dt_generation (bn_dirty s)) (bn_dim s)) =
      Some (h @ concat (map (run_bytes s) (page_runs (dirty_tracker_scan_ckpt (bn_dirty s) GRAVELDB_MAX_DIRTY))))"
proof -
  let ?p = "delta_file_path dir (dt_generation (bn_dirty s)) (bn_dim s)"
  let ?pgs = "dirty_tracker_scan_ckpt (bn_dirty s) GRAVELDB_MAX_DIRTY" and ?h = "encode_delta_hdr (delta_header s)"
  let ?w0 = "put_file ?p [] (snd (ask w))"
  let ?w1 = "put_file ?p ?h (snd (ask (snd (ask ?w0))))"
  let ?d = "\<lparr>du_crc = 0xFFFFFFFF, du_bytes = of_nat WIRE_DELTA_HDR_SIZE, du_entries = 0, du_world = ?w1\<rparr>"
  obtain d where d: "dump_runs s ?p ?pgs ?d = d" "appended ?p (concat (map (run_bytes s) (page_runs ?pgs))) ?w1 (du_world d)"
      "du_entries d = of_nat (length (page_runs ?pgs))"
    using dump_runs_ok [of ?d ?pgs s ?p] assms by auto
  let ?body = "concat (map (run_bytes s) (page_runs ?pgs))"
  have c: "contents (du_world d) ?p = ?h @ ?body" "all_ok (du_world d)"
    using d(2) by (simp_all add: appended_def)
  let ?crc = "crc32_simple (take 36 (encode_delta_hdr ((delta_header s)\<lparr>dh_num_entries := du_entries d\<rparr>))) XOR NOT (du_crc d)"
  let ?h' = "put_at (put_at ?h 32 (u32_bytes (du_entries d))) 36 (u32_bytes ?crc)"
  have "\<exists>w'. ckpt_dump_delta s dir w = (GRAVELDB_OK, Some (du_bytes d), w') \<and> file_at w' ?p = Some (?h' @ ?body)"
    using assms(1) d(1) c
    by (simp add: ckpt_dump_delta_def Let_def split_beta open_trunc_ok fd_write_ok fd_pwrite_ok WIRE_DELTA_HDR_SIZE_def
        file_write_inside put_at_append)
  moreover have "length ?h' = 40"
    by simp
  ultimately show ?thesis
    using patched_header [of "delta_header s" "du_entries d" ?crc] d(3)
    by (intro exI [of _ "du_bytes d"] exI [of _ ?h'] exI [of _ ?crc]) auto
qed

lemma page_runs_small: "r \<in> set (page_runs pgs) \<Longrightarrow> snd r \<le> length pgs"
proof (induction pgs rule: page_runs.induct)
  case (2 pg pgs)
  obtain run rest where r: "run_split follows pg pgs = (run, rest)"
    by fastforce
  then have "length pgs = length run + length rest"
    using run_split_props [OF r] by simp
  then show ?case
    using 2(1) [OF r [symmetric] refl] 2(2) r by fastforce
qed simp

lemma sint_int32: "- (2 ^ 31) \<le> d \<Longrightarrow> d < 2 ^ 31 \<Longrightarrow> sint (word_of_int d :: u32) = d"
  by (simp add: signed_of_int signed_take_bit_int_eq_self)

lemma page_runs_in_file:
  assumes "sorted_wrt (<) pgs" and "\<forall>p \<in> set pgs. Suc (unat p) * unat (bn_page_size s) \<le> length (bn_file s)"
    and "r \<in> set (page_runs pgs)"
  shows "run_in_file s r"
proof -
  let ?k = "unat (fst r) + snd r - 1"
  have pos: "0 < snd r"
    using page_runs_pos [OF assms(3)] .
  then have "in_run ?k r"
    by (auto simp: in_run_def)
  then obtain p where p: "p \<in> set pgs" "?k = unat p"
    using page_runs_cover [OF assms(1), of ?k] assms(3) by blast
  then have "unat (fst r) + snd r = Suc (unat p)"
    using pos by simp
  then show ?thesis
    using assms(2) p(1) unfolding run_in_file_def by metis
qed

text \<open>
  C6. Replaying a delta file over another copy of the bin gives every page that the dump found dirty its
  contents at the time of the dump and leaves every other byte alone.
\<close>

theorem ckpt_delta_roundtrip:
  assumes "all_ok w" and "dt_wf (bn_dirty s)" and "0 < unat (bn_page_size s)"
    and "- (2 ^ 31) \<le> bn_dim s" and "bn_dim s < 2 ^ 31"
    and "\<forall>p \<in> set (dirty_tracker_scan_ckpt (bn_dirty s) GRAVELDB_MAX_DIRTY).
      Suc (unat p) * unat (bn_page_size s) \<le> length (bn_file s)"
    and "bn_dim t = bn_dim s" and "bn_page_size t = bn_page_size s" and "bn_entries_per_page t \<noteq> 0"
  shows "\<exists>n w1. ckpt_dump_delta s dir w = (GRAVELDB_OK, Some n, w1) \<and>
    (\<forall>w2. all_ok w2 \<and> file_at w2 = file_at w1 \<longrightarrow>
       (\<exists>t' w3. ckpt_replay_delta t (delta_file_path dir (dt_generation (bn_dirty s)) (bn_dim s)) w2 = Some (GRAVELDB_OK, t', w3) \<and>
          (\<forall>off. fbyte (bn_file t') off =
             (if off div unat (bn_page_size s) \<in> unat ` set (dirty_tracker_scan_ckpt (bn_dirty s) GRAVELDB_MAX_DIRTY)
              then fbyte (bn_file s) off else fbyte (bn_file t) off))))"
proof -
  let ?p = "delta_file_path dir (dt_generation (bn_dirty s)) (bn_dim s)"
  let ?pgs = "dirty_tracker_scan_ckpt (bn_dirty s) GRAVELDB_MAX_DIRTY"
  let ?rs = "page_runs ?pgs"
  have sorted: "sorted_wrt (<) ?pgs" and few: "length ?pgs \<le> GRAVELDB_MAX_DIRTY"
    using assms(2) by (simp_all add: dirty_tracker_scan_ckpt_def dt_wf_def tree_scan_sorted strict_sorted_iff sorted_wrt_take)
  note runs = page_runs_in_file [OF sorted assms(6)]
  have small: "snd r < 2 ^ 32" if "r \<in> set ?rs" for r
    using page_runs_small [OF that] few by (simp add: GRAVELDB_MAX_DIRTY_def)
  obtain n h c w1 where d: "ckpt_dump_delta s dir w = (GRAVELDB_OK, Some n, w1)" "length h = 40"
      "wire_decode_delta_hdr h = (delta_header s)\<lparr>dh_num_entries := of_nat (length ?rs), dh_checksum := c\<rparr>"
      "file_at w1 ?p = Some (h @ concat (map (run_bytes s) ?rs))"
    using ckpt_dump_delta_ok [OF assms(1), of s dir] runs by blast
  have cnt: "unat (of_nat (length ?rs) :: u32) = length ?rs"
    using page_runs_length [of ?pgs] few by (simp add: unat_of_nat GRAVELDB_MAX_DIRTY_def)
  have replay: "\<exists>t' w3. ckpt_replay_delta t ?p w2 = Some (GRAVELDB_OK, t', w3) \<and> bn_file t' = foldl (put_run s) (bn_file t) ?rs"
    if w2: "all_ok w2" "file_at w2 = file_at w1" for w2
  proof -
    let ?f = "h @ concat (map (run_bytes s) ?rs)" and ?w = "snd (ask (snd (ask w2)))"
    obtain w3 where "replay_entries (length ?rs) ?f 40 t ?w = (True, t\<lparr>bn_file := foldl (put_run s) (bn_file t) ?rs\<rparr>, w3)"
      using replay_entries_ok [of ?w 40 ?f s ?rs t] w2(1) d(2) assms(8) runs small by auto
    then show ?thesis
      using w2 d assms(4,5,7,9) cnt
      by (simp add: ckpt_replay_delta_def open_rdonly_ok fd_read_ok file_read_def WIRE_DELTA_HDR_SIZE_def split_beta Let_def
          delta_header_def replay_bump_def sint_int32)
  qed
  have "fbyte (foldl (put_run s) (bn_file t) ?rs) off =
      (if off div unat (bn_page_size s) \<in> unat ` set ?pgs then fbyte (bn_file s) off else fbyte (bn_file t) off)" for off
    using fbyte_put_runs [of ?rs s "bn_file t" off] runs assms(3) page_runs_cover [OF sorted] by simp
  then show ?thesis
    using d(1) replay by (intro exI [of _ n] exI [of _ w1]) metis
qed

text \<open>A bin of two pages, the second of which was dirty when the checkpoint began.\<close>

definition demo_marks :: DirtyTracker where
  "demo_marks = dirty_tracker_swap (the (dirty_tracker_mark \<lparr>ma_realloc = True, ma_root = True, ma_node = (\<lambda>_. True)\<rparr>
     (dirty_tracker_init 1024) 1))"

lemma demo_marks_ok:
  "dt_wf demo_marks" "dirty_tracker_scan_ckpt demo_marks GRAVELDB_MAX_DIRTY = [1]"
proof -
  let ?a = "\<lparr>ma_realloc = True, ma_root = True, ma_node = (\<lambda>_. True)\<rparr>"
  let ?dt = "dirty_tracker_init 1024"
  have "tree_wf (dt_active ?dt)" "length (tr_segments (dt_active ?dt)) < 32768"
    using dt_wf_init [of 1024] by (simp_all add: dt_wf_def) (simp add: dirty_tracker_init_def tree_init_def Let_def)
  then obtain t where t: "tree_mark ?a (dt_active ?dt) 1 = Some t" "tree_wf t" "set (tree_list t) = {1}"
    using tree_mark_ok [of "dt_active ?dt" ?a 1] dt_init_empty(1) [of 1024] by (auto simp: mark_ok_def dt_marked_def)
  have m: "demo_marks = dirty_tracker_swap (?dt\<lparr>dt_active := t\<rparr>)"
    by (simp add: demo_marks_def dirty_tracker_mark_def t(1))
  show "dt_wf demo_marks"
    using t(2) tree_wf_init_again [of t] by (simp add: m dirty_tracker_swap_def dt_wf_def)
  have "{p. p = 1 \<and> p < dt_capacity ?dt} = {1}"
    by (auto simp: dirty_tracker_init_def Let_def)
  then show "dirty_tracker_scan_ckpt demo_marks GRAVELDB_MAX_DIRTY = [1]"
    using t(2,3) by (simp add: m dirty_tracker_scan_ckpt_def dirty_tracker_swap_def tree_scan_sorted GRAVELDB_MAX_DIRTY_def)
qed

theorem ckpt_delta_roundtrip_witness:
  "\<exists>n w1 t' w3. ckpt_dump_delta ((demo_bin (replicate 128 5))\<lparr>bn_dirty := demo_marks\<rparr>) ''d'' (demo_world {}) = (GRAVELDB_OK, Some n, w1) \<and>
     ckpt_replay_delta (demo_bin []) (delta_file_path ''d'' (dt_generation demo_marks) 2) ((demo_world {})\<lparr>w_files := w_files w1\<rparr>) =
       Some (GRAVELDB_OK, t', w3) \<and>
     fbyte (bn_file t') 70 = 5 \<and> fbyte (bn_file t') 3 = 0"
proof -
  let ?s = "(demo_bin (replicate 128 5))\<lparr>bn_dirty := demo_marks\<rparr>"
  have d: "bn_dim ?s = 2" "bn_dim (demo_bin []) = 2"
    by (simp_all add: demo_bin_def)
  have "\<exists>n w1. ckpt_dump_delta ?s ''d'' (demo_world {}) = (GRAVELDB_OK, Some n, w1) \<and>
    (\<forall>w2. all_ok w2 \<and> file_at w2 = file_at w1 \<longrightarrow>
       (\<exists>t' w3. ckpt_replay_delta (demo_bin []) (delta_file_path ''d'' (dt_generation (bn_dirty ?s)) (bn_dim ?s)) w2 = Some (GRAVELDB_OK, t', w3) \<and>
          (\<forall>off. fbyte (bn_file t') off =
             (if off div unat (bn_page_size ?s) \<in> unat ` set (dirty_tracker_scan_ckpt (bn_dirty ?s) GRAVELDB_MAX_DIRTY)
              then fbyte (bn_file ?s) off else fbyte (bn_file (demo_bin [])) off))))"
    by (rule ckpt_delta_roundtrip) (simp_all add: d demo_marks_ok demo_world_ok)
  then obtain n w1 where w1: "ckpt_dump_delta ?s ''d'' (demo_world {}) = (GRAVELDB_OK, Some n, w1)"
    and r: "all_ok w2 \<and> file_at w2 = file_at w1 \<longrightarrow>
       (\<exists>t' w3. ckpt_replay_delta (demo_bin []) (delta_file_path ''d'' (dt_generation (bn_dirty ?s)) (bn_dim ?s)) w2 = Some (GRAVELDB_OK, t', w3) \<and>
          (\<forall>off. fbyte (bn_file t') off =
             (if off div unat (bn_page_size ?s) \<in> unat ` set (dirty_tracker_scan_ckpt (bn_dirty ?s) GRAVELDB_MAX_DIRTY)
              then fbyte (bn_file ?s) off else fbyte (bn_file (demo_bin [])) off)))" for w2
    by metis
  let ?w2 = "(demo_world {})\<lparr>w_files := w_files w1\<rparr>"
  have "all_ok ?w2 \<and> file_at ?w2 = file_at w1"
    by (simp add: all_ok_def demo_world_def file_at_def fun_eq_iff)
  with r [of ?w2] obtain t' w3 where t': "ckpt_replay_delta (demo_bin []) (delta_file_path ''d'' (dt_generation demo_marks) 2) ?w2 = Some (GRAVELDB_OK, t', w3)"
      "fbyte (bn_file t') off = (if off div 64 = 1 then fbyte (replicate 128 5) off else fbyte [] off)" for off
    by (auto simp: demo_marks_ok d)
  show ?thesis
    by (intro exI conjI, rule w1, rule t'(1)) (unfold t'(2), simp_all add: fbyte_def)
qed

end
