(* ===== verification/Ckpt_Progress.thy ===== *)
theory Ckpt_Progress
  imports Engine_Flush Ckpt_Delta
begin

text \<open>
  The checkpoint in steps, \<^verbatim>\<open>graveldb_checkpoint_step\<close> of \<^verbatim>\<open>src/src/graveldb.c\<close>: every step of the
  dumping phase makes progress, whatever the file system answers, so that the phase ends after a number
  of steps known beforehand.
\<close>

subsection \<open>Progress of one step\<close>

lemma dump_some_step:
  assumes "length blocks \<le> GRAVELDB_MAX_DIRTY" and "cursor < length blocks" and "unat pd \<le> cursor" and "pd < m"
  shows "\<exists>n e' w'. 0 < n \<and> cursor + n \<le> length blocks \<and> unat pd + n \<le> unat m \<and>
    dump_some s path m blocks cursor pd e w = dump_some s path m blocks (cursor + n) (pd + of_nat n) e' w'"
proof -
  let ?b = "blocks ! cursor"
  obtain run rest where r: "run_split (\<lambda>p q. q = p + 1) ?b (drop (Suc cursor) blocks) = (run, rest)"
    by fastforce
  define k where "k = length (?b # run)"
  have k: "cursor + k \<le> length blocks" "0 < k"
    using arg_cong [OF run_split_append [OF r], of length] assms(2) by (auto simp: k_def)
  have md: "unat (m - pd) = unat m - unat pd" "unat pd < unat m"
    using assms(4) by (simp_all add: unat_sub word_less_nat_alt order_less_imp_le)
  have "unat pd + k < 2 ^ 32"
    using k assms(1,3) by (simp add: GRAVELDB_MAX_DIRTY_def)
  then have u: "unat (pd + of_nat k) = unat pd + k"
    by (simp add: unat_word_ariths unat_of_nat)
  define n where "n = (if pd + of_nat k > m then unat (m - pd) else k)"
  have n: "0 < n" "cursor + n \<le> length blocks" "unat pd + n \<le> unat m"
    using k md u by (auto simp: n_def word_less_nat_alt)
  let ?d = "dump_run s path ?b (unat (of_nat n :: u32)) w"
  have "dump_some s path m blocks cursor pd e w =
      dump_some s path m blocks (cursor + n) (pd + of_nat n) (if fst ?d = None then e else e + 1) (snd ?d)"
    using assms(2,4) by (subst dump_some.simps) (simp only: r Let_def split_beta fst_conv snd_conv n_def flip: k_def, auto)
  with n show ?thesis
    by blast
qed

lemma dump_some_cursor:
  assumes "length blocks \<le> GRAVELDB_MAX_DIRTY" and "cursor \<le> length blocks" and "unat pd \<le> cursor" and "pd \<le> m"
  shows "fst (dump_some s path m blocks cursor pd e w) = min (length blocks) (cursor + (unat m - unat pd))"
  using assms
proof (induction "length blocks - cursor" arbitrary: cursor pd e w rule: less_induct)
  case less
  show ?case
  proof (cases "cursor < length blocks \<and> pd < m")
    case False
    then show ?thesis
      using less.prems by (subst dump_some.simps) (auto simp: word_less_nat_alt word_le_nat_alt)
  next
    case True
    then obtain n e' w' where n: "0 < n" "cursor + n \<le> length blocks" "unat pd + n \<le> unat m"
        "dump_some s path m blocks cursor pd e w = dump_some s path m blocks (cursor + n) (pd + of_nat n) e' w'"
      using dump_some_step [OF less.prems(1) _ less.prems(3), of m s path e w] by blast
    have "unat pd + n < 2 ^ 32"
      using n(3) unsigned_less [where 'a = nat, of m] by simp
    then have u: "unat (pd + of_nat n) = unat pd + n"
      by (simp add: unat_word_ariths unat_of_nat)
    then have "fst (dump_some s path m blocks (cursor + n) (pd + of_nat n) e' w') =
        min (length blocks) (cursor + n + (unat m - unat (pd + of_nat n)))"
      using less.prems n True by (intro less.hyps) (simp_all add: word_le_nat_alt)
    then show ?thesis
      using n(3,4) u by simp
  qed
qed

definition bin_blocks :: "GravelDB \<Rightarrow> nat \<Rightarrow> u32 list" where
  "bin_blocks db i = (case get_bin db (of_nat i) of
     None \<Rightarrow> [] | Some (p, s) \<Rightarrow> dirty_tracker_scan_ckpt (bn_dirty s) GRAVELDB_MAX_DIRTY)"

definition page_budget :: "u32 \<Rightarrow> nat" where
  "page_budget m = (if m = 0 then 64 else unat m)"

text \<open>The steps spent on \<open>k\<close> dirty pages, \<open>n\<close> of them at a time.\<close>

definition visits :: "nat \<Rightarrow> nat \<Rightarrow> nat" where
  "visits n k = max 1 ((k + n - 1) div n)"

definition later_visits :: "nat \<Rightarrow> GravelDB \<Rightarrow> nat \<Rightarrow> nat" where
  "later_visits n db c = (\<Sum>i\<leftarrow>[c..<unat (num_bins db)]. visits n (length (bin_blocks db i)))"

definition steps_left :: "nat \<Rightarrow> GravelDB \<Rightarrow> nat" where
  "steps_left n db = (let p = db_ckpt db; c = unat (cp_current_bin p) in
     Suc (if cp_fd p = None then later_visits n db c
          else visits n (length (cp_dirty_blocks p) - cp_dirty_cursor p) + later_visits n db (Suc c)))"

definition bins_there :: "GravelDB \<Rightarrow> bool" where
  "bins_there db \<longleftrightarrow> (\<forall>i < num_bins db. \<exists>p s. get_bin db i = Some (p, s) \<and> dt_wf (bn_dirty s))"

definition dumping_ok :: "GravelDB \<Rightarrow> bool" where
  "dumping_ok db \<longleftrightarrow> bins_there db \<and> cp_phase (db_ckpt db) = CKPT_DUMPING \<and>
     (cp_fd (db_ckpt db) \<noteq> None \<longrightarrow> cp_current_bin (db_ckpt db) < num_bins db \<and>
        cp_dirty_cursor (db_ckpt db) < length (cp_dirty_blocks (db_ckpt db)) \<and>
        length (cp_dirty_blocks (db_ckpt db)) \<le> GRAVELDB_MAX_DIRTY)"

lemma visits_more: "0 < n \<Longrightarrow> n < k \<Longrightarrow> visits n k = Suc (visits n (k - n))"
  using div_add_self2 [of n "k - 1"] div_greater_zero_iff [of "k - 1" n] by (auto simp: visits_def max_def Suc_le_eq)

lemma visits_pos: "0 < visits n k"
  by (simp add: visits_def)

lemma later_visits_rec: "c < unat (num_bins db) \<Longrightarrow> later_visits n db c = visits n (length (bin_blocks db c)) + later_visits n db (Suc c)"
  by (simp add: later_visits_def upt_conv_Cons del: upt_Suc)

lemma ckpt_frame [simp]:
  "get_bin (db\<lparr>db_ckpt := p\<rparr>) i = get_bin db i" "num_bins (db\<lparr>db_ckpt := p\<rparr>) = num_bins db"
  "later_visits n (db\<lparr>db_ckpt := p\<rparr>) c = later_visits n db c" "bins_there (db\<lparr>db_ckpt := p\<rparr>) = bins_there db"
  by (simp_all add: get_bin_def num_bins_def later_visits_def bin_blocks_def bins_there_def)

text \<open>The progress of a bin that is open: its file is finished, or the cursor went on by the whole budget.\<close>

lemma dump_open_progress:
  assumes "length (cp_dirty_blocks p) \<le> GRAVELDB_MAX_DIRTY" and "cp_dirty_cursor p \<le> length (cp_dirty_blocks p)"
  shows "\<exists>w' e. dump_open m path p s w =
    (if length (cp_dirty_blocks p) \<le> cp_dirty_cursor p + unat m
     then p\<lparr>cp_dirty_cursor := length (cp_dirty_blocks p), cp_entries_written := e, cp_fd := None, cp_current_bin := cp_current_bin p + 1\<rparr>
     else p\<lparr>cp_dirty_cursor := cp_dirty_cursor p + unat m, cp_entries_written := e\<rparr>, w')"
  using dump_some_cursor [of "cp_dirty_blocks p" "cp_dirty_cursor p" 0 m s path "cp_entries_written p" w] assms
  by (cases "dump_some s path m (cp_dirty_blocks p) (cp_dirty_cursor p) 0 (cp_entries_written p) w")
    (auto simp: dump_open_def Let_def split_beta)

lemma scan_ckpt_length: "dt_wf dt \<Longrightarrow> length (dirty_tracker_scan_ckpt dt n) \<le> n"
  by (simp add: dirty_tracker_scan_ckpt_def dt_wf_def tree_scan_sorted)

lemma u16_next: "c < (n :: u16) \<Longrightarrow> unat (c + 1) = Suc (unat c)"
  using unsigned_less [where 'a = nat, of n] by (simp add: unat_word_ariths word_less_nat_alt)

text \<open>What a step in the dumping phase leaves.\<close>

definition progressed :: "nat \<Rightarrow> GravelDB \<Rightarrow> GravelDB \<Rightarrow> bool" where
  "progressed n db db' \<longleftrightarrow> dumping_ok db' \<and> steps_left n db' < steps_left n db"

lemma next_bin_progressed:
  assumes "dumping_ok db" and "cp_current_bin (db_ckpt db) < num_bins db"
    and "cp_phase p = CKPT_DUMPING" and "cp_fd p = None" and "cp_current_bin p = cp_current_bin (db_ckpt db) + 1"
  shows "progressed n db (db\<lparr>db_ckpt := p\<rparr>)"
  using assms u16_next [OF assms(2)] later_visits_rec [of "unat (cp_current_bin (db_ckpt db))" db n] visits_pos
  by (simp add: progressed_def dumping_ok_def steps_left_def Let_def word_less_nat_alt)

lemma dump_open_progressed:
  assumes "dumping_ok db" and "cp_current_bin (db_ckpt db) < num_bins db" and "0 < m"
    and "cp_phase p = CKPT_DUMPING" and "cp_fd p = Some path" and "cp_current_bin p = cp_current_bin (db_ckpt db)"
    and "length (cp_dirty_blocks p) \<le> GRAVELDB_MAX_DIRTY" and "cp_dirty_cursor p \<le> length (cp_dirty_blocks p)"
    and "Suc (visits (unat m) (length (cp_dirty_blocks p) - cp_dirty_cursor p) + later_visits (unat m) db (Suc (unat (cp_current_bin p)))) =
      steps_left (unat m) db"
  shows "\<exists>p' w'. dump_open m path p s w = (p', w') \<and> progressed (unat m) db (db\<lparr>db_ckpt := p'\<rparr>)"
proof -
  obtain w' e where d: "dump_open m path p s w =
    (if length (cp_dirty_blocks p) \<le> cp_dirty_cursor p + unat m
     then p\<lparr>cp_dirty_cursor := length (cp_dirty_blocks p), cp_entries_written := e, cp_fd := None, cp_current_bin := cp_current_bin p + 1\<rparr>
     else p\<lparr>cp_dirty_cursor := cp_dirty_cursor p + unat m, cp_entries_written := e\<rparr>, w')"
    using dump_open_progress [OF assms(7,8), of m path s w] by blast
  show ?thesis
  proof (cases "length (cp_dirty_blocks p) \<le> cp_dirty_cursor p + unat m")
    case True
    with d show ?thesis
      using next_bin_progressed [OF assms(1,2)] assms by simp
  next
    case False
    have "0 < unat m"
      using assms(3) by (simp add: word_less_nat_alt)
    then have "visits (unat m) (length (cp_dirty_blocks p) - cp_dirty_cursor p) =
        Suc (visits (unat m) (length (cp_dirty_blocks p) - (cp_dirty_cursor p + unat m)))"
      using visits_more [of "unat m" "length (cp_dirty_blocks p) - cp_dirty_cursor p"] False by simp
    with d False show ?thesis
      using assms by (simp add: progressed_def dumping_ok_def steps_left_def Let_def)
  qed
qed

lemma open_delta_cases:
  obtains p w' where "open_delta db s w = (False, p, w')" "cp_fd p = None" "cp_phase p = cp_phase (db_ckpt db)"
      "cp_current_bin p = cp_current_bin (db_ckpt db) + 1"
  | p path w' where "open_delta db s w = (True, p, w')" "cp_fd p = Some path"
      "p = (db_ckpt db)\<lparr>cp_fd := Some path, cp_dirty_blocks := dirty_tracker_scan_ckpt (bn_dirty s) GRAVELDB_MAX_DIRTY,
         cp_dirty_cursor := 0, cp_entries_written := 0\<rparr>"
  by (cases "open_delta db s w") (auto simp: open_delta_def Let_def split_beta split: if_splits)

lemma step_dumping_progress:
  assumes "dumping_ok db" and "cp_max_pages (db_ckpt db) = m" and "0 < m"
  shows "\<exists>db' w'. step_dumping db w = Some (GRAVELDB_OK, db', w') \<and>
    (progressed (unat m) db db' \<or> cp_phase (db_ckpt db') = CKPT_FINISHING \<and> cp_current_bin (db_ckpt db') = 0 \<and> bins_there db')"
proof (cases "cp_current_bin (db_ckpt db) < num_bins db")
  case False
  then show ?thesis
    using assms(1) by (simp add: step_dumping_def Let_def dumping_ok_def not_less)
next
  case c: True
  let ?p = "db_ckpt db"
  have c': "\<not> num_bins db \<le> cp_current_bin ?p"
    using c by simp
  obtain a s where b: "get_bin db (cp_current_bin ?p) = Some (a, s)" "dt_wf (bn_dirty s)"
    using assms(1) c by (auto simp: dumping_ok_def bins_there_def)
  show ?thesis
  proof (cases "cp_fd ?p")
    case (Some path)
    then obtain p' w' where "dump_open m path ?p s w = (p', w')" "progressed (unat m) db (db\<lparr>db_ckpt := p'\<rparr>)"
      using dump_open_progressed [OF assms(1) c assms(3), of ?p path s w] assms(1) by (auto simp: dumping_ok_def steps_left_def Let_def)
    then show ?thesis
      using Some b c' assms(2) by (simp add: step_dumping_def Let_def)
  next
    case None
    show ?thesis
    proof (cases rule: open_delta_cases [of db s w])
      case (1 p w')
      then show ?thesis
        using None b c' next_bin_progressed [OF assms(1) c, of p] assms(1) by (simp add: step_dumping_def Let_def dumping_ok_def)
    next
      case (2 p path w1)
      have "Suc (visits (unat m) (length (cp_dirty_blocks p)) + later_visits (unat m) db (Suc (unat (cp_current_bin p)))) =
          steps_left (unat m) db"
        using later_visits_rec [of "unat (cp_current_bin ?p)" db] c 2(3) None b
        by (simp add: steps_left_def Let_def bin_blocks_def word_less_nat_alt)
      then obtain p' w' where "dump_open m path p s w1 = (p', w')" "progressed (unat m) db (db\<lparr>db_ckpt := p'\<rparr>)"
        using dump_open_progressed [OF assms(1) c assms(3), of p path s w1] assms(1) 2(3) scan_ckpt_length [OF b(2)]
        by (auto simp: dumping_ok_def)
      then show ?thesis
        using None b c' assms(2) 2 by (simp add: step_dumping_def Let_def)
    qed
  qed
qed

text \<open>The caller takes steps for as long as the store is dumping, in worlds of which nothing is known.\<close>

fun dump_steps :: "u32 \<Rightarrow> World list \<Rightarrow> GravelDB \<Rightarrow> GravelDB option" where
  "dump_steps m [] db = Some db"
| "dump_steps m (w # ws) db =
     (if cp_phase (db_ckpt db) \<noteq> CKPT_DUMPING then Some db
      else do {
        (rc, db, w') \<leftarrow> graveldb_checkpoint_step db m w;
        if rc \<noteq> GRAVELDB_OK then None else dump_steps m ws db
      })"

lemma budgeted:
  "dumping_ok (db\<lparr>db_ckpt := (db_ckpt db)\<lparr>cp_max_pages := m\<rparr>\<rparr>) = dumping_ok db"
  "steps_left n (db\<lparr>db_ckpt := (db_ckpt db)\<lparr>cp_max_pages := m\<rparr>\<rparr>) = steps_left n db"
  by (simp_all add: dumping_ok_def steps_left_def Let_def)

lemma checkpoint_step_dumping:
  assumes "dumping_ok db"
  shows "\<exists>db' w'. graveldb_checkpoint_step db m w = Some (GRAVELDB_OK, db', w') \<and>
    (dumping_ok db' \<and> steps_left (page_budget m) db' < steps_left (page_budget m) db \<or>
     cp_phase (db_ckpt db') = CKPT_FINISHING \<and> cp_current_bin (db_ckpt db') = 0 \<and> bins_there db')"
proof -
  let ?m = "if m = 0 then 64 else m :: u32"
  have "0 < ?m" "unat ?m = page_budget m"
    by (simp_all add: page_budget_def word_gt_0)
  with step_dumping_progress [of "db\<lparr>db_ckpt := (db_ckpt db)\<lparr>cp_max_pages := ?m\<rparr>\<rparr>" ?m w] assms
  show ?thesis
    by (simp add: budgeted progressed_def graveldb_checkpoint_step_def Let_def dumping_ok_def [of db])
qed

text \<open>
  C9. A checkpoint that is dumping gets to its last phase, however the I/O turns out: as many steps are
  enough as the bins have portions of \<open>max_pages\<close> dirty pages, one at least for every bin, and one
  more. No step fails.
\<close>

theorem checkpoint_dumping_ends:
  assumes "dumping_ok db" and "steps_left (page_budget m) db \<le> length ws"
  shows "\<exists>db'. dump_steps m ws db = Some db' \<and> cp_phase (db_ckpt db') = CKPT_FINISHING \<and>
    cp_current_bin (db_ckpt db') = 0 \<and> bins_there db'"
  using assms
proof (induction ws arbitrary: db)
  case Nil
  then show ?case
    by (simp add: steps_left_def Let_def)
next
  case (Cons w ws)
  have ph: "cp_phase (db_ckpt db) = CKPT_DUMPING"
    using Cons.prems(1) by (simp add: dumping_ok_def)
  obtain db' w' where st: "graveldb_checkpoint_step db m w = Some (GRAVELDB_OK, db', w')"
    and "dumping_ok db' \<and> steps_left (page_budget m) db' < steps_left (page_budget m) db \<or>
     cp_phase (db_ckpt db') = CKPT_FINISHING \<and> cp_current_bin (db_ckpt db') = 0 \<and> bins_there db'"
    using checkpoint_step_dumping [OF Cons.prems(1), of m w] by blast
  then consider "dumping_ok db'" "steps_left (page_budget m) db' \<le> length ws"
    | "cp_phase (db_ckpt db') = CKPT_FINISHING" "cp_current_bin (db_ckpt db') = 0" "bins_there db'"
    using Cons.prems(2) by fastforce
  then show ?case
  proof cases
    case 1
    then show ?thesis
      using Cons.IH [OF 1] st ph by simp
  next
    case 2
    then have "dump_steps m ws db' = Some db'"
      by (cases ws) simp_all
    then show ?thesis
      using 2 st ph by simp
  qed
qed

subsection \<open>A store with one bin\<close>

definition demo_store :: "DimBin \<Rightarrow> GravelDB" where
  "demo_store s =
     \<lparr>db_config = \<lparr>cf_data_dir = Some ''d'', cf_dims = Some [bn_dim s], cf_num_dims = 1, cf_buffer_size = 1048576,
        cf_index_capacity = 64, cf_entry_align = 0, cf_page_size = bn_page_size s, cf_auto_create_bins = False,
        cf_overlay_budget = 65536\<rparr>,
      db_dim_reg = (dim_registry_init True True)\<lparr>dr_count := 1, dr_bins := Some [1],
        dr_entries := Some [\<lparr>re_dim = bn_dim s, re_bin_idx = 0\<rparr>]\<rparr>,
      db_bins = [1 \<mapsto> s], db_index = the (snd (the (hash_index_init True 64))), db_current_epoch = 0,
      db_io_ring = \<lparr>uc_pending = 0, uc_errors = 0, uc_initialized = False, uc_fsync_fds = []\<rparr>,
      db_data_dir = ''d'', db_auto_create_bins = False, db_ckpt = ckpt_zero\<rparr>"

lemma demo_store_fields [simp]: "num_bins (demo_store s) = 1" "get_bin (demo_store s) 0 = Some (1, s)"
  by (simp_all add: demo_store_def num_bins_def dim_registry_count_def get_bin_def dim_registry_get_bin_def)

theorem checkpoint_dumping_ends_witness:
  "\<exists>db'. dump_steps 8 [demo_world {0}, demo_world {}]
      ((demo_store ((demo_bin (replicate 128 5))\<lparr>bn_dirty := demo_marks\<rparr>))\<lparr>db_ckpt := ckpt_zero\<lparr>cp_phase := CKPT_DUMPING\<rparr>\<rparr>) = Some db' \<and>
     cp_phase (db_ckpt db') = CKPT_FINISHING"
proof -
  let ?s = "(demo_bin (replicate 128 5))\<lparr>bn_dirty := demo_marks\<rparr>"
  let ?db = "(demo_store ?s)\<lparr>db_ckpt := ckpt_zero\<lparr>cp_phase := CKPT_DUMPING\<rparr>\<rparr>"
  have "bins_there (demo_store ?s)"
    using demo_marks_ok(1) unfolding bins_there_def by (auto simp: word_less_nat_alt unsigned_eq_0_iff)
  then have "dumping_ok ?db"
    by (simp add: dumping_ok_def ckpt_zero_def)
  moreover have "steps_left (page_budget 8) ?db \<le> length [demo_world {0}, demo_world {}]"
    by (simp add: steps_left_def page_budget_def later_visits_def bin_blocks_def demo_marks_ok(2) visits_def ckpt_zero_def Let_def)
  ultimately show ?thesis
    using checkpoint_dumping_ends [of ?db 8 "[demo_world {0}, demo_world {}]"] by blast
qed

end
