(* ===== verification/Engine_Get.thy ===== *)
theory Engine_Get
  imports Ckpt_Progress
begin

text \<open>
  Batched reads, \<^verbatim>\<open>graveldb_batch_get\<close> of \<^verbatim>\<open>src/src/graveldb.c\<close>. \<open>answer\<close> is what a request gets when it is
  alone. The batch sorts the reads that miss the buffers by bin and page, reads every page once and
  copies the entries out; each of these steps only ever writes right answers, and together they write
  all of them.
\<close>

subsection \<open>What is stored\<close>

definition entry_bytes :: "DimBin \<Rightarrow> u32 \<Rightarrow> bytes" where
  "entry_bytes s e = map (data_view s) [entry_off s e..<entry_off s e + unat (bn_entry_size s)]"

definition stored :: "DimBin \<Rightarrow> u32 \<Rightarrow> bytes" where
  "stored s e =
     (case if bn_in_checkpoint s then overlay_map (bn_overlay s) e else None of
        Some v \<Rightarrow> emb_data v | None \<Rightarrow> entry_bytes s e)"

definition lookup_id :: "GravelDB \<Rightarrow> u64 \<Rightarrow> (u16 \<times> u32) option" where
  "lookup_id db k = (if k = 0 then None else hi_map (db_index db) k)"

text \<open>The dimension and the embedding that a single request gets.\<close>

definition answer :: "GravelDB \<Rightarrow> u64 \<times> bool \<Rightarrow> int \<times> bytes option" where
  "answer db q =
     (case lookup_id db (fst q) of
        None \<Rightarrow> (0, None)
      | Some (d, e) \<Rightarrow>
          (case get_bin db d of
             None \<Rightarrow> (0, None)
           | Some (p, s) \<Rightarrow> (bn_dim s, if snd q then Some (stored s e) else None)))"

text \<open>
  An entry can be read when its page is buffered or its bytes are in the file. An entry that has its
  page to itself must fill it, because the code reads it at a multiple of the entry size.
\<close>

definition on_disk :: "DimBin \<Rightarrow> u32 \<Rightarrow> bool" where
  "on_disk s e \<longleftrightarrow> entry_off s e + unat (bn_entry_size s) \<le> length (bn_file s) \<and>
     (bn_entries_per_page s = 1 \<longrightarrow> unat (bn_entry_size s) = unat (bn_page_size s))"

definition entry_readable :: "DimBin \<Rightarrow> u32 \<Rightarrow> bool" where
  "entry_readable s e \<longleftrightarrow> wb_inv s \<and> geo_ok s \<and> e div bn_entries_per_page s \<noteq> PAGE_SLOT_EMPTY \<and>
     (bn_in_checkpoint s \<longrightarrow> overlay_inv (bn_overlay s) \<and> rt_old_slots (bn_overlay s) = None \<and> e \<noteq> OVERLAY_EMPTY) \<and>
     (bin_pages s (e div bn_entries_per_page s) = None \<longrightarrow> on_disk s e)"

definition store_readable :: "GravelDB \<Rightarrow> bool" where
  "store_readable db \<longleftrightarrow> hi_inv (db_index db) \<and> rt_old_slots (db_index db) = None \<and>
     (\<forall>k d e. hi_map (db_index db) k = Some (d, e) \<longrightarrow> (\<exists>p s. get_bin db d = Some (p, s) \<and> entry_readable s e))"

subsection \<open>Resolving the requests\<close>

lemma index_get_idle:
  assumes "hi_inv idx" and "rt_old_slots idx = None"
  shows "hash_index_get idx k = Some (if k = 0 then None else hi_map idx k, idx)"
  using get_after_step [OF assms(1) _ rehash_step_idle [OF assms(2)], of k] not_hidden_idle [OF assms(2)]
  by (cases "k = 0") (auto simp: hash_index_get_def)

lemma overlay_idle:
  assumes "overlay_inv ob" and "rt_old_slots ob = None" and "e \<noteq> OVERLAY_EMPTY"
  shows "overlay_get ob e = Some (overlay_map ob e, ob)" and "overlay_contains ob e = Some (overlay_map ob e \<noteq> None, ob)"
proof -
  have s: "overlay_rehash_step ob = Some ob" "\<not> overlay_hidden ob e"
    using assms(2) by (simp_all add: overlay_rehash_step_def rt_step_def overlay_hidden_def rt_hidden_def)
  have g: "map_option ov_data (rt_get ov_occ ov_entry_id overlay_hash ob e) = overlay_map ob e"
    using ov.get_map [OF _ assms(3), of ob] assms(1) s(2) by (simp add: overlay_defs)
  then show "overlay_get ob e = Some (overlay_map ob e, ob)"
    using s(1) by (simp add: overlay_get_def)
  show "overlay_contains ob e = Some (overlay_map ob e \<noteq> None, ob)"
    using s(1) unfolding g [symmetric] by (simp add: overlay_contains_def)
qed

lemma set_bin_same: "get_bin db d = Some (p, s) \<Longrightarrow> set_bin p s db = db"
  by (auto simp: get_bin_def set_bin_def map_upd_triv bind_eq_Some_conv)

lemma page_offset:
  assumes "geo_ok s"
  shows "unat ((e mod bn_entries_per_page s) * ucast (bn_entry_size s)) = unat (e mod bn_entries_per_page s) * unat (bn_entry_size s)"
    (is "unat (?m * _) = _")
proof -
  have le: "unat ?m * unat (bn_entry_size s) + unat (bn_entry_size s) \<le> unat (bn_page_size s)"
    using entry_in_page [OF assms] .
  then have "unat (ucast (bn_entry_size s) :: u32) = unat (bn_entry_size s)"
    using unsigned_less [where 'a = nat, of "bn_page_size s"] by (simp add: unsigned_ucast_eq take_bit_nat_def)
  then show ?thesis
    using le unsigned_less [where 'a = nat, of "bn_page_size s"] by (simp add: unat_word_ariths)
qed

text \<open>The bytes of an entry, read from a buffered page and from the file.\<close>

lemma view_in_page:
  assumes "geo_ok s" and "i < unat (bn_entry_size s)"
  shows "(entry_off s e + i) div unat (bn_page_size s) = unat (e div bn_entries_per_page s)"
    and "(entry_off s e + i) mod unat (bn_page_size s) = unat (e mod bn_entries_per_page s) * unat (bn_entry_size s) + i"
proof -
  let ?r = "unat (e mod bn_entries_per_page s) * unat (bn_entry_size s) + i"
  have r: "?r < unat (bn_page_size s)"
    using entry_in_page [OF assms(1), of e] assms(2) by simp
  have "entry_off s e + i = unat (e div bn_entries_per_page s) * unat (bn_page_size s) + ?r"
    by (simp add: entry_off_def)
  then show "(entry_off s e + i) div unat (bn_page_size s) = unat (e div bn_entries_per_page s)"
    and "(entry_off s e + i) mod unat (bn_page_size s) = ?r"
    using r by (simp_all only: mod_mult_self3 mod_less) (subst div_mult_self3, simp_all)
qed

lemma entry_bytes_buffered:
  assumes "wb_inv s" and "geo_ok s" and "bin_pages s (e div bn_entries_per_page s) \<noteq> None"
  shows "mem_slice (page_of s (e div bn_entries_per_page s)) ((e mod bn_entries_per_page s) * ucast (bn_entry_size s)) (bn_entry_size s) =
    Some (entry_bytes s e)"
proof -
  let ?p = "e div bn_entries_per_page s" and ?r = "unat (e mod bn_entries_per_page s) * unat (bn_entry_size s)"
  have l: "?r + unat (bn_entry_size s) \<le> length (page_of s ?p)"
    using entry_in_page [OF assms(2)] page_of_length [OF assms(1,3)] by simp
  have "data_view s (entry_off s e + i) = page_of s ?p ! (?r + i)" if "i < unat (bn_entry_size s)" for i
    using assms(3) unsigned_less [where 'a = nat, of ?p] by (simp add: data_view_def view_in_page [OF assms(2) that] Let_def)
  then have "take (unat (bn_entry_size s)) (drop ?r (page_of s ?p)) = entry_bytes s e"
    using l by (intro nth_equalityI) (simp_all add: entry_bytes_def)
  then show ?thesis
    using l page_offset [OF assms(2)] by (simp add: mem_slice_def)
qed

lemma entry_bytes_on_disk:
  assumes "geo_ok s" and "bin_pages s (e div bn_entries_per_page s) = None" and "on_disk s e"
  shows "entry_bytes s e = file_read (bn_file s) (entry_off s e) (unat (bn_entry_size s))"
proof (rule nth_equalityI)
  show "length (entry_bytes s e) = length (file_read (bn_file s) (entry_off s e) (unat (bn_entry_size s)))"
    using assms(3) by (auto simp: entry_bytes_def file_read_def on_disk_def)
  fix i
  assume "i < length (entry_bytes s e)"
  then have i: "i < unat (bn_entry_size s)"
    by (simp add: entry_bytes_def)
  then have "data_view s (entry_off s e + i) = fbyte (bn_file s) (entry_off s e + i)"
    using assms(2) by (simp add: data_view_def view_in_page [OF assms(1)] Let_def)
  then show "entry_bytes s e ! i = file_read (bn_file s) (entry_off s e) (unat (bn_entry_size s)) ! i"
    using i assms(3) by (simp add: entry_bytes_def file_read_def on_disk_def fbyte_def)
qed

text \<open>A read that was put off: the answer of its request is in the file.\<close>

definition read_good :: "GravelDB \<Rightarrow> (nat \<Rightarrow> bytes option) \<Rightarrow> BatchGetDiskRead \<Rightarrow> bool" where
  "read_good db ans rd \<longleftrightarrow>
     (\<exists>s. db_bins db (gd_bin rd) = Some s \<and> geo_ok s \<and> on_disk s (gd_entry_id rd) \<and>
        gd_page_id rd = gd_entry_id rd div bn_entries_per_page s \<and>
        gd_offset_in_page rd = (gd_entry_id rd mod bn_entries_per_page s) * ucast (bn_entry_size s) \<and>
        ans (gd_req_idx rd) = Some (file_read (bn_file s) (entry_off s (gd_entry_id rd)) (unat (bn_entry_size s))))"

lemma find_no_page:
  assumes "wb_inv s" and "bin_pages s p = None" and "p \<noteq> PAGE_SLOT_EMPTY"
  obtains idx where "pagemap_find (wb_slots (bn_write_buf s)) (wb_capacity (bn_write_buf s)) p = Some idx"
    and "ps_page_id (wb_slots (bn_write_buf s) ! unat idx) \<noteq> p"
proof -
  note inv = wb_invD [OF assms(1)]
  obtain idx where i: "pagemap_find (wb_slots (bn_write_buf s)) (wb_capacity (bn_write_buf s)) p = Some idx"
    using pm_find [OF inv(1,2)] by metis
  then show thesis
    using that [OF i] pm_lookup [OF inv(1) i assms(3)] assms(2) by (auto split: if_splits)
qed

text \<open>How a request is settled: at once, or by a read that is put off.\<close>

definition settled ::
  "GravelDB \<Rightarrow> (nat \<Rightarrow> bytes option) \<Rightarrow> nat \<Rightarrow> outputs \<Rightarrow> outputs \<Rightarrow> BatchGetDiskRead list \<Rightarrow> bool" where
  "settled db ans i out out' rs \<longleftrightarrow>
     out' = out[i := ans i] \<and> rs = [] \<or> out' = out \<and> (\<exists>rd. rs = [rd] \<and> gd_req_idx rd = i \<and> read_good db ans rd)"

lemma resolve_found:
  assumes idx: "hash_index_get (db_index db) k = Some (Some (d, e), db_index db)"
    and b: "get_bin db d = Some (p, s)" "entry_readable s e" and ans: "ans i = Some (stored s e)"
  shows "\<exists>out' rs. resolve_one i k True db out reads = Some (bn_dim s, db, out', reads @ rs) \<and> settled db ans i out out' rs"
proof -
  note r = b(2) [unfolded entry_readable_def]
  let ?hit = "if bn_in_checkpoint s then overlay_map (bn_overlay s) e else None"
  have hit: "(if bn_in_checkpoint s then map_option (\<lambda>(c, ob). (c, s\<lparr>bn_overlay := ob\<rparr>)) (overlay_contains (bn_overlay s) e)
      else Some (False, s)) = Some (?hit \<noteq> None, s)"
    using overlay_idle(2) [of "bn_overlay s" e] r by simp
  have epp: "bn_entries_per_page s \<noteq> 0"
    using r by (auto simp: geo_ok_def)
  have db: "db\<lparr>db_index := db_index db\<rparr> = db" "db_bins db p = Some s"
    using b(1) by (auto simp: get_bin_def bind_eq_Some_conv)
  show ?thesis
  proof (cases ?hit)
    case (Some v)
    then have "overlay_get (bn_overlay s) e = Some (Some v, bn_overlay s)" "stored s e = emb_data v"
      using overlay_idle(1) [of "bn_overlay s" e] r by (simp_all add: stored_def split: if_splits)
    then show ?thesis
      using idx b(1) hit Some ans set_bin_same [OF b(1)]
      by (intro exI [of _ "out[i := ans i]"] exI [of _ "[]"]) (simp add: resolve_one_def db settled_def)
  next
    case None
    let ?pg = "e div bn_entries_per_page s"
    have st: "stored s e = entry_bytes s e"
      unfolding stored_def None by simp
    show ?thesis
    proof (cases "bin_pages s ?pg")
      case Some
      then have "wb_inv s" "bin_pages s ?pg \<noteq> None"
        using r by simp_all
      then obtain j a where "pagemap_find (wb_slots (bn_write_buf s)) (wb_capacity (bn_write_buf s)) ?pg = Some j"
          "ps_page_id (wb_slots (bn_write_buf s) ! unat j) = ?pg" "ps_data (wb_slots (bn_write_buf s) ! unat j) = Some (a, page_of s ?pg)"
        by (rule find_page)
      then show ?thesis
        using idx b(1) hit None ans set_bin_same [OF b(1)] st entry_bytes_buffered [of s e] r Some epp
        by (intro exI [of _ "out[i := ans i]"] exI [of _ "[]"]) (simp add: resolve_one_def db settled_def Let_def)
    next
      case no: None
      then obtain j where j: "pagemap_find (wb_slots (bn_write_buf s)) (wb_capacity (bn_write_buf s)) ?pg = Some j"
          "ps_page_id (wb_slots (bn_write_buf s) ! unat j) \<noteq> ?pg"
        using r by (elim conjE) (rule find_no_page)
      let ?rd = "\<lparr>gd_req_idx = i, gd_bin = p, gd_entry_id = e, gd_page_id = ?pg,
        gd_offset_in_page = (e mod bn_entries_per_page s) * ucast (bn_entry_size s)\<rparr>"
      have "read_good db ans ?rd"
        using db(2) r no ans st entry_bytes_on_disk [of s e] by (simp add: read_good_def)
      then show ?thesis
        using idx b(1) hit None ans set_bin_same [OF b(1)] j epp
        by (intro exI [of _ out] exI [of _ "[?rd]"]) (simp add: resolve_one_def db settled_def Let_def)
    qed
  qed
qed

lemma resolve_one_ok:
  assumes db: "store_readable db" and out: "out ! i = None" and ans: "ans i = snd (answer db (k, wanted))"
  shows "\<exists>out' rs. resolve_one i k wanted db out reads = Some (fst (answer db (k, wanted)), db, out', reads @ rs) \<and>
    settled db ans i out out' rs"
proof -
  have idx: "hash_index_get (db_index db) k = Some (lookup_id db k, db_index db)"
    using db index_get_idle [of "db_index db" k] by (simp add: store_readable_def lookup_id_def)
  have same: "db\<lparr>db_index := db_index db\<rparr> = db" "out[i := None] = out"
    using out list_update_id [of out i] by simp_all
  show ?thesis
  proof (cases "lookup_id db k")
    case None
    then show ?thesis
      using idx ans same by (simp add: resolve_one_def answer_def settled_def)
  next
    case (Some de)
    obtain d e where de: "de = (d, e)"
      by fastforce
    obtain p s where b: "get_bin db d = Some (p, s)" "entry_readable s e"
      using db Some de unfolding store_readable_def lookup_id_def by (metis option.distinct(1))
    have a: "answer db (k, wanted) = (bn_dim s, if wanted then Some (stored s e) else None)"
      using Some de b(1) by (simp add: answer_def)
    show ?thesis
    proof (cases wanted)
      case True
      then show ?thesis
        using resolve_found [OF _ b, of k ans i out reads] idx Some de ans a by simp
    next
      case False
      then show ?thesis
        using idx Some de b(1) ans a same by (simp add: resolve_one_def settled_def)
    qed
  qed
qed

lemma resolve_all_ok:
  assumes "store_readable db" and "\<forall>j. i \<le> j \<and> j < length out \<longrightarrow> out ! j = None" and "i + length qs = length out"
    and "\<forall>j < length qs. ans (i + j) = snd (answer db (qs ! j))"
  shows "\<exists>out' rs. resolve_all i qs db out reads = Some (map (fst \<circ> answer db) qs, db, out', reads @ rs) \<and>
    length out' = length out \<and> (\<forall>j < i. out' ! j = out ! j) \<and>
    (\<forall>rd \<in> set rs. read_good db ans rd \<and> gd_req_idx rd < length out) \<and>
    (\<forall>j. i \<le> j \<and> j < length out \<longrightarrow> out' ! j = ans j \<or> j \<in> gd_req_idx ` set rs)"
  using assms(2-)
proof (induction qs arbitrary: i out reads)
  case (Cons q qs)
  obtain k wanted where q: "q = (k, wanted)"
    by fastforce
  have o: "out ! i = None" "ans i = snd (answer db (k, wanted))"
    using Cons.prems q by (auto dest: spec [of _ 0])
  obtain out1 rs1 where r1: "resolve_one i k wanted db out reads = Some (fst (answer db (k, wanted)), db, out1, reads @ rs1)"
      "settled db ans i out out1 rs1"
    using resolve_one_ok [of db out i ans k wanted reads] assms(1) o by blast
  have l: "length out1 = length out" "\<forall>j. j \<noteq> i \<longrightarrow> out1 ! j = out ! j" "\<forall>rd \<in> set rs1. read_good db ans rd \<and> gd_req_idx rd < length out"
      "out1 ! i = ans i \<or> i \<in> gd_req_idx ` set rs1"
    using r1(2) Cons.prems(2) by (auto simp: settled_def)
  have "\<forall>j < length qs. ans (Suc i + j) = snd (answer db (qs ! j))"
    using Cons.prems(3) by auto
  then obtain out2 rs2 where r2: "resolve_all (Suc i) qs db out1 (reads @ rs1) = Some (map (fst \<circ> answer db) qs, db, out2, (reads @ rs1) @ rs2)"
      "length out2 = length out1" "\<forall>j < Suc i. out2 ! j = out1 ! j" "\<forall>rd \<in> set rs2. read_good db ans rd \<and> gd_req_idx rd < length out1"
      "\<forall>j. Suc i \<le> j \<and> j < length out1 \<longrightarrow> out2 ! j = ans j \<or> j \<in> gd_req_idx ` set rs2"
    using Cons.IH [of "Suc i" out1 "reads @ rs1"] Cons.prems l by (auto simp del: append_assoc)
  have "out2 ! j = ans j \<or> j \<in> gd_req_idx ` set (rs1 @ rs2)" if "i \<le> j" "j < length out" for j
    using that l(1,4) r2(3) r2(5) [rule_format, of j] by (cases "j = i") (auto simp: image_Un)
  then show ?case
    using r1(1) r2 l by (intro exI [of _ out2] exI [of _ "rs1 @ rs2"]) (auto simp: q)
qed auto

subsection \<open>Reading the pages\<close>

lemma set_sort_reads: "set (sort_reads rds) = set rds"
proof -
  have "set (shift_read x ys) = insert x (set ys)" for x ys
    by (induction ys) auto
  then have "set (foldl (\<lambda>sorted x. shift_read x sorted) acc rds) = set acc \<union> set rds" for acc
    by (induction rds arbitrary: acc) auto
  then show ?thesis
    by (simp add: sort_reads_def)
qed

definition group_reads :: "BatchGetDiskRead list \<Rightarrow> BatchGetPageRead \<Rightarrow> BatchGetDiskRead list" where
  "group_reads rds pr = take (gp_count pr) (drop (gp_first_idx pr) rds)"

text \<open>A group holds reads of its page, the groups together all of them.\<close>

definition group_good :: "BatchGetDiskRead list \<Rightarrow> BatchGetPageRead \<Rightarrow> bool" where
  "group_good rds pr \<longleftrightarrow> gp_buf pr = NoBuf \<and> 0 < gp_count pr \<and> gp_first_idx pr + gp_count pr \<le> length rds \<and>
     (\<forall>rd \<in> set (group_reads rds pr). gd_bin rd = gp_bin pr \<and> gd_page_id rd = gp_page_id pr)"

lemma page_groups_good:
  assumes "drop i rds = rs" and "i \<le> length rds"
  shows "(\<forall>pr \<in> set (page_groups i rs). group_good rds pr) \<and> (\<Union>pr \<in> set (page_groups i rs). set (group_reads rds pr)) = set rs"
  using assms
proof (induction i rs rule: page_groups.induct)
  case (2 i r rs)
  let ?same = "takeWhile (same_page r) rs" and ?rest = "dropWhile (same_page r) rs"
  let ?n = "Suc (length ?same)"
  let ?pr = "\<lparr>gp_bin = gd_bin r, gp_page_id = gd_page_id r, gp_buf = NoBuf, gp_first_idx = i, gp_count = ?n\<rparr>"
  have d: "drop i rds = (r # ?same) @ ?rest"
    using 2(2) by simp
  have n: "i + ?n + length ?rest = length rds"
    using arg_cong [OF d, of length] 2(3) by (auto simp del: takeWhile_dropWhile_id)
  have rest: "drop (i + ?n) rds = ?rest"
    using arg_cong [OF d, of "drop ?n"] by (simp add: add.commute dropWhile_eq_drop)
  have g: "group_reads rds ?pr = r # ?same"
    using d by (simp add: group_reads_def del: takeWhile_dropWhile_id)
  have "\<forall>rd \<in> set (r # ?same). gd_bin rd = gd_bin r \<and> gd_page_id rd = gd_page_id r"
    by (auto dest: set_takeWhileD simp: same_page_def)
  then have "group_good rds ?pr"
    using n unfolding group_good_def g by simp
  moreover have "set rs = set ?same \<union> set ?rest"
    using set_append [of ?same ?rest] by simp
  ultimately show ?case
    using 2(1) [OF refl rest] n g by (simp add: Let_def Un_assoc)
qed simp

lemma issue_read_ok:
  assumes "all_ok (gi_world g)" and "u \<longrightarrow> uc_initialized (gi_ctx g)"
  shows "\<exists>g'. issue_read u f len off g = (Some (file_read f off len), g') \<and> gi_out g' = gi_out g \<and> gi_rc g' = gi_rc g \<and>
    all_ok (gi_world g') \<and> uc_errors (gi_ctx g') = uc_errors (gi_ctx g) \<and> (u \<longrightarrow> uc_initialized (gi_ctx g'))"
  using assms by (auto simp: issue_read_def uring_io_submit_read_def pread_ok split_beta)

text \<open>An entry within a page that was read, whatever follows the end of the file.\<close>

lemma take_within: "r + n \<le> l \<Longrightarrow> a + r + n \<le> length f \<Longrightarrow> take n (drop r (take l (drop a f) @ g)) = take n (drop (a + r) f)"
  by (auto simp: drop_take add.commute)

lemma read_into_slice:
  assumes "geo_ok s" and "on_disk s e" and "length junk = unat (bn_page_size s)"
  shows "mem_slice (read_into junk (Some (file_read (bn_file s) (unat (e div bn_entries_per_page s) * unat (bn_page_size s)) (unat (bn_page_size s)))))
      ((e mod bn_entries_per_page s) * ucast (bn_entry_size s)) (bn_entry_size s) =
    Some (file_read (bn_file s) (entry_off s e) (unat (bn_entry_size s)))"
proof -
  let ?ps = "unat (bn_page_size s)" and ?es = "unat (bn_entry_size s)" and ?f = "bn_file s"
  let ?a = "unat (e div bn_entries_per_page s) * ?ps" and ?r = "unat (e mod bn_entries_per_page s) * ?es"
  have le: "?r + ?es \<le> ?ps" "?a + ?r + ?es \<le> length ?f"
    using entry_in_page [OF assms(1), of e] assms(2) by (simp_all add: on_disk_def entry_off_def)
  then have "take ?es (drop ?r (take ?ps (drop ?a ?f) @ drop (min ?ps (length ?f - ?a)) junk)) = take ?es (drop (?a + ?r) ?f)"
    by (rule take_within)
  then show ?thesis
    using le assms(3) page_offset [OF assms(1)]
    by (simp add: mem_slice_def read_into_def file_read_def entry_off_def min.commute)
qed

definition better :: "(nat \<Rightarrow> bytes option) \<Rightarrow> outputs \<Rightarrow> outputs \<Rightarrow> bool" where
  "better ans out out' \<longleftrightarrow> length out' = length out \<and> (\<forall>j < length out. out' ! j = out ! j \<or> out' ! j = ans j)"

lemma better_trans [trans]: "better ans a b \<Longrightarrow> better ans b c \<Longrightarrow> better ans a c"
  by (fastforce simp: better_def)

lemma better_refl [simp]: "better ans a a"
  by (simp add: better_def)

lemma better_update: "better ans out (out[j := ans j])"
  by (cases "j < length out") (auto simp: better_def nth_list_update)

definition filled :: "(nat \<Rightarrow> bytes option) \<Rightarrow> BatchGetDiskRead list \<Rightarrow> outputs \<Rightarrow> bool" where
  "filled ans rds out \<longleftrightarrow> (\<forall>rd \<in> set rds. gd_req_idx rd < length out \<and> out ! gd_req_idx rd = ans (gd_req_idx rd))"

lemma filled_better: "filled ans rds out \<Longrightarrow> better ans out out' \<Longrightarrow> filled ans rds out'"
  by (fastforce simp: filled_def better_def)

text \<open>A group after its read: its one request is filled, or the page is there to fill all of them from.\<close>

definition page_ready ::
  "GravelDB \<Rightarrow> (nat \<Rightarrow> bytes option) \<Rightarrow> BatchGetDiskRead list \<Rightarrow> outputs \<Rightarrow> BatchGetPageRead \<Rightarrow> bool" where
  "page_ready db ans rds out pr \<longleftrightarrow>
     gp_buf pr = OutBuf \<and> filled ans (group_reads rds pr) out \<or>
     (\<exists>buf s. gp_buf pr = PageBuf buf \<and> db_bins db (gp_bin pr) = Some s \<and>
        (\<forall>rd \<in> set (group_reads rds pr). \<exists>v. mem_slice buf (gd_offset_in_page rd) (bn_entry_size s) = Some v \<and>
           ans (gd_req_idx rd) = Some v))"

definition io_fine :: "bool \<Rightarrow> GetIo \<Rightarrow> bool" where
  "io_fine u g \<longleftrightarrow> all_ok (gi_world g) \<and> gi_rc g = GRAVELDB_OK \<and> uc_errors (gi_ctx g) = 0 \<and> (u \<longrightarrow> uc_initialized (gi_ctx g))"

lemma issue_read_fine:
  assumes "io_fine u g"
  shows "\<exists>g'. issue_read u f len off g = (Some (file_read f off len), g') \<and> gi_out g' = gi_out g \<and> io_fine u g'"
  using issue_read_ok [of g u f len off] assms by (auto simp: io_fine_def)

lemma group_goodD:
  assumes "group_good rds pr" and "rd \<in> set (group_reads rds pr)"
  shows "rd \<in> set rds" "gd_bin rd = gp_bin pr" "gd_page_id rd = gp_page_id pr"
  using assms by (auto simp: group_good_def group_reads_def dest: in_set_takeD in_set_dropD)

lemma submit_page_direct:
  assumes g: "io_fine u g" and grp: "group_good rds pr" "gp_count pr = 1"
    and good: "\<forall>rd \<in> set rds. read_good db ans rd \<and> gd_req_idx rd < length (gi_out g)"
    and s: "db_bins db (gp_bin pr) = Some s" "bn_entries_per_page s = 1"
  shows "\<exists>g'. submit_page db u rds pr g = Some (pr\<lparr>gp_buf := OutBuf\<rparr>, g') \<and> io_fine u g' \<and>
    better ans (gi_out g) (gi_out g') \<and> filled ans (group_reads rds pr) (gi_out g')"
proof -
  let ?rd = "rds ! gp_first_idx pr"
  have one: "group_reads rds pr = [?rd]"
    using grp by (simp add: group_good_def group_reads_def Cons_nth_drop_Suc [symmetric])
  then have rg: "read_good db ans ?rd" "gd_req_idx ?rd < length (gi_out g)" "gd_bin ?rd = gp_bin pr"
    using good group_goodD [OF grp(1), of ?rd] by simp_all
  then have o: "ans (gd_req_idx ?rd) = Some (file_read (bn_file s) (unat (gd_entry_id ?rd) * unat (bn_entry_size s)) (unat (bn_entry_size s)))"
    using s by (simp add: read_good_def on_disk_def entry_off_def)
  obtain g' where g': "issue_read u (bn_file s) (unat (bn_entry_size s)) (unat (gd_entry_id ?rd) * unat (bn_entry_size s)) g =
      (ans (gd_req_idx ?rd), g')" "gi_out g' = gi_out g" "io_fine u g'"
    using issue_read_fine [OF g, of "bn_file s"] unfolding o by blast
  let ?g = "g'\<lparr>gi_out := (gi_out g)[gd_req_idx ?rd := ans (gd_req_idx ?rd)]\<rparr>"
  have "submit_page db u rds pr g = Some (pr\<lparr>gp_buf := OutBuf\<rparr>, ?g)"
    using s grp(2) g'(1,2) o by (simp add: submit_page_def Let_def)
  then show ?thesis
    using g'(3) better_update one rg(2) by (intro exI [of _ ?g]) (simp add: io_fine_def filled_def)
qed

lemma submit_page_whole:
  assumes g: "io_fine u g" and grp: "group_good rds pr"
    and good: "\<forall>rd \<in> set rds. read_good db ans rd"
    and s: "db_bins db (gp_bin pr) = Some s" "\<not> (gp_count pr = 1 \<and> bn_entries_per_page s = 1)"
  shows "\<exists>buf g'. submit_page db u rds pr g = Some (pr\<lparr>gp_buf := PageBuf buf\<rparr>, g') \<and> io_fine u g' \<and> gi_out g' = gi_out g \<and>
    (\<forall>rd \<in> set (group_reads rds pr). mem_slice buf (gd_offset_in_page rd) (bn_entry_size s) = ans (gd_req_idx rd))"
proof -
  let ?ps = "unat (bn_page_size s)"
  obtain a w where m: "ask_mem (gi_world g) = (Some a, w)" "all_ok w"
    using g by (auto simp: io_fine_def ask_mem_def all_ok_def)
  let ?bs = "file_read (bn_file s) (unat (gp_page_id pr) * ?ps) ?ps" and ?g = "g\<lparr>gi_world := w\<rparr>"
  have "io_fine u ?g"
    using g m(2) by (simp add: io_fine_def)
  then obtain g' where g': "issue_read u (bn_file s) ?ps (unat (gp_page_id pr) * ?ps) ?g = (Some ?bs, g')"
      "gi_out g' = gi_out g" "io_fine u g'"
    using issue_read_fine [of u ?g "bn_file s" ?ps] by force
  let ?buf = "read_into (junk_bytes a ?ps) (Some ?bs)"
  have "mem_slice ?buf (gd_offset_in_page rd) (bn_entry_size s) = ans (gd_req_idx rd)" if "rd \<in> set (group_reads rds pr)" for rd
  proof -
    note d = group_goodD [OF grp that]
    show ?thesis
      using good d s(1) read_into_slice [of s "gd_entry_id rd" "junk_bytes a ?ps"] by (force simp: read_good_def junk_bytes_def)
  qed
  moreover have "submit_page db u rds pr g = Some (pr\<lparr>gp_buf := PageBuf ?buf\<rparr>, g')"
    using s m(1) g'(1) by (auto simp: submit_page_def Let_def)
  ultimately show ?thesis
    using g' by blast
qed

lemma submit_page_ok:
  assumes g: "io_fine u g" and grp: "group_good rds pr"
    and good: "\<forall>rd \<in> set rds. read_good db ans rd \<and> gd_req_idx rd < length (gi_out g)"
  shows "\<exists>buf g'. submit_page db u rds pr g = Some (pr\<lparr>gp_buf := buf\<rparr>, g') \<and> io_fine u g' \<and> better ans (gi_out g) (gi_out g') \<and>
    page_ready db ans rds (gi_out g') (pr\<lparr>gp_buf := buf\<rparr>)"
proof -
  have "group_reads rds pr \<noteq> []"
    using grp by (auto simp: group_good_def group_reads_def)
  then obtain rd where rd: "rd \<in> set (group_reads rds pr)"
    by (cases "group_reads rds pr") auto
  then obtain s where s: "db_bins db (gp_bin pr) = Some s"
    using good group_goodD [OF grp rd] unfolding read_good_def by metis
  show ?thesis
  proof (cases "gp_count pr = 1 \<and> bn_entries_per_page s = 1")
    case True
    then show ?thesis
      using submit_page_direct [OF g grp _ good s] by (fastforce simp: page_ready_def group_reads_def)
  next
    case False
    obtain buf g' where "submit_page db u rds pr g = Some (pr\<lparr>gp_buf := PageBuf buf\<rparr>, g')" "io_fine u g'" "gi_out g' = gi_out g"
        "\<forall>rd \<in> set (group_reads rds pr). mem_slice buf (gd_offset_in_page rd) (bn_entry_size s) = ans (gd_req_idx rd)"
      using submit_page_whole [OF g grp _ s False, of ans] good by blast
    moreover have "\<exists>v. ans (gd_req_idx rd) = Some v" if "rd \<in> set (group_reads rds pr)" for rd
      using good group_goodD [OF grp that] by (auto simp: read_good_def)
    ultimately show ?thesis
      using s by (intro exI [of _ "PageBuf buf"] exI [of _ g']) (simp add: page_ready_def group_reads_def)
  qed
qed

lemma page_ready_better: "page_ready db ans rds out pr \<Longrightarrow> better ans out out' \<Longrightarrow> page_ready db ans rds out' pr"
  using filled_better by (fastforce simp: page_ready_def)

lemma group_reads_buf [simp]: "group_reads rds (pr\<lparr>gp_buf := b\<rparr>) = group_reads rds pr"
  by (simp add: group_reads_def)

lemma submit_reads_ok:
  assumes "io_fine u g" and "\<forall>pr \<in> set prs. group_good rds pr"
    and "\<forall>rd \<in> set rds. read_good db ans rd \<and> gd_req_idx rd < length (gi_out g)"
  shows "\<exists>prs' g'. submit_reads db u rds prs g = Some (prs', g') \<and> io_fine u g' \<and> better ans (gi_out g) (gi_out g') \<and>
    map (group_reads rds) prs' = map (group_reads rds) prs \<and> (\<forall>pr \<in> set prs'. page_ready db ans rds (gi_out g') pr)"
  using assms
proof (induction prs arbitrary: g)
  case (Cons pr prs)
  obtain buf g1 where p: "submit_page db u rds pr g = Some (pr\<lparr>gp_buf := buf\<rparr>, g1)" "io_fine u g1"
      "better ans (gi_out g) (gi_out g1)" "page_ready db ans rds (gi_out g1) (pr\<lparr>gp_buf := buf\<rparr>)"
    using submit_page_ok [OF Cons.prems(1) _ Cons.prems(3), of pr] Cons.prems(2) by auto
  have "length (gi_out g1) = length (gi_out g)"
    using p(3) by (simp add: better_def)
  then obtain prs' g' where r: "submit_reads db u rds prs g1 = Some (prs', g')" "io_fine u g'" "better ans (gi_out g1) (gi_out g')"
      "map (group_reads rds) prs' = map (group_reads rds) prs" "\<forall>pr \<in> set prs'. page_ready db ans rds (gi_out g') pr"
    using Cons.IH [OF p(2)] Cons.prems(2,3) by auto
  then show ?case
    using p page_ready_better [OF p(4) r(3)] better_trans [OF p(3) r(3)]
    by (intro exI [of _ "pr\<lparr>gp_buf := buf\<rparr> # prs'"] exI [of _ g']) simp
qed simp

subsection \<open>Filling the buffers\<close>

lemma scatter_entries_ok:
  assumes "\<forall>rd \<in> set rds. gd_req_idx rd < length out \<and>
      (\<exists>v. mem_slice buf (gd_offset_in_page rd) es = Some v \<and> ans (gd_req_idx rd) = Some v)"
  shows "\<exists>out'. scatter_entries es buf rds out = Some out' \<and> better ans out out' \<and> filled ans rds out'"
  using assms
proof (induction rds arbitrary: out)
  case (Cons rd rds)
  let ?out = "out[gd_req_idx rd := ans (gd_req_idx rd)]"
  obtain out' where "scatter_entries es buf rds ?out = Some out'" "better ans ?out out'" "filled ans rds out'"
    using Cons.IH [of ?out] Cons.prems by auto
  moreover have "filled ans [rd] ?out"
    using Cons.prems by (simp add: filled_def)
  ultimately show ?case
    using Cons.prems filled_better [of ans "[rd]" ?out out'] better_trans [OF better_update, of ans out "gd_req_idx rd" out']
    by (auto simp: filled_def)
qed (simp add: filled_def)

lemma scatter_pages_ok:
  assumes "\<forall>pr \<in> set prs. page_ready db ans rds out pr" and "\<forall>rd \<in> set rds. gd_req_idx rd < length out"
  shows "\<exists>out'. scatter_pages db rds prs out = Some out' \<and> better ans out out' \<and> (\<forall>pr \<in> set prs. filled ans (group_reads rds pr) out')"
  using assms
proof (induction prs arbitrary: out)
  case (Cons pr prs)
  have "\<exists>out1. scatter_pages db rds (pr # prs) out = scatter_pages db rds prs out1 \<and> better ans out out1 \<and>
      filled ans (group_reads rds pr) out1"
  proof (cases "gp_buf pr")
    case (PageBuf buf)
    then obtain s where s: "db_bins db (gp_bin pr) = Some s"
        "\<forall>rd \<in> set (group_reads rds pr). \<exists>v. mem_slice buf (gd_offset_in_page rd) (bn_entry_size s) = Some v \<and> ans (gd_req_idx rd) = Some v"
      using Cons.prems(1) by (auto simp: page_ready_def)
    have "\<forall>rd \<in> set (group_reads rds pr). gd_req_idx rd < length out"
      using Cons.prems(2) by (auto simp: group_reads_def dest: in_set_takeD in_set_dropD)
    then obtain out1 where "scatter_entries (bn_entry_size s) buf (group_reads rds pr) out = Some out1"
        "better ans out out1" "filled ans (group_reads rds pr) out1"
      using scatter_entries_ok [of "group_reads rds pr" out buf "bn_entry_size s" ans] s(2) by blast
    then show ?thesis
      using PageBuf s(1) by (intro exI [of _ out1]) (simp add: group_reads_def)
  qed (use Cons.prems(1) in \<open>auto simp: page_ready_def intro: exI [of _ out]\<close>)
  then obtain out1 where o1: "scatter_pages db rds (pr # prs) out = scatter_pages db rds prs out1" "better ans out out1"
      "filled ans (group_reads rds pr) out1"
    by blast
  obtain out2 where o2: "scatter_pages db rds prs out1 = Some out2" "better ans out1 out2"
      "\<forall>pr \<in> set prs. filled ans (group_reads rds pr) out2"
    using Cons.IH [of out1] Cons.prems page_ready_better [OF _ o1(2)] o1(2) by (auto simp: better_def)
  then show ?case
    using o1 filled_better [OF o1(3) o2(2)] better_trans [OF o1(2) o2(2)] by (simp del: scatter_pages.simps)
qed simp

lemma get_arrays_ok: "all_ok w \<Longrightarrow> fst (get_arrays n k w) \<and> all_ok (snd (get_arrays n k w))"
  by (simp add: get_arrays_def Let_def split_beta)

lemma batch_get_disk:
  assumes "all_ok w" and "\<forall>rd \<in> set rds. read_good db ans rd \<and> gd_req_idx rd < length out"
  shows "\<exists>prs g out'. submit_reads db (fst (uring_io_init w) = 0) rds (page_groups 0 rds)
      \<lparr>gi_out = out, gi_ctx = snd (uring_io_init w), gi_rc = GRAVELDB_OK, gi_world = w\<rparr> = Some (prs, g) \<and>
    gi_rc g = GRAVELDB_OK \<and> uc_errors (gi_ctx g) = 0 \<and> all_ok (gi_world g) \<and>
    scatter_pages db rds prs (gi_out g) = Some out' \<and> better ans out out' \<and> filled ans rds out'"
proof -
  let ?u = "fst (uring_io_init w) = 0"
  let ?g = "\<lparr>gi_out = out, gi_ctx = snd (uring_io_init w), gi_rc = GRAVELDB_OK, gi_world = w\<rparr>"
  have g: "io_fine ?u ?g"
    using assms(1) by (simp add: io_fine_def uring_io_init_def Let_def)
  have grp: "\<forall>pr \<in> set (page_groups 0 rds). group_good rds pr" "(\<Union>pr \<in> set (page_groups 0 rds). set (group_reads rds pr)) = set rds"
    using page_groups_good [of 0 rds rds] by simp_all
  obtain prs g' where p: "submit_reads db ?u rds (page_groups 0 rds) ?g = Some (prs, g')" "io_fine ?u g'" "better ans out (gi_out g')"
      "map (group_reads rds) prs = map (group_reads rds) (page_groups 0 rds)" "\<forall>pr \<in> set prs. page_ready db ans rds (gi_out g') pr"
    using submit_reads_ok [OF g grp(1), of db ans] assms(2) by auto
  obtain out' where o: "scatter_pages db rds prs (gi_out g') = Some out'" "better ans (gi_out g') out'"
      "\<forall>pr \<in> set prs. filled ans (group_reads rds pr) out'"
    using scatter_pages_ok [OF p(5)] assms(2) p(3) by (auto simp: better_def)
  have "set rds = (\<Union>rs \<in> set (map (group_reads rds) prs). set rs)"
    using grp(2) unfolding p(4) by simp
  then have "filled ans rds out'"
    using o(3) by (auto simp: filled_def)
  then show ?thesis
    using p(1,2) o(1) better_trans [OF p(3) o(2)] by (auto simp: io_fine_def)
qed

lemma batch_get_submit_ok:
  assumes "store_readable db" and "all_ok w"
  shows "\<exists>st out w'. graveldb_batch_get_submit db qs w = Some (GRAVELDB_OK, st, out, map (fst \<circ> answer db) qs, db, w') \<and> all_ok w' \<and>
    graveldb_batch_get_poll db st out = Some (GRAVELDB_OK, None, map (snd \<circ> answer db) qs)"
proof (cases "qs = []")
  case True
  then show ?thesis
    using assms(2) by (simp add: graveldb_batch_get_submit_def graveldb_batch_get_poll_def)
next
  case False
  let ?ans = "\<lambda>j. snd (answer db (qs ! j))" and ?w = "if length qs \<le> 64 then w else snd (ask w)"
  obtain out rs where r: "resolve_all 0 qs db (replicate (length qs) None) [] = Some (map (fst \<circ> answer db) qs, db, out, rs)"
      "length out = length qs" "\<forall>rd \<in> set rs. read_good db ?ans rd \<and> gd_req_idx rd < length out"
      "\<forall>j < length qs. out ! j = ?ans j \<or> j \<in> gd_req_idx ` set rs"
    using resolve_all_ok [OF assms(1), of 0 "replicate (length qs) None" qs ?ans "[]"] by auto
  have fin: "out' = map (snd \<circ> answer db) qs" if "better ?ans out out'" "filled ?ans rs out'" for out'
    using that r(2,4) by (intro nth_equalityI) (fastforce simp: better_def filled_def)+
  show ?thesis
  proof (cases "rs = []")
    case True
    then show ?thesis
      using r(1) fin [of out] assms(2) False
      by (simp add: graveldb_batch_get_submit_def graveldb_batch_get_poll_def filled_def split_beta Let_def)
  next
    case some: False
    let ?rds = "sort_reads rs" and ?w1 = "snd (get_arrays (length qs) (length (sort_reads rs)) ?w)"
    have w1: "all_ok ?w1" "fst (get_arrays (length qs) (length ?rds) ?w)"
      using get_arrays_ok [of ?w] assms(2) by simp_all
    obtain prs g out' where d: "submit_reads db (fst (uring_io_init ?w1) = 0) ?rds (page_groups 0 ?rds)
        \<lparr>gi_out = out, gi_ctx = snd (uring_io_init ?w1), gi_rc = GRAVELDB_OK, gi_world = ?w1\<rparr> = Some (prs, g)"
        "gi_rc g = GRAVELDB_OK" "uc_errors (gi_ctx g) = 0" "all_ok (gi_world g)" "scatter_pages db ?rds prs (gi_out g) = Some out'"
        "better ?ans out out'" "filled ?ans ?rds out'"
      using batch_get_disk [OF w1(1), of ?rds db ?ans out] r(3) by (auto simp: set_sort_reads)
    have "graveldb_batch_get_submit db qs w = Some (GRAVELDB_OK,
        Some \<lparr>ag_disk_reads = ?rds, ag_page_reads = prs, ag_io_ctx = gi_ctx g, ag_use_uring = (fst (uring_io_init ?w1) = 0),
          ag_submit_rc = GRAVELDB_OK\<rparr>, gi_out g, map (fst \<circ> answer db) qs, db, gi_world g)"
      using r(1) some False w1(2) d(1,2) assms(2)
      by (cases "length qs \<le> 64") (simp_all add: graveldb_batch_get_submit_def Let_def split_beta)
    moreover have "out' = map (snd \<circ> answer db) qs"
      using fin d(6,7) by (simp add: filled_def set_sort_reads)
    ultimately show ?thesis
      using d(3-5) by (simp add: graveldb_batch_get_poll_def uring_io_poll_def split_beta Let_def)
  qed
qed

text \<open>
  C2. A batched read gives every request what it would get alone: the dimension of its bin and the
  embedding as the overlay, the write buffer and the file together hold it, or 0 for an unknown
  feature. Sorting the reads and reading each page once do not show. The claim is for a readable store
  and calls to the system that do not fail. Readable means:
  the index is sound and no rehash of it is in progress;
  during a checkpoint the overlay of a bin is sound and not being rehashed either;
  the bin of every indexed entry exists with a sound write buffer and geometry, and neither its page nor,
  during a checkpoint, the entry has the reserved number 2^32 - 1;
  the page of the entry is buffered or the bytes of the entry lie within the file;
  an entry that has a page to itself, and is not buffered, fills this page.
  Under these conditions the store is the same after the read. During a rehash a lookup migrates slots,
  so that the store changes, and it may miss an id; an entry that does not fill its own page is read from a
  wrong offset.
\<close>

theorem graveldb_batch_get_answers:
  assumes "store_readable db" and "all_ok w"
  shows "\<exists>w'. graveldb_batch_get db qs w = Some (GRAVELDB_OK, map (snd \<circ> answer db) qs, map (fst \<circ> answer db) qs, db, w')"
  using batch_get_submit_ok [OF assms, of qs] by (auto simp: graveldb_batch_get_def poll_loop.simps)

text \<open>The store with one bin, in which feature 7 has a given entry.\<close>

definition demo_index :: "u32 \<Rightarrow> HashIndex" where
  "demo_index e = snd (the (hash_index_put True (the (snd (the (hash_index_init True 64)))) 7 0 e))"

lemma demo_index_ok:
  "hi_inv (demo_index e)" "rt_old_slots (demo_index e) = None" "hi_map (demo_index e) = [7 \<mapsto> (0, e)]"
proof -
  obtain idx where i: "hash_index_init True 64 = Some (GRAVELDB_OK, Some idx)" "hi_inv idx" "hi_map idx = Map.empty"
      "rt_old_slots idx = None" "rt_count idx = 0"
    using init_ok [of 64] by auto
  then obtain idx' where "hash_index_put True idx 7 0 e = Some (GRAVELDB_OK, idx')" "hi_inv idx'" "hi_map idx' = [7 \<mapsto> (0, e)]"
      "rt_old_slots idx' = None"
    using put_idle [of idx 7 True 0 e] by auto
  then show "hi_inv (demo_index e)" "rt_old_slots (demo_index e) = None" "hi_map (demo_index e) = [7 \<mapsto> (0, e)]"
    by (simp_all add: demo_index_def i(1))
qed

definition demo_db :: GravelDB where
  "demo_db = (demo_store (demo_bin (replicate 128 5)))\<lparr>db_index := demo_index 9\<rparr>"

lemma demo_db_ok:
  "store_readable demo_db" "answer demo_db (7, True) = (2, Some (replicate 8 5))" "answer demo_db (8, True) = (0, None)"
  "answer demo_db (7, False) = (2, None)"
proof -
  let ?s = "demo_bin (replicate 128 5)"
  have b: "get_bin demo_db 0 = Some (1, ?s)" "bn_dim ?s = 2" "\<not> bn_in_checkpoint ?s"
    using demo_store_fields(2) [of ?s] demo_bin_ok(3) by (simp_all add: demo_db_def get_bin_def demo_bin_def)
  have "on_disk ?s 9"
    by (simp add: on_disk_def entry_off_def)
  then have "entry_readable ?s 9"
    using demo_bin_ok(2,3,5) [of "replicate 128 5"] by (simp add: entry_readable_def PAGE_SLOT_EMPTY_def UINT32_MAX_def)
  then show "store_readable demo_db"
    using b(1) by (simp add: store_readable_def demo_db_def demo_index_ok)
  have "stored ?s 9 = replicate 8 5"
    using b(3) by (simp add: stored_def entry_bytes_def demo_view entry_off_def fbyte_def) (simp add: upt_rec eval_nat_numeral)
  moreover have "hi_map (db_index demo_db) = [7 \<mapsto> (0, 9)]"
    by (simp add: demo_db_def demo_index_ok)
  ultimately show "answer demo_db (7, True) = (2, Some (replicate 8 5))" "answer demo_db (8, True) = (0, None)"
      "answer demo_db (7, False) = (2, None)"
    using b by (simp_all add: answer_def lookup_id_def)
qed

theorem graveldb_batch_get_answers_witness:
  "\<exists>w'. graveldb_batch_get demo_db [(7, True), (8, True), (7, False)] (demo_world {}) =
     Some (GRAVELDB_OK, [Some (replicate 8 5), None, None], [2, 0, 2], demo_db, w')"
  using graveldb_batch_get_answers [OF demo_db_ok(1) demo_world_ok(2), of "[(7, True), (8, True), (7, False)]"]
  by (simp add: demo_db_ok(2-4))

subsection \<open>An entry with a page to itself\<close>

text \<open>
  C30. An entry that has a page to itself but does not fill it is written at a multiple of the page size
  and, when it is read alone from the file, read at a multiple of the entry size: the caller gets
  other bytes, with status \<open>GRAVELDB_OK\<close>.
\<close>

theorem batch_get_lone_entry_misplaced:
  assumes "hi_inv (db_index db)" and "rt_old_slots (db_index db) = None" and "k \<noteq> 0"
    and "hi_map (db_index db) k = Some (d, e)" and "get_bin db d = Some (p, s)"
    and "wb_inv s" and "\<not> bn_in_checkpoint s" and "bin_pages s e = None" and "e \<noteq> PAGE_SLOT_EMPTY"
    and "bn_entries_per_page s = 1" and "all_ok w" and "geo_ok s"
  shows "\<exists>w'. graveldb_batch_get db [(k, True)] w =
      Some (GRAVELDB_OK, [Some (file_read (bn_file s) (unat e * unat (bn_entry_size s)) (unat (bn_entry_size s)))], [bn_dim s], db, w') \<and>
    entry_bytes s e = map (fbyte (bn_file s)) [unat e * unat (bn_page_size s)..<unat e * unat (bn_page_size s) + unat (bn_entry_size s)]"
proof -
  have idx: "hash_index_get (db_index db) k = Some (Some (d, e), db_index db)"
    using index_get_idle [OF assms(1,2), of k] assms(3,4) by simp
  obtain j where j: "pagemap_find (wb_slots (bn_write_buf s)) (wb_capacity (bn_write_buf s)) e = Some j"
      "ps_page_id (wb_slots (bn_write_buf s) ! unat j) \<noteq> e"
    using assms(6,8,9) by (rule find_no_page)
  let ?rd = "\<lparr>gd_req_idx = 0, gd_bin = p, gd_entry_id = e, gd_page_id = e, gd_offset_in_page = 0\<rparr>"
  have bin: "db_bins db p = Some s" "db\<lparr>db_index := db_index db\<rparr> = db"
    using assms(5) by (auto simp: get_bin_def bind_eq_Some_conv)
  have r: "resolve_all 0 [(k, True)] db [None] [] = Some ([bn_dim s], db, [None], [?rd])"
    using idx assms(5,7,10) j set_bin_same [OF assms(5)] by (simp add: resolve_one_def bin(2) Let_def)
  let ?w = "snd (get_arrays 1 1 w)"
  let ?v = "file_read (bn_file s) (unat e * unat (bn_entry_size s)) (unat (bn_entry_size s))"
  have w: "all_ok ?w" "fst (get_arrays 1 1 w)"
    using get_arrays_ok [OF assms(11)] by simp_all
  let ?g = "\<lparr>gi_out = [None], gi_ctx = snd (uring_io_init ?w), gi_rc = GRAVELDB_OK, gi_world = ?w\<rparr>"
  have "io_fine (fst (uring_io_init ?w) = 0) ?g"
    using w(1) by (simp add: io_fine_def uring_io_init_def Let_def)
  then obtain g where g: "issue_read (fst (uring_io_init ?w) = 0) (bn_file s) (unat (bn_entry_size s)) (unat e * unat (bn_entry_size s)) ?g =
      (Some ?v, g)" "gi_out g = [None]" "io_fine (fst (uring_io_init ?w) = 0) g"
    using issue_read_fine by force
  have sub: "graveldb_batch_get_submit db [(k, True)] w = Some (GRAVELDB_OK,
      Some \<lparr>ag_disk_reads = [?rd], ag_page_reads = [\<lparr>gp_bin = p, gp_page_id = e, gp_buf = OutBuf, gp_first_idx = 0, gp_count = 1\<rparr>],
        ag_io_ctx = gi_ctx g, ag_use_uring = (fst (uring_io_init ?w) = 0), ag_submit_rc = GRAVELDB_OK\<rparr>, [Some ?v], [bn_dim s], db, gi_world g)"
    using r w(2) bin(1) assms(10,11) g(1,2) g(3) [unfolded io_fine_def]
    by (simp add: graveldb_batch_get_submit_def Let_def split_beta sort_reads_def submit_page_def)
  have off: "entry_off s e = unat e * unat (bn_page_size s)"
    using assms(10) by (simp add: entry_off_def)
  have "data_view s (entry_off s e + i) = fbyte (bn_file s) (entry_off s e + i)" if "i < unat (bn_entry_size s)" for i
    using assms(8,10) by (simp add: data_view_def view_in_page [OF assms(12) that] Let_def)
  then have "entry_bytes s e = map (fbyte (bn_file s)) [entry_off s e..<entry_off s e + unat (bn_entry_size s)]"
    by (intro nth_equalityI) (simp_all add: entry_bytes_def)
  then show ?thesis
    using sub off g(3) by (simp add: graveldb_batch_get_def poll_loop.simps graveldb_batch_get_poll_def uring_io_poll_def io_fine_def split_beta Let_def)
qed

definition wide_bin :: "bytes \<Rightarrow> DimBin" where
  "wide_bin data = (demo_bin data)\<lparr>bn_dim := 12, bn_entry_size := 48, bn_entries_per_page := 1\<rparr>"

theorem batch_get_lone_entry_misplaced_witness:
  "\<exists>w' v. graveldb_batch_get ((demo_store (wide_bin (replicate 64 1 @ replicate 64 2)))\<lparr>db_index := demo_index 1\<rparr>) [(7, True)] (demo_world {}) =
      Some (GRAVELDB_OK, [Some v], [12], (demo_store (wide_bin (replicate 64 1 @ replicate 64 2)))\<lparr>db_index := demo_index 1\<rparr>, w') \<and>
    v ! 0 = 1 \<and> entry_bytes (wide_bin (replicate 64 1 @ replicate 64 2)) 1 ! 0 = 2"
proof -
  let ?f = "replicate 64 1 @ replicate 64 2 :: bytes"
  let ?s = "wide_bin ?f"
  let ?db = "(demo_store ?s)\<lparr>db_index := demo_index 1\<rparr>"
  have b: "get_bin ?db 0 = Some (1, ?s)"
    using demo_store_fields(2) [of ?s] by (simp add: get_bin_def)
  have s: "wb_inv ?s" "\<not> bn_in_checkpoint ?s" "bin_pages ?s 1 = None" "geo_ok ?s" "bn_entries_per_page ?s = 1" "bn_dim ?s = 12"
      "bn_file ?s = ?f" "bn_entry_size ?s = 48" "bn_page_size ?s = 64"
    using demo_bin_ok(3-5) [of ?f] by (simp_all add: wide_bin_def wb_inv_def geo_ok_def)
  have "\<exists>w'. graveldb_batch_get ?db [(7, True)] (demo_world {}) =
      Some (GRAVELDB_OK, [Some (file_read (bn_file ?s) (unat (1 :: u32) * unat (bn_entry_size ?s)) (unat (bn_entry_size ?s)))], [bn_dim ?s], ?db, w') \<and>
    entry_bytes ?s 1 = map (fbyte (bn_file ?s)) [unat (1 :: u32) * unat (bn_page_size ?s)..<unat (1 :: u32) * unat (bn_page_size ?s) + unat (bn_entry_size ?s)]"
    by (rule batch_get_lone_entry_misplaced [OF _ _ _ _ b])
      (simp_all add: demo_index_ok s demo_world_ok PAGE_SLOT_EMPTY_def UINT32_MAX_def)
  then show ?thesis
    by (elim ex_forward) (simp add: s file_read_def fbyte_def nth_append)
qed

end
