(* ===== verification/Ckpt_Sched.thy ===== *)
theory Ckpt_Sched
  imports Engine_Flush
begin

text \<open>
  The scheduler of \<^verbatim>\<open>src/checkpoint.c\<close>: periodic flushes and checkpoints, requests for a full copy that
  share one execution, and recovery from delta files. The scheduler and its store are passed side by
  side. The responses that the callers provide live in a heap, linked through \<^verbatim>\<open>next\<close>.
\<close>

subsection \<open>State\<close>

record CkptConfig =
  cc_flush_interval_ms :: u32
  cc_flush_dirty_threshold :: u32
  cc_checkpoint_interval_s :: u32
  cc_full_cooldown_ms :: u32
  cc_auto_recover_on_open :: bool

record CkptFullResponse =
  fr_completed :: bool
  fr_checkpoint_id :: u64
  fr_delta_base :: u64
  fr_timestamp_ms :: u64
  fr_next :: "nat option"

record CkptScheduler =
  sc_config :: CkptConfig
  sc_last_flush_ms :: u64
  sc_last_checkpoint_ms :: u64
  sc_full_pending :: bool
  sc_full_waiters :: "nat option"
  sc_last_full_generation :: u64
  sc_last_full_time_ms :: u64
  sc_full_cooldown_ms :: u32
  sc_delta_chain_length :: u32
  sc_total_flushes :: u64
  sc_total_checkpoints :: u64
  sc_total_full_checkpoints :: u64
  sc_total_bytes_dumped :: u64

type_synonym responses = "nat \<rightharpoonup> CkptFullResponse"

definition default_config :: CkptConfig where
  "default_config =
     \<lparr>cc_flush_interval_ms = 1000, cc_flush_dirty_threshold = 4096, cc_checkpoint_interval_s = 60,
      cc_full_cooldown_ms = 60000, cc_auto_recover_on_open = True\<rparr>"

text \<open>\<^verbatim>\<open>memset\<close> leaves the copy of the cooldown inside the configuration at 0.\<close>

definition ckpt_scheduler_init :: "GravelDB \<Rightarrow> CkptConfig option \<Rightarrow> CkptScheduler" where
  "ckpt_scheduler_init db config =
     (let c = (case config of Some c \<Rightarrow> c | None \<Rightarrow> default_config) in
      \<lparr>sc_config = c\<lparr>cc_full_cooldown_ms := 0\<rparr>, sc_last_flush_ms = 0, sc_last_checkpoint_ms = 0,
       sc_full_pending = False, sc_full_waiters = None, sc_last_full_generation = db_current_epoch db,
       sc_last_full_time_ms = 0, sc_full_cooldown_ms = cc_full_cooldown_ms c, sc_delta_chain_length = 0,
       sc_total_flushes = 0, sc_total_checkpoints = 0, sc_total_full_checkpoints = 0, sc_total_bytes_dumped = 0\<rparr>)"

text \<open>\<^verbatim>\<open>memset(sched, 0, sizeof(*sched))\<close>, after which the scheduler has no store.\<close>

definition ckpt_scheduler_destroy :: "CkptScheduler \<Rightarrow> CkptScheduler" where
  "ckpt_scheduler_destroy sched =
     \<lparr>sc_config = \<lparr>cc_flush_interval_ms = 0, cc_flush_dirty_threshold = 0, cc_checkpoint_interval_s = 0,
        cc_full_cooldown_ms = 0, cc_auto_recover_on_open = False\<rparr>, sc_last_flush_ms = 0, sc_last_checkpoint_ms = 0,
      sc_full_pending = False, sc_full_waiters = None, sc_last_full_generation = 0, sc_last_full_time_ms = 0,
      sc_full_cooldown_ms = 0, sc_delta_chain_length = 0, sc_total_flushes = 0, sc_total_checkpoints = 0,
      sc_total_full_checkpoints = 0, sc_total_bytes_dumped = 0\<rparr>"

subsection \<open>Flush and checkpoint\<close>

definition ckpt_scheduler_force_flush ::
  "CkptScheduler \<Rightarrow> GravelDB \<Rightarrow> World \<Rightarrow> (graveldb_status \<times> CkptScheduler \<times> GravelDB \<times> World) option" where
  "ckpt_scheduler_force_flush sched db w = do {
     (rc, db, w) \<leftarrow> graveldb_flush db w;
     let sched = (if rc = GRAVELDB_OK then sched\<lparr>sc_total_flushes := sc_total_flushes sched + 1\<rparr> else sched);
     Some (rc, sched, db, w)
   }"

fun persist_metas :: "u16 list \<Rightarrow> GravelDB \<Rightarrow> World \<Rightarrow> World option" where
  "persist_metas [] db w = Some w"
| "persist_metas (i # is) db w = do {
     (p, s) \<leftarrow> get_bin db i;
     persist_metas is db (snd (ckpt_persist_meta s (db_data_dir db) (dt_generation (bn_dirty s)) w))
   }"

fun dump_fulls :: "u16 list \<Rightarrow> GravelDB \<Rightarrow> World \<Rightarrow> World option" where
  "dump_fulls [] db w = Some w"
| "dump_fulls (i # is) db w = do {
     (p, s) \<leftarrow> get_bin db i;
     dump_fulls is db (snd (ckpt_dump_full s (db_data_dir db) w))
   }"

fun purge_bins :: "u16 list \<Rightarrow> u64 \<Rightarrow> GravelDB \<Rightarrow> World \<Rightarrow> World option" where
  "purge_bins [] gen db w = Some w"
| "purge_bins (i # is) gen db w = do {
     (p, s) \<leftarrow> get_bin db i;
     purge_bins is gen db (snd (ckpt_purge_old_deltas (db_data_dir db) (bn_dim s) gen w))
   }"

text \<open>The walk over the waiters, which does not end when their list is a cycle.\<close>

definition answer :: "u64 \<Rightarrow> u64 \<Rightarrow> CkptFullResponse \<Rightarrow> CkptFullResponse" where
  "answer epoch now r = r\<lparr>fr_checkpoint_id := epoch, fr_delta_base := epoch, fr_timestamp_ms := now, fr_completed := True\<rparr>"

partial_function (option) broadcast :: "u64 \<Rightarrow> u64 \<Rightarrow> nat option \<Rightarrow> responses \<Rightarrow> responses option" where
  "broadcast epoch now waiter rs =
     (case waiter of
        None \<Rightarrow> Some rs
      | Some a \<Rightarrow>
          rs a \<bind> (\<lambda>r. broadcast epoch now (fr_next r) (rs(a \<mapsto> answer epoch now r))))"

declare broadcast.simps [code]

definition full_checkpoint ::
  "CkptScheduler \<Rightarrow> GravelDB \<Rightarrow> responses \<Rightarrow> World \<Rightarrow> (CkptScheduler \<times> GravelDB \<times> responses \<times> World) option" where
  "full_checkpoint sched db rs w = do {
     let bins = bin_indices db;
     (rc, db, w) \<leftarrow> graveldb_flush db w;
     w \<leftarrow> dump_fulls bins db w;
     let sched = sched\<lparr>sc_last_full_generation := db_current_epoch db, sc_last_full_time_ms := sc_last_checkpoint_ms sched,
                       sc_delta_chain_length := 0, sc_total_full_checkpoints := sc_total_full_checkpoints sched + 1,
                       sc_full_pending := False\<rparr>;
     rs \<leftarrow> broadcast (db_current_epoch db) (sc_last_full_time_ms sched) (sc_full_waiters sched) rs;
     let sched = sched\<lparr>sc_full_waiters := None\<rparr>;
     w \<leftarrow> purge_bins bins (sc_last_full_generation sched) db w;
     Some (sched, db, rs, w)
   }"

definition ckpt_scheduler_force_checkpoint ::
  "CkptScheduler \<Rightarrow> GravelDB \<Rightarrow> responses \<Rightarrow> World
     \<Rightarrow> (graveldb_status \<times> CkptScheduler \<times> GravelDB \<times> responses \<times> World) option" where
  "ckpt_scheduler_force_checkpoint sched db rs w = do {
     (rc, db, w) \<leftarrow> graveldb_checkpoint db w;
     if rc \<noteq> GRAVELDB_OK then Some (rc, sched, db, rs, w)
     else do {
       w \<leftarrow> persist_metas (bin_indices db) db w;
       let sched = sched\<lparr>sc_delta_chain_length := sc_delta_chain_length sched + 1,
                         sc_total_checkpoints := sc_total_checkpoints sched + 1\<rparr>;
       (if sc_full_pending sched then do {
          (sched, db, rs, w) \<leftarrow> full_checkpoint sched db rs w;
          Some (GRAVELDB_OK, sched, db, rs, w)
        } else Some (GRAVELDB_OK, sched, db, rs, w))
     }
   }"

definition ckpt_scheduler_tick ::
  "CkptScheduler \<Rightarrow> u64 \<Rightarrow> GravelDB \<Rightarrow> responses \<Rightarrow> World
     \<Rightarrow> (graveldb_status \<times> CkptScheduler \<times> GravelDB \<times> responses \<times> World) option" where
  "ckpt_scheduler_tick sched now_ms db rs w = do {
     let c = sc_config sched;
     (rc, sched, db, w) \<leftarrow>
       (if cc_flush_interval_ms c > 0 \<and> now_ms - sc_last_flush_ms sched \<ge> ucast (cc_flush_interval_ms c) then do {
          (rc, sched, db, w) \<leftarrow> ckpt_scheduler_force_flush sched db w;
          Some (rc, sched\<lparr>sc_last_flush_ms := now_ms\<rparr>, db, w)
        } else Some (GRAVELDB_OK, sched, db, w));
     if rc \<noteq> GRAVELDB_OK then Some (rc, sched, db, rs, w)
     else if cc_checkpoint_interval_s c > 0 \<and>
             now_ms - sc_last_checkpoint_ms sched \<ge> ucast (cc_checkpoint_interval_s c) * 1000 then do {
       (rc, sched, db, rs, w) \<leftarrow> ckpt_scheduler_force_checkpoint sched db rs w;
       Some (rc, sched\<lparr>sc_last_checkpoint_ms := now_ms\<rparr>, db, rs, w)
     } else Some (GRAVELDB_OK, sched, db, rs, w)
   }"

text \<open>\<^verbatim>\<open>ckpt_scheduler_request_full\<close> for the response at address \<open>a\<close>.\<close>

definition ckpt_scheduler_request_full :: "CkptScheduler \<Rightarrow> nat \<Rightarrow> responses \<Rightarrow> CkptScheduler \<times> responses" where
  "ckpt_scheduler_request_full sched a rs =
     (if sc_last_full_time_ms sched > 0 \<and> sc_full_cooldown_ms sched > 0 \<and>
         sc_last_checkpoint_ms sched - sc_last_full_time_ms sched < ucast (sc_full_cooldown_ms sched)
      then (sched, rs(a \<mapsto> \<lparr>fr_completed = True, fr_checkpoint_id = sc_last_full_generation sched,
              fr_delta_base = sc_last_full_generation sched, fr_timestamp_ms = sc_last_full_time_ms sched, fr_next = None\<rparr>))
      else (sched\<lparr>sc_full_waiters := Some a, sc_full_pending := True\<rparr>,
            rs(a \<mapsto> \<lparr>fr_completed = False, fr_checkpoint_id = 0, fr_delta_base = 0, fr_timestamp_ms = 0,
                     fr_next = sc_full_waiters sched\<rparr>)))"

record CkptStats =
  cs_total_flushes :: u64
  cs_total_checkpoints :: u64
  cs_total_full_checkpoints :: u64
  cs_total_bytes_dumped :: u64
  cs_current_delta_chain_length :: u32
  cs_last_checkpoint_generation :: u64

definition ckpt_scheduler_stats :: "CkptScheduler \<Rightarrow> GravelDB \<Rightarrow> CkptStats" where
  "ckpt_scheduler_stats sched db =
     \<lparr>cs_total_flushes = sc_total_flushes sched, cs_total_checkpoints = sc_total_checkpoints sched,
      cs_total_full_checkpoints = sc_total_full_checkpoints sched, cs_total_bytes_dumped = sc_total_bytes_dumped sched,
      cs_current_delta_chain_length = sc_delta_chain_length sched, cs_last_checkpoint_generation = db_current_epoch db\<rparr>"

subsection \<open>Recovery\<close>

text \<open>The result of a replay is not looked at; \<^verbatim>\<open>open\<close> fails for a path that could not be copied.\<close>

fun replay_deltas :: "u64 \<Rightarrow> CkptDeltaInfo list \<Rightarrow> DimBin \<Rightarrow> World \<Rightarrow> (DimBin \<times> World) option" where
  "replay_deltas base [] s w = Some (s, w)"
| "replay_deltas base (d # ds) s w =
     (if ci_generation d > base then
        (case ci_path d of
           None \<Rightarrow> replay_deltas base ds s w
         | Some path \<Rightarrow> do {
             (rc, s, w) \<leftarrow> ckpt_replay_delta s path w;
             replay_deltas base ds s w
           })
      else replay_deltas base ds s w)"

fun recover_bins :: "u16 list \<Rightarrow> GravelDB \<Rightarrow> World \<Rightarrow> (GravelDB \<times> World) option" where
  "recover_bins [] db w = Some (db, w)"
| "recover_bins (i # is) db w = do {
     (p, s) \<leftarrow> get_bin db i;
     let (rc, meta, w) = ckpt_read_meta (db_data_dir db) (bn_dim s) w;
     let base = (case meta of None \<Rightarrow> 0 | Some m \<Rightarrow> bm_generation m);
     let (deltas, w) = ckpt_list_deltas (db_data_dir db) (bn_dim s) w;
     (s, w) \<leftarrow> replay_deltas base deltas s w;
     recover_bins is (set_bin p s db) w
   }"

definition ckpt_recover :: "GravelDB \<Rightarrow> World \<Rightarrow> (graveldb_status \<times> GravelDB \<times> World) option" where
  "ckpt_recover db w = do {
     (db, w) \<leftarrow> recover_bins (bin_indices db) db w;
     Some (GRAVELDB_OK, db, w)
   }"

end
