(* ===== verification/Ckpt_Export.thy ===== *)
theory Ckpt_Export
  imports Engine
begin

text \<open>
  Export and import of checkpoints, in \<^verbatim>\<open>src/checkpoint.c\<close>. A dump is a header, the entries with their
  features and embeddings, and a trailer. An export advances in phases: read a batch of keys, read the
  embeddings of the keys that are in use, write both to the dump. Buffers from \<^verbatim>\<open>malloc\<close> hold
  arbitrary bytes until they are written.
\<close>

subsection \<open>State\<close>

datatype CkptExportPhase =
  CKPT_EXPORT_PHASE_IDLE | CKPT_EXPORT_PHASE_KEY_READ | CKPT_EXPORT_PHASE_EMB_READ | CKPT_EXPORT_PHASE_OUTPUT

definition GRAVELDB_CKPT_FULL :: int where
  "GRAVELDB_CKPT_FULL = 0"

definition GRAVELDB_CKPT_DELTA :: int where
  "GRAVELDB_CKPT_DELTA = 1"

definition CKPT_EXPORT_IO_BATCH :: u32 where
  "CKPT_EXPORT_IO_BATCH = 256"

text \<open>The pointers into the pool of embeddings are offsets.\<close>

record CkptCoalescedRange =
  cr_start_idx :: u32
  cr_count :: u32
  cr_buf :: nat

record CkptExportReadOp =
  ro_feat_id :: u64
  ro_entry_idx :: u32
  ro_buf :: nat

text \<open>
  The bin is named by its address and the dump file by its path. \<^verbatim>\<open>paired_full\<close> is not part of the
  record: a pair of exports is passed where it matters, since a paired export is never paired again.
\<close>

record GravelDBCkptExport =
  xp_bin :: nat
  xp_cursor :: u32
  xp_snapshot_bump :: u32
  xp_generation :: u64
  xp_base_gen :: u64
  xp_num_entries :: u64
  xp_type :: int
  xp_batch_entries :: u32
  xp_header_written :: bool
  xp_scan_done :: bool
  xp_dump_path :: string
  xp_dump_size :: u64
  xp_read_cursor :: nat
  xp_dirty_pages :: "u32 list"
  xp_dirty_page_cursor :: nat
  xp_phase :: CkptExportPhase
  xp_key_batch_buf :: bytes
  xp_key_batch_start :: u32
  xp_key_batch_count :: u32
  xp_ranges :: "CkptCoalescedRange list"
  xp_read_ops :: "CkptExportReadOp list"
  xp_io_ctx :: uring_io_ctx
  xp_read_buf_pool :: bytes

subsection \<open>Beginning an export\<close>

definition export_dump_path :: "string \<Rightarrow> u64 \<Rightarrow> int \<Rightarrow> int \<Rightarrow> string" where
  "export_dump_path data_dir generation dim ty =
     snprintf 512 (data_dir @ ''/ckpt/export_gen'' @ dec_pad4 (unat generation) @ ''_d'' @ dec_int dim @ ''_'' @
       (if ty = GRAVELDB_CKPT_FULL then ''full'' else ''delta'') @ ''.dump'')"

definition export_begin_one ::
  "GravelDB \<Rightarrow> int \<Rightarrow> int \<Rightarrow> u64 \<Rightarrow> u32 \<Rightarrow> World
     \<Rightarrow> ((graveldb_status + GravelDBCkptExport) \<times> GravelDB \<times> World) option" where
  "export_begin_one db ty dim base_gen batch_entries w =
     (if ty \<noteq> GRAVELDB_CKPT_FULL \<and> ty \<noteq> GRAVELDB_CKPT_DELTA then Some (Inl GRAVELDB_ERR_INVALID, db, w)
      else do {
        (dim_idx, reg) \<leftarrow> dim_registry_find (db_dim_reg db) dim;
        let db = db\<lparr>db_dim_reg := reg\<rparr>;
        if dim_idx < 0 then Some (Inl GRAVELDB_ERR_NOT_FOUND, db, w)
        else do {
          (p, s) \<leftarrow> get_bin db (word_of_int dim_idx);
          let batch = (if batch_entries = 0 then CKPT_EXPORT_IO_BATCH else batch_entries);
          let (ok, w) = ask w;
          if \<not> ok then Some (Inl GRAVELDB_ERR_OOM, db, w)
          else do {
            let path = export_dump_path (db_data_dir db) (dt_generation (bn_dirty s)) (bn_dim s) ty;
            let (ok, w) = open_trunc path w;
            if \<not> ok then Some (Inl GRAVELDB_ERR_IO, db, w)
            else do {
              let (r, ctx) = uring_io_init w;
              let ctx = (if r \<noteq> 0 then ctx\<lparr>uc_initialized := False\<rparr> else ctx);
              let (keys_mem, w) = ask_mem w;
              let (ops_ok, w) = ask w;
              let (pool_mem, w) = ask_mem w;
              let (ranges_ok, w) = ask w;
              let (dirty_ok, w) = (if ty = GRAVELDB_CKPT_DELTA then ask w else (True, w));
              (case (keys_mem, pool_mem) of
                 (Some ka, Some pa) \<Rightarrow>
                   if ops_ok \<and> ranges_ok \<and> dirty_ok then
                     Some (Inr \<lparr>xp_bin = p, xp_cursor = 0, xp_snapshot_bump = ucast (bn_bump_ptr s),
                       xp_generation = dt_generation (bn_dirty s), xp_base_gen = base_gen, xp_num_entries = 0,
                       xp_type = ty, xp_batch_entries = batch, xp_header_written = False, xp_scan_done = False,
                       xp_dump_path = path, xp_dump_size = 0, xp_read_cursor = 0,
                       xp_dirty_pages = (if ty = GRAVELDB_CKPT_DELTA
                         then dirty_tracker_scan_ckpt (bn_dirty s) GRAVELDB_MAX_DIRTY else []),
                       xp_dirty_page_cursor = 0, xp_phase = CKPT_EXPORT_PHASE_IDLE,
                       xp_key_batch_buf = junk_bytes ka (unat batch * 8), xp_key_batch_start = 0,
                       xp_key_batch_count = 0, xp_ranges = [], xp_read_ops = [], xp_io_ctx = ctx,
                       xp_read_buf_pool = junk_bytes pa (unat batch * unat (bn_entry_size s))\<rparr>, db, w)
                   else Some (Inl GRAVELDB_ERR_OOM, db, w)
               | _ \<Rightarrow> Some (Inl GRAVELDB_ERR_OOM, db, w))
            }
          }
        }
      })"

text \<open>With the flag \<^verbatim>\<open>GRAVELDB_CKPT_ALSO_FULL\<close> a delta export carries a full one along.\<close>

definition graveldb_ckpt_export_begin ::
  "GravelDB \<Rightarrow> int \<Rightarrow> int \<Rightarrow> u64 \<Rightarrow> u32 \<Rightarrow> bool \<Rightarrow> World
     \<Rightarrow> ((graveldb_status + GravelDBCkptExport \<times> GravelDBCkptExport option) \<times> GravelDB \<times> World) option" where
  "graveldb_ckpt_export_begin db ty dim base_gen batch_entries also_full w = do {
     (r, db, w) \<leftarrow> export_begin_one db ty dim base_gen batch_entries w;
     (case r of
        Inl rc \<Rightarrow> Some (Inl rc, db, w)
      | Inr x \<Rightarrow>
          if also_full \<and> ty = GRAVELDB_CKPT_DELTA then do {
            (rf, db, w) \<leftarrow> export_begin_one db GRAVELDB_CKPT_FULL dim 0 (xp_batch_entries x) w;
            (case rf of
               Inl rc \<Rightarrow> Some (Inl rc, db, w)
             | Inr f \<Rightarrow> Some (Inr (x, Some f), db, w))
          } else Some (Inr (x, None), db, w))
   }"

subsection \<open>Steps\<close>

definition export_write_header :: "GravelDBCkptExport \<Rightarrow> DimBin \<Rightarrow> World \<Rightarrow> graveldb_status \<times> GravelDBCkptExport \<times> World" where
  "export_write_header x s w =
     (let hdr = wire_encode_ckpt_export_hdr (replicate WIRE_CKPT_EXPORT_HDR_SIZE 0)
            \<lparr>ex_magic = GRAVELDB_CKPT_EXPORT_MAGIC, ex_version = 1, ex_type = word_of_int (xp_type x) + 1,
             ex_generation = xp_generation x, ex_dim = word_of_int (bn_dim s), ex_entry_size = ucast (bn_entry_size s),
             ex_num_entries = 0, ex_base_gen = xp_base_gen x, ex_checksum = 0\<rparr>;
          (wr, w) = fd_write (xp_dump_path x) hdr w
      in if wr \<noteq> int WIRE_CKPT_EXPORT_HDR_SIZE then (GRAVELDB_ERR_IO, x, w)
         else (GRAVELDB_OK, x\<lparr>xp_dump_size := xp_dump_size x + of_nat WIRE_CKPT_EXPORT_HDR_SIZE, xp_header_written := True\<rparr>, w))"

text \<open>
  The keys from \<open>start\<close> on, as far as the key file goes; the rest of the buffer is cleared. A read that
  fails leaves the bytes of the buffer as they were.
\<close>

definition read_keys :: "GravelDBCkptExport \<Rightarrow> DimBin \<Rightarrow> u32 \<Rightarrow> u32 \<Rightarrow> World \<Rightarrow> GravelDBCkptExport \<times> World" where
  "read_keys x s start cnt w =
     (let key_off = unat start * 8;
          full = unat cnt * 8;
          kfs = unat (bn_key_file_size s);
          len = (if key_off + full > kfs then (if key_off \<ge> kfs then 0 else kfs - key_off) else full);
          buf = (if key_off + full > kfs then put_at (xp_key_batch_buf x) len (replicate (full - len) 0) else xp_key_batch_buf x);
          (r, ctx, bs, w) =
            (if len > 0 then uring_io_submit_read (xp_io_ctx x) (bn_key_file s) len key_off w
             else (0, xp_io_ctx x, None, w))
      in (x\<lparr>xp_key_batch_start := start, xp_key_batch_count := cnt, xp_io_ctx := ctx,
           xp_key_batch_buf := read_into buf bs\<rparr>, w))"

text \<open>The dirty pages of one step: the range of their entries, and the cursor behind them.\<close>

function gather_pages ::
  "GravelDBCkptExport \<Rightarrow> u32 \<Rightarrow> nat \<Rightarrow> u32 \<Rightarrow> u32 \<Rightarrow> u32 \<Rightarrow> nat \<times> u32 \<times> u32" where
  "gather_pages x epp cursor collected range_start range_end =
     (if cursor < length (xp_dirty_pages x) \<and> collected < xp_batch_entries x then
        let base_entry = (xp_dirty_pages x ! cursor) * epp;
            page_end = base_entry + epp;
            page_end = (if page_end > xp_snapshot_bump x then xp_snapshot_bump x else page_end);
            range_start = (if base_entry < range_start then base_entry else range_start);
            range_end = (if page_end > range_end then page_end else range_end);
            collected = collected + (page_end - base_entry)
        in gather_pages x epp (Suc cursor) collected range_start range_end
      else (cursor, range_start, range_end))"
  by pat_completeness auto
termination
  by (relation "measure (\<lambda>(x, e, cursor, c, a, b). length (xp_dirty_pages x) - cursor)") auto

declare gather_pages.simps [simp del]

definition export_idle :: "GravelDBCkptExport \<Rightarrow> DimBin \<Rightarrow> World \<Rightarrow> graveldb_status \<times> GravelDBCkptExport \<times> World" where
  "export_idle x s w =
     (let x = x\<lparr>xp_io_ctx := uring_io_reset (xp_io_ctx x), xp_read_ops := [], xp_ranges := []\<rparr> in
      if xp_type x = GRAVELDB_CKPT_FULL then
        let e = xp_cursor x + xp_batch_entries x;
            e = (if e > xp_snapshot_bump x then xp_snapshot_bump x else e);
            (x, w) = read_keys x s (xp_cursor x) (e - xp_cursor x) w;
            x = x\<lparr>xp_cursor := e, xp_scan_done := (xp_scan_done x \<or> e \<ge> xp_snapshot_bump x),
                  xp_phase := CKPT_EXPORT_PHASE_KEY_READ\<rparr>
        in (GRAVELDB_AGAIN, x, w)
      else
        let (cursor, range_start, range_end) =
              gather_pages x (bn_entries_per_page s) (xp_dirty_page_cursor x) 0 UINT32_MAX 0;
            x = x\<lparr>xp_dirty_page_cursor := cursor\<rparr>
        in if range_start = UINT32_MAX then (GRAVELDB_OK, x\<lparr>xp_scan_done := True\<rparr>, w)
           else
             let cnt = range_end - range_start;
                 cnt = (if cnt > xp_batch_entries x then xp_batch_entries x else cnt);
                 (x, w) = read_keys x s range_start cnt w;
                 x = x\<lparr>xp_scan_done := (xp_scan_done x \<or> cursor \<ge> length (xp_dirty_pages x)),
                       xp_phase := CKPT_EXPORT_PHASE_KEY_READ\<rparr>
             in (GRAVELDB_AGAIN, x, w))"

text \<open>The entries of a batch that are in use, in order, and the merged ranges.\<close>

definition used_keys :: "GravelDBCkptExport \<Rightarrow> (u64 \<times> u32) list" where
  "used_keys x =
     take (unat (xp_batch_entries x))
       (filter (\<lambda>(k, e). k \<noteq> 0)
         (map (\<lambda>i. (wire_get_u64 (xp_key_batch_buf x) (i * 8), xp_key_batch_start x + of_nat i))
           [0..<unat (xp_key_batch_count x)]))"

definition export_ops :: "nat \<Rightarrow> (u64 \<times> u32) list \<Rightarrow> CkptExportReadOp list" where
  "export_ops entry_size ks =
     map (\<lambda>(i, k, e). \<lparr>ro_feat_id = k, ro_entry_idx = e, ro_buf = i * entry_size\<rparr>) (enumerate 0 ks)"

fun extend_ranges :: "CkptCoalescedRange list \<Rightarrow> CkptExportReadOp list \<Rightarrow> CkptCoalescedRange list" where
  "extend_ranges rs [] = rs"
| "extend_ranges rs (op # ops) =
     (let cur = last rs in
      if rs \<noteq> [] \<and> ro_entry_idx op = cr_start_idx cur + cr_count cur
      then extend_ranges (butlast rs @ [cur\<lparr>cr_count := cr_count cur + 1\<rparr>]) ops
      else extend_ranges (rs @ [\<lparr>cr_start_idx = ro_entry_idx op, cr_count = 1, cr_buf = ro_buf op\<rparr>]) ops)"

definition export_build_coalesced_ranges :: "CkptExportReadOp list \<Rightarrow> CkptCoalescedRange list" where
  "export_build_coalesced_ranges ops = extend_ranges [] ops"

fun read_ranges :: "DimBin \<Rightarrow> CkptCoalescedRange list \<Rightarrow> GravelDBCkptExport \<Rightarrow> World \<Rightarrow> GravelDBCkptExport \<times> World" where
  "read_ranges s [] x w = (x, w)"
| "read_ranges s (r # rs) x w =
     (let es = unat (bn_entry_size s);
          (st, ctx, bs, w) = uring_io_submit_read (xp_io_ctx x) (bn_file s) (unat (cr_count r) * es)
            (unat (cr_start_idx r) * es) w;
          pool = (case bs of None \<Rightarrow> xp_read_buf_pool x | Some b \<Rightarrow> put_at (xp_read_buf_pool x) (cr_buf r) b)
      in read_ranges s rs (x\<lparr>xp_io_ctx := ctx, xp_read_buf_pool := pool\<rparr>) w)"

definition export_key_read :: "GravelDBCkptExport \<Rightarrow> DimBin \<Rightarrow> World \<Rightarrow> graveldb_status \<times> GravelDBCkptExport \<times> World" where
  "export_key_read x s w =
     (let (still, ctx) = uring_io_poll (xp_io_ctx x);
          x = x\<lparr>xp_io_ctx := ctx\<rparr>
      in if still > 0 then (GRAVELDB_AGAIN, x, w)
         else
           let ops = export_ops (unat (bn_entry_size s)) (used_keys x);
               x = x\<lparr>xp_read_ops := ops\<rparr>
           in if ops = [] then
                (if xp_scan_done x then GRAVELDB_OK else GRAVELDB_AGAIN, x\<lparr>xp_phase := CKPT_EXPORT_PHASE_IDLE\<rparr>, w)
              else
                let ranges = export_build_coalesced_ranges ops;
                    (x, w) = read_ranges s ranges (x\<lparr>xp_ranges := ranges, xp_io_ctx := uring_io_reset (xp_io_ctx x)\<rparr>) w
                in (GRAVELDB_AGAIN, x\<lparr>xp_phase := CKPT_EXPORT_PHASE_EMB_READ\<rparr>, w))"

definition export_emb_read :: "GravelDBCkptExport \<Rightarrow> graveldb_status \<times> GravelDBCkptExport" where
  "export_emb_read x =
     (let (still, ctx) = uring_io_poll (xp_io_ctx x); x = x\<lparr>xp_io_ctx := ctx\<rparr>
      in if still > 0 then (GRAVELDB_AGAIN, x) else (GRAVELDB_AGAIN, x\<lparr>xp_phase := CKPT_EXPORT_PHASE_OUTPUT\<rparr>))"

fun output_ops ::
  "nat \<Rightarrow> CkptExportReadOp list \<Rightarrow> GravelDBCkptExport \<Rightarrow> World \<Rightarrow> graveldb_status \<times> GravelDBCkptExport \<times> World" where
  "output_ops es [] x w = (GRAVELDB_OK, x, w)"
| "output_ops es (op # ops) x w =
     (let (w1, w) = fd_write (xp_dump_path x) (u64_bytes (ro_feat_id op)) w in
      if w1 \<noteq> 8 then (GRAVELDB_ERR_IO, x, w)
      else
        let (w2, w) = fd_write (xp_dump_path x) (take es (drop (ro_buf op) (xp_read_buf_pool x))) w in
        if w2 \<noteq> int es then (GRAVELDB_ERR_IO, x, w)
        else output_ops es ops (x\<lparr>xp_dump_size := xp_dump_size x + 8 + of_nat es, xp_num_entries := xp_num_entries x + 1\<rparr>) w)"

definition export_output :: "GravelDBCkptExport \<Rightarrow> DimBin \<Rightarrow> World \<Rightarrow> graveldb_status \<times> GravelDBCkptExport \<times> World" where
  "export_output x s w =
     (let (rc, x, w) = output_ops (unat (bn_entry_size s)) (xp_read_ops x) x w in
      if rc \<noteq> GRAVELDB_OK then (rc, x, w)
      else (if xp_scan_done x then GRAVELDB_OK else GRAVELDB_AGAIN,
            x\<lparr>xp_read_ops := [], xp_ranges := [], xp_phase := CKPT_EXPORT_PHASE_IDLE\<rparr>, w))"

definition export_step_single ::
  "GravelDB \<Rightarrow> GravelDBCkptExport \<Rightarrow> World \<Rightarrow> (graveldb_status \<times> GravelDBCkptExport \<times> World) option" where
  "export_step_single db x w = do {
     s \<leftarrow> db_bins db (xp_bin x);
     if xp_scan_done x \<and> xp_phase x = CKPT_EXPORT_PHASE_IDLE then Some (GRAVELDB_OK, x, w)
     else do {
       let (rc, x, w) = (if xp_header_written x then (GRAVELDB_OK, x, w) else export_write_header x s w);
       if rc \<noteq> GRAVELDB_OK then Some (rc, x, w)
       else
         Some (case xp_phase x of
                 CKPT_EXPORT_PHASE_IDLE \<Rightarrow> export_idle x s w
               | CKPT_EXPORT_PHASE_KEY_READ \<Rightarrow> export_key_read x s w
               | CKPT_EXPORT_PHASE_EMB_READ \<Rightarrow> (let (rc, x) = export_emb_read x in (rc, x, w))
               | CKPT_EXPORT_PHASE_OUTPUT \<Rightarrow> export_output x s w)
     }
   }"

text \<open>The error codes are the negative ones.\<close>

definition is_error :: "graveldb_status \<Rightarrow> bool" where
  "is_error rc \<longleftrightarrow> rc \<notin> {GRAVELDB_OK, GRAVELDB_AGAIN, GRAVELDB_FLUSH_NEEDED}"

definition graveldb_ckpt_export_step ::
  "GravelDB \<Rightarrow> GravelDBCkptExport \<times> GravelDBCkptExport option \<Rightarrow> World
     \<Rightarrow> (graveldb_status \<times> (GravelDBCkptExport \<times> GravelDBCkptExport option) \<times> World) option" where
  "graveldb_ckpt_export_step db xf w = do {
     let (x, full) = xf;
     (rc, x, w) \<leftarrow> export_step_single db x w;
     if is_error rc then Some (rc, (x, full), w)
     else
       (case full of
          None \<Rightarrow> Some (rc, (x, full), w)
        | Some f \<Rightarrow> do {
            (rc_full, f, w) \<leftarrow> export_step_single db f w;
            if is_error rc_full then Some (rc_full, (x, Some f), w)
            else Some (if rc = GRAVELDB_OK \<and> rc_full = GRAVELDB_OK then GRAVELDB_OK else GRAVELDB_AGAIN, (x, Some f), w)
          })
   }"

definition graveldb_ckpt_export_poll ::
  "GravelDB \<Rightarrow> GravelDBCkptExport \<times> GravelDBCkptExport option \<Rightarrow> World
     \<Rightarrow> (graveldb_status \<times> (GravelDBCkptExport \<times> GravelDBCkptExport option) \<times> World) option" where
  "graveldb_ckpt_export_poll db xf w = graveldb_ckpt_export_step db xf w"

subsection \<open>Ending an export\<close>

definition export_end_one :: "GravelDBCkptExport \<Rightarrow> World \<Rightarrow> graveldb_status \<times> GravelDBCkptExport \<times> World" where
  "export_end_one x w =
     (let (wr, w) = fd_write (xp_dump_path x) (u32_bytes GRAVELDB_CKPT_EXPORT_MAGIC @ u64_bytes (xp_num_entries x)) w;
          w = snd (ask w)
      in (if wr = 12 then GRAVELDB_OK else GRAVELDB_ERR_IO,
          x\<lparr>xp_dump_size := xp_dump_size x + 12, xp_dirty_pages := [], xp_ranges := [], xp_read_ops := [],
            xp_read_buf_pool := [], xp_key_batch_buf := [], xp_io_ctx := uring_io_destroy (xp_io_ctx x)\<rparr>, w))"

definition graveldb_ckpt_export_end ::
  "GravelDBCkptExport \<times> GravelDBCkptExport option \<Rightarrow> World
     \<Rightarrow> graveldb_status \<times> (GravelDBCkptExport \<times> GravelDBCkptExport option) \<times> World" where
  "graveldb_ckpt_export_end xf w =
     (let (x, full) = xf; (rc, x, w) = export_end_one x w in
      case full of
        None \<Rightarrow> (rc, (x, None), w)
      | Some f \<Rightarrow>
          let (rc_full, f, w) = export_end_one f w in
          (if rc = GRAVELDB_OK then rc_full else rc, (x, Some f), w))"

definition graveldb_ckpt_export_path :: "GravelDBCkptExport \<times> GravelDBCkptExport option \<Rightarrow> string" where
  "graveldb_ckpt_export_path xf = xp_dump_path (fst xf)"

definition graveldb_ckpt_export_full_path :: "GravelDBCkptExport \<times> GravelDBCkptExport option \<Rightarrow> string option" where
  "graveldb_ckpt_export_full_path xf = map_option xp_dump_path (snd xf)"

definition graveldb_ckpt_export_size :: "GravelDBCkptExport \<times> GravelDBCkptExport option \<Rightarrow> u64" where
  "graveldb_ckpt_export_size xf = xp_dump_size (fst xf)"

text \<open>
  \<^verbatim>\<open>graveldb_ckpt_export_read\<close> reads through the descriptor of the dump, which is open for writing only,
  so \<^verbatim>\<open>pread\<close> fails and the result is always -1.
\<close>

definition graveldb_ckpt_export_read :: "GravelDBCkptExport \<Rightarrow> nat \<Rightarrow> int" where
  "graveldb_ckpt_export_read x len = - 1"

definition graveldb_ckpt_export_read_reset :: "GravelDBCkptExport \<Rightarrow> GravelDBCkptExport" where
  "graveldb_ckpt_export_read_reset x = x\<lparr>xp_read_cursor := 0\<rparr>"

end
