(* ===== verification/Ckpt_Import.thy ===== *)
theory Ckpt_Import
  imports Ckpt_Export
begin

text \<open>
  Reading dumps, in \<^verbatim>\<open>src/checkpoint.c\<close>: the import into a store, in steps of bounded work, and the
  stand-alone parser that hands the entries to a callback.
\<close>

subsection \<open>Import\<close>

definition CKPT_IMPORT_BATCH :: nat where
  "CKPT_IMPORT_BATCH = 256"

text \<open>The descriptor of the dump is its contents with a position.\<close>

record GravelDBCkptImport =
  im_bin :: nat
  im_file :: bytes
  im_pos :: nat
  im_header_read :: bool
  im_done :: bool
  im_dim :: u32
  im_entry_size :: u32
  im_generation :: u64
  im_io_ctx :: uring_io_ctx
  im_pending_writes :: nat

definition graveldb_ckpt_import_begin ::
  "GravelDB \<Rightarrow> int \<Rightarrow> string \<Rightarrow> World \<Rightarrow> ((graveldb_status + GravelDBCkptImport) \<times> GravelDB \<times> World) option" where
  "graveldb_ckpt_import_begin db dim path w = do {
     (dim_idx, reg) \<leftarrow> dim_registry_find (db_dim_reg db) dim;
     let db = db\<lparr>db_dim_reg := reg\<rparr>;
     if dim_idx < 0 then Some (Inl GRAVELDB_ERR_NOT_FOUND, db, w)
     else do {
       (p, s) \<leftarrow> get_bin db (word_of_int dim_idx);
       let (ok, w) = ask w;
       if \<not> ok then Some (Inl GRAVELDB_ERR_OOM, db, w)
       else
         (case open_rdonly path w of
            (None, w) \<Rightarrow> Some (Inl GRAVELDB_ERR_IO, db, w)
          | (Some f, w) \<Rightarrow> do {
              let (r, ctx) = uring_io_init w;
              let ctx = (if r \<noteq> 0 then ctx\<lparr>uc_initialized := False\<rparr> else ctx);
              let (ok, w) = ask w;
              if \<not> ok then Some (Inl GRAVELDB_ERR_OOM, db, w)
              else Some (Inr \<lparr>im_bin = p, im_file = f, im_pos = 0, im_header_read = False, im_done = False,
                im_dim = word_of_int dim, im_entry_size = ucast (bn_entry_size s), im_generation = 0,
                im_io_ctx = ctx, im_pending_writes = 0\<rparr>, db, w)
            })
     }
   }"

definition import_header ::
  "GravelDBCkptImport \<Rightarrow> DimBin \<Rightarrow> World \<Rightarrow> graveldb_status \<times> GravelDBCkptImport \<times> World" where
  "import_header im s w =
     (let (r, pos, w) = fd_read (im_file im) (im_pos im) WIRE_CKPT_EXPORT_HDR_SIZE w;
          im = im\<lparr>im_pos := pos\<rparr>
      in if r = None \<or> length (the r) \<noteq> WIRE_CKPT_EXPORT_HDR_SIZE then (GRAVELDB_ERR_CORRUPT, im, w)
         else
           let h = wire_decode_ckpt_export_hdr (the r) in
           if ex_magic h \<noteq> GRAVELDB_CKPT_EXPORT_MAGIC \<or> ex_version h \<noteq> 1 then (GRAVELDB_ERR_CORRUPT, im, w)
           else if sint (ex_dim h) \<noteq> bn_dim s \<or> ex_entry_size h \<noteq> ucast (bn_entry_size s)
           then (GRAVELDB_ERR_INVALID, im, w)
           else (GRAVELDB_OK, im\<lparr>im_generation := ex_generation h, im_header_read := True\<rparr>, w))"

text \<open>
  One entry. The first component of the result tells how the loop goes on: \<open>None\<close> to continue. A word
  equal to the magic of the trailer ends the import, also when it is the lower half of a feature.
\<close>

definition import_entry ::
  "GravelDBCkptImport \<Rightarrow> GravelDB \<Rightarrow> World \<Rightarrow> (graveldb_status option \<times> GravelDBCkptImport \<times> GravelDB \<times> World) option" where
  "import_entry im db w = do {
     let (r1, pos, w) = fd_read (im_file im) (im_pos im) 8 w;
     let im = im\<lparr>im_pos := pos\<rparr>;
     let stop = im\<lparr>im_done := True\<rparr>;
     if r1 = None \<or> length (the r1) < 8 then Some (Some GRAVELDB_OK, stop, db, w)
     else if wire_get_u32 (the r1) 0 = GRAVELDB_CKPT_EXPORT_MAGIC then
       (let (r, pos, w) = fd_read (im_file im) (im_pos im) 4 w
        in Some (Some GRAVELDB_OK, stop\<lparr>im_pos := pos\<rparr>, db, w))
     else do {
       let feat_id = wire_get_u64 (the r1) 0;
       let es = unat (im_entry_size im);
       let (r2, pos, w) = fd_read (im_file im) (im_pos im) es w;
       let im = im\<lparr>im_pos := pos\<rparr>;
       if r2 = None \<or> length (the r2) \<noteq> es then Some (Some GRAVELDB_OK, im\<lparr>im_done := True\<rparr>, db, w)
       else do {
         s \<leftarrow> db_bins db (im_bin im);
         let (entry_idx, s, w) = dimbin_alloc_entry s w;
         if entry_idx = UINT32_MAX then Some (Some GRAVELDB_ERR_FULL, im, set_bin (im_bin im) s db, w)
         else do {
           let (wr, ctx, f, w) = uring_io_submit_write (im_io_ctx im) (bn_fd s) (bn_file s) (the r2) (unat entry_idx * es) w;
           let (kwr, kf, w) = pwrite (bn_key_file s) (unat entry_idx * 8) (u64_bytes feat_id) w;
           let db = set_bin (im_bin im) (s\<lparr>bn_file := f, bn_key_file := kf\<rparr>) db;
           (dim_idx, reg) \<leftarrow> dim_registry_find (db_dim_reg db) (bn_dim s);
           let db = db\<lparr>db_dim_reg := reg\<rparr>;
           let im = im\<lparr>im_io_ctx := ctx, im_pending_writes := Suc (im_pending_writes im)\<rparr>;
           (if dim_idx \<ge> 0 then do {
              let (ok, w) = ask w;
              (st, idx) \<leftarrow> hash_index_put ok (db_index db) feat_id (word_of_int dim_idx) entry_idx;
              Some (None, im, db\<lparr>db_index := idx\<rparr>, w)
            } else Some (None, im, db, w))
         }
       }
     }
   }"

fun import_loop ::
  "nat \<Rightarrow> GravelDBCkptImport \<Rightarrow> GravelDB \<Rightarrow> World \<Rightarrow> (graveldb_status \<times> GravelDBCkptImport \<times> GravelDB \<times> World) option" where
  "import_loop 0 im db w = Some (GRAVELDB_OK, im, db, w)"
| "import_loop (Suc n) im db w = do {
     (r, im, db, w) \<leftarrow> import_entry im db w;
     (case r of
        None \<Rightarrow> import_loop n im db w
      | Some rc \<Rightarrow> Some (rc, im, db, w))
   }"

definition graveldb_ckpt_import_step ::
  "GravelDBCkptImport \<Rightarrow> GravelDB \<Rightarrow> World \<Rightarrow> (graveldb_status \<times> GravelDBCkptImport \<times> GravelDB \<times> World) option" where
  "graveldb_ckpt_import_step im db w =
     (if im_done im then Some (GRAVELDB_OK, im, db, w)
      else do {
        s \<leftarrow> db_bins db (im_bin im);
        let (rc, im, w) = (if im_header_read im then (GRAVELDB_OK, im, w) else import_header im s w);
        if rc \<noteq> GRAVELDB_OK then Some (rc, im, db, w)
        else do {
          (rc, im, db, w) \<leftarrow> import_loop CKPT_IMPORT_BATCH
            (im\<lparr>im_io_ctx := uring_io_reset (im_io_ctx im), im_pending_writes := 0\<rparr>) db w;
          if rc \<noteq> GRAVELDB_OK then Some (rc, im, db, w)
          else
            let w = (if im_pending_writes im > 0 then snd (uring_io_submit_fsyncs (im_io_ctx im) w) else w)
            in Some (if im_done im then GRAVELDB_OK else GRAVELDB_AGAIN, im, db, w)
        }
      })"

definition graveldb_ckpt_import_poll :: "GravelDBCkptImport \<Rightarrow> graveldb_status \<times> GravelDBCkptImport" where
  "graveldb_ckpt_import_poll im =
     (if im_pending_writes im = 0 then (GRAVELDB_OK, im)
      else
        let (still_pending, ctx) = uring_io_poll (im_io_ctx im); im = im\<lparr>im_io_ctx := ctx\<rparr>
        in if still_pending > 0 then (GRAVELDB_AGAIN, im)
           else if uc_errors ctx > 0 then (GRAVELDB_ERR_IO, im)
           else (GRAVELDB_OK, im\<lparr>im_pending_writes := 0\<rparr>))"

subsection \<open>Parser\<close>

record GravelDBCkptEntry =
  ce_feat_id :: u64
  ce_embedding :: bytes
  ce_dim :: u32

record GravelDBCkptDumpHeader =
  dp_generation :: u64
  dp_base_gen :: u64
  dp_num_entries :: u64
  dp_dim :: u32
  dp_entry_size :: u32
  dp_type :: int

text \<open>
  The callback is a function on the caller's state; a nonzero result ends the parse and becomes the
  result, here as \<open>Inr\<close>.
\<close>

type_synonym 'c emit_fn = "'c \<Rightarrow> GravelDBCkptEntry \<Rightarrow> int \<times> 'c"

lemma fd_read_advance:
  assumes "fd_read f pos n w = (Some bs, pos', w')"
  shows "pos' = pos + length bs \<and> length bs \<le> n \<and> length bs \<le> length f - pos"
  using assms by (auto simp: fd_read_def pread_def ask_def file_read_def Let_def split: if_splits)

function parse_loop ::
  "u32 \<Rightarrow> u32 \<Rightarrow> 'c emit_fn \<Rightarrow> bytes \<Rightarrow> nat \<Rightarrow> 'c \<Rightarrow> World \<Rightarrow> (graveldb_status + int) \<times> 'c \<times> World" where
  "parse_loop dim es emit f pos c w =
     (case fd_read f pos 8 w of (r1, pos1, w) \<Rightarrow>
        if r1 = None \<or> length (the r1) < 8 then
          (if r1 = Some [] then Inl GRAVELDB_OK else Inl GRAVELDB_ERR_CORRUPT, c, w)
        else if wire_get_u32 (the r1) 0 = GRAVELDB_CKPT_EXPORT_MAGIC then (Inl GRAVELDB_OK, c, w)
        else
          case fd_read f pos1 (unat es) w of (r2, pos2, w) \<Rightarrow>
            if r2 = None \<or> length (the r2) \<noteq> unat es then (Inl GRAVELDB_ERR_CORRUPT, c, w)
            else
              case emit c \<lparr>ce_feat_id = wire_get_u64 (the r1) 0, ce_embedding = the r2, ce_dim = dim\<rparr> of (cb, c) \<Rightarrow>
                if cb \<noteq> 0 then (Inr cb, c, w) else parse_loop dim es emit f pos2 c w)"
  by pat_completeness auto
termination
  by (relation "measure (\<lambda>(dim, es, emit, f, pos, c, w). length f - pos)") (auto dest!: fd_read_advance sym [of "(_, _, _)"])

declare parse_loop.simps [simp del]

definition graveldb_ckpt_parse ::
  "string \<Rightarrow> 'c emit_fn \<Rightarrow> 'c \<Rightarrow> World \<Rightarrow> (graveldb_status + int) \<times> GravelDBCkptDumpHeader option \<times> 'c \<times> World" where
  "graveldb_ckpt_parse path emit c w =
     (case open_rdonly path w of
        (None, w) \<Rightarrow> (Inl GRAVELDB_ERR_IO, None, c, w)
      | (Some f, w) \<Rightarrow>
          let (r, pos, w) = fd_read f 0 WIRE_CKPT_EXPORT_HDR_SIZE w in
          if r = None \<or> length (the r) \<noteq> WIRE_CKPT_EXPORT_HDR_SIZE then (Inl GRAVELDB_ERR_CORRUPT, None, c, w)
          else
            let h = wire_decode_ckpt_export_hdr (the r) in
            if ex_magic h \<noteq> GRAVELDB_CKPT_EXPORT_MAGIC \<or> ex_version h \<noteq> 1 then (Inl GRAVELDB_ERR_CORRUPT, None, c, w)
            else
              let hdr = \<lparr>dp_generation = ex_generation h, dp_base_gen = ex_base_gen h, dp_num_entries = ex_num_entries h,
                    dp_dim = ex_dim h, dp_entry_size = ex_entry_size h, dp_type = sint (ex_type h) - 1\<rparr>;
                  (ok, w) = ask w
              in if \<not> ok then (Inl GRAVELDB_ERR_OOM, Some hdr, c, w)
                 else
                   let (r, c, w) = parse_loop (ex_dim h) (ex_entry_size h) emit f pos c w
                   in (r, Some hdr, c, w))"

end
