(* ===== verification/Net_Arena.thy ===== *)
theory Net_Arena
  imports Bin_Init
begin

text \<open>
  The request arena of \<^verbatim>\<open>example/server/server.c\<close>: a block inside the connection and, when a request needs
  more, blocks from the heap. A pointer into the arena is the number of its block, 0 for the block
  inside the connection, and the offset in it. The overflow blocks are a linked list to which blocks
  are added at the head, so the current block is the first of the list, or the inline block when the
  list is empty.
\<close>

definition ARENA_INLINE_SIZE :: u64 where
  "ARENA_INLINE_SIZE = 64 * 1024"

record ArenaBlock =
  ab_cap :: u64
  ab_used :: u64

record ReqArena =
  ra_first :: ArenaBlock
  ra_overflow :: "ArenaBlock list"
  ra_total_alloc :: u64

type_synonym arena_ptr = "nat \<times> u64"

definition arena_init :: ReqArena where
  "arena_init = \<lparr>ra_first = \<lparr>ab_cap = ARENA_INLINE_SIZE, ab_used = 0\<rparr>, ra_overflow = [], ra_total_alloc = 0\<rparr>"

definition arena_reset :: "ReqArena \<Rightarrow> ReqArena" where
  "arena_reset a = a\<lparr>ra_overflow := [], ra_first := (ra_first a)\<lparr>ab_used := 0\<rparr>, ra_total_alloc := 0\<rparr>"

definition arena_destroy :: "ReqArena \<Rightarrow> ReqArena" where
  "arena_destroy a = arena_reset a"

definition arena_current :: "ReqArena \<Rightarrow> ArenaBlock" where
  "arena_current a = (case ra_overflow a of [] \<Rightarrow> ra_first a | blk # blks \<Rightarrow> blk)"

definition set_current :: "ArenaBlock \<Rightarrow> ReqArena \<Rightarrow> ReqArena" where
  "set_current blk a =
     (case ra_overflow a of [] \<Rightarrow> a\<lparr>ra_first := blk\<rparr> | _ # blks \<Rightarrow> a\<lparr>ra_overflow := blk # blks\<rparr>)"

definition arena_align :: "u64 \<Rightarrow> u64" where
  "arena_align sz = (sz + 7) AND NOT 7"

definition arena_alloc :: "ReqArena \<Rightarrow> u64 \<Rightarrow> World \<Rightarrow> arena_ptr option \<times> ReqArena \<times> World" where
  "arena_alloc a sz w =
     (let sz = arena_align sz; blk = arena_current a in
      if ab_used blk + sz \<le> ab_cap blk then
        (Some (length (ra_overflow a), ab_used blk),
         (set_current (blk\<lparr>ab_used := ab_used blk + sz\<rparr>) a)\<lparr>ra_total_alloc := ra_total_alloc a + sz\<rparr>, w)
      else
        let new_cap = ab_cap blk * 2;
            new_cap = (if new_cap < sz then sz else new_cap);
            (ok, w) = ask w
        in if \<not> ok then (None, a, w)
           else
             let (ok, w) = ask w in
             if \<not> ok then (None, a, w)
             else
               (Some (Suc (length (ra_overflow a)), 0),
                a\<lparr>ra_overflow := \<lparr>ab_cap = new_cap, ab_used = sz\<rparr> # ra_overflow a,
                  ra_total_alloc := ra_total_alloc a + sz\<rparr>, w))"

text \<open>The allocations of a request, in order.\<close>

fun arena_allocs :: "ReqArena \<Rightarrow> u64 list \<Rightarrow> World \<Rightarrow> arena_ptr option list \<times> ReqArena \<times> World" where
  "arena_allocs a [] w = ([], a, w)"
| "arena_allocs a (sz # szs) w =
     (let (p, a, w) = arena_alloc a sz w; (ps, a, w) = arena_allocs a szs w in (p # ps, a, w))"

subsection \<open>Blocks never overlap\<close>

definition arena_block :: "ReqArena \<Rightarrow> nat \<Rightarrow> ArenaBlock" where
  "arena_block a b = (if b = 0 then ra_first a else rev (ra_overflow a) ! (b - 1))"

definition block_ok :: "ArenaBlock \<Rightarrow> bool" where
  "block_ok blk \<longleftrightarrow> unat (ab_used blk) \<le> unat (ab_cap blk) \<and> unat (ab_cap blk) < 2 ^ 63 \<and> 8 dvd unat (ab_used blk)"

definition arena_ok :: "ReqArena \<Rightarrow> bool" where
  "arena_ok a \<longleftrightarrow> block_ok (ra_first a) \<and> (\<forall>blk \<in> set (ra_overflow a). block_ok blk)"

lemma arena_current_block: "arena_current a = arena_block a (length (ra_overflow a))"
  by (auto simp: arena_current_def arena_block_def nth_append split: list.splits)

lemma arena_ok_current: "arena_ok a \<Longrightarrow> block_ok (arena_current a)"
  by (auto simp: arena_ok_def arena_current_def split: list.splits)

lemma align8:
  assumes "unat sz \<le> 2 ^ 62"
  shows "8 dvd unat (arena_align sz)" "unat sz \<le> unat (arena_align sz)" "unat (arena_align sz) \<le> unat sz + 7"
proof -
  let ?x = "sz + 7"
  have s: "unat ?x = unat sz + 7"
    using assms by (simp add: unat_word_ariths)
  have "?x AND 7 = take_bit 3 ?x"
    by (simp add: take_bit_eq_mask mask_eq_exp_minus_1)
  then have m: "unat (?x AND 7) = unat ?x mod 8"
    by (simp add: take_bit_eq_mod unat_mod)
  have "arena_align sz = ?x - (?x AND 7)"
    using disjunctive_diff [of "?x AND 7" ?x] by (auto simp: arena_align_def bit_eq_iff bit_simps simp del: not_numeral_eq)
  moreover have "unat (?x - (?x AND 7)) = unat ?x - unat (?x AND 7)"
    using word_and_le2 [of ?x 7] by (simp add: unat_sub and.commute)
  ultimately have "unat (arena_align sz) = unat sz + 7 - (unat sz + 7) mod 8"
    by (simp only: m s)
  then show "8 dvd unat (arena_align sz)" "unat sz \<le> unat (arena_align sz)" "unat (arena_align sz) \<le> unat sz + 7"
    by (simp_all add: dvd_minus_mod)
qed

text \<open>\<^verbatim>\<open>malloc\<close> never gives an object larger than \<^verbatim>\<open>PTRDIFF_MAX\<close>.\<close>

definition small_blocks :: "ReqArena \<Rightarrow> bool" where
  "small_blocks a \<longleftrightarrow> (\<forall>cap \<in> ab_cap ` set (ra_overflow a). unat cap < 2 ^ 63)"

lemma arena_alloc_caps: "arena_alloc a sz w = (p, a', w') \<Longrightarrow> ab_cap ` set (ra_overflow a) \<subseteq> ab_cap ` set (ra_overflow a')"
  by (auto simp: arena_alloc_def set_current_def arena_current_def Let_def split_beta split: if_split_asm list.splits)

lemma arena_allocs_caps: "arena_allocs a szs w = (ps, a', w') \<Longrightarrow> ab_cap ` set (ra_overflow a) \<subseteq> ab_cap ` set (ra_overflow a')"
proof (induction szs arbitrary: a w ps)
  case (Cons sz szs)
  then obtain p a1 w1 ps1 where s: "arena_alloc a sz w = (p, a1, w1)" "arena_allocs a1 szs w1 = (ps1, a', w')"
    by (auto split: prod.splits)
  show ?case
    using arena_alloc_caps [OF s(1)] Cons.IH [OF s(2)] by (rule subset_trans)
qed simp

lemma arena_allocs_small: "arena_allocs a szs w = (ps, a', w') \<Longrightarrow> small_blocks a' \<Longrightarrow> small_blocks a"
  using arena_allocs_caps by (fastforce simp: small_blocks_def)

text \<open>One allocation: the place it gets, and what it leaves of the other blocks.\<close>

lemma arena_alloc_step:
  assumes "arena_ok a" and "unat sz \<le> 2 ^ 62" and "arena_alloc a sz w = (p, a', w')" and "small_blocks a'"
  shows "arena_ok a'" "length (ra_overflow a) \<le> length (ra_overflow a')"
    and "\<And>b. b \<le> length (ra_overflow a) \<Longrightarrow>
      ab_cap (arena_block a' b) = ab_cap (arena_block a b) \<and> unat (ab_used (arena_block a b)) \<le> unat (ab_used (arena_block a' b))"
    and "\<And>b off. p = Some (b, off) \<Longrightarrow> b = length (ra_overflow a') \<and> 8 dvd unat off \<and>
      unat off + unat sz \<le> unat (ab_used (arena_block a' b)) \<and>
      (b = length (ra_overflow a) \<longrightarrow> unat (ab_used (arena_block a b)) \<le> unat off)"
proof -
  let ?sz = "arena_align sz" and ?blk = "arena_current a" and ?n = "length (ra_overflow a)"
  note sz = align8 [OF assms(2)]
  have blk: "block_ok ?blk"
    by (rule arena_ok_current [OF assms(1)])
  have fits: "unat (ab_used ?blk + ?sz) = unat (ab_used ?blk) + unat ?sz"
    using blk sz(3) assms(2) by (simp add: block_ok_def unat_word_ariths)
  consider (here) "ab_used ?blk + ?sz \<le> ab_cap ?blk" "p = Some (?n, ab_used ?blk)"
      "a' = (set_current (?blk\<lparr>ab_used := ab_used ?blk + ?sz\<rparr>) a)\<lparr>ra_total_alloc := ra_total_alloc a + ?sz\<rparr>"
    | (full) "p = None" "a' = a"
    | (new) cap where "unat ?sz \<le> unat cap" "p = Some (Suc ?n, 0)"
      "a' = a\<lparr>ra_overflow := \<lparr>ab_cap = cap, ab_used = ?sz\<rparr> # ra_overflow a, ra_total_alloc := ra_total_alloc a + ?sz\<rparr>"
  proof (cases "ab_used ?blk + ?sz \<le> ab_cap ?blk")
    case True
    then show ?thesis
      using assms(3) here by (simp add: arena_alloc_def Let_def)
  next
    case False
    define cap where "cap = (if ab_cap ?blk * 2 < ?sz then ?sz else ab_cap ?blk * 2)"
    have "unat ?sz \<le> unat cap"
      by (simp add: cap_def word_less_nat_alt not_less)
    moreover have "p = None \<and> a' = a \<or> p = Some (Suc ?n, 0) \<and>
        a' = a\<lparr>ra_overflow := \<lparr>ab_cap = cap, ab_used = ?sz\<rparr> # ra_overflow a, ra_total_alloc := ra_total_alloc a + ?sz\<rparr>"
      using assms(3) False unfolding arena_alloc_def Let_def cap_def [symmetric] split_beta
      by (simp split: if_split_asm)
    ultimately show ?thesis
      using full new by blast
  qed
  then have "arena_ok a' \<and> ?n \<le> length (ra_overflow a') \<and> (\<forall>b \<le> ?n. ab_cap (arena_block a' b) = ab_cap (arena_block a b) \<and>
      unat (ab_used (arena_block a b)) \<le> unat (ab_used (arena_block a' b))) \<and>
    (\<forall>b off. p = Some (b, off) \<longrightarrow> b = length (ra_overflow a') \<and> 8 dvd unat off \<and>
      unat off + unat sz \<le> unat (ab_used (arena_block a' b)) \<and>
      (b = ?n \<longrightarrow> unat (ab_used (arena_block a b)) \<le> unat off))"
  proof cases
    case here
    have ok: "block_ok (?blk\<lparr>ab_used := ab_used ?blk + ?sz\<rparr>)"
      using blk here(1) sz(1) fits by (simp add: block_ok_def word_le_nat_alt)
    show ?thesis
    proof (cases "ra_overflow a")
      case Nil
      then show ?thesis
        using here ok blk assms(1) fits sz(2)
        by (simp add: set_current_def arena_current_def arena_ok_def arena_block_def block_ok_def)
    next
      case (Cons blk' blks)
      then show ?thesis
        using here ok blk assms(1) fits sz(2)
        by (auto simp: set_current_def arena_current_def arena_ok_def arena_block_def block_ok_def nth_append)
    qed
  next
    case full
    then show ?thesis
      using assms(1) by simp
  next
    case new
    then show ?thesis
      using assms(1,4) sz by (auto simp: arena_ok_def arena_block_def block_ok_def small_blocks_def nth_append)
  qed
  then show "arena_ok a'" "?n \<le> length (ra_overflow a')"
    and "\<And>b. b \<le> ?n \<Longrightarrow> ab_cap (arena_block a' b) = ab_cap (arena_block a b) \<and>
      unat (ab_used (arena_block a b)) \<le> unat (ab_used (arena_block a' b))"
    and "\<And>b off. p = Some (b, off) \<Longrightarrow> b = length (ra_overflow a') \<and> 8 dvd unat off \<and>
      unat off + unat sz \<le> unat (ab_used (arena_block a' b)) \<and> (b = ?n \<longrightarrow> unat (ab_used (arena_block a b)) \<le> unat off)"
    by blast+
qed

text \<open>The place of every allocation ends at or below what is in use of its block.\<close>

lemma arena_allocs_ok:
  assumes "arena_ok a" and "\<forall>sz \<in> set szs. unat sz \<le> 2 ^ 62" and "arena_allocs a szs w = (ps, a', w')" and "small_blocks a'"
  shows "arena_ok a' \<and> length (ra_overflow a) \<le> length (ra_overflow a') \<and>
    (\<forall>b \<le> length (ra_overflow a). unat (ab_used (arena_block a b)) \<le> unat (ab_used (arena_block a' b)))"
  using assms
proof (induction szs arbitrary: a w ps)
  case (Cons sz szs)
  obtain p a1 w1 ps1 where s: "arena_alloc a sz w = (p, a1, w1)" "arena_allocs a1 szs w1 = (ps1, a', w')"
    using Cons.prems(3) by (auto split: prod.splits)
  have sz: "unat sz \<le> 2 ^ 62" "\<forall>sz \<in> set szs. unat sz \<le> 2 ^ 62"
    using Cons.prems(2) by simp_all
  note st = arena_alloc_step [OF Cons.prems(1) sz(1) s(1) arena_allocs_small [OF s(2) Cons.prems(4)]]
  show ?case
    using st(2,3) Cons.IH [OF st(1) sz(2) s(2) Cons.prems(4)] by (meson le_trans)
qed auto

lemma arena_block_ok: "arena_ok a \<Longrightarrow> b \<le> length (ra_overflow a) \<Longrightarrow> block_ok (arena_block a b)"
  using nth_mem [of "b - 1" "rev (ra_overflow a)"] by (auto simp: arena_ok_def arena_block_def)

lemma arena_allocs_place:
  assumes "arena_ok a" and "\<forall>sz \<in> set szs. unat sz \<le> 2 ^ 62" and "arena_allocs a szs w = (ps, a', w')" and "small_blocks a'"
    and "i < length szs" and "ps ! i = Some (b, off)"
  shows "8 dvd unat off \<and> length (ra_overflow a) \<le> b \<and> b \<le> length (ra_overflow a') \<and>
    unat off + unat (szs ! i) \<le> unat (ab_used (arena_block a' b)) \<and>
    (b = length (ra_overflow a) \<longrightarrow> unat (ab_used (arena_block a b)) \<le> unat off)"
  using assms
proof (induction szs arbitrary: a w ps i)
  case (Cons sz szs)
  obtain p a1 w1 ps1 where s: "arena_alloc a sz w = (p, a1, w1)" "arena_allocs a1 szs w1 = (ps1, a', w')" "ps = p # ps1"
    using Cons.prems(3) by (auto split: prod.splits)
  have sz: "unat sz \<le> 2 ^ 62" "\<forall>sz \<in> set szs. unat sz \<le> 2 ^ 62"
    using Cons.prems(2) by simp_all
  note st = arena_alloc_step [OF Cons.prems(1) sz(1) s(1) arena_allocs_small [OF s(2) Cons.prems(4)]]
  note rest = arena_allocs_ok [OF st(1) sz(2) s(2) Cons.prems(4)]
  show ?case
  proof (cases i)
    case 0
    then have "p = Some (b, off)"
      using Cons.prems(6) s(3) by simp
    then show ?thesis
      using st(2) st(4) [of b off] rest 0 by fastforce
  next
    case (Suc k)
    then show ?thesis
      using Cons.IH [OF st(1) sz(2) s(2) Cons.prems(4), of k] Cons.prems(5,6) s(3) st(2) st(3) [of b] by fastforce
  qed
qed simp

text \<open>
  C37. The places that the arena hands out during a request lie inside their blocks, are aligned to 8
  bytes and never overlap, as long as no allocation is larger than \<open>2 ^ 62\<close> bytes and no
  block larger than the largest object, \<open>2 ^ 63 - 1\<close> bytes.
\<close>

theorem arena_allocs_disjoint:
  assumes "\<forall>sz \<in> set szs. unat sz \<le> 2 ^ 62" and "arena_allocs arena_init szs w = (ps, a, w')" and "small_blocks a"
    and "i < j" and "j < length szs" and "ps ! i = Some (b, off)" and "ps ! j = Some (b', off')"
  shows "8 dvd unat off \<and> unat off + unat (szs ! i) \<le> unat (ab_cap (arena_block a b)) \<and>
    (b = b' \<longrightarrow> unat off + unat (szs ! i) \<le> unat off')"
proof -
  have init: "arena_ok arena_init"
    by (simp add: arena_ok_def arena_init_def block_ok_def ARENA_INLINE_SIZE_def)
  have split: "arena_allocs a (xs @ ys) w = (let (ps, a, w) = arena_allocs a xs w; (qs, a, w) = arena_allocs a ys w in (ps @ qs, a, w))"
    for a xs ys w
    by (induction xs arbitrary: a w) (auto simp: split_beta Let_def)
  have len: "length (fst (arena_allocs a xs w)) = length xs" for a xs w
    by (induction xs arbitrary: a w) (auto simp: split_beta Let_def)
  obtain ps1 a1 w1 where one: "arena_allocs arena_init (take j szs) w = (ps1, a1, w1)"
    by (metis prod_cases3)
  obtain ps2 where two: "arena_allocs a1 (drop j szs) w1 = (ps2, a, w')" "ps = ps1 @ ps2"
    using split [of arena_init "take j szs" "drop j szs" w] assms(2) one by (auto split: prod.splits)
  have szs: "\<forall>sz \<in> set (take j szs). unat sz \<le> 2 ^ 62" "\<forall>sz \<in> set (drop j szs). unat sz \<le> 2 ^ 62"
    using assms(1) by (auto dest: in_set_takeD in_set_dropD)
  have l1: "length ps1 = j"
    using len [of arena_init "take j szs" w] one assms(5) by simp
  have "ps1 ! i = Some (b, off)" "ps2 ! 0 = Some (b', off')"
    using assms(4,6,7) l1 two(2) by (simp_all add: nth_append)
  note p1 = arena_allocs_place [OF init szs(1) one arena_allocs_small [OF two(1) assms(3)], of i b off] and p2 = arena_allocs_place [OF conjunct1 [OF arena_allocs_ok, OF init szs(1) one arena_allocs_small [OF two(1) assms(3)]] szs(2) two(1) assms(3), of 0 b' off']
    and all = arena_allocs_place [OF init assms(1-3), of i b off]
  have "block_ok (arena_block a b)"
    using arena_allocs_ok [OF init assms(1-3)] all assms(4-6) by (simp add: arena_block_ok)
  then show ?thesis
    using p1 p2 all assms(4-6) \<open>ps1 ! i = _\<close> \<open>ps2 ! 0 = _\<close> by (auto simp: block_ok_def)
qed

lemma wide_allocs:
  "\<exists>a w'. arena_allocs arena_init [100, 70000, 100, 8] (demo_world {}) =
     ([Some (0, 0), Some (1, 0), Some (1, 70000), Some (1, 70104)], a, w') \<and> small_blocks a"
  by (simp add: arena_alloc_def arena_align_def arena_init_def arena_current_def set_current_def ARENA_INLINE_SIZE_def
      small_blocks_def ask_def demo_world_def word_less_nat_alt Let_def)

theorem arena_allocs_disjoint_witness:
  "\<exists>a w'. arena_allocs arena_init [100, 70000, 100, 8] (demo_world {}) =
       ([Some (0, 0), Some (1, 0), Some (1, 70000), Some (1, 70104)], a, w') \<and>
     unat (70000 :: u64) + unat (100 :: u64) \<le> unat (70104 :: u64)"
proof -
  obtain a w' where a: "arena_allocs arena_init [100, 70000, 100, 8] (demo_world {}) =
      ([Some (0, 0), Some (1, 0), Some (1, 70000), Some (1, 70104)], a, w')" "small_blocks a"
    using wide_allocs by blast
  then show ?thesis
    using arena_allocs_disjoint [OF _ a, of 2 3 1 70000 1 70104] by simp
qed

end
