(* ===== verification/Net_Conn.thy ===== *)
theory Net_Conn
  imports Net_Arena Engine_Get
begin

text \<open>
  A connection of \<^verbatim>\<open>example/server/server.c\<close>: its receive buffer, the queue of responses that wait for the
  socket, the response under construction and the state of a read that is in progress.
  \<^item> The message integers of \<^verbatim>\<open>example/protocol/graveldb_wire.h\<close> are copied with \<^verbatim>\<open>memcpy\<close> between host
    integers and buffers; on the little-endian hosts the program supports these are the bytes of
    \<open>u32_bytes\<close> and \<open>u64_bytes\<close>.
  \<^item> The receive buffer is the list of its \<^verbatim>\<open>recv_len\<close> bytes; a read beyond them has no value, which is
    the result \<open>None\<close> of the function that makes it. \<open>cn_has_buf\<close> tells whether \<^verbatim>\<open>malloc\<close> gave a buffer.
  \<^item> A send chunk holds its \<^verbatim>\<open>len\<close> bytes. The linked list from \<^verbatim>\<open>send_head\<close> to \<^verbatim>\<open>send_tail\<close> is a list.
  \<^item> \<open>cn_wire\<close> is what the socket has accepted, in order.
  \<^item> The engine takes its temporary arrays from the arena; what they use of it is not counted.
\<close>

subsection \<open>Messages\<close>

definition GRAVELDB_WIRE_MAGIC :: u32 where
  "GRAVELDB_WIRE_MAGIC = 0x47565242"

definition GRAVELDB_WIRE_PORT :: int where
  "GRAVELDB_WIRE_PORT = 9527"

definition GRAVELDB_WIRE_MAX_BATCH :: u32 where
  "GRAVELDB_WIRE_MAX_BATCH = 65536"

definition GRAVELDB_WIRE_HEADER_SIZE :: u32 where
  "GRAVELDB_WIRE_HEADER_SIZE = 12"

datatype graveldb_msg_type =
    GRAVELDB_MSG_PULL | GRAVELDB_MSG_PUSH | GRAVELDB_MSG_DELETE | GRAVELDB_MSG_FLUSH
  | GRAVELDB_MSG_CHECKPOINT | GRAVELDB_MSG_STATS | GRAVELDB_MSG_PULL_STREAM | GRAVELDB_MSG_PING

fun msg_code :: "graveldb_msg_type \<Rightarrow> u32" where
  "msg_code GRAVELDB_MSG_PULL = 1"
| "msg_code GRAVELDB_MSG_PUSH = 2"
| "msg_code GRAVELDB_MSG_DELETE = 3"
| "msg_code GRAVELDB_MSG_FLUSH = 4"
| "msg_code GRAVELDB_MSG_CHECKPOINT = 5"
| "msg_code GRAVELDB_MSG_STATS = 6"
| "msg_code GRAVELDB_MSG_PULL_STREAM = 7"
| "msg_code GRAVELDB_MSG_PING = 255"

definition msg_of :: "u32 \<Rightarrow> graveldb_msg_type option" where
  "msg_of c = find (\<lambda>m. msg_code m = c)
     [GRAVELDB_MSG_PULL, GRAVELDB_MSG_PUSH, GRAVELDB_MSG_DELETE, GRAVELDB_MSG_FLUSH, GRAVELDB_MSG_CHECKPOINT,
      GRAVELDB_MSG_STATS, GRAVELDB_MSG_PULL_STREAM, GRAVELDB_MSG_PING]"

datatype graveldb_wire_status =
  GRAVELDB_WIRE_OK | GRAVELDB_WIRE_ERR | GRAVELDB_WIRE_NOT_FOUND | GRAVELDB_WIRE_INVALID

fun wire_status_code :: "graveldb_wire_status \<Rightarrow> u32" where
  "wire_status_code GRAVELDB_WIRE_OK = 0"
| "wire_status_code GRAVELDB_WIRE_ERR = 1"
| "wire_status_code GRAVELDB_WIRE_NOT_FOUND = 2"
| "wire_status_code GRAVELDB_WIRE_INVALID = 3"

definition GRAVELDB_WIRE_STREAM_SENTINEL :: u32 where
  "GRAVELDB_WIRE_STREAM_SENTINEL = 0xFFFFFFFF"

text \<open>A header: the magic number, the type or the status, the length of the body.\<close>

definition wire_header :: "u32 \<Rightarrow> u32 \<Rightarrow> bytes" where
  "wire_header code body_len = u32_bytes GRAVELDB_WIRE_MAGIC @ u32_bytes code @ u32_bytes body_len"

text \<open>Copies out of a buffer.\<close>

definition peek :: "bytes \<Rightarrow> nat \<Rightarrow> nat \<Rightarrow> bytes option" where
  "peek buf off n = (if off + n \<le> length buf then Some (take n (drop off buf)) else None)"

definition peek_u32 :: "bytes \<Rightarrow> nat \<Rightarrow> u32 option" where
  "peek_u32 buf off = (if off + 4 \<le> length buf then Some (wire_get_u32 buf off) else None)"

definition peek_u64 :: "bytes \<Rightarrow> nat \<Rightarrow> u64 option" where
  "peek_u64 buf off = (if off + 8 \<le> length buf then Some (wire_get_u64 buf off) else None)"

text \<open>What was written at a place of a message is read back there.\<close>

lemma get_u32_append: "wire_get_u32 (xs @ u32_bytes v @ ys) (length xs) = v"
  using get_u32_slice [of "length xs" "xs @ u32_bytes v @ ys"] by (simp add: u32_bytes_inverse)

lemma get_u64_append: "wire_get_u64 (xs @ u64_bytes v @ ys) (length xs) = v"
  using get_u64_slice [of "length xs" "xs @ u64_bytes v @ ys"] by (simp add: u64_bytes_inverse)

lemma peek_u32_append: "off = length xs \<Longrightarrow> peek_u32 (xs @ u32_bytes v @ ys) off = Some v"
  by (simp add: peek_u32_def get_u32_append)

lemma peek_u64_append: "off = length xs \<Longrightarrow> peek_u64 (xs @ u64_bytes v @ ys) off = Some v"
  by (simp add: peek_u64_def get_u64_append)

lemma peek_append: "off = length xs \<Longrightarrow> n = length v \<Longrightarrow> peek (xs @ v @ ys) off n = Some v"
  by (simp add: peek_def)

lemma length_wire_header [simp]: "length (wire_header code len) = 12"
  by (simp add: wire_header_def)

lemma wire_header_fields:
  assumes "take 12 buf = wire_header code len"
  shows "12 \<le> length buf" "wire_get_u32 buf 0 = GRAVELDB_WIRE_MAGIC" "wire_get_u32 buf 4 = code" "wire_get_u32 buf 8 = len"
proof -
  have "length (take 12 buf) = 12"
    unfolding assms by simp
  then show "12 \<le> length buf"
    by simp
  have "buf = wire_header code len @ drop 12 buf"
    using append_take_drop_id [of 12 buf] by (simp add: assms)
  then have b: "buf = u32_bytes GRAVELDB_WIRE_MAGIC @ u32_bytes code @ u32_bytes len @ drop 12 buf"
    by (simp add: wire_header_def)
  show "wire_get_u32 buf 0 = GRAVELDB_WIRE_MAGIC"
    by (subst b) (use get_u32_append [of "[]"] in simp)
  show "wire_get_u32 buf 4 = code"
    by (subst b) (use get_u32_append [of "u32_bytes GRAVELDB_WIRE_MAGIC" code] in simp)
  show "wire_get_u32 buf 8 = len"
    by (subst b) (use get_u32_append [of "u32_bytes GRAVELDB_WIRE_MAGIC @ u32_bytes code" len] in simp)
qed

subsection \<open>Connections\<close>

definition SEND_CHUNK_INLINE :: nat where
  "SEND_CHUNK_INLINE = 4096"

definition READ_BUF_SIZE :: u64 where
  "READ_BUF_SIZE = 16 * 1024 * 1024"

record SendChunk =
  sc_data :: bytes
  sc_cap :: nat
  sc_sent :: nat

text \<open>The five words of a chunk and its inline buffer.\<close>

definition SEND_CHUNK_SIZE :: u64 where
  "SEND_CHUNK_SIZE = 40 + 4096"

datatype ConnAsyncState = CONN_IDLE | CONN_ASYNC_PULL | CONN_ASYNC_STREAM

text \<open>
  The buffers of a chunk of a pull are one area of the arena, in which the \<open>i\<close>-th entry has its place.
  Until a read is complete its answers are kept beside it.
\<close>

record ConnAsyncCtx =
  as_state :: ConnAsyncState
  as_ag :: "AsyncGetState option"
  as_out :: outputs
  as_feat_ids :: "u64 list"
  as_count :: u32
  as_offset :: u32
  as_chunk_scratch :: bytes
  as_chunk_dims :: "int list"
  as_chunk_n :: u32
  as_first_frame :: bool
  as_phase :: int

record ClientConn =
  cn_fd :: int
  cn_has_buf :: bool
  cn_recv_buf :: bytes
  cn_recv_cap :: u64
  cn_send :: "SendChunk list"
  cn_cur :: "SendChunk option"
  cn_resp_hdr_off :: nat
  cn_arena :: ReqArena
  cn_async :: ConnAsyncCtx
  cn_wire :: bytes

definition async_zero :: ConnAsyncCtx where
  "async_zero = \<lparr>as_state = CONN_IDLE, as_ag = None, as_out = [], as_feat_ids = [], as_count = 0, as_offset = 0,
     as_chunk_scratch = [], as_chunk_dims = [], as_chunk_n = 0, as_first_frame = False, as_phase = 0\<rparr>"

text \<open>A slot of the table of clients that was never used.\<close>

definition conn_free :: ClientConn where
  "conn_free = \<lparr>cn_fd = -1, cn_has_buf = False, cn_recv_buf = [], cn_recv_cap = 0, cn_send = [], cn_cur = None,
     cn_resp_hdr_off = 0, cn_arena = arena_init, cn_async = async_zero, cn_wire = []\<rparr>"

definition chunk_arena_new :: "ClientConn \<Rightarrow> World \<Rightarrow> SendChunk option \<times> ClientConn \<times> World" where
  "chunk_arena_new c w =
     (let (p, a, w) = arena_alloc (cn_arena c) SEND_CHUNK_SIZE w in
      (if p = None then None else Some \<lparr>sc_data = [], sc_cap = SEND_CHUNK_INLINE, sc_sent = 0\<rparr>,
       c\<lparr>cn_arena := a\<rparr>, w))"

definition client_init :: "int \<Rightarrow> World \<Rightarrow> ClientConn \<times> World" where
  "client_init fd w =
     (let (ok, w) = ask w in
      (conn_free\<lparr>cn_fd := fd, cn_has_buf := ok, cn_recv_cap := READ_BUF_SIZE\<rparr>, w))"

text \<open>An unfinished read is polled to its end before the buffers go.\<close>

definition client_close :: "GravelDB \<Rightarrow> ClientConn \<Rightarrow> ClientConn option" where
  "client_close db c = do {
     _ \<leftarrow> (if as_state (cn_async c) \<noteq> CONN_IDLE \<and> as_ag (cn_async c) \<noteq> None
           then map_option (\<lambda>_. ()) (poll_loop db (as_ag (cn_async c)) (as_out (cn_async c))) else Some ());
     Some (c\<lparr>cn_fd := -1, cn_has_buf := False, cn_recv_buf := [], cn_send := [], cn_cur := None,
       cn_arena := arena_destroy (cn_arena c), cn_async := (cn_async c)\<lparr>as_state := CONN_IDLE\<rparr>\<rparr>)
   }"

definition client_has_pending_send :: "ClientConn \<Rightarrow> bool" where
  "client_has_pending_send c \<longleftrightarrow> cn_send c \<noteq> []"

subsection \<open>Sending\<close>

text \<open>
  \<^verbatim>\<open>writev\<close> on a non-blocking socket takes all bytes, some of them, none because the socket is full, or
  fails; nothing at all when there is nothing to write.
\<close>

datatype wr_result = Wr nat | WrAgain | WrErr

definition sock_writev :: "nat \<Rightarrow> World \<Rightarrow> wr_result \<times> World" where
  "sock_writev n w =
     (let k = min (w_addr w (w_tick w)) (n - 1); (ok, w) = ask w in
      if ok then (Wr n, w)
      else if 0 < k then (Wr k, w)
      else let (again, w) = ask w in (if again then WrAgain else WrErr, w))"

definition chunk_rest :: "SendChunk \<Rightarrow> bytes" where
  "chunk_rest ch = drop (sc_sent ch) (sc_data ch)"

definition pending :: "SendChunk list \<Rightarrow> bytes" where
  "pending chs = concat (map chunk_rest chs)"

fun advance :: "nat \<Rightarrow> SendChunk list \<Rightarrow> SendChunk list" where
  "advance remaining [] = []"
| "advance remaining (head # chs) =
     (let avail = length (sc_data head) - sc_sent head in
      if remaining = 0 then head # chs
      else if remaining \<ge> avail then advance (remaining - avail) chs
      else head\<lparr>sc_sent := sc_sent head + remaining\<rparr> # chs)"

lemma pending_simps [simp]: "pending [] = []" "pending (ch # chs) = chunk_rest ch @ pending chs"
  "pending (xs @ ys) = pending xs @ pending ys"
  by (simp_all add: pending_def)

lemma pending_advance: "pending (advance n chs) = drop n (pending chs)"
  by (induction n chs rule: advance.induct) (auto simp: chunk_rest_def Let_def add.commute)

lemma length_pending_take: "length (pending (take n chs)) \<le> length (pending chs)"
  by (metis append_take_drop_id pending_simps(3) length_append le_add1)

lemma sock_writev_bound: "fst (sock_writev n w) = Wr k \<Longrightarrow> k \<le> n"
  by (auto simp: sock_writev_def Let_def split_beta split: if_splits)

function client_flush_send_raw :: "ClientConn \<Rightarrow> World \<Rightarrow> int \<times> ClientConn \<times> World" where
  "client_flush_send_raw c w =
     (if cn_send c = [] then (0, c, w)
      else
        let bs = pending (take 64 (cn_send c)); (r, w') = sock_writev (length bs) w in
        case r of
          WrAgain \<Rightarrow> (1, c, w')
        | WrErr \<Rightarrow> (-1, c, w')
        | Wr n \<Rightarrow>
            (if n = 0 then (-1, c, w')
             else client_flush_send_raw (c\<lparr>cn_send := advance n (cn_send c), cn_wire := cn_wire c @ take n bs\<rparr>) w'))"
  by pat_completeness auto
termination
proof (relation "measure (\<lambda>(c, w). length (pending (cn_send c)))")
  fix c :: ClientConn and w :: World and bs r w' n and p :: "wr_result \<times> World"
  assume "bs = pending (take 64 (cn_send c))" "p = sock_writev (length bs) w" "(r, w') = p" "r = Wr n" "n \<noteq> 0"
  then have "0 < n" "n \<le> length (pending (cn_send c))"
    using sock_writev_bound [of "length bs" w n] length_pending_take [of 64 "cn_send c"] by (metis fst_conv neq0_conv, metis fst_conv le_trans)
  then show "((c\<lparr>cn_send := advance n (cn_send c), cn_wire := cn_wire c @ take n bs\<rparr>, w'), c, w) \<in>
      measure (\<lambda>(c, w). length (pending (cn_send c)))"
    by (simp add: pending_advance)
qed simp

declare client_flush_send_raw.simps [simp del]

definition client_flush_send :: "ClientConn \<Rightarrow> World \<Rightarrow> int \<times> ClientConn \<times> World" where
  "client_flush_send c w =
     (let (rc, c, w) = client_flush_send_raw c w in
      (rc, if rc = 0 then c\<lparr>cn_arena := arena_reset (cn_arena c)\<rparr> else c, w))"

subsection \<open>Building a response\<close>

definition response_begin :: "ClientConn \<Rightarrow> graveldb_wire_status \<Rightarrow> World \<Rightarrow> ClientConn \<times> World" where
  "response_begin c status w =
     (let (ch, c, w) = chunk_arena_new c w in
      case ch of
        None \<Rightarrow> (c, w)
      | Some ch \<Rightarrow> (c\<lparr>cn_cur := Some (ch\<lparr>sc_data := wire_header (wire_status_code status) 0\<rparr>), cn_resp_hdr_off := 0\<rparr>, w))"

definition response_append :: "ClientConn \<Rightarrow> bytes \<Rightarrow> World \<Rightarrow> ClientConn \<times> World" where
  "response_append c data w =
     (case cn_cur c of
        None \<Rightarrow> (c, w)
      | Some ch \<Rightarrow>
          (let n = length (sc_data ch) + length data in
           if n > sc_cap ch then
             let (p, a, w) = arena_alloc (cn_arena c) (of_nat (n * 2)) w in
             if p = None then (c\<lparr>cn_arena := a\<rparr>, w)
             else (c\<lparr>cn_arena := a, cn_cur := Some (ch\<lparr>sc_data := sc_data ch @ data, sc_cap := n * 2\<rparr>)\<rparr>, w)
           else (c\<lparr>cn_cur := Some (ch\<lparr>sc_data := sc_data ch @ data\<rparr>)\<rparr>, w)))"

definition enqueue :: "ClientConn \<Rightarrow> SendChunk \<Rightarrow> ClientConn" where
  "enqueue c ch = c\<lparr>cn_send := cn_send c @ [ch]\<rparr>"

definition response_finish :: "ClientConn \<Rightarrow> ClientConn" where
  "response_finish c =
     (case cn_cur c of
        None \<Rightarrow> c
      | Some ch \<Rightarrow>
          let body_len = of_nat (length (sc_data ch) - unat GRAVELDB_WIRE_HEADER_SIZE) in
          (enqueue c (ch\<lparr>sc_data := put_at (sc_data ch) 8 (u32_bytes body_len)\<rparr>))\<lparr>cn_cur := None\<rparr>)"

text \<open>A response without a body.\<close>

definition reply :: "ClientConn \<Rightarrow> graveldb_wire_status \<Rightarrow> World \<Rightarrow> ClientConn \<times> World" where
  "reply c status w = (let (c, w) = response_begin c status w in (response_finish c, w))"

subsection \<open>The queue is first in, first out\<close>

text \<open>
  C36. Whatever the socket does, a flush sends a prefix of what is queued: the bytes that the socket has
  accepted followed by the bytes that still wait are the same before and after it. It reports that
  everything went out exactly when nothing waits any more, and touches nothing else of the connection.
\<close>

theorem client_flush_send_raw_fifo:
  assumes "client_flush_send_raw c w = (rc, c', w')"
  shows "cn_wire c' @ pending (cn_send c') = cn_wire c @ pending (cn_send c) \<and>
    (rc = 0 \<longleftrightarrow> \<not> client_has_pending_send c') \<and> rc \<in> {0, 1, -1} \<and>
    c' = c\<lparr>cn_send := cn_send c', cn_wire := cn_wire c'\<rparr>"
  using assms
proof (induction c w rule: client_flush_send_raw.induct)
  case (1 c w)
  show ?case
  proof (cases "cn_send c = []")
    case True
    then show ?thesis
      using "1.prems" by (simp add: client_flush_send_raw.simps client_has_pending_send_def)
  next
    case False
    let ?bs = "pending (take 64 (cn_send c))"
    obtain r w1 where r: "sock_writev (length ?bs) w = (r, w1)"
      by force
    show ?thesis
    proof (cases "\<exists>n. r = Wr n \<and> n \<noteq> 0")
      case True
      then obtain n where n: "r = Wr n" "n \<noteq> 0"
        by blast
      let ?c = "c\<lparr>cn_send := advance n (cn_send c), cn_wire := cn_wire c @ take n ?bs\<rparr>"
      have "n \<le> length ?bs"
        using sock_writev_bound [of "length ?bs" w n] r n by simp
      then have t: "take n ?bs = take n (pending (cn_send c))"
        by (metis append_take_drop_id pending_simps(3) take_append diff_is_0_eq' take_0 append_Nil2)
      have "client_flush_send_raw ?c w1 = (rc, c', w')"
        using "1.prems" False r n by (subst (asm) client_flush_send_raw.simps) simp
      from "1.IH" [OF False refl refl, unfolded r, OF refl n this] show ?thesis
        by (auto simp: t pending_advance)
    next
      case False
      then show ?thesis
        using "1.prems" \<open>cn_send c \<noteq> []\<close> r
        by (subst (asm) client_flush_send_raw.simps) (auto simp: client_has_pending_send_def split: wr_result.splits if_splits)
    qed
  qed
qed

definition two_chunks :: ClientConn where
  "two_chunks = conn_free\<lparr>cn_send := [\<lparr>sc_data = [1, 2, 3, 4], sc_cap = 4096, sc_sent = 0\<rparr>, \<lparr>sc_data = [5, 6], sc_cap = 4096, sc_sent = 1\<rparr>]\<rparr>"

text \<open>The socket first takes three bytes and then the rest.\<close>

theorem client_flush_send_raw_fifo_witness:
  "\<exists>c' w'. client_flush_send_raw two_chunks ((demo_world {0})\<lparr>w_addr := (\<lambda>i. 3)\<rparr>) = (0, c', w') \<and>
     cn_wire c' = [1, 2, 3, 4, 6] \<and> \<not> client_has_pending_send c'"
proof -
  obtain c' w' where r: "client_flush_send_raw two_chunks ((demo_world {0})\<lparr>w_addr := (\<lambda>i. 3)\<rparr>) = (0, c', w')"
    by (simp add: client_flush_send_raw.simps two_chunks_def conn_free_def sock_writev_def ask_def demo_world_def chunk_rest_def)
  moreover have "cn_wire two_chunks @ pending (cn_send two_chunks) = [1, 2, 3, 4, 6]"
    by (simp add: two_chunks_def conn_free_def chunk_rest_def)
  ultimately show ?thesis
    using client_flush_send_raw_fifo [OF r] by (auto simp: client_has_pending_send_def)
qed

end
