(* ===== verification/Net_Handlers.thy ===== *)
theory Net_Handlers
  imports Net_Conn
begin

text \<open>
  The requests of \<^verbatim>\<open>example/server/server.c\<close>: the handlers and \<^verbatim>\<open>process_message\<close>. A handler gets the
  connection, what was received after the header of the message, and the length that the header gives
  for the body. \<open>GravelServer\<close> holds the fields of the server that the handlers use; a read worker calls
  them with a server that has no others.
\<close>

record GravelServer =
  sv_db :: GravelDB
  sv_readonly :: bool
  sv_async_flush :: "AsyncFlushState option"
  sv_flush_in_flight :: bool

type_synonym conn_result = "(GravelServer \<times> ClientConn \<times> World) option"

subsection \<open>Pull\<close>

definition PULL_CHUNK_SIZE :: u32 where
  "PULL_CHUNK_SIZE = 64"

definition PULL_MAX_DIM :: u32 where
  "PULL_MAX_DIM = 1024"

definition SLOT_BYTES :: nat where
  "SLOT_BYTES = 4 * unat PULL_MAX_DIM"

text \<open>
  The answers are copied to their places in the scratch area. An answer that is longer than its place
  runs into the next one; the model ends there.
\<close>

fun fill_slots :: "nat \<Rightarrow> outputs \<Rightarrow> bytes \<Rightarrow> bytes option" where
  "fill_slots i [] scratch = Some scratch"
| "fill_slots i (None # out) scratch = fill_slots (Suc i) out scratch"
| "fill_slots i (Some v # out) scratch =
     (if length v \<le> SLOT_BYTES then fill_slots (Suc i) out (put_at scratch (i * SLOT_BYTES) v) else None)"

text \<open>
  The part that the two kinds of pull share: the reads of the next chunk are submitted and polled once.
  The first component tells whether they are still in flight.
\<close>

definition chunk_done :: "outputs \<Rightarrow> ConnAsyncCtx \<Rightarrow> ConnAsyncCtx option" where
  "chunk_done out a = map_option (\<lambda>scratch. a\<lparr>as_ag := None, as_out := [], as_chunk_scratch := scratch\<rparr>)
     (fill_slots 0 out (as_chunk_scratch a))"

definition chunk_submit :: "GravelDB \<Rightarrow> ConnAsyncCtx \<Rightarrow> World \<Rightarrow> (bool \<times> GravelDB \<times> ConnAsyncCtx \<times> World) option" where
  "chunk_submit db a w = do {
     let chunk_n = min (as_count a - as_offset a) PULL_CHUNK_SIZE;
     let n = unat chunk_n;
     (rc, st, out, dims, db, w) \<leftarrow>
       graveldb_batch_get_submit db (map (\<lambda>k. (k, True)) (take n (drop (unat (as_offset a)) (as_feat_ids a)))) w;
     let a = a\<lparr>as_chunk_n := chunk_n, as_chunk_dims := (if dims = [] then replicate n 0 else dims)\<rparr>;
     (rc, st, out) \<leftarrow> graveldb_batch_get_poll db st out;
     if rc = GRAVELDB_AGAIN then Some (True, db, a\<lparr>as_ag := st, as_out := out, as_phase := 1\<rparr>, w)
     else map_option (\<lambda>a. (False, db, a, w)) (chunk_done out a)
   }"

definition chunk_poll :: "GravelDB \<Rightarrow> ConnAsyncCtx \<Rightarrow> (bool \<times> ConnAsyncCtx) option" where
  "chunk_poll db a = do {
     (rc, st, out) \<leftarrow> graveldb_batch_get_poll db (as_ag a) (as_out a);
     if rc = GRAVELDB_AGAIN then Some (True, a\<lparr>as_ag := st, as_out := out\<rparr>)
     else map_option (\<lambda>a. (False, a)) (chunk_done out a)
   }"

fun append_entries :: "nat \<Rightarrow> int list \<Rightarrow> bytes \<Rightarrow> ClientConn \<Rightarrow> World \<Rightarrow> (ClientConn \<times> World) option" where
  "append_entries i [] scratch c w = Some (c, w)"
| "append_entries i (dim # dims) scratch c w =
     (let d = (word_of_int dim :: u32); (c, w) = response_append c (u32_bytes d) w in
      if d > 0 then do {
        v \<leftarrow> peek scratch (i * SLOT_BYTES) (unat d * 4);
        let (c, w) = response_append c v w;
        append_entries (Suc i) dims scratch c w
      }
      else append_entries (Suc i) dims scratch c w)"

definition append_chunk :: "ClientConn \<Rightarrow> World \<Rightarrow> (ClientConn \<times> World) option" where
  "append_chunk c w = do {
     let a = cn_async c;
     (c, w) \<leftarrow> append_entries 0 (as_chunk_dims a) (as_chunk_scratch a) c w;
     Some (c\<lparr>cn_async := a\<lparr>as_offset := as_offset a + as_chunk_n a\<rparr>\<rparr>, w)
   }"

lemma chunk_submit_progress:
  assumes "chunk_submit db a w = Some (False, db', a', w')" and "as_offset a < as_count a"
  shows "as_count a' = as_count a" "unat (as_count a) - unat (as_offset a' + as_chunk_n a') < unat (as_count a) - unat (as_offset a)"
proof -
  let ?n = "min (as_count a - as_offset a) PULL_CHUNK_SIZE"
  have f: "as_count a' = as_count a" "as_offset a' = as_offset a" "as_chunk_n a' = ?n"
    using assms(1) by (auto simp: chunk_submit_def chunk_done_def bind_eq_Some_conv Let_def split: if_splits)
  show "as_count a' = as_count a"
    by (rule f)
  have "0 < unat ?n" "unat ?n \<le> unat (as_count a) - unat (as_offset a)"
    using assms(2) by (auto simp: min_def PULL_CHUNK_SIZE_def word_less_nat_alt word_le_nat_alt unat_sub)
  then show "unat (as_count a) - unat (as_offset a' + as_chunk_n a') < unat (as_count a) - unat (as_offset a)"
    using assms(2) unsigned_less [where 'a = nat, of "as_count a"] by (simp add: f word_less_nat_alt unat_word_ariths)
qed

text \<open>\<^verbatim>\<open>pull_submit_next_chunk\<close>\<close>

function pull_submit_next_chunk :: "GravelServer \<Rightarrow> ClientConn \<Rightarrow> World \<Rightarrow> (int \<times> GravelServer \<times> ClientConn \<times> World) option" where
  "pull_submit_next_chunk srv c w =
     (let a = cn_async c in
      if \<not> as_offset a < as_count a then
        (let c = response_finish c in Some (0, srv, c\<lparr>cn_async := (cn_async c)\<lparr>as_state := CONN_IDLE\<rparr>\<rparr>, w))
      else
        chunk_submit (sv_db srv) a w \<bind> (\<lambda>(busy, db, a', w').
          if busy then Some (1, srv\<lparr>sv_db := db\<rparr>, c\<lparr>cn_async := a'\<rparr>, w')
          else
            append_chunk (c\<lparr>cn_async := a'\<rparr>) w' \<bind> (\<lambda>(c', w''). pull_submit_next_chunk (srv\<lparr>sv_db := db\<rparr>) c' w'')))"
  by pat_completeness auto
termination
proof (relation "measure (\<lambda>(srv, c, w). unat (as_count (cn_async c)) - unat (as_offset (cn_async c)))", simp)
  fix srv c w a p busy q db r a' w' and s :: "ClientConn \<times> World" and c' w''
  assume "a = cn_async c" "\<not> \<not> as_offset a < as_count a" "chunk_submit (sv_db srv) a w = Some p" "(busy, q) = p" "(db, r) = q"
    "(a', w') = r" "\<not> busy" "append_chunk (c\<lparr>cn_async := a'\<rparr>) w' = Some s" "(c', w'') = s"
  then have s: "chunk_submit (sv_db srv) (cn_async c) w = Some (False, db, a', w')" "as_offset (cn_async c) < as_count (cn_async c)"
      "append_chunk (c\<lparr>cn_async := a'\<rparr>) w' = Some (c', w'')"
    by auto
  then have "cn_async c' = a'\<lparr>as_offset := as_offset a' + as_chunk_n a'\<rparr>"
    by (auto simp: append_chunk_def bind_eq_Some_conv Let_def)
  then show "((srv\<lparr>sv_db := db\<rparr>, c', w''), srv, c, w) \<in> measure (\<lambda>(srv, c, w). unat (as_count (cn_async c)) - unat (as_offset (cn_async c)))"
    using chunk_submit_progress [OF s(1,2)] by simp
qed

declare pull_submit_next_chunk.simps [simp del]

definition pull_resume :: "GravelServer \<Rightarrow> ClientConn \<Rightarrow> World \<Rightarrow> (int \<times> GravelServer \<times> ClientConn \<times> World) option" where
  "pull_resume srv c w = do {
     (busy, a) \<leftarrow> chunk_poll (sv_db srv) (cn_async c);
     let c = c\<lparr>cn_async := a\<rparr>;
     if busy then Some (1, srv, c, w)
     else do {
       (c, w) \<leftarrow> append_chunk c w;
       pull_submit_next_chunk srv c w
     }
   }"

text \<open>The identifiers of a request.\<close>

fun peek_ids :: "nat \<Rightarrow> bytes \<Rightarrow> nat \<Rightarrow> u64 list option" where
  "peek_ids 0 body off = Some []"
| "peek_ids (Suc n) body off = do {
     k \<leftarrow> peek_u64 body off;
     ks \<leftarrow> peek_ids n body (off + 8);
     Some (k # ks)
   }"

text \<open>
  The scratch area and the two arrays of a pull. Memory of the arena has arbitrary contents.
\<close>

definition alloc_scratch :: "ClientConn \<Rightarrow> World \<Rightarrow> bytes option \<times> ClientConn \<times> World" where
  "alloc_scratch c w =
     (let junk = junk_bytes (w_addr w (w_tick w)) (unat PULL_CHUNK_SIZE * SLOT_BYTES);
          (p1, a, w) = arena_alloc (cn_arena c) (ucast PULL_CHUNK_SIZE * ucast PULL_MAX_DIM * 4) w;
          (p2, a, w) = arena_alloc a (ucast PULL_CHUNK_SIZE * 8) w;
          (p3, a, w) = arena_alloc a (ucast PULL_CHUNK_SIZE * 4) w
      in (if p1 = None \<or> p2 = None \<or> p3 = None then None else Some junk, c\<lparr>cn_arena := a\<rparr>, w))"

definition conn_alloc :: "ClientConn \<Rightarrow> u64 \<Rightarrow> World \<Rightarrow> bool \<times> ClientConn \<times> World" where
  "conn_alloc c sz w = (let (p, a, w) = arena_alloc (cn_arena c) sz w in (p \<noteq> None, c\<lparr>cn_arena := a\<rparr>, w))"

definition handle_pull :: "GravelServer \<Rightarrow> ClientConn \<Rightarrow> bytes \<Rightarrow> u32 \<Rightarrow> World \<Rightarrow> conn_result" where
  "handle_pull srv c body body_len w =
     (if body_len < 4 then Some (srv, reply c GRAVELDB_WIRE_INVALID w)
      else do {
        count \<leftarrow> peek_u32 body 0;
        if count > GRAVELDB_WIRE_MAX_BATCH \<or> body_len < 4 + count * 8 then Some (srv, reply c GRAVELDB_WIRE_INVALID w)
        else do {
          let (ok, c, w) = conn_alloc c (ucast count * 8) w;
          if \<not> ok then Some (srv, reply c GRAVELDB_WIRE_ERR w)
          else do {
            ids \<leftarrow> peek_ids (unat count) body 4;
            let (scratch, c, w) = alloc_scratch c w;
            (case scratch of
               None \<Rightarrow> Some (srv, reply c GRAVELDB_WIRE_ERR w)
             | Some scratch \<Rightarrow> do {
                 let (c, w) = response_begin c GRAVELDB_WIRE_OK w;
                 let (c, w) = response_append c (u32_bytes count) w;
                 (_, srv, c, w) \<leftarrow> pull_submit_next_chunk srv (c\<lparr>cn_async := (cn_async c)\<lparr>as_state := CONN_ASYNC_PULL,
                   as_feat_ids := ids, as_count := count, as_offset := 0, as_chunk_scratch := scratch, as_chunk_dims := [],
                   as_phase := 0\<rparr>\<rparr>) w;
                 Some (srv, c, w)
               })
          }
        }
      })"

subsection \<open>Streaming pull\<close>

definition stream_send_terminator :: "ClientConn \<Rightarrow> World \<Rightarrow> ClientConn \<times> World" where
  "stream_send_terminator c w =
     (let (ch, c, w) = chunk_arena_new c w in
      (case ch of None \<Rightarrow> c | Some ch \<Rightarrow> enqueue c (ch\<lparr>sc_data := u32_bytes 0\<rparr>), w))"

fun frame_entries :: "nat \<Rightarrow> int list \<Rightarrow> bytes \<Rightarrow> bytes option" where
  "frame_entries i [] scratch = Some []"
| "frame_entries i (dim # dims) scratch = do {
     let d = (word_of_int dim :: u32);
     v \<leftarrow> (if d > 0 then peek scratch (i * SLOT_BYTES) (unat d * 4) else Some []);
     rest \<leftarrow> frame_entries (Suc i) dims scratch;
     Some (u32_bytes d @ v @ rest)
   }"

text \<open>
  The size of the payload is computed from the signed dimensions, as \<^verbatim>\<open>size_t\<close>. The chunk is written
  only when there is room for that many bytes.
\<close>

definition payload_size :: "ConnAsyncCtx \<Rightarrow> u64" where
  "payload_size a = sum_list (map (\<lambda>d. 4 + word_of_int d * 4) (as_chunk_dims a)) + (if as_first_frame a then 4 else 0)"

definition stream_build_frame :: "ClientConn \<Rightarrow> World \<Rightarrow> (ClientConn \<times> World) option" where
  "stream_build_frame c w = do {
     let a = cn_async c;
     let frame_size = 4 + payload_size a;
     let (ch, c, w) = chunk_arena_new c w;
     (case ch of
        None \<Rightarrow> Some (c, w)
      | Some ch \<Rightarrow> do {
          let (cap, c, w) =
            (if frame_size > of_nat (sc_cap ch) then
               let (ok, c, w) = conn_alloc c frame_size w in (if ok then Some (unat frame_size) else None, c, w)
             else (Some (sc_cap ch), c, w));
          (case cap of
             None \<Rightarrow> Some (c, w)
           | Some cap \<Rightarrow> do {
               entries \<leftarrow> frame_entries 0 (as_chunk_dims a) (as_chunk_scratch a);
               let data = u32_bytes (ucast (payload_size a)) @ (if as_first_frame a then u32_bytes (as_count a) else []) @ entries;
               if length data \<le> cap then
                 Some ((enqueue c (ch\<lparr>sc_data := data, sc_cap := cap\<rparr>))\<lparr>cn_async := a\<lparr>as_first_frame := False\<rparr>\<rparr>, w)
               else None
             })
        })
   }"

text \<open>\<^verbatim>\<open>stream_submit_next_chunk\<close>\<close>

definition build_chunk :: "ClientConn \<Rightarrow> World \<Rightarrow> (ClientConn \<times> World) option" where
  "build_chunk c w = do {
     let off = as_offset (cn_async c) + as_chunk_n (cn_async c);
     (c, w) \<leftarrow> stream_build_frame c w;
     Some (c\<lparr>cn_async := (cn_async c)\<lparr>as_offset := off\<rparr>\<rparr>, w)
   }"

lemma chunk_arena_new_async: "chunk_arena_new c w = (ch, c', w') \<Longrightarrow> cn_async c' = cn_async c"
  by (auto simp: chunk_arena_new_def split_beta Let_def)

lemma conn_alloc_async: "conn_alloc c sz w = (ok, c', w') \<Longrightarrow> cn_async c' = cn_async c"
  by (auto simp: conn_alloc_def split_beta Let_def)

lemma stream_build_frame_async:
  "stream_build_frame c w = Some (c', w') \<Longrightarrow> as_count (cn_async c') = as_count (cn_async c)"
  by (auto simp: stream_build_frame_def enqueue_def Let_def bind_eq_Some_conv split: prod.splits option.splits if_splits
      dest!: chunk_arena_new_async conn_alloc_async)

function stream_submit_next_chunk :: "GravelServer \<Rightarrow> ClientConn \<Rightarrow> World \<Rightarrow> (int \<times> GravelServer \<times> ClientConn \<times> World) option" where
  "stream_submit_next_chunk srv c w =
     (let a = cn_async c in
      if \<not> as_offset a < as_count a then
        (let (c, w) = stream_send_terminator c w in Some (0, srv, c\<lparr>cn_async := (cn_async c)\<lparr>as_state := CONN_IDLE\<rparr>\<rparr>, w))
      else
        chunk_submit (sv_db srv) a w \<bind> (\<lambda>(busy, db, a', w').
          if busy then Some (1, srv\<lparr>sv_db := db\<rparr>, c\<lparr>cn_async := a'\<rparr>, w')
          else
            build_chunk (c\<lparr>cn_async := a'\<rparr>) w' \<bind> (\<lambda>(c', w''). stream_submit_next_chunk (srv\<lparr>sv_db := db\<rparr>) c' w'')))"
  by pat_completeness auto
termination
proof (relation "measure (\<lambda>(srv, c, w). unat (as_count (cn_async c)) - unat (as_offset (cn_async c)))", simp)
  fix srv c w a p busy q db r a' w' and s :: "ClientConn \<times> World" and c' w''
  assume "a = cn_async c" "\<not> \<not> as_offset a < as_count a" "chunk_submit (sv_db srv) a w = Some p" "(busy, q) = p" "(db, r) = q"
    "(a', w') = r" "\<not> busy" "build_chunk (c\<lparr>cn_async := a'\<rparr>) w' = Some s" "(c', w'') = s"
  then have s: "chunk_submit (sv_db srv) (cn_async c) w = Some (False, db, a', w')" "as_offset (cn_async c) < as_count (cn_async c)"
      "build_chunk (c\<lparr>cn_async := a'\<rparr>) w' = Some (c', w'')"
    by auto
  then have "as_offset (cn_async c') = as_offset a' + as_chunk_n a'" "as_count (cn_async c') = as_count a'"
    using stream_build_frame_async [of "c\<lparr>cn_async := a'\<rparr>" w'] by (auto simp: build_chunk_def bind_eq_Some_conv Let_def)
  then show "((srv\<lparr>sv_db := db\<rparr>, c', w''), srv, c, w) \<in> measure (\<lambda>(srv, c, w). unat (as_count (cn_async c)) - unat (as_offset (cn_async c)))"
    using chunk_submit_progress [OF s(1,2)] by simp
qed

declare stream_submit_next_chunk.simps [simp del]

definition stream_resume :: "GravelServer \<Rightarrow> ClientConn \<Rightarrow> World \<Rightarrow> (int \<times> GravelServer \<times> ClientConn \<times> World) option" where
  "stream_resume srv c w = do {
     (busy, a) \<leftarrow> chunk_poll (sv_db srv) (cn_async c);
     let c = c\<lparr>cn_async := a\<rparr>;
     if busy then Some (1, srv, c, w)
     else do {
       (c, w) \<leftarrow> build_chunk c w;
       stream_submit_next_chunk srv c w
     }
   }"

definition stream_header :: "ClientConn \<Rightarrow> World \<Rightarrow> bool \<times> ClientConn \<times> World" where
  "stream_header c w =
     (let (ch, c, w) = chunk_arena_new c w in
      case ch of
        None \<Rightarrow> (False, c, w)
      | Some ch \<Rightarrow>
          (True, enqueue c (ch\<lparr>sc_data := wire_header (wire_status_code GRAVELDB_WIRE_OK) GRAVELDB_WIRE_STREAM_SENTINEL\<rparr>), w))"

definition handle_pull_stream :: "GravelServer \<Rightarrow> ClientConn \<Rightarrow> bytes \<Rightarrow> u32 \<Rightarrow> World \<Rightarrow> conn_result" where
  "handle_pull_stream srv c body body_len w =
     (if body_len < 4 then Some (srv, reply c GRAVELDB_WIRE_INVALID w)
      else do {
        count \<leftarrow> peek_u32 body 0;
        if count > GRAVELDB_WIRE_MAX_BATCH \<or> body_len < 4 + count * 8 then Some (srv, reply c GRAVELDB_WIRE_INVALID w)
        else do {
          let (ok, c, w) = conn_alloc c (ucast count * 8) w;
          if \<not> ok then Some (srv, reply c GRAVELDB_WIRE_ERR w)
          else do {
            ids \<leftarrow> peek_ids (unat count) body 4;
            let (ok, c, w) = stream_header c w;
            if \<not> ok then Some (srv, c, w)
            else do {
              let (scratch, c, w) = alloc_scratch c w;
              (case scratch of
                 None \<Rightarrow> Some (srv, stream_send_terminator c w)
               | Some scratch \<Rightarrow> do {
                   (_, srv, c, w) \<leftarrow> stream_submit_next_chunk srv (c\<lparr>cn_async := (cn_async c)\<lparr>as_state := CONN_ASYNC_STREAM,
                     as_feat_ids := ids, as_count := count, as_offset := 0, as_chunk_scratch := scratch, as_chunk_dims := [],
                     as_first_frame := True, as_phase := 0\<rparr>\<rparr>) w;
                   Some (srv, c, w)
                 })
            }
          }
        }
      })"

subsection \<open>Updates and administration\<close>

fun peek_floats :: "nat \<Rightarrow> bytes \<Rightarrow> nat \<Rightarrow> u32 list option" where
  "peek_floats 0 body off = Some []"
| "peek_floats (Suc n) body off = do {
     x \<leftarrow> peek_u32 body off;
     xs \<leftarrow> peek_floats n body (off + 4);
     Some (x # xs)
   }"

text \<open>The entries of a push up to the first that does not fit into the body.\<close>

fun parse_push :: "nat \<Rightarrow> bytes \<Rightarrow> nat \<Rightarrow> nat \<Rightarrow> put_item list option" where
  "parse_push 0 body ptr end_ptr = Some []"
| "parse_push (Suc n) body ptr end_ptr =
     (if ptr + 12 > end_ptr then Some []
      else do {
        feat_id \<leftarrow> peek_u64 body ptr;
        dim \<leftarrow> peek_u32 body (ptr + 8);
        let ptr = ptr + 12;
        if ptr + unat dim * 4 > end_ptr then Some []
        else do {
          emb \<leftarrow> peek_floats (unat dim) body ptr;
          items \<leftarrow> parse_push n body (ptr + unat dim * 4) end_ptr;
          Some ((feat_id, sint dim, Some emb) # items)
        }
      })"

definition push_items :: "GravelServer \<Rightarrow> put_item list \<Rightarrow> World \<Rightarrow> (GravelServer \<times> World) option" where
  "push_items srv items w =
     (if items = [] then Some (srv, w)
      else do {
        (rc, db, w) \<leftarrow> graveldb_batch_put (sv_db srv) items w;
        needed \<leftarrow> (if sv_flush_in_flight srv then Some False else graveldb_flush_needed db);
        if needed then do {
          (rc, st, db, w) \<leftarrow> graveldb_flush_submit db w;
          Some (srv\<lparr>sv_db := db, sv_async_flush := st, sv_flush_in_flight := True\<rparr>, w)
        }
        else Some (srv\<lparr>sv_db := db\<rparr>, w)
      })"

definition handle_push :: "GravelServer \<Rightarrow> ClientConn \<Rightarrow> bytes \<Rightarrow> u32 \<Rightarrow> World \<Rightarrow> conn_result" where
  "handle_push srv c body body_len w =
     (if body_len < 4 then Some (srv, reply c GRAVELDB_WIRE_INVALID w)
      else do {
        count \<leftarrow> peek_u32 body 0;
        if count > GRAVELDB_WIRE_MAX_BATCH then Some (srv, reply c GRAVELDB_WIRE_INVALID w)
        else do {
          let (ok1, c, w) = conn_alloc c (ucast count * 8) w;
          let (ok2, c, w) = conn_alloc c (ucast count * 4) w;
          let (ok3, c, w) = conn_alloc c (ucast count * 8) w;
          if \<not> ok1 \<or> \<not> ok2 \<or> \<not> ok3 then Some (srv, reply c GRAVELDB_WIRE_ERR w)
          else do {
            items \<leftarrow> parse_push (unat count) body 4 (unat body_len);
            (srv, w) \<leftarrow> push_items srv items w;
            Some (srv, reply c GRAVELDB_WIRE_OK w)
          }
        }
      })"

fun parse_delete :: "nat \<Rightarrow> bytes \<Rightarrow> nat \<Rightarrow> nat \<Rightarrow> u64 list option" where
  "parse_delete 0 body ptr end_ptr = Some []"
| "parse_delete (Suc n) body ptr end_ptr =
     (if ptr + 8 \<le> end_ptr then do {
        k \<leftarrow> peek_u64 body ptr;
        ks \<leftarrow> parse_delete n body (ptr + 8) end_ptr;
        Some (k # ks)
      }
      else Some [])"

definition handle_delete :: "GravelServer \<Rightarrow> ClientConn \<Rightarrow> bytes \<Rightarrow> u32 \<Rightarrow> World \<Rightarrow> conn_result" where
  "handle_delete srv c body body_len w =
     (if body_len < 4 then Some (srv, reply c GRAVELDB_WIRE_INVALID w)
      else do {
        count \<leftarrow> peek_u32 body 0;
        let (ok, w) = (if count \<le> 64 then (True, w) else ask w);
        if \<not> ok then Some (srv, reply c GRAVELDB_WIRE_ERR w)
        else do {
          ids \<leftarrow> parse_delete (unat count) body 4 (unat body_len);
          (rc, db, w) \<leftarrow> (if ids = [] then Some (GRAVELDB_OK, sv_db srv, w) else graveldb_batch_delete (sv_db srv) ids w);
          Some (srv\<lparr>sv_db := db\<rparr>, reply c GRAVELDB_WIRE_OK w)
        }
      })"

definition handle_checkpoint :: "GravelServer \<Rightarrow> ClientConn \<Rightarrow> World \<Rightarrow> conn_result" where
  "handle_checkpoint srv c w = do {
     (rc, db, w) \<leftarrow> graveldb_checkpoint (sv_db srv) w;
     Some (srv\<lparr>sv_db := db\<rparr>, reply c GRAVELDB_WIRE_OK w)
   }"

text \<open>A flush request takes a checkpoint, too.\<close>

definition handle_flush :: "GravelServer \<Rightarrow> ClientConn \<Rightarrow> World \<Rightarrow> conn_result" where
  "handle_flush srv c w = do {
     (rc, db, w) \<leftarrow> graveldb_checkpoint (sv_db srv) w;
     Some (srv\<lparr>sv_db := db\<rparr>, reply c GRAVELDB_WIRE_OK w)
   }"

text \<open>The statistics as the structure lies in memory; the counters that are not kept are 0.\<close>

definition stats_bytes :: "GravelDBStats \<Rightarrow> bytes" where
  "stats_bytes st = u64_bytes (st_total_features st) @ u64_bytes (st_total_entries st) @ u64_bytes 0 @ u64_bytes 0 @ u64_bytes 0 @
     u64_bytes (st_flush_bytes st) @ u64_bytes (st_checkpoint_generation st) @ u32_bytes 0 @ u32_bytes 0"

definition handle_stats :: "GravelServer \<Rightarrow> ClientConn \<Rightarrow> World \<Rightarrow> conn_result" where
  "handle_stats srv c w = do {
     st \<leftarrow> graveldb_stats (sv_db srv);
     let (c, w) = response_begin c GRAVELDB_WIRE_OK w;
     let (c, w) = response_append c (stats_bytes st) w;
     Some (srv, response_finish c, w)
   }"

definition handle_ping :: "GravelServer \<Rightarrow> ClientConn \<Rightarrow> World \<Rightarrow> conn_result" where
  "handle_ping srv c w =
     (let (c, w) = response_begin c GRAVELDB_WIRE_OK w;
          (c, w) = response_append c (u32_bytes 0x504F4E47) w
      in Some (srv, response_finish c, w))"

subsection \<open>One message\<close>

definition client_async_resume :: "GravelServer \<Rightarrow> ClientConn \<Rightarrow> World \<Rightarrow> (int \<times> GravelServer \<times> ClientConn \<times> World) option" where
  "client_async_resume srv c w =
     (case as_state (cn_async c) of
        CONN_IDLE \<Rightarrow> Some (0, srv, c, w)
      | CONN_ASYNC_PULL \<Rightarrow> pull_resume srv c w
      | CONN_ASYNC_STREAM \<Rightarrow> stream_resume srv c w)"

definition handle_message :: "GravelServer \<Rightarrow> ClientConn \<Rightarrow> u32 \<Rightarrow> bytes \<Rightarrow> u32 \<Rightarrow> World \<Rightarrow> conn_result" where
  "handle_message srv c code body body_len w =
     (case msg_of code of
        None \<Rightarrow> Some (srv, reply c GRAVELDB_WIRE_INVALID w)
      | Some GRAVELDB_MSG_PULL \<Rightarrow> handle_pull srv c body body_len w
      | Some GRAVELDB_MSG_PULL_STREAM \<Rightarrow> handle_pull_stream srv c body body_len w
      | Some GRAVELDB_MSG_STATS \<Rightarrow> handle_stats srv c w
      | Some GRAVELDB_MSG_PING \<Rightarrow> handle_ping srv c w
      | Some m \<Rightarrow>
          (if sv_readonly srv then Some (srv, reply c GRAVELDB_WIRE_INVALID w)
           else case m of
             GRAVELDB_MSG_PUSH \<Rightarrow> handle_push srv c body body_len w
           | GRAVELDB_MSG_DELETE \<Rightarrow> handle_delete srv c body body_len w
           | GRAVELDB_MSG_FLUSH \<Rightarrow> handle_flush srv c w
           | _ \<Rightarrow> handle_checkpoint srv c w))"

text \<open>The length of the message is computed with 32 bits.\<close>

definition process_message :: "GravelServer \<Rightarrow> ClientConn \<Rightarrow> World \<Rightarrow> (int \<times> GravelServer \<times> ClientConn \<times> World) option" where
  "process_message srv c w =
     (let buf = cn_recv_buf c; n = length buf; hdr = unat GRAVELDB_WIRE_HEADER_SIZE in
      if as_state (cn_async c) \<noteq> CONN_IDLE then Some (0, srv, c, w)
      else if n < hdr then Some (0, srv, c, w)
      else
        let magic = wire_get_u32 buf 0; code = wire_get_u32 buf 4; body_len = wire_get_u32 buf 8;
            consumed = unat (GRAVELDB_WIRE_HEADER_SIZE + body_len)
        in if magic \<noteq> GRAVELDB_WIRE_MAGIC then Some (-1, srv, c, w)
           else if n < consumed then Some (0, srv, c, w)
           else do {
             (srv, c, w) \<leftarrow> handle_message srv c code (drop hdr buf) body_len w;
             Some (1, srv, c\<lparr>cn_recv_buf := drop consumed buf\<rparr>, w)
           })"

text \<open>\<^verbatim>\<open>while ((rc = process_message(srv, c)) > 0) {}\<close>\<close>

partial_function (option) process_messages :: "GravelServer \<Rightarrow> ClientConn \<Rightarrow> World \<Rightarrow> (int \<times> GravelServer \<times> ClientConn \<times> World) option" where
  "process_messages srv c w =
     process_message srv c w \<bind> (\<lambda>(rc, srv, c, w). if rc > 0 then process_messages srv c w else Some (rc, srv, c, w))"

declare process_messages.simps [code]

end
