(* ===== verification/Net_Messages.thy ===== *)
theory Net_Messages
  imports Net_Handlers
begin

text \<open>
  The loop over the received messages of \<^verbatim>\<open>example/server/server.c\<close>: the length of a message is computed
  with 32 bits, and a message for which it wraps around to 0 is never removed.
\<close>

subsection \<open>The length of a message wraps around\<close>

lemma response_fields [simp]:
  "cn_async (fst (response_begin c st w)) = cn_async c" "cn_recv_buf (fst (response_begin c st w)) = cn_recv_buf c"
  "cn_async (fst (response_append c bs w)) = cn_async c" "cn_recv_buf (fst (response_append c bs w)) = cn_recv_buf c"
  "cn_async (response_finish c) = cn_async c" "cn_recv_buf (response_finish c) = cn_recv_buf c"
  by (simp_all add: response_begin_def chunk_arena_new_def response_append_def response_finish_def enqueue_def split_beta Let_def
      split: option.splits)

text \<open>
  C39. A message whose header gives the body a length of \<open>2 ^ 32 - 12\<close> has, computed with 32 bits, a
  length of 0. A ping of that length is answered and not removed, so the loop over the received messages
  answers it for ever: the event loop never gets back to its other connections.
\<close>

theorem process_messages_wrap_diverges:
  assumes "take 12 (cn_recv_buf c) = wire_header (msg_code GRAVELDB_MSG_PING) 0xFFFFFFF4" and "as_state (cn_async c) = CONN_IDLE"
  shows "process_messages srv c w = None"
proof (rule ccontr)
  let ?wraps = "\<lambda>c. take 12 (cn_recv_buf c) = wire_header (msg_code GRAVELDB_MSG_PING) 0xFFFFFFF4 \<and> as_state (cn_async c) = CONN_IDLE"
  assume "process_messages srv c w \<noteq> None"
  then obtain r where "process_messages srv c w = Some r"
    by auto
  then have "\<not> ?wraps c"
  proof (rule process_messages.raw_induct [where P = "\<lambda>srv c w r. \<not> ?wraps c", rotated])
    fix f srv c w r
    assume ih: "\<And>srv c w r. f srv c w = Some r \<Longrightarrow> \<not> ?wraps c"
      and step: "process_message srv c w \<bind> (\<lambda>(rc, srv, c, w). if 0 < rc then f srv c w else Some (rc, srv, c, w)) = Some r"
    show "\<not> ?wraps c"
    proof
      assume h: "?wraps c"
      note hdr = wire_header_fields [OF conjunct1 [OF h]]
      obtain c' w' where p: "handle_ping srv c w = Some (srv, c', w')" "cn_async c' = cn_async c"
        by (simp add: handle_ping_def split_beta Let_def)
      then have "process_message srv c w = Some (1, srv, c'\<lparr>cn_recv_buf := cn_recv_buf c\<rparr>, w')"
        using h hdr by (simp add: process_message_def handle_message_def msg_of_def GRAVELDB_WIRE_HEADER_SIZE_def Let_def)
      then have "f srv (c'\<lparr>cn_recv_buf := cn_recv_buf c\<rparr>) w' = Some r"
        using step by simp
      from ih [OF this] show False
        using h p(2) by simp
    qed
  qed
  then show False
    using assms by blast
qed

theorem process_messages_wrap_diverges_witness:
  "process_messages \<lparr>sv_db = demo_store (demo_bin []), sv_readonly = True, sv_async_flush = None, sv_flush_in_flight = False\<rparr>
     (conn_free\<lparr>cn_fd := 5, cn_recv_buf := wire_header 255 0xFFFFFFF4\<rparr>) (demo_world {}) = None"
  by (rule process_messages_wrap_diverges) (simp_all add: wire_header_def u32_bytes_def conn_free_def async_zero_def)

end
