(* ===== verification/Net_Client.thy ===== *)
theory Net_Client
  imports Net_Conn
begin

text \<open>
  The client of \<^verbatim>\<open>example/client/client.c\<close>. \<open>gc_in\<close> is what the server will still send and \<open>gc_out\<close> what the
  client has sent; a read that asks for more than the server ever sends fails. A call that is
  interrupted is made again and leaves no trace in the model. Besides the capacities that the client
  notes there are the real sizes of its buffers, 0 for NULL; they differ when a \<^verbatim>\<open>realloc\<close> failed. \<open>None\<close>
  is a memory fault: a write beyond a buffer, or a read beyond what was received.
\<close>

record GravelDBClient =
  gc_fd :: int
  gc_send_cap :: u64
  gc_send_room :: u64
  gc_recv_cap :: u64
  gc_recv_room :: u64
  gc_pending :: int
  gc_in :: bytes
  gc_out :: bytes

subsection \<open>Transport\<close>

definition send_all :: "GravelDBClient \<Rightarrow> bytes \<Rightarrow> World \<Rightarrow> int \<times> GravelDBClient \<times> World" where
  "send_all c buf w =
     (let k = w_addr w (w_tick w); (ok, w) = ask w in
      if ok then (0, c\<lparr>gc_out := gc_out c @ buf\<rparr>, w)
      else (-1, c\<lparr>gc_out := gc_out c @ take (min k (length buf - 1)) buf\<rparr>, w))"

definition recv_all :: "GravelDBClient \<Rightarrow> nat \<Rightarrow> bytes option \<times> GravelDBClient" where
  "recv_all c n =
     (if n \<le> length (gc_in c) then (Some (take n (gc_in c)), c\<lparr>gc_in := drop n (gc_in c)\<rparr>)
      else (None, c\<lparr>gc_in := []\<rparr>))"

definition send_request :: "GravelDBClient \<Rightarrow> graveldb_msg_type \<Rightarrow> bytes \<Rightarrow> World \<Rightarrow> int \<times> GravelDBClient \<times> World" where
  "send_request c type body w =
     (let body_len = (of_nat (length body) :: u32);
          (rc, c, w) = send_all c (wire_header (msg_code type) body_len) w
      in if rc < 0 then (-1, c, w)
         else if body_len = 0 then (0, c, w)
         else
           let (rc, c, w) = send_all c (take (unat body_len) body) w in
           if rc < 0 then (-1, c, w) else (0, c, w))"

text \<open>A body is received into the client's buffer, which grows when it is too small.\<close>

definition recv_body :: "GravelDBClient \<Rightarrow> u32 \<Rightarrow> World \<Rightarrow> bytes option \<times> GravelDBClient \<times> World" where
  "recv_body c body_len w =
     (let (ok, c, w) =
        (if ucast body_len > gc_recv_cap c then
           let c = c\<lparr>gc_recv_cap := ucast body_len\<rparr>; (ok, w) = ask w
           in (ok, c\<lparr>gc_recv_room := (if ok then ucast body_len else 0)\<rparr>, w)
         else (True, c, w))
      in if \<not> ok then (None, c, w)
         else if gc_recv_room c < ucast body_len then (None, c, w)
         else let (r, c) = recv_all c (unat body_len) in (r, c, w))"

definition recv_response :: "GravelDBClient \<Rightarrow> World \<Rightarrow> (u32 \<times> bytes) option \<times> GravelDBClient \<times> World" where
  "recv_response c w =
     (let (header, c) = recv_all c 12 in
      case header of
        None \<Rightarrow> (None, c, w)
      | Some header \<Rightarrow>
          if wire_get_u32 header 0 \<noteq> GRAVELDB_WIRE_MAGIC then (None, c, w)
          else
            let status = wire_get_u32 header 4; body_len = wire_get_u32 header 8 in
            if body_len > 0 then
              let (body, c, w) = recv_body c body_len w in (map_option (Pair status) body, c, w)
            else (Some (status, []), c, w))"

text \<open>
  Connecting: the socket, the address and the connection may fail. The two buffers are not checked.
\<close>

definition graveldb_client_connect :: "int \<Rightarrow> bytes \<Rightarrow> World \<Rightarrow> GravelDBClient option \<times> World" where
  "graveldb_client_connect fd incoming w =
     (let (ok, w) = ask w in
      if \<not> ok \<or> fd < 0 then (None, w)
      else
        let (resolved, w) = ask w in
        if \<not> resolved then (None, w)
        else
          let (connected, w) = ask w in
          if \<not> connected then (None, w)
          else
            let (s, w) = ask w; (r, w) = ask w in
            (Some \<lparr>gc_fd = fd, gc_send_cap = 1024 * 1024, gc_send_room = (if s then 1024 * 1024 else 0),
                   gc_recv_cap = 1024 * 1024, gc_recv_room = (if r then 1024 * 1024 else 0), gc_pending = 0,
                   gc_in = incoming, gc_out = []\<rparr>, w))"

subsection \<open>Pull\<close>

text \<open>
  The request body is built in the send buffer. \<^verbatim>\<open>graveldb_client_pull\<close> does not check the \<^verbatim>\<open>realloc\<close>;
  \<^verbatim>\<open>graveldb_client_pull_send\<close> and \<^verbatim>\<open>push_serialize\<close> keep the old buffer, but have already noted the new
  capacity.
\<close>

datatype grow = Grown | GrowFailed

definition grow_send :: "bool \<Rightarrow> GravelDBClient \<Rightarrow> nat \<Rightarrow> World \<Rightarrow> grow \<times> GravelDBClient \<times> World" where
  "grow_send keep c body_len w =
     (if of_nat body_len > gc_send_cap c then
        let c = c\<lparr>gc_send_cap := of_nat body_len\<rparr>; (ok, w) = ask w
        in if ok then (Grown, c\<lparr>gc_send_room := of_nat body_len\<rparr>, w)
           else (GrowFailed, if keep then c else c\<lparr>gc_send_room := 0\<rparr>, w)
      else (Grown, c, w))"

definition ids_body :: "u64 list \<Rightarrow> bytes" where
  "ids_body ids = u32_bytes (of_nat (length ids)) @ concat (map u64_bytes ids)"

text \<open>The length \<^verbatim>\<open>4 + n * 8\<close> is computed as \<^verbatim>\<open>int\<close>, so that many identifiers are undefined behaviour.\<close>

definition send_ids :: "graveldb_msg_type \<Rightarrow> GravelDBClient \<Rightarrow> u64 list \<Rightarrow> World \<Rightarrow> (int \<times> GravelDBClient \<times> World) option" where
  "send_ids type c ids w =
     (if 2 ^ 31 \<le> 4 + length ids * 8 \<or> unat (gc_send_room c) < length (ids_body ids) then None
      else Some (send_request c type (ids_body ids) w))"

text \<open>
  The caller's buffers are given by a flag per feature that tells whether there is one; the result
  lists, for the entries that the response has, the dimension and what was copied.
\<close>

type_synonym pulled = "(int \<times> bytes option) list"

fun read_entries :: "bytes \<Rightarrow> bool list \<Rightarrow> nat \<Rightarrow> nat \<Rightarrow> pulled option" where
  "read_entries body wants 0 ptr = Some []"
| "read_entries body wants (Suc n) ptr =
     (if \<not> ptr < length body then Some []
      else case wants of
        [] \<Rightarrow> None
      | wanted # wants \<Rightarrow> do {
          dim \<leftarrow> peek_u32 body ptr;
          let ptr = ptr + 4;
          if dim > 0 \<and> wanted then do {
            rest \<leftarrow> read_entries body wants n (ptr + unat dim * 4);
            Some ((sint dim, peek body ptr (unat dim * 4)) # rest)
          }
          else do {
            rest \<leftarrow> read_entries body wants n ptr;
            Some ((sint dim, None) # rest)
          }
        })"

definition graveldb_client_pull ::
  "GravelDBClient \<Rightarrow> u64 list \<Rightarrow> bool list \<Rightarrow> World \<Rightarrow> (int \<times> pulled \<times> GravelDBClient \<times> World) option" where
  "graveldb_client_pull c ids wants w = do {
     let (g, c, w) = grow_send False c (4 + length ids * 8) w;
     (rc, c, w) \<leftarrow> send_ids GRAVELDB_MSG_PULL c ids w;
     if rc < 0 then Some (-1, [], c, w)
     else
       (case recv_response c w of
          (None, c, w) \<Rightarrow> Some (-1, [], c, w)
        | (Some (status, body), c, w) \<Rightarrow>
            if status \<noteq> wire_status_code GRAVELDB_WIRE_OK \<or> length body < 4 then Some (-1, [], c, w)
            else do {
              es \<leftarrow> read_entries body wants (unat (wire_get_u32 body 0)) 4;
              Some (0, es, c, w)
            })
   }"

definition graveldb_client_pull_send :: "GravelDBClient \<Rightarrow> u64 list \<Rightarrow> World \<Rightarrow> (int \<times> GravelDBClient \<times> World) option" where
  "graveldb_client_pull_send c ids w = do {
     let (g, c, w) = grow_send True c (4 + length ids * 8) w;
     if g = GrowFailed then Some (-1, c, w)
     else do {
       (rc, c, w) \<leftarrow> send_ids GRAVELDB_MSG_PULL c ids w;
       if rc < 0 then Some (-1, c, w) else Some (0, c\<lparr>gc_pending := gc_pending c + 1\<rparr>, w)
     }
   }"

text \<open>The receiving half never goes beyond the caller's \<^verbatim>\<open>n\<close> entries.\<close>

definition graveldb_client_pull_recv ::
  "GravelDBClient \<Rightarrow> bool list \<Rightarrow> World \<Rightarrow> (int \<times> pulled \<times> GravelDBClient \<times> World) option" where
  "graveldb_client_pull_recv c wants w =
     (case recv_response c w of
        (None, c, w) \<Rightarrow> Some (-1, [], c, w)
      | (Some (status, body), c, w) \<Rightarrow>
          let c' = c\<lparr>gc_pending := gc_pending c - 1\<rparr> in
          if status \<noteq> wire_status_code GRAVELDB_WIRE_OK \<or> length body < 4 then Some (-1, [], c', w)
          else do {
            es \<leftarrow> read_entries body wants (min (unat (wire_get_u32 body 0)) (length wants)) 4;
            Some (0, es, c', w)
          })"

subsection \<open>Streaming pull\<close>

text \<open>
  The entries of one frame, from an offset in it. The length of a frame is checked only against its
  first integer; what is left of the caller's buffers is returned for the next frame.
\<close>

function frame_loop :: "bytes \<Rightarrow> bool list \<Rightarrow> nat \<Rightarrow> (pulled \<times> bool list) option" where
  "frame_loop frame wants ptr =
     (if \<not> ptr < length frame then Some ([], wants)
      else case wants of
        [] \<Rightarrow> Some ([], [])
      | wanted # rest_wants \<Rightarrow>
          peek_u32 frame ptr \<bind> (\<lambda>dim.
            frame_loop frame rest_wants (ptr + 4 + unat dim * 4) \<bind> (\<lambda>(es, left).
              Some ((sint dim, if dim > 0 \<and> wanted then peek frame (ptr + 4) (unat dim * 4) else None) # es, left))))"
  by pat_completeness auto
termination
  by (relation "measure (\<lambda>(frame, wants, ptr). length wants)") auto

declare frame_loop.simps [simp del]

text \<open>The frames up to the terminator; each takes at least four bytes off the stream.\<close>

lemma recv_all_less: "recv_all c n = (Some bs, c') \<Longrightarrow> length (gc_in c') + n = length (gc_in c)"
  by (auto simp: recv_all_def split: if_splits)

lemma recv_body_less: "recv_body c n w = (Some bs, c', w') \<Longrightarrow> length (gc_in c') \<le> length (gc_in c)"
  by (auto simp: recv_body_def recv_all_def Let_def split_beta split: if_splits)

function frames_loop :: "GravelDBClient \<Rightarrow> bool \<Rightarrow> bool list \<Rightarrow> World \<Rightarrow> (int \<times> pulled \<times> GravelDBClient \<times> World) option" where
  "frames_loop c first_frame wants w =
     (case recv_all c 4 of
        (None, c) \<Rightarrow> Some (-1, [], c, w)
      | (Some len, c') \<Rightarrow>
          (let frame_len = wire_get_u32 len 0 in
           if frame_len = 0 then Some (0, [], c', w)
           else
             case recv_body c' frame_len w of
               (None, c'', w') \<Rightarrow> Some (-1, [], c'', w')
             | (Some frame, c'', w') \<Rightarrow>
                 (if first_frame \<and> frame_len < 4 then Some (-1, [], c'', w')
                  else
                    frame_loop frame wants (if first_frame then 4 else 0) \<bind> (\<lambda>(es, left).
                      frames_loop c'' False left w' \<bind> (\<lambda>(rc, es', c, w). Some (rc, es @ es', c, w))))))"
  by pat_completeness auto
termination
  by (relation "measure (\<lambda>(c, f, wants, w). length (gc_in c))")
    (auto dest!: recv_all_less recv_body_less sym [of _ "recv_all _ _"] sym [of _ "recv_body _ _ _"])

declare frames_loop.simps [simp del]

text \<open>A response that is not a stream is read like that of a plain pull.\<close>

definition graveldb_client_pull_stream ::
  "GravelDBClient \<Rightarrow> u64 list \<Rightarrow> bool list \<Rightarrow> World \<Rightarrow> (int \<times> pulled \<times> GravelDBClient \<times> World) option" where
  "graveldb_client_pull_stream c ids wants w = do {
     let (g, c, w) = grow_send False c (4 + length ids * 8) w;
     if g = GrowFailed then Some (-1, [], c, w)
     else do {
       (rc, c, w) \<leftarrow> send_ids GRAVELDB_MSG_PULL_STREAM c ids w;
       if rc < 0 then Some (-1, [], c, w)
       else
         (case recv_all c 12 of
            (None, c) \<Rightarrow> Some (-1, [], c, w)
          | (Some header, c) \<Rightarrow>
              let status = wire_get_u32 header 4; sentinel = wire_get_u32 header 8 in
              if wire_get_u32 header 0 \<noteq> GRAVELDB_WIRE_MAGIC \<or> status \<noteq> wire_status_code GRAVELDB_WIRE_OK then Some (-1, [], c, w)
              else if sentinel \<noteq> GRAVELDB_WIRE_STREAM_SENTINEL then
                (case recv_body c sentinel w of
                   (None, c, w) \<Rightarrow> Some (-1, [], c, w)
                 | (Some body, c, w) \<Rightarrow>
                     if length body < 4 then Some (-1, [], c, w)
                     else do {
                       es \<leftarrow> read_entries body wants (min (unat (wire_get_u32 body 0)) (length wants)) 4;
                       Some (0, es, c, w)
                     })
              else frames_loop c True wants w)
     }
   }"

subsection \<open>Push and the other requests\<close>

definition item_bytes :: "u64 \<times> emb \<Rightarrow> bytes" where
  "item_bytes it = u64_bytes (fst it) @ u32_bytes (of_nat (length (snd it))) @ emb_data (snd it)"

text \<open>The dimension of an embedding is the length of its list.\<close>

definition push_body :: "(u64 \<times> emb) list \<Rightarrow> bytes" where
  "push_body items = u32_bytes (of_nat (length items)) @ concat (map item_bytes items)"

definition push_serialize :: "GravelDBClient \<Rightarrow> (u64 \<times> emb) list \<Rightarrow> World \<Rightarrow> (bytes option \<times> GravelDBClient \<times> World) option" where
  "push_serialize c items w =
     (let body = push_body items; (g, c, w) = grow_send True c (length body) w in
      if g = GrowFailed then Some (None, c, w)
      else if unat (gc_send_room c) < length body then None
      else Some (Some body, c, w))"

definition client_status :: "GravelDBClient \<Rightarrow> World \<Rightarrow> int \<times> GravelDBClient \<times> World" where
  "client_status c w =
     (case recv_response c w of
        (None, c, w) \<Rightarrow> (-1, c, w)
      | (Some (status, body), c, w) \<Rightarrow> (if status = wire_status_code GRAVELDB_WIRE_OK then 0 else -1, c, w))"

definition graveldb_client_push :: "GravelDBClient \<Rightarrow> (u64 \<times> emb) list \<Rightarrow> World \<Rightarrow> (int \<times> GravelDBClient \<times> World) option" where
  "graveldb_client_push c items w = do {
     (body, c, w) \<leftarrow> push_serialize c items w;
     (case body of
        None \<Rightarrow> Some (-1, c, w)
      | Some body \<Rightarrow>
          let (rc, c, w) = send_request c GRAVELDB_MSG_PUSH body w in
          if rc < 0 then Some (-1, c, w) else Some (client_status c w))
   }"

definition graveldb_client_push_async :: "GravelDBClient \<Rightarrow> (u64 \<times> emb) list \<Rightarrow> World \<Rightarrow> (int \<times> GravelDBClient \<times> World) option" where
  "graveldb_client_push_async c items w = do {
     (body, c, w) \<leftarrow> push_serialize c items w;
     (case body of
        None \<Rightarrow> Some (-1, c, w)
      | Some body \<Rightarrow>
          let (rc, c, w) = send_request c GRAVELDB_MSG_PUSH body w in
          if rc < 0 then Some (-1, c, w) else Some (0, c\<lparr>gc_pending := gc_pending c + 1\<rparr>, w))
   }"

text \<open>\<^verbatim>\<open>graveldb_client_await\<close> reads up to a number of outstanding responses and counts the errors.\<close>

fun await_loop :: "nat \<Rightarrow> int \<Rightarrow> GravelDBClient \<Rightarrow> World \<Rightarrow> int \<times> GravelDBClient \<times> World" where
  "await_loop 0 errors c w = (errors, c, w)"
| "await_loop (Suc n) errors c w =
     (if gc_pending c > 0 then
        case recv_response c w of
          (None, c, w) \<Rightarrow> (-1, c, w)
        | (Some (status, body), c, w) \<Rightarrow>
            await_loop n (if status \<noteq> wire_status_code GRAVELDB_WIRE_OK then errors + 1 else errors)
              (c\<lparr>gc_pending := gc_pending c - 1\<rparr>) w
      else (errors, c, w))"

definition graveldb_client_await :: "GravelDBClient \<Rightarrow> int \<Rightarrow> World \<Rightarrow> int \<times> GravelDBClient \<times> World" where
  "graveldb_client_await c max_drain w =
     await_loop (nat (if max_drain \<le> 0 then gc_pending c else max_drain)) 0 c w"

definition graveldb_client_pending :: "GravelDBClient \<Rightarrow> int" where
  "graveldb_client_pending c = gc_pending c"

definition graveldb_client_delete :: "GravelDBClient \<Rightarrow> u64 list \<Rightarrow> World \<Rightarrow> (int \<times> GravelDBClient \<times> World) option" where
  "graveldb_client_delete c ids w = do {
     let (g, c, w) = grow_send False c (4 + length ids * 8) w;
     (rc, c, w) \<leftarrow> send_ids GRAVELDB_MSG_DELETE c ids w;
     if rc < 0 then Some (-1, c, w) else Some (client_status c w)
   }"

definition client_command :: "graveldb_msg_type \<Rightarrow> GravelDBClient \<Rightarrow> World \<Rightarrow> int \<times> GravelDBClient \<times> World" where
  "client_command type c w =
     (let (rc, c, w) = send_request c type [] w in if rc < 0 then (-1, c, w) else client_status c w)"

definition graveldb_client_flush :: "GravelDBClient \<Rightarrow> World \<Rightarrow> int \<times> GravelDBClient \<times> World" where
  "graveldb_client_flush = client_command GRAVELDB_MSG_FLUSH"

definition graveldb_client_checkpoint :: "GravelDBClient \<Rightarrow> World \<Rightarrow> int \<times> GravelDBClient \<times> World" where
  "graveldb_client_checkpoint = client_command GRAVELDB_MSG_CHECKPOINT"

definition graveldb_client_ping :: "GravelDBClient \<Rightarrow> World \<Rightarrow> int \<times> GravelDBClient \<times> World" where
  "graveldb_client_ping = client_command GRAVELDB_MSG_PING"

definition CLIENT_STATS_SIZE :: nat where
  "CLIENT_STATS_SIZE = 64"

definition graveldb_client_stats :: "GravelDBClient \<Rightarrow> World \<Rightarrow> bytes option \<times> GravelDBClient \<times> World" where
  "graveldb_client_stats c w =
     (let (rc, c, w) = send_request c GRAVELDB_MSG_STATS [] w in
      if rc < 0 then (None, c, w)
      else case recv_response c w of
        (None, c, w) \<Rightarrow> (None, c, w)
      | (Some (status, body), c, w) \<Rightarrow>
          (if status \<noteq> wire_status_code GRAVELDB_WIRE_OK \<or> length body < CLIENT_STATS_SIZE then None
           else Some (take CLIENT_STATS_SIZE body), c, w))"

end
