(* ===== verification/Net_Pull.thy ===== *)
theory Net_Pull
  imports Net_Messages Net_Client
begin

text \<open>
  Pulls over the network, from the client through the server to the store and back. The first half
  follows the server: it splits the features into chunks of 64, reads each chunk into the scratch
  area and appends the entries to a response, or sends them as a frame. The second half follows the
  client: what it sends is parsed as the list of features, and what the server sends is read back as
  the answers of the store.
\<close>

subsection \<open>Responses when memory is at hand\<close>

lemma arena_alloc_all_ok: "all_ok w \<Longrightarrow> fst (arena_alloc a sz w) \<noteq> None \<and> all_ok (snd (snd (arena_alloc a sz w)))"
  by (simp add: arena_alloc_def Let_def split_beta)

text \<open>The response under construction; nothing but it and the arena changes while it grows.\<close>

definition building :: "bytes \<Rightarrow> ClientConn \<Rightarrow> bool" where
  "building bs c \<longleftrightarrow> (\<exists>ch. cn_cur c = Some ch \<and> sc_data ch = bs \<and> sc_sent ch = 0)"

definition conn_rest :: "ClientConn \<Rightarrow> int \<times> bool \<times> bytes \<times> u64 \<times> SendChunk list \<times> bytes" where
  "conn_rest c = (cn_fd c, cn_has_buf c, cn_recv_buf c, cn_recv_cap c, cn_send c, cn_wire c)"

lemma response_begin_ok:
  assumes "all_ok w"
  shows "\<exists>c' w'. response_begin c st w = (c', w') \<and> all_ok w' \<and> building (wire_header (wire_status_code st) 0) c' \<and>
    cn_async c' = cn_async c \<and> conn_rest c' = conn_rest c"
  using arena_alloc_all_ok [OF assms, of "cn_arena c" SEND_CHUNK_SIZE]
  by (auto simp: response_begin_def chunk_arena_new_def building_def conn_rest_def split_beta Let_def)

lemma response_append_ok:
  assumes "all_ok w" and "building bs c"
  shows "\<exists>c' w'. response_append c d w = (c', w') \<and> all_ok w' \<and> building (bs @ d) c' \<and>
    cn_async c' = cn_async c \<and> conn_rest c' = conn_rest c"
  using arena_alloc_all_ok [OF assms(1), of "cn_arena c" "of_nat ((length bs + length d) * 2)"] assms
  by (auto simp: response_append_def building_def conn_rest_def split_beta Let_def)

lemma put_header: "put_at (wire_header code 0 @ body) 8 (u32_bytes n) = wire_header code n @ body"
  by (simp add: put_at_def wire_header_def)

definition response_bytes :: "u32 \<Rightarrow> bytes \<Rightarrow> bytes" where
  "response_bytes code body = wire_header code (of_nat (length body)) @ body"

lemma response_finish_ok:
  assumes "building (wire_header code 0 @ body) c"
  shows "\<exists>ch. response_finish c = c\<lparr>cn_send := cn_send c @ [ch], cn_cur := None\<rparr> \<and>
    chunk_rest ch = response_bytes code body"
  using assms by (auto simp: response_bytes_def building_def response_finish_def enqueue_def put_header GRAVELDB_WIRE_HEADER_SIZE_def chunk_rest_def)

subsection \<open>The scratch area\<close>

lemma fill_slots_ok:
  assumes "\<forall>v. Some v \<in> set out \<longrightarrow> length v \<le> SLOT_BYTES" and "(i + length out) * SLOT_BYTES \<le> length scratch"
  shows "\<exists>s'. fill_slots i out scratch = Some s' \<and> length s' = length scratch \<and>
    take (i * SLOT_BYTES) s' = take (i * SLOT_BYTES) scratch \<and>
    (\<forall>j < length out. \<forall>v. out ! j = Some v \<longrightarrow> take (length v) (drop ((i + j) * SLOT_BYTES) s') = v)"
  using assms
proof (induction out arbitrary: i scratch)
  case (Cons x out)
  have le: "Suc i * SLOT_BYTES \<le> length scratch"
    using Cons.prems(2) by (rule order_trans [rotated]) simp
  show ?case
  proof (cases x)
    case None
    obtain s' where s: "fill_slots (Suc i) out scratch = Some s'" "length s' = length scratch"
        "take (Suc i * SLOT_BYTES) s' = take (Suc i * SLOT_BYTES) scratch"
        "\<forall>j < length out. \<forall>v. out ! j = Some v \<longrightarrow> take (length v) (drop ((Suc i + j) * SLOT_BYTES) s') = v"
      using Cons.IH [of "Suc i" scratch] Cons.prems by auto
    have "take (i * SLOT_BYTES) s' = take (i * SLOT_BYTES) scratch"
      using arg_cong [OF s(3), of "take (i * SLOT_BYTES)"] by (simp add: min_def)
    then show ?thesis
      using s None by (auto simp: nth_Cons split: nat.splits)
  next
    case (Some v)
    have v: "length v \<le> SLOT_BYTES"
      using Cons.prems(1) Some by simp
    let ?s = "put_at scratch (i * SLOT_BYTES) v"
    have len: "length ?s = length scratch"
      using v le by simp
    obtain s' where s: "fill_slots (Suc i) out ?s = Some s'" "length s' = length scratch"
        "take (Suc i * SLOT_BYTES) s' = take (Suc i * SLOT_BYTES) ?s"
        "\<forall>j < length out. \<forall>v. out ! j = Some v \<longrightarrow> take (length v) (drop ((Suc i + j) * SLOT_BYTES) s') = v"
      using Cons.IH [of "Suc i" ?s] Cons.prems len by auto
    have "take (i * SLOT_BYTES) s' = take (i * SLOT_BYTES) scratch"
      using arg_cong [OF s(3), of "take (i * SLOT_BYTES)"] le by (simp add: min_def put_at_def)
    moreover have "take (length v) (drop (i * SLOT_BYTES) s') = take (length v) (drop (i * SLOT_BYTES) ?s)"
      using arg_cong [OF s(3), of "\<lambda>xs. take (length v) (drop (i * SLOT_BYTES) xs)"] v by (simp add: drop_take min_def)
    ultimately show ?thesis
      using s Some v le slice_put_same [of "i * SLOT_BYTES" v scratch] by (auto simp: nth_Cons split: nat.splits)
  qed
qed simp

subsection \<open>The entries of a response\<close>

definition entry_wire :: "int \<times> bytes option \<Rightarrow> bytes" where
  "entry_wire e = u32_bytes (word_of_int (fst e)) @ (if fst e = 0 then [] else take (4 * nat (fst e)) (the (snd e)))"

text \<open>An answer that fits into its place of the scratch area and has all its floats.\<close>

definition slot_fits :: "int \<times> bytes option \<Rightarrow> bool" where
  "slot_fits e \<longleftrightarrow>
     (case snd e of None \<Rightarrow> fst e = 0 | Some v \<Rightarrow> 0 \<le> fst e \<and> 4 * nat (fst e) \<le> length v \<and> length v \<le> SLOT_BYTES)"

definition in_slots :: "nat \<Rightarrow> (int \<times> bytes option) list \<Rightarrow> bytes \<Rightarrow> bool" where
  "in_slots i es scratch \<longleftrightarrow> (\<forall>j < length es. fst (es ! j) \<noteq> 0 \<longrightarrow>
     peek scratch ((i + j) * SLOT_BYTES) (4 * nat (fst (es ! j))) = Some (take (4 * nat (fst (es ! j))) (the (snd (es ! j)))))"

lemma in_slots_Cons: "in_slots i (e # es) scratch \<longleftrightarrow>
    (fst e \<noteq> 0 \<longrightarrow> peek scratch (i * SLOT_BYTES) (4 * nat (fst e)) = Some (take (4 * nat (fst e)) (the (snd e)))) \<and>
    in_slots (Suc i) es scratch"
  unfolding in_slots_def by (simp add: All_less_Suc2)

lemma slot_fits_dim:
  assumes "slot_fits e"
  shows "0 \<le> fst e" "fst e \<le> 1024" "unat (word_of_int (fst e) :: u32) = nat (fst e)" "(word_of_int (fst e) :: u32) > 0 \<longleftrightarrow> fst e \<noteq> 0"
    "sint (word_of_int (fst e) :: u32) = fst e"
proof -
  show d: "0 \<le> fst e" "fst e \<le> 1024"
    using assms by (auto simp: slot_fits_def SLOT_BYTES_def PULL_MAX_DIM_def split: option.splits)
  then show u: "unat (word_of_int (fst e) :: u32) = nat (fst e)"
    by (simp add: unsigned_of_int take_bit_int_eq_self)
  show "(word_of_int (fst e) :: u32) > 0 \<longleftrightarrow> fst e \<noteq> 0"
    using u d by (auto simp: word_less_nat_alt)
  show "sint (word_of_int (fst e) :: u32) = fst e"
    using d by (simp add: signed_of_int signed_take_bit_int_eq_self)
qed

lemma append_entries_ok:
  assumes "all_ok w" and "building bs c" and "in_slots i es scratch" and "\<forall>e \<in> set es. slot_fits e"
  shows "\<exists>c' w'. append_entries i (map fst es) scratch c w = Some (c', w') \<and> all_ok w' \<and>
    building (bs @ concat (map entry_wire es)) c' \<and> cn_async c' = cn_async c \<and> conn_rest c' = conn_rest c"
  using assms
proof (induction es arbitrary: i bs c w)
  case (Cons e es)
  let ?d = "word_of_int (fst e) :: u32" and ?v = "take (4 * nat (fst e)) (the (snd e))"
  note d = slot_fits_dim [of e]
  obtain c1 w1 where one: "response_append c (u32_bytes ?d) w = (c1, w1)" "all_ok w1" "building (bs @ u32_bytes ?d) c1"
      "cn_async c1 = cn_async c" "conn_rest c1 = conn_rest c"
    using response_append_ok [OF Cons.prems(1,2)] by metis
  obtain c2 w2 where two: "append_entries i (map fst (e # es)) scratch c w = append_entries (Suc i) (map fst es) scratch c2 w2"
      "all_ok w2" "building (bs @ entry_wire e) c2" "cn_async c2 = cn_async c" "conn_rest c2 = conn_rest c"
  proof (cases "fst e = 0")
    case True
    then show ?thesis
      using that [of c1 w1] one d(4) Cons.prems(4) by (simp add: entry_wire_def)
  next
    case False
    obtain c2 w2 where "response_append c1 ?v w1 = (c2, w2)" "all_ok w2" "building ((bs @ u32_bytes ?d) @ ?v) c2"
        "cn_async c2 = cn_async c1" "conn_rest c2 = conn_rest c1"
      using response_append_ok [OF one(2,3)] by metis
    then show ?thesis
      using that [of c2 w2] one d(3,4) Cons.prems(3,4) False by (simp add: entry_wire_def in_slots_Cons mult.commute)
  qed
  show ?case
    using Cons.IH [OF two(2,3), of "Suc i"] Cons.prems(3,4) two(1,4,5) by (auto simp: in_slots_Cons)
qed simp

subsection \<open>One chunk\<close>

lemma take_shorter: "take n xs = v \<Longrightarrow> m \<le> n \<Longrightarrow> take m xs = take m v"
  by (metis min.absorb1 take_take)

abbreviation (input) ask_all :: "GravelDB \<Rightarrow> u64 list \<Rightarrow> (int \<times> bytes option) list" where
  "ask_all db ids \<equiv> map (\<lambda>k. answer db (k, True)) ids"

definition pulling :: "u64 list \<Rightarrow> nat \<Rightarrow> ConnAsyncCtx \<Rightarrow> bool" where
  "pulling ids off a \<longleftrightarrow> as_feat_ids a = ids \<and> as_count a = of_nat (length ids) \<and> as_offset a = of_nat off \<and>
     length (as_chunk_scratch a) = unat PULL_CHUNK_SIZE * SLOT_BYTES"

lemma chunk_submit_ok:
  assumes "store_readable db" and "all_ok w" and "pulling ids off a" and "off < length ids" and "length ids \<le> 65536"
    and "\<forall>k \<in> set ids. slot_fits (answer db (k, True))"
  defines "chunk \<equiv> take 64 (drop off ids)"
  shows "\<exists>a' w'. chunk_submit db a w = Some (False, db, a', w') \<and> all_ok w' \<and> pulling ids off a' \<and>
    as_chunk_dims a' = map fst (ask_all db chunk) \<and> in_slots 0 (ask_all db chunk) (as_chunk_scratch a') \<and>
    as_chunk_n a' = of_nat (length chunk) \<and> as_first_frame a' = as_first_frame a"
proof -
  have c: "unat (as_count a) = length ids" "unat (as_offset a) = off"
    using assms(3-5) by (simp_all add: pulling_def unat_of_nat)
  have n: "unat (min (as_count a - as_offset a) PULL_CHUNK_SIZE) = min (length ids - off) 64"
    using c assms(4) by (auto simp: min_def PULL_CHUNK_SIZE_def word_le_nat_alt unat_sub)
  have chunk: "take (unat (min (as_count a - as_offset a) PULL_CHUNK_SIZE)) (drop (unat (as_offset a)) (as_feat_ids a)) = chunk"
    unfolding n c(2) using assms(3) by (auto simp: pulling_def chunk_def min_def)
  have nw: "min (as_count a - as_offset a) PULL_CHUNK_SIZE = of_nat (length chunk)"
    using arg_cong [OF n, of "of_nat :: nat \<Rightarrow> u32"] by (simp add: chunk_def min.commute)
  have ne: "chunk \<noteq> []"
    using assms(4) by (simp add: chunk_def)
  obtain st out w' where g: "graveldb_batch_get_submit db (map (\<lambda>k. (k, True)) chunk) w =
        Some (GRAVELDB_OK, st, out, map fst (ask_all db chunk), db, w')" "all_ok w'"
      "graveldb_batch_get_poll db st out = Some (GRAVELDB_OK, None, map snd (ask_all db chunk))"
    using batch_get_submit_ok [OF assms(1,2), of "map (\<lambda>k. (k, True)) chunk"] by (auto simp: comp_def)
  have sub: "set chunk \<subseteq> set ids" "length chunk \<le> 64"
    by (auto simp: chunk_def dest: in_set_takeD in_set_dropD)
  have fit: "\<forall>e \<in> set (ask_all db chunk). slot_fits e"
    using assms(6) sub(1) by auto
  then have "\<forall>v. Some v \<in> set (map snd (ask_all db chunk)) \<longrightarrow> length v \<le> SLOT_BYTES"
    by (fastforce simp: slot_fits_def dest: sym [of "Some _"])
  moreover have "(0 + length (map snd (ask_all db chunk))) * SLOT_BYTES \<le> length (as_chunk_scratch a)"
    using assms(3) sub(2) by (simp add: pulling_def PULL_CHUNK_SIZE_def)
  ultimately obtain s' where s: "fill_slots 0 (map snd (ask_all db chunk)) (as_chunk_scratch a) = Some s'" "length s' = length (as_chunk_scratch a)"
      "\<forall>j < length chunk. \<forall>v. map snd (ask_all db chunk) ! j = Some v \<longrightarrow> take (length v) (drop (j * SLOT_BYTES) s') = v"
    using fill_slots_ok [of "map snd (ask_all db chunk)" 0 "as_chunk_scratch a"] by auto
  have "in_slots 0 (ask_all db chunk) s'"
    unfolding in_slots_def
  proof (intro allI impI)
    fix j
    assume j: "j < length (ask_all db chunk)" "fst (ask_all db chunk ! j) \<noteq> 0"
    let ?e = "ask_all db chunk ! j"
    obtain v where v: "snd ?e = Some v" "4 * nat (fst ?e) \<le> length v" "length v \<le> SLOT_BYTES"
      using fit [rule_format, OF nth_mem [OF j(1)]] j(2) by (auto simp: slot_fits_def split: option.splits)
    have "take (length v) (drop (j * SLOT_BYTES) s') = v"
      using s(3) j(1) v(1) by simp
    moreover have "(j + 1) * SLOT_BYTES \<le> length s'"
      using j(1) sub(2) s(2) assms(3) by (simp add: pulling_def PULL_CHUNK_SIZE_def)
    ultimately show "peek s' ((0 + j) * SLOT_BYTES) (4 * nat (fst ?e)) = Some (take (4 * nat (fst ?e)) (the (snd ?e)))"
      using v take_shorter [of "length v" "drop (j * SLOT_BYTES) s'" v "4 * nat (fst ?e)"] by (simp add: peek_def)
  qed
  moreover have "chunk_submit db a w = Some (False, db, a\<lparr>as_chunk_n := of_nat (length chunk), as_chunk_dims := map fst (ask_all db chunk),
      as_ag := None, as_out := [], as_chunk_scratch := s'\<rparr>, w')"
    unfolding chunk_submit_def Let_def chunk g(1) using g(3) s(1) ne by (simp add: chunk_done_def nw)
  ultimately show ?thesis
    using g(2) s(2) assms(3) by (simp add: pulling_def)
qed

lemma append_chunk_ok:
  assumes "all_ok w" and "building bs c" and "cn_async c = a" and "pulling ids off a" and "in_slots 0 es (as_chunk_scratch a)"
    and "as_chunk_dims a = map fst es" and "\<forall>e \<in> set es. slot_fits e" and "as_chunk_n a = of_nat (length es)"
  shows "\<exists>c' w'. append_chunk c w = Some (c', w') \<and> all_ok w' \<and> building (bs @ concat (map entry_wire es)) c' \<and>
    pulling ids (off + length es) (cn_async c') \<and> conn_rest c' = conn_rest c"
proof -
  obtain c' w' where "append_entries 0 (as_chunk_dims a) (as_chunk_scratch a) c w = Some (c', w')" "all_ok w'"
      "building (bs @ concat (map entry_wire es)) c'" "cn_async c' = cn_async c" "conn_rest c' = conn_rest c"
    using append_entries_ok [OF assms(1,2,5,7)] assms(6) by auto
  then show ?thesis
    using assms(3,4,8) by (simp add: append_chunk_def building_def conn_rest_def pulling_def)
qed

text \<open>All chunks: the rest of the answers is appended and the response queued.\<close>

lemma pull_submit_next_chunk_ok:
  assumes "store_readable (sv_db srv)" and "all_ok w" and "pulling ids off (cn_async c)" and "off \<le> length ids" and "length ids \<le> 65536"
    and "\<forall>k \<in> set ids. slot_fits (answer (sv_db srv) (k, True))" and "building (wire_header code 0 @ body) c"
  shows "\<exists>c' ch w'. pull_submit_next_chunk srv c w = Some (0, srv, c', w') \<and> all_ok w' \<and> cn_cur c' = None \<and>
    as_state (cn_async c') = CONN_IDLE \<and> conn_rest (c'\<lparr>cn_send := cn_send c\<rparr>) = conn_rest c \<and> cn_send c' = cn_send c @ [ch] \<and>
    chunk_rest ch = response_bytes code (body @ concat (map entry_wire (ask_all (sv_db srv) (drop off ids))))"
  using assms(2-4,7)
proof (induction "length ids - off" arbitrary: c w off body rule: less_induct)
  case less
  let ?a = "cn_async c" and ?db = "sv_db srv" and ?ch = "take 64 (drop off ids)"
  have cnt: "as_offset ?a < as_count ?a \<longleftrightarrow> off < length ids"
    using less.prems(2,3) assms(5) by (simp add: pulling_def word_less_nat_alt unat_of_nat)
  show ?case
  proof (cases "off < length ids")
    case False
    obtain ch where "response_finish c = c\<lparr>cn_send := cn_send c @ [ch], cn_cur := None\<rparr>" "chunk_rest ch = response_bytes code body"
      using response_finish_ok [OF less.prems(4)] by blast
    then show ?thesis
      using False cnt less.prems(1) by (simp add: pull_submit_next_chunk.simps conn_rest_def Let_def)
  next
    case True
    obtain a' w1 where s: "chunk_submit ?db ?a w = Some (False, ?db, a', w1)" "all_ok w1" "pulling ids off a'"
        "as_chunk_dims a' = map fst (ask_all ?db ?ch)" "in_slots 0 (ask_all ?db ?ch) (as_chunk_scratch a')"
        "as_chunk_n a' = of_nat (length ?ch)"
      using chunk_submit_ok [OF assms(1) less.prems(1,2) True assms(5,6)] by blast
    have fit: "\<forall>e \<in> set (ask_all ?db ?ch). slot_fits e"
      using assms(6) by (auto dest: in_set_takeD in_set_dropD)
    have b: "building (wire_header code 0 @ body) (c\<lparr>cn_async := a'\<rparr>)"
      using less.prems(4) by (simp add: building_def)
    obtain c1 w2 where p: "append_chunk (c\<lparr>cn_async := a'\<rparr>) w1 = Some (c1, w2)" "all_ok w2"
        "building ((wire_header code 0 @ body) @ concat (map entry_wire (ask_all ?db ?ch))) c1"
        "pulling ids (off + length ?ch) (cn_async c1)" "conn_rest c1 = conn_rest c"
      using append_chunk_ok [OF s(2) b _ s(3,5,4) fit] s(6) by (auto simp: conn_rest_def)
    have len: "length ids - (off + length ?ch) < length ids - off" "off + length ?ch \<le> length ids"
      using True by auto
    have "pull_submit_next_chunk srv c w = pull_submit_next_chunk srv c1 w2"
      using True cnt s(1) p(1) by (subst pull_submit_next_chunk.simps) simp
    moreover have "?ch @ drop (off + length ?ch) ids = drop off ids"
      using append_take_drop_id [of "length ?ch" "drop off ids"] by (simp add: add.commute min_def split: if_splits)
    then have e: "body @ concat (map entry_wire (ask_all ?db (drop off ids))) =
        (body @ concat (map entry_wire (ask_all ?db ?ch))) @ concat (map entry_wire (ask_all ?db (drop (off + length ?ch) ids)))"
      by (metis append.assoc concat_append map_append)
    have r: "conn_rest (c'\<lparr>cn_send := cn_send c1\<rparr>) = conn_rest c1 \<longleftrightarrow> conn_rest (c'\<lparr>cn_send := cn_send c\<rparr>) = conn_rest c" "cn_send c1 = cn_send c" for c'
      using p(5) by (auto simp: conn_rest_def)
    ultimately show ?thesis
      using less.hyps [OF len(1) p(2,4) len(2), of "body @ concat (map entry_wire (ask_all ?db ?ch))"] p(3)
      unfolding e r by simp
  qed
qed

subsection \<open>A pull request\<close>

lemma peek_ids_append: "off = length xs \<Longrightarrow> peek_ids (length ids) (xs @ concat (map u64_bytes ids) @ ys) off = Some ids"
proof (induction ids arbitrary: xs off)
  case (Cons k ids)
  have "peek_u64 (xs @ u64_bytes k @ concat (map u64_bytes ids) @ ys) off = Some k"
    by (rule peek_u64_append [OF Cons.prems])
  moreover have "peek_ids (length ids) (xs @ u64_bytes k @ concat (map u64_bytes ids) @ ys) (off + 8) = Some ids"
    using Cons.IH [of "off + 8" "xs @ u64_bytes k"] Cons.prems by simp
  ultimately show ?case
    by simp
qed simp

lemma length_ids_body [simp]: "length (ids_body ids) = 4 + 8 * length ids"
  by (simp add: ids_body_def length_concat comp_def sum_list_triv)

definition pull_body :: "GravelDB \<Rightarrow> u64 list \<Rightarrow> bytes" where
  "pull_body db ids = u32_bytes (of_nat (length ids)) @ concat (map entry_wire (ask_all db ids))"

lemma conn_alloc_ok: "all_ok w \<Longrightarrow> \<exists>a w'. conn_alloc c sz w = (True, c\<lparr>cn_arena := a\<rparr>, w') \<and> all_ok w'"
  using arena_alloc_all_ok [of w "cn_arena c" sz] by (auto simp: conn_alloc_def split_beta Let_def)

lemma alloc_scratch_ok:
  "all_ok w \<Longrightarrow> \<exists>s a w'. alloc_scratch c w = (Some s, c\<lparr>cn_arena := a\<rparr>, w') \<and> all_ok w' \<and> length s = unat PULL_CHUNK_SIZE * SLOT_BYTES"
  using arena_alloc_all_ok by (auto simp: alloc_scratch_def split_beta Let_def junk_bytes_def)

lemma pull_request_fields:
  assumes "length ids \<le> 65536"
  defines "n \<equiv> of_nat (length ids) :: u32" and "len \<equiv> of_nat (4 + 8 * length ids) :: u32"
  shows "\<not> len < 4" "peek_u32 (ids_body ids @ rest) 0 = Some n" "\<not> n > GRAVELDB_WIRE_MAX_BATCH" "\<not> len < 4 + n * 8"
    "peek_ids (unat n) (ids_body ids @ rest) 4 = Some ids"
proof -
  have n: "unat n = length ids"
    using assms(1) by (simp add: n_def unat_of_nat)
  have "unat len = 4 + 8 * length ids"
    unfolding len_def unat_of_nat using assms(1) by simp
  then show "\<not> len < 4"
    unfolding word_less_nat_alt by simp
  show "peek_u32 (ids_body ids @ rest) 0 = Some n"
    using peek_u32_append [of 0 "[]" n "concat (map u64_bytes ids) @ rest"] by (simp add: ids_body_def n_def)
  show "\<not> n > GRAVELDB_WIRE_MAX_BATCH"
    using assms(1) n by (simp add: GRAVELDB_WIRE_MAX_BATCH_def word_less_nat_alt)
  show "\<not> len < 4 + n * 8"
    by (simp add: n_def len_def mult.commute)
  show "peek_ids (unat n) (ids_body ids @ rest) 4 = Some ids"
    using peek_ids_append [of 4 "u32_bytes n" ids rest] n by (simp add: ids_body_def n_def)
qed

lemma handle_pull_ok:
  assumes "store_readable (sv_db srv)" and "all_ok w" and "length ids \<le> 65536"
    and "\<forall>k \<in> set ids. slot_fits (answer (sv_db srv) (k, True))"
  shows "\<exists>c' ch w'. handle_pull srv c (ids_body ids @ rest) (of_nat (4 + 8 * length ids)) w = Some (srv, c', w') \<and> all_ok w' \<and>
    cn_cur c' = None \<and> as_state (cn_async c') = CONN_IDLE \<and> conn_rest (c'\<lparr>cn_send := cn_send c\<rparr>) = conn_rest c \<and>
    cn_send c' = cn_send c @ [ch] \<and>
    chunk_rest ch = response_bytes (wire_status_code GRAVELDB_WIRE_OK) (pull_body (sv_db srv) ids)"
proof -
  let ?n = "of_nat (length ids) :: u32" and ?len = "of_nat (4 + 8 * length ids) :: u32"
  let ?b = "ids_body ids @ rest"
  note req = pull_request_fields [OF assms(3)]
  obtain a1 w1 where one: "conn_alloc c (ucast ?n * 8) w = (True, c\<lparr>cn_arena := a1\<rparr>, w1)" "all_ok w1"
    using conn_alloc_ok [OF assms(2)] by blast
  obtain s a2 w2 where two: "alloc_scratch (c\<lparr>cn_arena := a1\<rparr>) w1 = (Some s, c\<lparr>cn_arena := a2\<rparr>, w2)" "all_ok w2"
      "length s = unat PULL_CHUNK_SIZE * SLOT_BYTES"
    using alloc_scratch_ok [OF one(2), of "c\<lparr>cn_arena := a1\<rparr>"] by auto
  obtain c3 w3 where three: "response_begin (c\<lparr>cn_arena := a2\<rparr>) GRAVELDB_WIRE_OK w2 = (c3, w3)" "all_ok w3"
      "building (wire_header (wire_status_code GRAVELDB_WIRE_OK) 0) c3" "conn_rest c3 = conn_rest c"
    using response_begin_ok [OF two(2), of "c\<lparr>cn_arena := a2\<rparr>" GRAVELDB_WIRE_OK] by (auto simp: conn_rest_def)
  obtain c4 w4 where four: "response_append c3 (u32_bytes ?n) w3 = (c4, w4)" "all_ok w4"
      "building (wire_header (wire_status_code GRAVELDB_WIRE_OK) 0 @ u32_bytes ?n) c4" "conn_rest c4 = conn_rest c"
    using response_append_ok [OF three(2,3)] three(4) by metis
  let ?c = "c4\<lparr>cn_async := (cn_async c4)\<lparr>as_state := CONN_ASYNC_PULL, as_feat_ids := ids, as_count := ?n, as_offset := 0,
    as_chunk_scratch := s, as_chunk_dims := [], as_phase := 0\<rparr>\<rparr>"
  have "pulling ids 0 (cn_async ?c)" "building (wire_header (wire_status_code GRAVELDB_WIRE_OK) 0 @ u32_bytes ?n) ?c"
    using two(3) four(3) by (simp_all add: pulling_def building_def)
  then obtain c' ch w' where "pull_submit_next_chunk srv ?c w4 = Some (0, srv, c', w')" "all_ok w'" "cn_cur c' = None"
      "as_state (cn_async c') = CONN_IDLE" "conn_rest (c'\<lparr>cn_send := cn_send ?c\<rparr>) = conn_rest ?c" "cn_send c' = cn_send ?c @ [ch]"
      "chunk_rest ch = response_bytes (wire_status_code GRAVELDB_WIRE_OK) (pull_body (sv_db srv) ids)"
    using pull_submit_next_chunk_ok [OF assms(1) four(2) _ le0 assms(3,4), of ?c "wire_status_code GRAVELDB_WIRE_OK" "u32_bytes ?n"]
    unfolding pull_body_def drop_0 by blast
  moreover have "conn_rest ?c = conn_rest c" "cn_send ?c = cn_send c"
    using four(4) by (auto simp: conn_rest_def)
  moreover have "handle_pull srv c ?b ?len w = do {
      (_, srv, c, w) \<leftarrow> pull_submit_next_chunk srv ?c w4;
      Some (srv, c, w)
    }"
    unfolding handle_pull_def using req one(1) two(1) three(1) four(1) by simp
  ultimately show ?thesis
    by (auto simp: conn_rest_def)
qed

definition request_bytes :: "graveldb_msg_type \<Rightarrow> bytes \<Rightarrow> bytes" where
  "request_bytes m body = wire_header (msg_code m) (of_nat (length body)) @ body"

lemma msg_of_code [simp]: "msg_of (msg_code m) = Some m"
  by (cases m) (simp_all add: msg_of_def)

text \<open>A complete message is handled and removed.\<close>

lemma process_message_step:
  assumes "cn_recv_buf c = request_bytes m body @ rest" and "length body < 2 ^ 32 - 12" and "as_state (cn_async c) = CONN_IDLE"
  shows "process_message srv c w = do {
      (srv, c, w) \<leftarrow> handle_message srv c (msg_code m) (body @ rest) (of_nat (length body)) w;
      Some (1, srv, c\<lparr>cn_recv_buf := rest\<rparr>, w)
    }"
proof -
  have "take 12 (cn_recv_buf c) = wire_header (msg_code m) (of_nat (length body))"
    by (simp add: assms(1) request_bytes_def)
  note h = wire_header_fields [OF this]
  have l: "unat (12 + of_nat (length body) :: u32) = 12 + length body"
    using assms(2) by (simp add: unat_word_ariths unat_of_nat)
  have "drop 12 (cn_recv_buf c) = body @ rest" "drop (12 + length body) (cn_recv_buf c) = rest"
    by (simp_all add: assms(1) request_bytes_def)
  moreover have "\<not> length (cn_recv_buf c) < 12 + length body"
    by (simp add: assms(1) request_bytes_def)
  ultimately show ?thesis
    using h assms(3) l by (simp add: process_message_def GRAVELDB_WIRE_HEADER_SIZE_def)
qed

lemma process_messages_empty: "cn_recv_buf c = [] \<Longrightarrow> process_messages srv c w = Some (0, srv, c, w)"
  by (simp add: process_messages.simps process_message_def GRAVELDB_WIRE_HEADER_SIZE_def)

lemma serve_pull:
  assumes "store_readable (sv_db srv)" and "all_ok w" and "length ids \<le> 65536"
    and "\<forall>k \<in> set ids. slot_fits (answer (sv_db srv) (k, True))"
    and "cn_recv_buf c = request_bytes GRAVELDB_MSG_PULL (ids_body ids)" and "as_state (cn_async c) = CONN_IDLE"
  shows "\<exists>c' w'. process_messages srv c w = Some (0, srv, c', w') \<and> all_ok w' \<and> cn_recv_buf c' = [] \<and> as_state (cn_async c') = CONN_IDLE \<and>
    pending (cn_send c') = pending (cn_send c) @ response_bytes (wire_status_code GRAVELDB_WIRE_OK) (pull_body (sv_db srv) ids)"
proof -
  obtain c' ch w' where h: "handle_pull srv c (ids_body ids @ []) (of_nat (4 + 8 * length ids)) w = Some (srv, c', w')" "all_ok w'" "as_state (cn_async c') = CONN_IDLE"
      "cn_send c' = cn_send c @ [ch]" "chunk_rest ch = response_bytes (wire_status_code GRAVELDB_WIRE_OK) (pull_body (sv_db srv) ids)"
    using handle_pull_ok [OF assms(1-4)] by blast
  have "length (ids_body ids) < 2 ^ 32 - 12"
    using assms(3) by simp
  then have "process_message srv c w = Some (1, srv, c'\<lparr>cn_recv_buf := []\<rparr>, w')"
    using process_message_step [of c GRAVELDB_MSG_PULL "ids_body ids" "[]" srv w] assms(5,6) h(1)
    unfolding handle_message_def msg_of_code length_ids_body by simp
  then have "process_messages srv c w = Some (0, srv, c'\<lparr>cn_recv_buf := []\<rparr>, w')"
    by (subst process_messages.simps) (simp add: process_messages_empty)
  then show ?thesis
    using h(2-5) by simp
qed

subsection \<open>The client's side\<close>

definition client_ready :: "GravelDBClient \<Rightarrow> bool" where
  "client_ready c \<longleftrightarrow> gc_send_room c = gc_send_cap c \<and> gc_recv_room c = gc_recv_cap c"

lemma send_request_ok:
  assumes "all_ok w" and "length body < 2 ^ 32"
  shows "\<exists>w'. send_request c m body w = (0, c\<lparr>gc_out := gc_out c @ request_bytes m body\<rparr>, w') \<and> all_ok w'"
proof -
  have "unat (of_nat (length body) :: u32) = length body"
    using assms(2) by (simp add: unat_of_nat)
  moreover from this have "(of_nat (length body) :: u32) = 0 \<longleftrightarrow> body = []"
    by (simp flip: unsigned_eq_0_iff [where 'a = nat])
  ultimately show ?thesis
    using assms(1) by (auto simp: send_request_def send_all_def request_bytes_def Let_def split_beta)
qed

lemma send_ids_ok:
  assumes "all_ok w" and "client_ready c" and "length ids \<le> 65536"
  shows "\<exists>c1 c' w1 w'. grow_send keep c (4 + length ids * 8) w = (Grown, c1, w1) \<and> send_ids m c1 ids w1 = Some (0, c', w') \<and> all_ok w' \<and>
    client_ready c' \<and> gc_out c' = gc_out c @ request_bytes m (ids_body ids) \<and> gc_in c' = gc_in c \<and> gc_pending c' = gc_pending c"
proof -
  obtain c1 w1 where g: "grow_send keep c (4 + length ids * 8) w = (Grown, c1, w1)" "all_ok w1" "client_ready c1"
      "4 + length ids * 8 \<le> unat (gc_send_room c1)" "gc_out c1 = gc_out c" "gc_in c1 = gc_in c" "gc_pending c1 = gc_pending c"
  proof (cases "of_nat (4 + length ids * 8) > gc_send_cap c")
    case True
    have "unat (of_nat (4 + length ids * 8) :: u64) = 4 + length ids * 8"
      unfolding unat_of_nat using assms(3) by simp
    then show ?thesis
      using that [of "c\<lparr>gc_send_cap := of_nat (4 + length ids * 8), gc_send_room := of_nat (4 + length ids * 8)\<rparr>" "snd (ask w)"]
        assms True unfolding grow_send_def client_ready_def Let_def by (simp add: split_beta)
  next
    case False
    moreover have "unat (of_nat (4 + length ids * 8) :: u64) = 4 + length ids * 8"
      unfolding unat_of_nat using assms(3) by simp
    ultimately show ?thesis
      using that [of c w] assms unfolding grow_send_def client_ready_def word_less_nat_alt by simp
  qed
  obtain w' where "send_request c1 m (ids_body ids) w1 = (0, c1\<lparr>gc_out := gc_out c1 @ request_bytes m (ids_body ids)\<rparr>, w')" "all_ok w'"
    using send_request_ok [OF g(2), of "ids_body ids" c1 m] assms(3) by auto
  then show ?thesis
    using g assms(3) by (simp add: send_ids_def client_ready_def mult.commute)
qed

lemma recv_body_ok:
  assumes "all_ok w" and "client_ready c" and "gc_in c = body @ rest" and "unat (of_nat (length body) :: u32) = length body"
  shows "\<exists>c' w'. recv_body c (of_nat (length body)) w = (Some body, c', w') \<and> all_ok w' \<and> client_ready c' \<and> gc_in c' = rest \<and>
    gc_pending c' = gc_pending c \<and> gc_out c' = gc_out c"
  using assms by (auto simp: recv_body_def recv_all_def client_ready_def Let_def split_beta)

lemma recv_response_ok:
  assumes "all_ok w" and "client_ready c" and "gc_in c = response_bytes code body @ rest" and "length body < 2 ^ 32"
  shows "\<exists>c' w'. recv_response c w = (Some (code, body), c', w') \<and> all_ok w' \<and> client_ready c' \<and> gc_in c' = rest \<and>
    gc_pending c' = gc_pending c \<and> gc_out c' = gc_out c"
proof -
  let ?h = "wire_header code (of_nat (length body))"
  have h: "recv_all c 12 = (Some ?h, c\<lparr>gc_in := body @ rest\<rparr>)"
    by (simp add: recv_all_def assms(3) response_bytes_def)
  note f = wire_header_fields(2-4) [of ?h code "of_nat (length body)"]
  have n: "unat (of_nat (length body) :: u32) = length body"
    using assms(4) by (simp add: unat_of_nat)
  then have z: "(of_nat (length body) :: u32) > 0 \<longleftrightarrow> body \<noteq> []"
    by (simp add: word_less_nat_alt)
  show ?thesis
    using h f z recv_body_ok [OF assms(1) _ _ n, of "c\<lparr>gc_in := body @ rest\<rparr>" rest] assms(1,2)
    by (auto simp: recv_response_def client_ready_def Let_def)
qed

text \<open>What a request gets, as the client reports it.\<close>

definition reported :: "int \<times> bytes option \<Rightarrow> int \<times> bytes option" where
  "reported e = (fst e, if fst e = 0 then None else Some (take (4 * nat (fst e)) (the (snd e))))"

lemma length_entry_wire: "slot_fits e \<Longrightarrow> length (entry_wire e) = 4 + 4 * nat (fst e)"
  by (auto simp: entry_wire_def slot_fits_def split: option.splits)

lemma length_entries:
  "\<forall>e \<in> set es. slot_fits e \<Longrightarrow> length (concat (map entry_wire es)) \<le> 4100 * length es"
proof (induction es)
  case (Cons e es)
  have "nat (fst e) \<le> 1024"
    using slot_fits_dim(2) [of e] Cons.prems by simp
  then show ?case
    using Cons by (simp add: length_entry_wire)
qed simp

text \<open>One entry of a message, wherever it stands.\<close>

lemma entry_at:
  assumes "slot_fits e" and "ptr = length xs"
  shows "peek_u32 (xs @ entry_wire e @ ys) ptr = Some (word_of_int (fst e))"
    and "fst e \<noteq> 0 \<Longrightarrow> peek (xs @ entry_wire e @ ys) (ptr + 4) (4 * nat (fst e)) = Some (take (4 * nat (fst e)) (the (snd e)))"
proof -
  show "peek_u32 (xs @ entry_wire e @ ys) ptr = Some (word_of_int (fst e))"
    unfolding entry_wire_def append.assoc by (rule peek_u32_append [OF assms(2)])
  assume "fst e \<noteq> 0"
  then show "peek (xs @ entry_wire e @ ys) (ptr + 4) (4 * nat (fst e)) = Some (take (4 * nat (fst e)) (the (snd e)))"
    using peek_append [of "ptr + 4" "xs @ u32_bytes (word_of_int (fst e))" "4 * nat (fst e)" "take (4 * nat (fst e)) (the (snd e))" ys] assms
    by (auto simp: entry_wire_def slot_fits_def split: option.splits)
qed

lemma read_entries_ok:
  assumes "\<forall>e \<in> set es. slot_fits e" and "ptr = length xs"
  shows "read_entries (xs @ concat (map entry_wire es)) (replicate (length es) True) (length es) ptr = Some (map reported es)"
  using assms
proof (induction es arbitrary: xs ptr)
  case (Cons e es)
  note d = slot_fits_dim [of e] and at = entry_at [of e ptr xs "concat (map entry_wire es)"]
  have "read_entries (xs @ entry_wire e @ concat (map entry_wire es)) (replicate (length es) True) (length es)
      (ptr + 4 + 4 * nat (fst e)) = Some (map reported es)"
    using Cons.IH [of "ptr + 4 + 4 * nat (fst e)" "xs @ entry_wire e"] Cons.prems by (simp add: length_entry_wire)
  then show ?case
    using Cons.prems at d by (auto simp: reported_def length_entry_wire mult.commute)
qed simp

text \<open>
  C5. A pull over the network gives what the store holds. The bytes that the client sends for a list of
  features make the server answer with one response, after which its receive buffer is empty; reading
  that response back, the client reports for every feature the dimension and the floats that the store
  has for it, and 0 for an unknown one. The store must be readable (no rehash in progress, every
  indexed entry buffered or in its file), no call fails, the list has at most 65536 features, and no
  embedding has more than 1024 floats.
\<close>

theorem pull_roundtrip:
  assumes "store_readable (sv_db srv)" and "\<forall>k \<in> set ids. slot_fits (answer (sv_db srv) (k, True))" and "length ids \<le> 65536"
    and "as_state (cn_async c) = CONN_IDLE" and "cn_recv_buf c = []" and "cn_send c = []" and "all_ok w"
    and "client_ready cl" and "gc_out cl = []" and "all_ok wc"
  shows "\<exists>cl1 w1 c' w' cl2 w2. graveldb_client_pull_send cl ids wc = Some (0, cl1, w1) \<and>
    process_messages srv (c\<lparr>cn_recv_buf := gc_out cl1\<rparr>) w = Some (0, srv, c', w') \<and> cn_recv_buf c' = [] \<and>
    graveldb_client_pull_recv (cl1\<lparr>gc_in := pending (cn_send c')\<rparr>) (replicate (length ids) True) w1 =
      Some (0, map (\<lambda>k. reported (answer (sv_db srv) (k, True))) ids, cl2, w2) \<and>
    gc_in cl2 = [] \<and> gc_pending cl2 = gc_pending cl"
proof -
  let ?db = "sv_db srv" and ?ok = "wire_status_code GRAVELDB_WIRE_OK"
  obtain c0 c1 w0 w1 where s: "grow_send True cl (4 + length ids * 8) wc = (Grown, c0, w0)" "send_ids GRAVELDB_MSG_PULL c0 ids w0 = Some (0, c1, w1)"
      "all_ok w1" "client_ready c1" "gc_out c1 = request_bytes GRAVELDB_MSG_PULL (ids_body ids)" "gc_pending c1 = gc_pending cl"
    using send_ids_ok [OF assms(10,8,3), of True GRAVELDB_MSG_PULL] assms(9) by auto
  let ?cl = "c1\<lparr>gc_pending := gc_pending c1 + 1\<rparr>"
  obtain c' w' where v: "process_messages srv (c\<lparr>cn_recv_buf := gc_out ?cl\<rparr>) w = Some (0, srv, c', w')" "cn_recv_buf c' = []"
      "pending (cn_send c') = response_bytes ?ok (pull_body ?db ids)"
    using serve_pull [OF assms(1,7,3,2), of "c\<lparr>cn_recv_buf := gc_out ?cl\<rparr>"] assms(4,6) s(5) by auto
  have fit: "\<forall>e \<in> set (ask_all ?db ids). slot_fits e"
    using assms(2) by simp
  have len: "length (pull_body ?db ids) < 2 ^ 32" "4 \<le> length (pull_body ?db ids)"
    using length_entries [OF fit] assms(3) by (simp_all add: pull_body_def)
  obtain c2 w2 where r: "recv_response (?cl\<lparr>gc_in := pending (cn_send c')\<rparr>) w1 = (Some (?ok, pull_body ?db ids), c2, w2)" "gc_in c2 = []"
      "gc_pending c2 = gc_pending cl + 1"
    using recv_response_ok [OF s(3), of "?cl\<lparr>gc_in := pending (cn_send c')\<rparr>" ?ok "pull_body ?db ids" "[]"] v(3) len(1) s(4,6)
    by (auto simp: client_ready_def)
  have cnt: "unat (wire_get_u32 (pull_body ?db ids) 0) = length ids"
    using get_u32_append [of "[]" "of_nat (length ids)" "concat (map entry_wire (ask_all ?db ids))"] assms(3)
    by (simp add: pull_body_def unat_of_nat)
  have "read_entries (pull_body ?db ids) (replicate (length ids) True) (length ids) 4 = Some (map reported (ask_all ?db ids))"
    using read_entries_ok [OF fit, of 4 "u32_bytes (of_nat (length ids))"] by (simp add: pull_body_def)
  then have "graveldb_client_pull_recv (?cl\<lparr>gc_in := pending (cn_send c')\<rparr>) (replicate (length ids) True) w1 =
      Some (0, map reported (ask_all ?db ids), c2\<lparr>gc_pending := gc_pending c2 - 1\<rparr>, w2)"
    using r(1) len(2) cnt by (simp add: graveldb_client_pull_recv_def)
  moreover have "graveldb_client_pull_send cl ids wc = Some (0, ?cl, w1)"
    using s(1,2) by (simp add: graveldb_client_pull_send_def)
  ultimately show ?thesis
    using v(1,2) r(2,3) by (simp add: comp_def)
qed

definition demo_server :: GravelServer where
  "demo_server = \<lparr>sv_db = demo_db, sv_readonly = True, sv_async_flush = None, sv_flush_in_flight = False\<rparr>"

definition demo_client :: GravelDBClient where
  "demo_client = \<lparr>gc_fd = 3, gc_send_cap = 1024, gc_send_room = 1024, gc_recv_cap = 8, gc_recv_room = 8, gc_pending = 0, gc_in = [], gc_out = []\<rparr>"

lemma demo_fits: "slot_fits (answer demo_db (7, True))" "slot_fits (answer demo_db (8, True))"
  by (simp_all add: demo_db_ok slot_fits_def SLOT_BYTES_def PULL_MAX_DIM_def)

theorem pull_roundtrip_witness:
  "\<exists>cl1 w1 c' w' cl2 w2. graveldb_client_pull_send demo_client [7, 8] (demo_world {}) = Some (0, cl1, w1) \<and>
     process_messages demo_server (conn_free\<lparr>cn_recv_buf := gc_out cl1\<rparr>) (demo_world {}) = Some (0, demo_server, c', w') \<and>
     graveldb_client_pull_recv (cl1\<lparr>gc_in := pending (cn_send c')\<rparr>) [True, True] w1 =
       Some (0, [(2, Some (replicate 8 5)), (0, None)], cl2, w2)"
proof -
  have "length [7, 8 :: u64] \<le> 65536"
    by simp
  then show ?thesis
    using pull_roundtrip [of demo_server "[7, 8]" conn_free "demo_world {}" demo_client "demo_world {}"] demo_fits
    by (simp add: demo_server_def demo_client_def conn_free_def async_zero_def client_ready_def demo_db_ok demo_world_ok reported_def) blast
qed

subsection \<open>Frames\<close>

definition frame_payload :: "GravelDB \<Rightarrow> bool \<Rightarrow> nat \<Rightarrow> u64 list \<Rightarrow> bytes" where
  "frame_payload db first n chunk = (if first then u32_bytes (of_nat n) else []) @ concat (map entry_wire (ask_all db chunk))"

definition frame_bytes :: "GravelDB \<Rightarrow> bool \<Rightarrow> nat \<Rightarrow> u64 list \<Rightarrow> bytes" where
  "frame_bytes db first n chunk = (let p = frame_payload db first n chunk in u32_bytes (of_nat (length p)) @ p)"

function stream_bytes :: "GravelDB \<Rightarrow> bool \<Rightarrow> nat \<Rightarrow> u64 list \<Rightarrow> bytes" where
  "stream_bytes db first n ids =
     (if ids = [] then u32_bytes 0 else frame_bytes db first n (take 64 ids) @ stream_bytes db False n (drop 64 ids))"
  by pat_completeness auto
termination
  by (relation "measure (\<lambda>(db, first, n, ids). length ids)") auto

declare stream_bytes.simps [simp del]

lemma frame_entries_ok:
  "in_slots i es scratch \<Longrightarrow> \<forall>e \<in> set es. slot_fits e \<Longrightarrow> frame_entries i (map fst es) scratch = Some (concat (map entry_wire es))"
proof (induction es arbitrary: i)
  case (Cons e es)
  then show ?case
    using slot_fits_dim [of e] by (auto simp: in_slots_Cons entry_wire_def mult.commute)
qed simp

lemma payload_size_ok:
  assumes "\<forall>e \<in> set es. slot_fits e"
  shows "sum_list (map (\<lambda>d. 4 + word_of_int d * 4) (map fst es)) = (of_nat (length (concat (map entry_wire es))) :: u64)"
  using assms
proof (induction es)
  case (Cons e es)
  have "(word_of_int (fst e) :: u64) = of_nat (nat (fst e))"
    using slot_fits_dim(1) [of e] Cons.prems by (metis list.set_intros(1) of_int_of_nat_eq of_nat_nat)
  then show ?case
    using Cons by (simp add: length_entry_wire)
qed simp

lemma chunk_arena_new_ok: "all_ok w \<Longrightarrow> \<exists>a w'. chunk_arena_new c w = (Some \<lparr>sc_data = [], sc_cap = SEND_CHUNK_INLINE, sc_sent = 0\<rparr>, c\<lparr>cn_arena := a\<rparr>, w') \<and> all_ok w'"
  using arena_alloc_all_ok [of w "cn_arena c" SEND_CHUNK_SIZE] by (auto simp: chunk_arena_new_def split_beta Let_def)

lemma build_chunk_ok:
  assumes "all_ok w" and "cn_async c = a" and "pulling ids off a" and "in_slots 0 (ask_all db chunk) (as_chunk_scratch a)"
    and "as_chunk_dims a = map fst (ask_all db chunk)" and "\<forall>e \<in> set (ask_all db chunk). slot_fits e"
    and "as_chunk_n a = of_nat (length chunk)" and "length chunk \<le> 64"
  shows "\<exists>c' ch w'. build_chunk c w = Some (c', w') \<and> all_ok w' \<and> pulling ids (off + length chunk) (cn_async c') \<and>
    \<not> as_first_frame (cn_async c') \<and> cn_cur c' = cn_cur c \<and> conn_rest (c'\<lparr>cn_send := cn_send c\<rparr>) = conn_rest c \<and> cn_send c' = cn_send c @ [ch] \<and>
    chunk_rest ch = frame_bytes db (as_first_frame a) (length ids) chunk"
proof -
  let ?p = "frame_payload db (as_first_frame a) (length ids) chunk"
  have small: "length ?p \<le> 4 + 4100 * 64"
    using length_entries [OF assms(6)] assms(8) by (simp add: frame_payload_def)
  have sz: "payload_size a = of_nat (length ?p)"
    using payload_size_ok [OF assms(6)] by (simp add: payload_size_def frame_payload_def assms(5))
  have fs: "unat (4 + payload_size a) = 4 + length ?p" "ucast (payload_size a) = (of_nat (length ?p) :: u32)"
    using small by (simp_all add: sz unat_word_ariths unsigned_of_nat take_bit_nat_eq_self)
  obtain a1 w1 where one: "chunk_arena_new c w = (Some \<lparr>sc_data = [], sc_cap = SEND_CHUNK_INLINE, sc_sent = 0\<rparr>, c\<lparr>cn_arena := a1\<rparr>, w1)" "all_ok w1"
    using chunk_arena_new_ok [OF assms(1)] by blast
  obtain cap a2 w2 where two: "(if 4 + payload_size a > of_nat SEND_CHUNK_INLINE then
       let (ok, c, w) = conn_alloc (c\<lparr>cn_arena := a1\<rparr>) (4 + payload_size a) w1 in (if ok then Some (unat (4 + payload_size a)) else None, c, w)
     else (Some SEND_CHUNK_INLINE, c\<lparr>cn_arena := a1\<rparr>, w1)) = (Some cap, c\<lparr>cn_arena := a2\<rparr>, w2)" "all_ok w2" "4 + length ?p \<le> cap"
  proof (cases "4 + payload_size a > of_nat SEND_CHUNK_INLINE")
    case True
    obtain a2 w2 where "conn_alloc (c\<lparr>cn_arena := a1\<rparr>) (4 + payload_size a) w1 = (True, c\<lparr>cn_arena := a2\<rparr>, w2)" "all_ok w2"
      using conn_alloc_ok [OF one(2), of "c\<lparr>cn_arena := a1\<rparr>" "4 + payload_size a"] by auto
    then show ?thesis
      using that True fs by simp
  next
    case False
    then have "4 + length ?p \<le> SEND_CHUNK_INLINE"
      using fs(1) by (simp add: word_less_nat_alt SEND_CHUNK_INLINE_def)
    then show ?thesis
      using that False one(2) by simp
  qed
  have e: "frame_entries 0 (as_chunk_dims a) (as_chunk_scratch a) = Some (concat (map entry_wire (ask_all db chunk)))"
    using frame_entries_ok [OF assms(4,6)] assms(5) by simp
  have cnt: "as_count a = of_nat (length ids)"
    using assms(3) by (simp add: pulling_def)
  have len: "length (u32_bytes (of_nat (length ?p)) @ ?p) \<le> cap"
    using two(3) by simp
  have "stream_build_frame c w = Some ((enqueue (c\<lparr>cn_arena := a2\<rparr>) \<lparr>sc_data = u32_bytes (of_nat (length ?p)) @ ?p, sc_cap = cap, sc_sent = 0\<rparr>)
      \<lparr>cn_async := a\<lparr>as_first_frame := False\<rparr>\<rparr>, w2)"
    unfolding stream_build_frame_def Let_def assms(2) one(1) split_conv option.case SendChunk.simps two(1) [unfolded Let_def]
    using e len fs(2) cnt by (cases "as_first_frame a") (simp_all add: frame_payload_def)
  then show ?thesis
    using assms(2,3,7) two(2) by (simp add: build_chunk_def enqueue_def conn_rest_def pulling_def chunk_rest_def frame_bytes_def Let_def)
qed

lemma stream_submit_next_chunk_ok:
  assumes "store_readable (sv_db srv)" and "all_ok w" and "pulling ids off (cn_async c)" and "off \<le> length ids" and "length ids \<le> 65536"
    and "\<forall>k \<in> set ids. slot_fits (answer (sv_db srv) (k, True))"
  shows "\<exists>c' chs w'. stream_submit_next_chunk srv c w = Some (0, srv, c', w') \<and> all_ok w' \<and>
    as_state (cn_async c') = CONN_IDLE \<and> conn_rest (c'\<lparr>cn_send := cn_send c\<rparr>) = conn_rest c \<and> cn_send c' = cn_send c @ chs \<and>
    pending chs = stream_bytes (sv_db srv) (as_first_frame (cn_async c)) (length ids) (drop off ids)"
  using assms(2-4)
proof (induction "length ids - off" arbitrary: c w off rule: less_induct)
  case less
  let ?a = "cn_async c" and ?db = "sv_db srv" and ?ch = "take 64 (drop off ids)"
  have cnt: "as_offset ?a < as_count ?a \<longleftrightarrow> off < length ids"
    using less.prems(2,3) assms(5) by (simp add: pulling_def word_less_nat_alt unat_of_nat)
  show ?case
  proof (cases "off < length ids")
    case False
    obtain a1 w1 where "chunk_arena_new c w = (Some \<lparr>sc_data = [], sc_cap = SEND_CHUNK_INLINE, sc_sent = 0\<rparr>, c\<lparr>cn_arena := a1\<rparr>, w1)" "all_ok w1"
      using chunk_arena_new_ok [OF less.prems(1)] by blast
    then show ?thesis
      using False cnt
      by (simp add: stream_submit_next_chunk.simps stream_send_terminator_def enqueue_def conn_rest_def stream_bytes.simps chunk_rest_def)
  next
    case True
    obtain a' w1 where s: "chunk_submit ?db ?a w = Some (False, ?db, a', w1)" "all_ok w1" "pulling ids off a'"
        "as_chunk_dims a' = map fst (ask_all ?db ?ch)" "in_slots 0 (ask_all ?db ?ch) (as_chunk_scratch a')"
        "as_chunk_n a' = of_nat (length ?ch)" "as_first_frame a' = as_first_frame ?a"
      using chunk_submit_ok [OF assms(1) less.prems(1,2) True assms(5,6)] by blast
    have fit: "\<forall>e \<in> set (ask_all ?db ?ch). slot_fits e"
      using assms(6) by (auto dest: in_set_takeD in_set_dropD)
    obtain c1 ch w2 where p: "build_chunk (c\<lparr>cn_async := a'\<rparr>) w1 = Some (c1, w2)" "all_ok w2" "pulling ids (off + length ?ch) (cn_async c1)"
        "\<not> as_first_frame (cn_async c1)" "conn_rest (c1\<lparr>cn_send := cn_send c\<rparr>) = conn_rest c" "cn_send c1 = cn_send c @ [ch]"
        "chunk_rest ch = frame_bytes ?db (as_first_frame a') (length ids) ?ch"
      using build_chunk_ok [OF s(2) _ s(3,5,4) fit s(6), of "c\<lparr>cn_async := a'\<rparr>"] by (auto simp: conn_rest_def)
    have len: "length ids - (off + length ?ch) < length ids - off" "off + length ?ch \<le> length ids"
      using True by auto
    obtain c' chs w' where r: "stream_submit_next_chunk srv c1 w2 = Some (0, srv, c', w')" "all_ok w'" "as_state (cn_async c') = CONN_IDLE"
        "conn_rest (c'\<lparr>cn_send := cn_send c1\<rparr>) = conn_rest c1" "cn_send c' = cn_send c1 @ chs"
        "pending chs = stream_bytes ?db False (length ids) (drop (off + length ?ch) ids)"
      using less.hyps [OF len(1) p(2,3) len(2)] p(4) by auto
    have "stream_submit_next_chunk srv c w = stream_submit_next_chunk srv c1 w2"
      using True cnt s(1) p(1) by (subst stream_submit_next_chunk.simps) simp
    moreover have "drop (off + length ?ch) ids = drop 64 (drop off ids)"
      by (simp add: min_def add.commute)
    ultimately show ?thesis
      using r p(5-7) s(7) True
      by (intro exI [of _ c'] exI [of _ "ch # chs"] exI [of _ w']) (simp add: conn_rest_def stream_bytes.simps [of _ _ _ "drop off ids"])
  qed
qed

lemma handle_pull_stream_ok:
  assumes "store_readable (sv_db srv)" and "all_ok w" and "length ids \<le> 65536"
    and "\<forall>k \<in> set ids. slot_fits (answer (sv_db srv) (k, True))"
  shows "\<exists>c' chs w'. handle_pull_stream srv c (ids_body ids @ rest) (of_nat (4 + 8 * length ids)) w = Some (srv, c', w') \<and> all_ok w' \<and>
    as_state (cn_async c') = CONN_IDLE \<and> cn_send c' = cn_send c @ chs \<and>
    pending chs = wire_header (wire_status_code GRAVELDB_WIRE_OK) GRAVELDB_WIRE_STREAM_SENTINEL @ stream_bytes (sv_db srv) True (length ids) ids"
proof -
  let ?n = "of_nat (length ids) :: u32" and ?len = "of_nat (4 + 8 * length ids) :: u32"
  let ?b = "ids_body ids @ rest"
  note req = pull_request_fields [OF assms(3)]
  obtain a1 w1 where one: "conn_alloc c (ucast ?n * 8) w = (True, c\<lparr>cn_arena := a1\<rparr>, w1)" "all_ok w1"
    using conn_alloc_ok [OF assms(2)] by blast
  let ?hd = "\<lparr>sc_data = wire_header (wire_status_code GRAVELDB_WIRE_OK) GRAVELDB_WIRE_STREAM_SENTINEL, sc_cap = SEND_CHUNK_INLINE, sc_sent = 0\<rparr>"
  obtain c2 w2 where two: "stream_header (c\<lparr>cn_arena := a1\<rparr>) w1 = (True, c2, w2)" "all_ok w2" "cn_send c2 = cn_send c @ [?hd]"
    using chunk_arena_new_ok [OF one(2), of "c\<lparr>cn_arena := a1\<rparr>"] by (auto simp: stream_header_def enqueue_def)
  obtain s a3 w3 where three: "alloc_scratch c2 w2 = (Some s, c2\<lparr>cn_arena := a3\<rparr>, w3)" "all_ok w3" "length s = unat PULL_CHUNK_SIZE * SLOT_BYTES"
    using alloc_scratch_ok [OF two(2)] by blast
  let ?c = "c2\<lparr>cn_arena := a3, cn_async := (cn_async c2)\<lparr>as_state := CONN_ASYNC_STREAM, as_feat_ids := ids,
    as_count := ?n, as_offset := 0, as_chunk_scratch := s, as_chunk_dims := [], as_first_frame := True, as_phase := 0\<rparr>\<rparr>"
  have "pulling ids 0 (cn_async ?c)"
    using three(3) by (simp add: pulling_def)
  then obtain c' chs w' where r: "stream_submit_next_chunk srv ?c w3 = Some (0, srv, c', w')" "all_ok w'" "as_state (cn_async c') = CONN_IDLE"
      "cn_send c' = cn_send ?c @ chs" "pending chs = stream_bytes (sv_db srv) (as_first_frame (cn_async ?c)) (length ids) ids"
    using stream_submit_next_chunk_ok [OF assms(1) three(2) _ le0 assms(3,4), of ?c] unfolding drop_0 by blast
  moreover have "handle_pull_stream srv c ?b ?len w = do {
      (_, srv, c, w) \<leftarrow> stream_submit_next_chunk srv ?c w3;
      Some (srv, c, w)
    }"
    unfolding handle_pull_stream_def using req one(1) two(1) three(1) by simp
  ultimately show ?thesis
    by (intro exI [of _ c'] exI [of _ "?hd # chs"] exI [of _ w']) (simp add: chunk_rest_def two(3))
qed

lemma serve_stream:
  assumes "store_readable (sv_db srv)" and "all_ok w" and "length ids \<le> 65536"
    and "\<forall>k \<in> set ids. slot_fits (answer (sv_db srv) (k, True))"
    and "cn_recv_buf c = request_bytes GRAVELDB_MSG_PULL_STREAM (ids_body ids)" and "as_state (cn_async c) = CONN_IDLE"
  shows "\<exists>c' w'. process_messages srv c w = Some (0, srv, c', w') \<and> all_ok w' \<and> cn_recv_buf c' = [] \<and>
    pending (cn_send c') = pending (cn_send c) @ wire_header (wire_status_code GRAVELDB_WIRE_OK) GRAVELDB_WIRE_STREAM_SENTINEL @
      stream_bytes (sv_db srv) True (length ids) ids"
proof -
  obtain c' chs w' where h: "handle_pull_stream srv c (ids_body ids @ []) (of_nat (4 + 8 * length ids)) w = Some (srv, c', w')" "all_ok w'"
      "cn_send c' = cn_send c @ chs"
      "pending chs = wire_header (wire_status_code GRAVELDB_WIRE_OK) GRAVELDB_WIRE_STREAM_SENTINEL @ stream_bytes (sv_db srv) True (length ids) ids"
    using handle_pull_stream_ok [OF assms(1-4)] by blast
  have "length (ids_body ids) < 2 ^ 32 - 12"
    using assms(3) by simp
  then have "process_message srv c w = Some (1, srv, c'\<lparr>cn_recv_buf := []\<rparr>, w')"
    using process_message_step [of c GRAVELDB_MSG_PULL_STREAM "ids_body ids" "[]" srv w] assms(5,6) h(1)
    unfolding handle_message_def msg_of_code length_ids_body by simp
  then have "process_messages srv c w = Some (0, srv, c'\<lparr>cn_recv_buf := []\<rparr>, w')"
    by (subst process_messages.simps) (simp add: process_messages_empty)
  then show ?thesis
    using h(2-4) by simp
qed

text \<open>The client takes a stream apart, frame by frame.\<close>

lemma frame_loop_ok:
  assumes "\<forall>e \<in> set es. slot_fits e" and "ptr = length xs"
  shows "frame_loop (xs @ concat (map entry_wire es)) (replicate (length es + m) True) ptr = Some (map reported es, replicate m True)"
  using assms
proof (induction es arbitrary: xs ptr)
  case Nil
  then show ?case
    by (simp add: frame_loop.simps)
next
  case (Cons e es)
  note d = slot_fits_dim [of e] and at = entry_at [of e ptr xs "concat (map entry_wire es)"]
  have "frame_loop (xs @ entry_wire e @ concat (map entry_wire es)) (replicate (length es + m) True) (ptr + 4 + 4 * nat (fst e)) =
      Some (map reported es, replicate m True)"
    using Cons.IH [of "ptr + 4 + 4 * nat (fst e)" "xs @ entry_wire e"] Cons.prems by (simp add: length_entry_wire)
  then show ?case
    using Cons.prems at d by (subst frame_loop.simps) (auto simp: reported_def length_entry_wire mult.commute)
qed

lemma frames_loop_ok:
  assumes "all_ok w" and "client_ready c" and "gc_in c = stream_bytes db first n ids" and "\<forall>k \<in> set ids. slot_fits (answer db (k, True))"
  shows "\<exists>c' w'. frames_loop c first (replicate (length ids) True) w = Some (0, map reported (ask_all db ids), c', w') \<and>
    gc_in c' = [] \<and> gc_out c' = gc_out c"
  using assms
proof (induction "length ids" arbitrary: ids c w first rule: less_induct)
  case less
  show ?case
  proof (cases "ids = []")
    case True
    then show ?thesis
      using less.prems(3) u32_bytes_inverse [of 0] by (simp add: frames_loop.simps stream_bytes.simps recv_all_def)
  next
    case False
    let ?ch = "take 64 ids" and ?rest = "drop 64 ids"
    let ?p = "frame_payload db first n ?ch"
    have fit: "\<forall>e \<in> set (ask_all db ?ch). slot_fits e"
      using less.prems(4) by (auto dest: in_set_takeD)
    have "concat (map entry_wire (ask_all db ?ch)) \<noteq> []"
      using False by (cases ids) (simp_all add: entry_wire_def u32_bytes_def)
    then have pne: "?p \<noteq> []"
      by (simp add: frame_payload_def)
    have small: "length ?p \<le> 4 + 4100 * 64"
      using length_entries [OF fit] by (simp add: frame_payload_def min_def split: if_splits)
    have n: "unat (of_nat (length ?p) :: u32) = length ?p"
      using small by (simp add: unat_of_nat)
    have "gc_in c = u32_bytes (of_nat (length ?p)) @ ?p @ stream_bytes db False n ?rest"
      using less.prems(3) False by (simp add: stream_bytes.simps [of _ _ _ ids] frame_bytes_def Let_def)
    then have one: "recv_all c 4 = (Some (u32_bytes (of_nat (length ?p))), c\<lparr>gc_in := ?p @ stream_bytes db False n ?rest\<rparr>)"
      by (simp add: recv_all_def)
    obtain c2 w2 where two: "recv_body (c\<lparr>gc_in := ?p @ stream_bytes db False n ?rest\<rparr>) (of_nat (length ?p)) w = (Some ?p, c2, w2)" "all_ok w2"
        "client_ready c2" "gc_in c2 = stream_bytes db False n ?rest" "gc_out c2 = gc_out c"
      using recv_body_ok [OF less.prems(1) _ _ n, of "c\<lparr>gc_in := ?p @ stream_bytes db False n ?rest\<rparr>" "stream_bytes db False n ?rest"] less.prems(2)
      by (auto simp: client_ready_def)
    have "length ids = length (ask_all db ?ch) + length ?rest"
      by simp
    then have three: "frame_loop ?p (replicate (length ids) True) (if first then 4 else 0) = Some (map reported (ask_all db ?ch), replicate (length ?rest) True)"
      using frame_loop_ok [OF fit, of "if first then 4 else 0" "if first then u32_bytes (of_nat n) else []" "length ?rest"]
      by (cases first) (simp_all add: frame_payload_def)
    have "length ?rest < length ids"
      using False by (cases ids) auto
    moreover have "\<forall>k \<in> set ?rest. slot_fits (answer db (k, True))"
      using less.prems(4) by (auto dest: in_set_dropD)
    ultimately obtain c' w' where "frames_loop c2 False (replicate (length ?rest) True) w2 = Some (0, map reported (ask_all db ?rest), c', w')"
        "gc_in c' = []" "gc_out c' = gc_out c2"
      using less.hyps [OF _ two(2-4)] by blast
    moreover have "map reported (ask_all db ?ch) @ map reported (ask_all db ?rest) = map reported (ask_all db ids)"
      by (metis append_take_drop_id map_append)
    moreover have "(of_nat (length ?p) :: u32) \<noteq> 0"
      using n pne by (simp flip: unsigned_eq_0_iff [where 'a = nat])
    moreover have "\<not> (first \<and> (of_nat (length ?p) :: u32) < 4)"
      unfolding word_less_nat_alt n by (auto simp: frame_payload_def)
    ultimately show ?thesis
      using one two(1,5) three u32_bytes_inverse [of "of_nat (length ?p)"] by (subst frames_loop.simps) simp
  qed
qed

text \<open>
  C7. A streaming pull gives the same as a plain one: the server answers the request that the client
  sends with a header, frames of at most 64 entries and a terminator, and the client puts the frames
  together to the dimension and the floats of every feature. The conditions are those of a plain pull: a
  readable store, no failing call, at most 65536 features, and at most 1024 floats for each.
\<close>

theorem pull_stream_roundtrip:
  assumes "store_readable (sv_db srv)" and "\<forall>k \<in> set ids. slot_fits (answer (sv_db srv) (k, True))" and "length ids \<le> 65536"
    and "as_state (cn_async c) = CONN_IDLE" and "cn_send c = []" and "all_ok w"
    and "client_ready cl" and "gc_out cl = []" and "all_ok wc"
  shows "\<exists>c' w' cl' wc'.
    graveldb_client_pull_stream (cl\<lparr>gc_in := pending (cn_send c')\<rparr>) ids (replicate (length ids) True) wc =
      Some (0, map (\<lambda>k. reported (answer (sv_db srv) (k, True))) ids, cl', wc') \<and> gc_in cl' = [] \<and>
    process_messages srv (c\<lparr>cn_recv_buf := gc_out cl'\<rparr>) w = Some (0, srv, c', w') \<and> cn_recv_buf c' = []"
proof -
  let ?db = "sv_db srv" and ?req = "request_bytes GRAVELDB_MSG_PULL_STREAM (ids_body ids)"
    and ?hdr = "wire_header (wire_status_code GRAVELDB_WIRE_OK) GRAVELDB_WIRE_STREAM_SENTINEL"
  obtain c' w' where v: "process_messages srv (c\<lparr>cn_recv_buf := ?req\<rparr>) w = Some (0, srv, c', w')" "cn_recv_buf c' = []"
      "pending (cn_send c') = ?hdr @ stream_bytes ?db True (length ids) ids"
    using serve_stream [OF assms(1,6,3,2), of "c\<lparr>cn_recv_buf := ?req\<rparr>"] assms(4,5) by auto
  let ?cl = "cl\<lparr>gc_in := pending (cn_send c')\<rparr>"
  have "client_ready ?cl"
    using assms(7) by (simp add: client_ready_def)
  then obtain c0 c1 w0 w1 where s: "grow_send False ?cl (4 + length ids * 8) wc = (Grown, c0, w0)"
      "send_ids GRAVELDB_MSG_PULL_STREAM c0 ids w0 = Some (0, c1, w1)" "all_ok w1" "client_ready c1" "gc_out c1 = ?req" "gc_in c1 = pending (cn_send c')"
    using send_ids_ok [OF assms(9) _ assms(3), of ?cl False GRAVELDB_MSG_PULL_STREAM] assms(8) by auto
  have h: "recv_all c1 12 = (Some ?hdr, c1\<lparr>gc_in := stream_bytes ?db True (length ids) ids\<rparr>)"
    by (simp add: recv_all_def s(6) v(3))
  obtain cl' wc' where f: "frames_loop (c1\<lparr>gc_in := stream_bytes ?db True (length ids) ids\<rparr>) True (replicate (length ids) True) w1 =
      Some (0, map reported (ask_all ?db ids), cl', wc')" "gc_in cl' = []" "gc_out cl' = ?req"
    using frames_loop_ok [OF s(3), of "c1\<lparr>gc_in := stream_bytes ?db True (length ids) ids\<rparr>" ?db True "length ids" ids] s(4,5) assms(2)
    by (auto simp: client_ready_def)
  have "graveldb_client_pull_stream ?cl ids (replicate (length ids) True) wc = Some (0, map reported (ask_all ?db ids), cl', wc')"
    using s(1,2) h f(1) wire_header_fields [of ?hdr] by (simp add: graveldb_client_pull_stream_def)
  then show ?thesis
    using v(1,2) f(2,3) by (intro exI [of _ c'] exI [of _ w'] exI [of _ cl'] exI [of _ wc']) (simp add: comp_def)
qed

theorem pull_stream_roundtrip_witness:
  "\<exists>c' w' cl' wc'. graveldb_client_pull_stream (demo_client\<lparr>gc_in := pending (cn_send c')\<rparr>) [7, 8] [True, True] (demo_world {}) =
       Some (0, [(2, Some (replicate 8 5)), (0, None)], cl', wc') \<and>
     process_messages demo_server (conn_free\<lparr>cn_recv_buf := gc_out cl'\<rparr>) (demo_world {}) = Some (0, demo_server, c', w')"
proof -
  have "length [7, 8 :: u64] \<le> 65536"
    by simp
  then show ?thesis
    using pull_stream_roundtrip [of demo_server "[7, 8]" conn_free "demo_world {}" demo_client "demo_world {}"] demo_fits
    by (simp add: demo_server_def demo_client_def conn_free_def async_zero_def client_ready_def demo_db_ok demo_world_ok reported_def) blast
qed

subsection \<open>A feature that the caller skips\<close>

text \<open>
  C40. A caller of \<^verbatim>\<open>graveldb_client_pull_recv\<close> may pass no buffer for a feature. Then its floats are not
  skipped: the first float of the feature is reported as the dimension of the next one.
\<close>

theorem pull_recv_skip_misreads:
  assumes "all_ok w" and "client_ready cl" and "slot_fits (answer db (k1, True))" and "slot_fits (answer db (k2, True))"
    and "answer db (k1, True) = (d, Some v)" and "0 < d"
    and "gc_in cl = response_bytes (wire_status_code GRAVELDB_WIRE_OK) (pull_body db [k1, k2])"
  shows "\<exists>x cl' w'. graveldb_client_pull_recv cl [False, True] w = Some (0, [(d, None), (sint (wire_get_u32 v 0), x)], cl', w')"
proof -
  let ?b = "pull_body db [k1, k2]" and ?e1 = "answer db (k1, True)" and ?e2 = "answer db (k2, True)"
  have fit: "\<forall>e \<in> set (ask_all db [k1, k2]). slot_fits e"
    using assms(3,4) by simp
  have "length ?b < 2 ^ 32"
    using length_entries [OF fit] by (simp add: pull_body_def)
  then obtain c2 w2 where r: "recv_response cl w = (Some (wire_status_code GRAVELDB_WIRE_OK, ?b), c2, w2)"
    using recv_response_ok [OF assms(1,2), of "wire_status_code GRAVELDB_WIRE_OK" ?b "[]"] assms(7) by auto
  have b: "?b = u32_bytes 2 @ entry_wire ?e1 @ entry_wire ?e2"
    by (simp add: pull_body_def)
  have d: "unat (word_of_int d :: u32) = nat d" "sint (word_of_int d :: u32) = d" "4 * nat d \<le> length v"
    using slot_fits_dim(3,5) [OF assms(3)] assms(3) by (simp_all add: assms(5) slot_fits_def)
  then have v4: "4 \<le> length v" "4 \<le> 4 * nat d"
    using assms(6) by simp_all
  have one: "peek_u32 ?b 4 = Some (word_of_int d)"
    using entry_at(1) [OF assms(3), of 4 "u32_bytes 2" "entry_wire ?e2"] by (simp add: b assms(5))
  have v: "take (4 * nat d) v = take 4 v @ drop 4 (take (4 * nat d) v)"
    using v4 append_take_drop_id [of 4 "take (4 * nat d) v"] by (simp add: min_def)
  have w0: "wire_get_u32 (take 4 v) 0 = wire_get_u32 v 0"
    using get_u32_slice [of 0 v] v4(1) by simp
  have two: "peek_u32 ?b 8 = Some (wire_get_u32 v 0)"
  proof -
    have "take 4 (drop 8 ?b) = take 4 v" "8 + 4 \<le> length ?b"
      using v v4 assms(6) by (simp_all add: b entry_wire_def assms(5))
    then show ?thesis
      using get_u32_slice [of 8 ?b] w0 by (simp add: peek_u32_def)
  qed
  have len: "8 < length ?b" "4 < length ?b"
    using v4 assms(6) by (simp_all add: b entry_wire_def assms(5))
  have cnt: "wire_get_u32 ?b 0 = 2"
    using get_u32_append [of "[]" 2 "entry_wire ?e1 @ entry_wire ?e2"] by (simp add: b)
  obtain x where "read_entries ?b [False, True] (Suc (Suc 0)) 4 = Some [(d, None), (sint (wire_get_u32 v 0), x)]"
    using one two len d(2) by (cases "0 < wire_get_u32 v 0") auto
  moreover have "min (unat (wire_get_u32 ?b 0)) (length [False, True]) = Suc (Suc 0)"
    by (simp add: cnt)
  ultimately show ?thesis
    using r len by (simp add: graveldb_client_pull_recv_def del: read_entries.simps)
qed

theorem pull_recv_skip_misreads_witness:
  "\<exists>x cl' w'. graveldb_client_pull_recv (demo_client\<lparr>gc_in := response_bytes 0 (pull_body demo_db [7, 7])\<rparr>) [False, True] (demo_world {}) =
     Some (0, [(2, None), (84215045, x)], cl', w')"
proof -
  have "sint (wire_get_u32 (replicate 8 5) 0) = 84215045"
    by (simp add: wire_get_u32_def)
  then show ?thesis
    using pull_recv_skip_misreads [OF demo_world_ok(2) _ demo_fits(1) demo_fits(1) demo_db_ok(2), of "demo_client\<lparr>gc_in := response_bytes 0 (pull_body demo_db [7, 7])\<rparr>"]
    by (simp add: client_ready_def demo_client_def)
qed

end
