(* ===== verification/Io_Poller.thy ===== *)
theory Io_Poller
  imports File_Io
begin

text \<open>
  The readiness poller of \<^verbatim>\<open>example/server/io_poller.c\<close> in the build for systems without epoll and kqueue: a
  table of descriptors that is handed to \<^verbatim>\<open>poll\<close>. The system call is a parameter: a function from the
  descriptors and the events asked for to what it reports. The user data that the server attaches to a
  descriptor are the two sentinels and the number of a client slot.
\<close>

datatype userdata = LISTEN_SENTINEL | NOTIFY_SENTINEL | ClientSlot nat | NoData

definition IO_EVENT_READ :: u32 where
  "IO_EVENT_READ = 1"

definition IO_EVENT_WRITE :: u32 where
  "IO_EVENT_WRITE = 2"

definition IO_EVENT_ERROR :: u32 where
  "IO_EVENT_ERROR = 4"

definition IO_EVENT_HUP :: u32 where
  "IO_EVENT_HUP = 8"

record IOEvent =
  ev_fd :: int
  ev_events :: u32
  ev_userdata :: userdata

record PollEntry =
  pe_fd :: int
  pe_events :: u32
  pe_userdata :: userdata

text \<open>The capacity is the length of the table.\<close>

record IOPoller =
  ip_entries :: "PollEntry list"
  ip_count :: int

definition poll_entry_free :: PollEntry where
  "poll_entry_free = \<lparr>pe_fd = -1, pe_events = 0, pe_userdata = NoData\<rparr>"

definition io_poller_create :: "int \<Rightarrow> World \<Rightarrow> IOPoller option \<times> World" where
  "io_poller_create max_events w =
     (let (ok, w) = ask w in
      if \<not> ok then (None, w)
      else
        let capacity = (if max_events > 0 then nat max_events else 256); (ok, w) = ask w in
        if \<not> ok then (None, w)
        else (Some \<lparr>ip_entries = replicate capacity poll_entry_free, ip_count = 0\<rparr>, w))"

fun find_entry_from :: "nat \<Rightarrow> PollEntry list \<Rightarrow> int \<Rightarrow> nat option" where
  "find_entry_from i [] fd = None"
| "find_entry_from i (e # es) fd = (if pe_fd e = fd then Some i else find_entry_from (Suc i) es fd)"

definition find_entry :: "IOPoller \<Rightarrow> int \<Rightarrow> nat option" where
  "find_entry p fd = find_entry_from 0 (ip_entries p) fd"

definition io_poller_add :: "IOPoller \<Rightarrow> int \<Rightarrow> u32 \<Rightarrow> userdata \<Rightarrow> int \<times> IOPoller" where
  "io_poller_add p fd events ud =
     (case find_entry p (-1) of
        None \<Rightarrow> (-1, p)
      | Some i \<Rightarrow> (0, p\<lparr>ip_entries := (ip_entries p)[i := \<lparr>pe_fd = fd, pe_events = events, pe_userdata = ud\<rparr>], ip_count := ip_count p + 1\<rparr>))"

definition io_poller_mod :: "IOPoller \<Rightarrow> int \<Rightarrow> u32 \<Rightarrow> userdata \<Rightarrow> int \<times> IOPoller" where
  "io_poller_mod p fd events ud =
     (case find_entry p fd of
        None \<Rightarrow> (-1, p)
      | Some i \<Rightarrow> (0, p\<lparr>ip_entries := (ip_entries p)[i := (ip_entries p ! i)\<lparr>pe_events := events, pe_userdata := ud\<rparr>]\<rparr>))"

definition io_poller_del :: "IOPoller \<Rightarrow> int \<Rightarrow> int \<times> IOPoller" where
  "io_poller_del p fd =
     (case find_entry p fd of
        None \<Rightarrow> (-1, p)
      | Some i \<Rightarrow> (0, p\<lparr>ip_entries := (ip_entries p)[i := (ip_entries p ! i)\<lparr>pe_fd := -1, pe_userdata := NoData\<rparr>], ip_count := ip_count p - 1\<rparr>))"

record pollfd =
  pf_fd :: int
  pf_in :: bool
  pf_out :: bool

text \<open>
  What \<^verbatim>\<open>poll\<close> can report for a descriptor. An entry with \<^verbatim>\<open>POLLNVAL\<close> alone counts as fired, but gives an
  event without flags.
\<close>

record revents =
  rv_in :: bool
  rv_out :: bool
  rv_err :: bool
  rv_hup :: bool
  rv_nval :: bool

definition no_revents :: revents where
  "no_revents = \<lparr>rv_in = False, rv_out = False, rv_err = False, rv_hup = False, rv_nval = False\<rparr>"

datatype poll_result = PollFailed | PollTimeout | PollReady "revents list"

type_synonym poll_call = "pollfd list \<Rightarrow> poll_result"

definition poll_entries :: "IOPoller \<Rightarrow> PollEntry list" where
  "poll_entries p = take (nat (ip_count p)) (filter (\<lambda>e. pe_fd e \<ge> 0) (ip_entries p))"

definition pollfd_of :: "PollEntry \<Rightarrow> pollfd" where
  "pollfd_of e = \<lparr>pf_fd = pe_fd e, pf_in = (pe_events e AND IO_EVENT_READ \<noteq> 0), pf_out = (pe_events e AND IO_EVENT_WRITE \<noteq> 0)\<rparr>"

definition event_of :: "PollEntry \<Rightarrow> revents \<Rightarrow> IOEvent" where
  "event_of e r = \<lparr>ev_fd = pe_fd e,
     ev_events = (if rv_in r then IO_EVENT_READ else 0) OR (if rv_out r then IO_EVENT_WRITE else 0) OR
       (if rv_err r then IO_EVENT_ERROR else 0) OR (if rv_hup r then IO_EVENT_HUP else 0),
     ev_userdata = pe_userdata e\<rparr>"

definition io_poller_wait :: "poll_call \<Rightarrow> IOPoller \<Rightarrow> nat \<Rightarrow> World \<Rightarrow> IOEvent list option \<times> World" where
  "io_poller_wait poll p max_events w =
     (let (ok, w) = ask w in
      if \<not> ok then (None, w)
      else
        let (ok, w) = ask w in
        if \<not> ok then (None, w)
        else
          (case poll (map pollfd_of (poll_entries p)) of
             PollFailed \<Rightarrow> (None, w)
           | PollTimeout \<Rightarrow> (Some [], w)
           | PollReady rs \<Rightarrow>
               (Some (take max_events (map (\<lambda>(e, r). event_of e r) (filter (\<lambda>(e, r). r \<noteq> no_revents) (zip (poll_entries p) rs)))), w)))"

subsection \<open>The table as a map\<close>

text \<open>The descriptors in the table are distinct and counted; -1 marks a free entry.\<close>

definition poller_inv :: "IOPoller \<Rightarrow> bool" where
  "poller_inv p \<longleftrightarrow>
     (\<forall>i < length (ip_entries p). \<forall>j < length (ip_entries p).
        pe_fd (ip_entries p ! i) = pe_fd (ip_entries p ! j) \<longrightarrow> 0 \<le> pe_fd (ip_entries p ! i) \<longrightarrow> i = j) \<and>
     (\<forall>e \<in> set (ip_entries p). pe_fd e \<noteq> -1 \<longrightarrow> 0 \<le> pe_fd e) \<and>
     ip_count p = int (length (filter (\<lambda>e. 0 \<le> pe_fd e) (ip_entries p)))"

definition poller_map :: "IOPoller \<Rightarrow> int \<Rightarrow> (u32 \<times> userdata) option" where
  "poller_map p fd = (if fd < 0 then None else
     map_option (\<lambda>i. (pe_events (ip_entries p ! i), pe_userdata (ip_entries p ! i))) (find_entry p fd))"

lemma find_entry_from_Some:
  "find_entry_from k es fd = Some i \<Longrightarrow> k \<le> i \<and> i - k < length es \<and> pe_fd (es ! (i - k)) = fd"
proof (induction es arbitrary: k)
  case (Cons e es)
  show ?case
  proof (cases "pe_fd e = fd")
    case False
    then have "Suc k \<le> i \<and> i - Suc k < length es \<and> pe_fd (es ! (i - Suc k)) = fd"
      using Cons by simp
    moreover from this have "i - k = Suc (i - Suc k)"
      by arith
    ultimately show ?thesis
      by auto
  qed (use Cons.prems in simp)
qed simp

lemma find_entry_from_None: "find_entry_from k es fd = None \<longleftrightarrow> fd \<notin> pe_fd ` set es"
  by (induction es arbitrary: k) auto

lemma find_entry_SomeD: "find_entry p fd = Some i \<Longrightarrow> i < length (ip_entries p) \<and> pe_fd (ip_entries p ! i) = fd"
  using find_entry_from_Some [of 0 "ip_entries p" fd i] by (simp add: find_entry_def)

lemma find_entry_at:
  assumes "poller_inv p" and "i < length (ip_entries p)" and "pe_fd (ip_entries p ! i) = fd" and "0 \<le> fd"
  shows "find_entry p fd = Some i"
proof (cases "find_entry p fd")
  case None
  then show ?thesis
    using assms(2,3) by (force simp: find_entry_def find_entry_from_None)
next
  case (Some j)
  then show ?thesis
    using find_entry_SomeD [OF Some] assms by (auto simp: poller_inv_def)
qed

text \<open>The map of a table, by its entries.\<close>

lemma poller_map_iff:
  assumes "poller_inv p"
  shows "poller_map p fd = Some v \<longleftrightarrow> 0 \<le> fd \<and>
    (\<exists>i < length (ip_entries p). pe_fd (ip_entries p ! i) = fd \<and> v = (pe_events (ip_entries p ! i), pe_userdata (ip_entries p ! i)))"
proof
  assume "poller_map p fd = Some v"
  then show "0 \<le> fd \<and> (\<exists>i < length (ip_entries p). pe_fd (ip_entries p ! i) = fd \<and> v = (pe_events (ip_entries p ! i), pe_userdata (ip_entries p ! i)))"
    using find_entry_SomeD [of p fd] by (auto simp: poller_map_def split: if_splits)
next
  assume "0 \<le> fd \<and> (\<exists>i < length (ip_entries p). pe_fd (ip_entries p ! i) = fd \<and> v = (pe_events (ip_entries p ! i), pe_userdata (ip_entries p ! i)))"
  then show "poller_map p fd = Some v"
    using find_entry_at [OF assms] by (auto simp: poller_map_def)
qed

lemma length_filter_update:
  "i < length xs \<Longrightarrow> int (length (filter P (xs[i := x]))) =
     int (length (filter P xs)) + (if P x then 1 else 0) - (if P (xs ! i) then 1 else 0)"
proof (induction xs arbitrary: i)
  case (Cons a xs)
  show ?case
    using Cons.prems by (cases i; cases "P x"; cases "P (xs ! (i - 1))") (use Cons.IH [of "i - 1"] in simp_all)
qed simp

text \<open>Replacing the entry of one place, when its descriptor is not elsewhere.\<close>

lemma poller_update:
  assumes "poller_inv p" and "i < length (ip_entries p)" and "0 \<le> pe_fd e \<or> pe_fd e = -1"
    and "0 \<le> pe_fd e \<longrightarrow> find_entry p (pe_fd e) = None \<or> pe_fd e = pe_fd (ip_entries p ! i)"
    and "n = ip_count p + (if 0 \<le> pe_fd e then 1 else 0) - (if 0 \<le> pe_fd (ip_entries p ! i) then 1 else 0)"
  defines "p' \<equiv> p\<lparr>ip_entries := (ip_entries p)[i := e], ip_count := n\<rparr>"
  shows "poller_inv p'"
    and "poller_map p' = (if 0 \<le> pe_fd e then (\<lambda>m. m(pe_fd e \<mapsto> (pe_events e, pe_userdata e))) else id)
      (if 0 \<le> pe_fd (ip_entries p ! i) then (poller_map p)(pe_fd (ip_entries p ! i) := None) else poller_map p)"
proof -
  have uniq: "a = b" if "a < length (ip_entries p)" "b < length (ip_entries p)" "pe_fd (ip_entries p ! a) = pe_fd (ip_entries p ! b)"
      "0 \<le> pe_fd (ip_entries p ! a)" for a b
    using assms(1) that by (auto simp: poller_inv_def)
  have old: "j = i" if "j < length (ip_entries p)" "pe_fd (ip_entries p ! j) = pe_fd e" "0 \<le> pe_fd e" for j
  proof -
    have "pe_fd e \<in> pe_fd ` set (ip_entries p)"
      using that(1,2) nth_mem by (metis image_eqI)
    then have "pe_fd e = pe_fd (ip_entries p ! i)"
      using assms(4) that(3) by (simp add: find_entry_def find_entry_from_None)
    then show ?thesis
      using uniq [OF that(1) assms(2)] that(2,3) by simp
  qed
  have len: "length (ip_entries p') = length (ip_entries p)"
    by (simp add: p'_def)
  have nth: "ip_entries p' ! j = (if j = i then e else ip_entries p ! j)" if "j < length (ip_entries p)" for j
    using that by (simp add: p'_def nth_list_update)
  have "a = b" if "a < length (ip_entries p)" "b < length (ip_entries p)" "pe_fd (ip_entries p' ! a) = pe_fd (ip_entries p' ! b)"
      "0 \<le> pe_fd (ip_entries p' ! a)" for a b
  proof -
    consider "a = i" "b = i" | "a = i" "b \<noteq> i" | "a \<noteq> i" "b = i" | "a \<noteq> i" "b \<noteq> i"
      by blast
    then show ?thesis
    proof cases
      case 2
      then show ?thesis
        using old [OF that(2)] that by (simp add: nth)
    next
      case 3
      then show ?thesis
        using old [OF that(1)] that by (simp add: nth)
    next
      case 4
      then show ?thesis
        using uniq [OF that(1,2)] that by (simp add: nth)
    qed simp
  qed
  moreover have "\<forall>x \<in> set (ip_entries p'). pe_fd x \<noteq> -1 \<longrightarrow> 0 \<le> pe_fd x"
    using assms(1,3) set_update_subset_insert [of "ip_entries p" i e] by (fastforce simp: poller_inv_def p'_def)
  moreover have "ip_count p' = int (length (filter (\<lambda>e. 0 \<le> pe_fd e) (ip_entries p')))"
    using assms(1,5) length_filter_update [OF assms(2), of "\<lambda>e. 0 \<le> pe_fd e" e] by (simp add: poller_inv_def p'_def)
  ultimately show inv: "poller_inv p'"
    unfolding poller_inv_def len by blast
  show "poller_map p' = (if 0 \<le> pe_fd e then (\<lambda>m. m(pe_fd e \<mapsto> (pe_events e, pe_userdata e))) else id)
      (if 0 \<le> pe_fd (ip_entries p ! i) then (poller_map p)(pe_fd (ip_entries p ! i) := None) else poller_map p)" (is "_ = ?m")
  proof (rule ext)
    fix fd
    show "poller_map p' fd = ?m fd"
    proof (cases "0 \<le> fd \<and> fd = pe_fd e")
      case True
      have "poller_map p' fd = Some (pe_events e, pe_userdata e)"
        by (rule iffD2 [OF poller_map_iff [OF inv]], intro conjI exI [of _ i]) (use True assms(2) len nth in auto)
      then show ?thesis
        using True by simp
    next
      case False
      have "poller_map p' fd = Some v \<longleftrightarrow> fd \<noteq> pe_fd (ip_entries p ! i) \<and> poller_map p fd = Some v" for v
      proof
        assume "poller_map p' fd = Some v"
        then obtain j where j: "0 \<le> fd" "j < length (ip_entries p)" "pe_fd (ip_entries p' ! j) = fd"
            "v = (pe_events (ip_entries p' ! j), pe_userdata (ip_entries p' ! j))"
          unfolding poller_map_iff [OF inv] len by blast
        then have "j \<noteq> i"
          using False nth by auto
        then show "fd \<noteq> pe_fd (ip_entries p ! i) \<and> poller_map p fd = Some v"
          using j nth [of j] uniq [OF j(2) assms(2)] poller_map_iff [OF assms(1), of fd v] by auto
      next
        assume m: "fd \<noteq> pe_fd (ip_entries p ! i) \<and> poller_map p fd = Some v"
        then obtain j where j: "0 \<le> fd" "j < length (ip_entries p)" "pe_fd (ip_entries p ! j) = fd"
            "v = (pe_events (ip_entries p ! j), pe_userdata (ip_entries p ! j))"
          using poller_map_iff [OF assms(1), of fd v] by blast
        then have "ip_entries p' ! j = ip_entries p ! j"
          using m nth [of j] by auto
        then show "poller_map p' fd = Some v"
          unfolding poller_map_iff [OF inv] len using j by auto
      qed
      then have "poller_map p' fd = (if fd = pe_fd (ip_entries p ! i) then None else poller_map p fd)"
        by (metis not_None_eq)
      moreover have "poller_map p fd = None" if "fd < 0"
        using that by (simp add: poller_map_def)
      ultimately show ?thesis
        using False by auto
    qed
  qed
qed

text \<open>The entries that are free.\<close>

definition poller_room :: "IOPoller \<Rightarrow> nat" where
  "poller_room p = length (filter (\<lambda>e. pe_fd e < 0) (ip_entries p))"

lemma poller_map_None: "0 \<le> fd \<Longrightarrow> poller_map p fd = None \<longleftrightarrow> find_entry p fd = None"
  by (simp add: poller_map_def)

lemma poller_room_update:
  "i < length (ip_entries p) \<Longrightarrow> int (poller_room (p\<lparr>ip_entries := (ip_entries p)[i := e], ip_count := n\<rparr>)) =
     int (poller_room p) + (if pe_fd e < 0 then 1 else 0) - (if pe_fd (ip_entries p ! i) < 0 then 1 else 0)"
  using length_filter_update [of i "ip_entries p" "\<lambda>e. pe_fd e < 0" e] by (simp add: poller_room_def)

lemma poller_full:
  assumes "poller_inv p" and "find_entry p (-1) = None"
  shows "poller_room p = 0"
proof -
  have "-1 \<notin> pe_fd ` set (ip_entries p)"
    using assms(2) by (simp add: find_entry_def find_entry_from_None)
  then have "\<forall>e \<in> set (ip_entries p). 0 \<le> pe_fd e"
    using assms(1) by (auto simp: poller_inv_def image_iff)
  then show ?thesis
    by (simp add: poller_room_def filter_empty_conv not_less)
qed

lemma poller_add_ok:
  assumes "poller_inv p" and "0 \<le> fd" and "poller_map p fd = None"
  shows "case io_poller_add p fd ev ud of (rc, p') \<Rightarrow> poller_inv p' \<and>
    (if poller_room p = 0 then rc = -1 \<and> p' = p
     else rc = 0 \<and> poller_map p' = (poller_map p)(fd \<mapsto> (ev, ud)) \<and> poller_room p' = poller_room p - 1)"
proof (cases "find_entry p (-1)")
  case None
  then show ?thesis
    using assms(1) poller_full by (simp add: io_poller_add_def)
next
  case (Some i)
  note i = find_entry_SomeD [OF Some]
  then have "ip_entries p ! i \<in> set (filter (\<lambda>e. pe_fd e < 0) (ip_entries p))"
    by simp
  then have "0 < poller_room p"
    unfolding poller_room_def by (rule length_pos_if_in_set)
  then show ?thesis
    using poller_update [OF assms(1), of i "\<lparr>pe_fd = fd, pe_events = ev, pe_userdata = ud\<rparr>" "ip_count p + 1"]
      poller_room_update [of i p "ip_count p + 1" "\<lparr>pe_fd = fd, pe_events = ev, pe_userdata = ud\<rparr>"]
      i assms(2,3) Some poller_map_None [OF assms(2)] by (simp add: io_poller_add_def)
qed

lemma poller_mod_ok:
  assumes "poller_inv p" and "0 \<le> fd"
  shows "case io_poller_mod p fd ev ud of (rc, p') \<Rightarrow> poller_inv p' \<and> poller_room p' = poller_room p \<and>
    (if poller_map p fd = None then rc = -1 \<and> p' = p else rc = 0 \<and> poller_map p' = (poller_map p)(fd \<mapsto> (ev, ud)))"
proof (cases "find_entry p fd")
  case None
  then show ?thesis
    using assms poller_map_None by (simp add: io_poller_mod_def)
next
  case (Some i)
  show ?thesis
    using poller_update [OF assms(1), of i "(ip_entries p ! i)\<lparr>pe_events := ev, pe_userdata := ud\<rparr>" "ip_count p"]
      poller_room_update [of i p "ip_count p" "(ip_entries p ! i)\<lparr>pe_events := ev, pe_userdata := ud\<rparr>"]
      find_entry_SomeD [OF Some] assms(2) Some poller_map_None [OF assms(2)] by (simp add: io_poller_mod_def)
qed

lemma poller_del_ok:
  assumes "poller_inv p" and "0 \<le> fd"
  shows "case io_poller_del p fd of (rc, p') \<Rightarrow> poller_inv p' \<and> poller_map p' = (poller_map p)(fd := None) \<and>
    (if poller_map p fd = None then rc = -1 \<and> p' = p else rc = 0 \<and> poller_room p' = poller_room p + 1)"
proof (cases "find_entry p fd")
  case None
  then have "poller_map p fd = None"
    using poller_map_None [OF assms(2)] by simp
  then show ?thesis
    using assms None by (simp add: io_poller_del_def fun_upd_idem)
next
  case (Some i)
  show ?thesis
    using poller_update [OF assms(1), of i "(ip_entries p ! i)\<lparr>pe_fd := -1, pe_userdata := NoData\<rparr>" "ip_count p - 1"]
      poller_room_update [of i p "ip_count p - 1" "(ip_entries p ! i)\<lparr>pe_fd := -1, pe_userdata := NoData\<rparr>"]
      find_entry_SomeD [OF Some] assms(2) Some poller_map_None [OF assms(2)] by (simp add: io_poller_del_def)
qed

lemma poller_wait_ok:
  assumes "poller_inv p" and "io_poller_wait poll p n w = (Some evs, w')" and "x \<in> set evs"
  shows "\<exists>es. poller_map p (ev_fd x) = Some (es, ev_userdata x)"
proof -
  obtain e r where "e \<in> set (poll_entries p)" "x = event_of e r"
    using assms(2,3)
    by (auto simp: io_poller_wait_def Let_def split_beta split: if_splits poll_result.splits dest!: in_set_takeD set_zip_leftD)
  then have "e \<in> set (ip_entries p)" "0 \<le> pe_fd e" "ev_fd x = pe_fd e" "ev_userdata x = pe_userdata e"
    by (auto simp: poll_entries_def event_of_def dest: in_set_takeD)
  then show ?thesis
    using poller_map_iff [OF assms(1)] by (auto simp: in_set_conv_nth)
qed

lemma poller_create_ok:
  assumes "io_poller_create n w = (Some p, w')" and "0 < n"
  shows "poller_inv p" and "poller_map p = Map.empty" and "poller_room p = nat n"
proof -
  have p: "p = \<lparr>ip_entries = replicate (nat n) poll_entry_free, ip_count = 0\<rparr>"
    using assms by (auto simp: io_poller_create_def Let_def split_beta split: if_splits)
  show inv: "poller_inv p" and "poller_room p = nat n"
    by (auto simp: p poller_inv_def poller_room_def poll_entry_free_def)
  have "find_entry p fd = None" if "0 \<le> fd" for fd
    using that by (auto simp: p find_entry_def find_entry_from_None poll_entry_free_def)
  then show "poller_map p = Map.empty"
    by (auto simp: poller_map_def)
qed

subsection \<open>What a loop over connections needs of a poller\<close>

text \<open>
  The listener, or the pipe of a worker, is registered with its sentinel, each open slot with its own
  number, and nothing else.
\<close>

definition registered :: "userdata \<Rightarrow> int \<Rightarrow> int list \<Rightarrow> (int \<Rightarrow> (u32 \<times> userdata) option) \<Rightarrow> bool" where
  "registered sentinel lfd fds m \<longleftrightarrow> sentinel \<notin> range ClientSlot \<and> (\<exists>es. m lfd = Some (es, sentinel)) \<and>
     (\<forall>i < length fds. fds ! i \<noteq> -1 \<longrightarrow> (\<exists>es. m (fds ! i) = Some (es, ClientSlot i))) \<and>
     (\<forall>fd es ud. m fd = Some (es, ud) \<longrightarrow> 0 \<le> fd \<and>
        (fd = lfd \<and> ud = sentinel \<or> (\<exists>i < length fds. ud = ClientSlot i \<and> fds ! i = fd)))"

lemma registeredI:
  assumes "sentinel \<notin> range ClientSlot" and "m lfd = Some (es, sentinel)"
    and "\<And>i. i < length fds \<Longrightarrow> fds ! i \<noteq> -1 \<Longrightarrow> \<exists>es. m (fds ! i) = Some (es, ClientSlot i)"
    and "\<And>fd es ud. m fd = Some (es, ud) \<Longrightarrow> 0 \<le> fd \<and> (fd = lfd \<and> ud = sentinel \<or> (\<exists>i < length fds. ud = ClientSlot i \<and> fds ! i = fd))"
  shows "registered sentinel lfd fds m"
  using assms unfolding registered_def by blast

lemma registered_listener: "registered sentinel lfd fds m \<Longrightarrow> \<exists>es. m lfd = Some (es, sentinel)"
  by (simp add: registered_def)

lemma registered_sentinel: "registered sentinel lfd fds m \<Longrightarrow> sentinel \<notin> range ClientSlot"
  by (simp add: registered_def)

lemma registered_slot:
  "registered sentinel lfd fds m \<Longrightarrow> i < length fds \<Longrightarrow> fds ! i \<noteq> -1 \<Longrightarrow> \<exists>es. m (fds ! i) = Some (es, ClientSlot i)"
  by (simp add: registered_def)

lemma registered_entry:
  "registered sentinel lfd fds m \<Longrightarrow> m fd = Some (es, ud) \<Longrightarrow>
    0 \<le> fd \<and> (fd = lfd \<and> ud = sentinel \<or> (\<exists>i < length fds. ud = ClientSlot i \<and> fds ! i = fd))"
  unfolding registered_def by blast

lemma registered_open:
  assumes r: "registered sentinel lfd fds m" and i: "i < length fds" "fds ! i = -1" and fd: "0 \<le> fd" "m fd = None"
  shows "registered sentinel lfd (fds[i := fd]) (m(fd \<mapsto> (ev, ClientSlot i)))"
proof -
  obtain es where l: "m lfd = Some (es, sentinel)"
    using registered_listener [OF r] by blast
  have ne: "lfd \<noteq> fd"
    using l fd(2) by auto
  show ?thesis
  proof (rule registeredI [OF registered_sentinel [OF r]])
    show "(m(fd \<mapsto> (ev, ClientSlot i))) lfd = Some (es, sentinel)"
      using l ne by simp
    show "\<exists>es. (m(fd \<mapsto> (ev, ClientSlot i))) (fds[i := fd] ! j) = Some (es, ClientSlot j)"
      if "j < length (fds[i := fd])" "fds[i := fd] ! j \<noteq> -1" for j
      using registered_slot [OF r, of j] that i(1) fd(2) by (cases "j = i") auto
    show "0 \<le> x \<and> (x = lfd \<and> ud = sentinel \<or> (\<exists>j < length (fds[i := fd]). ud = ClientSlot j \<and> fds[i := fd] ! j = x))"
      if "(m(fd \<mapsto> (ev, ClientSlot i))) x = Some (es, ud)" for x es ud
    proof (cases "x = fd")
      case True
      then show ?thesis
        using that fd(1) i(1) by auto
    next
      case False
      then have e: "0 \<le> x" "x = lfd \<and> ud = sentinel \<or> (\<exists>j < length fds. ud = ClientSlot j \<and> fds ! j = x)"
        using registered_entry [OF r, of x es ud] that by auto
      then have "fds[i := fd] ! j = x" if "fds ! j = x" for j
        using that i(2) by (cases "j = i") auto
      then show ?thesis
        using e by (metis length_list_update)
    qed
  qed
qed

lemma registered_close:
  assumes r: "registered sentinel lfd fds m" and i: "i < length fds" "fds ! i \<noteq> -1"
  shows "registered sentinel lfd (fds[i := -1]) (m(fds ! i := None))"
proof -
  obtain es' where m: "m (fds ! i) = Some (es', ClientSlot i)"
    using registered_slot [OF r i] by blast
  obtain es where l: "m lfd = Some (es, sentinel)"
    using registered_listener [OF r] by blast
  have ne: "lfd \<noteq> fds ! i"
    using l m registered_sentinel [OF r] by auto
  show ?thesis
  proof (rule registeredI [OF registered_sentinel [OF r]])
    show "(m(fds ! i := None)) lfd = Some (es, sentinel)"
      using l ne by simp
    show "\<exists>es. (m(fds ! i := None)) (fds[i := -1] ! j) = Some (es, ClientSlot j)"
      if "j < length (fds[i := -1])" "fds[i := -1] ! j \<noteq> -1" for j
      using registered_slot [OF r, of j] that i(1) m by (cases "j = i") auto
    show "0 \<le> x \<and> (x = lfd \<and> ud = sentinel \<or> (\<exists>j < length (fds[i := -1]). ud = ClientSlot j \<and> fds[i := -1] ! j = x))"
      if "(m(fds ! i := None)) x = Some (es, ud)" for x es ud
    proof -
      have x: "x \<noteq> fds ! i" "m x = Some (es, ud)"
        using that by (auto split: if_splits)
      have "fds[i := -1] ! j = x" if "fds ! j = x" for j
        using that x(1) by (cases "j = i") auto
      then show ?thesis
        using registered_entry [OF r x(2)] by (metis length_list_update)
    qed
  qed
qed

lemma registered_watch:
  assumes r: "registered sentinel lfd fds m" and i: "i < length fds" "fds ! i \<noteq> -1"
  shows "registered sentinel lfd fds (m(fds ! i \<mapsto> (ev, ClientSlot i)))"
proof -
  obtain es' where m: "m (fds ! i) = Some (es', ClientSlot i)"
    using registered_slot [OF r i] by blast
  obtain es where l: "m lfd = Some (es, sentinel)"
    using registered_listener [OF r] by blast
  have ne: "lfd \<noteq> fds ! i"
    using l m registered_sentinel [OF r] by auto
  show ?thesis
  proof (rule registeredI [OF registered_sentinel [OF r]])
    show "(m(fds ! i \<mapsto> (ev, ClientSlot i))) lfd = Some (es, sentinel)"
      using l ne by simp
    show "\<exists>es. (m(fds ! i \<mapsto> (ev, ClientSlot i))) (fds ! j) = Some (es, ClientSlot j)" if "j < length fds" "fds ! j \<noteq> -1" for j
    proof (cases "fds ! j = fds ! i")
      case True
      then have "j = i"
        using registered_slot [OF r that] m by (metis option.inject prod.inject userdata.inject)
      then show ?thesis
        by simp
    next
      case False
      then show ?thesis
        using registered_slot [OF r that] by simp
    qed
    show "0 \<le> x \<and> (x = lfd \<and> ud = sentinel \<or> (\<exists>j < length fds. ud = ClientSlot j \<and> fds ! j = x))"
      if "(m(fds ! i \<mapsto> (ev, ClientSlot i))) x = Some (es, ud)" for x es ud
    proof (cases "x = fds ! i")
      case True
      then have "ud = ClientSlot i" "0 \<le> x"
        using that registered_entry [OF r m] by simp_all
      then show ?thesis
        using True i(1) by blast
    next
      case False
      then have "m x = Some (es, ud)"
        using that by simp
      then show ?thesis
        by (rule registered_entry [OF r])
    qed
  qed
qed

definition closed_slots :: "int list \<Rightarrow> nat" where
  "closed_slots fds = length (filter (\<lambda>fd. fd = -1) fds)"

lemma closed_slots_update:
  "i < length fds \<Longrightarrow> int (closed_slots (fds[i := fd])) =
     int (closed_slots fds) + (if fd = -1 then 1 else 0) - (if fds ! i = -1 then 1 else 0)"
  by (simp add: closed_slots_def length_filter_update)

locale readiness =
  fixes valid :: "'p \<Rightarrow> bool" and table :: "'p \<Rightarrow> int \<Rightarrow> (u32 \<times> userdata) option" and room :: "'p \<Rightarrow> nat"
    and add :: "'p \<Rightarrow> int \<Rightarrow> u32 \<Rightarrow> userdata \<Rightarrow> 'p" and modify :: "'p \<Rightarrow> int \<Rightarrow> u32 \<Rightarrow> userdata \<Rightarrow> 'p" and del :: "'p \<Rightarrow> int \<Rightarrow> 'p"
  assumes add: "\<lbrakk>valid p; 0 \<le> fd; table p fd = None; 0 < room p\<rbrakk> \<Longrightarrow>
      valid (add p fd ev ud) \<and> table (add p fd ev ud) = (table p)(fd \<mapsto> (ev, ud)) \<and> room (add p fd ev ud) = room p - 1"
    and modify: "\<lbrakk>valid p; 0 \<le> fd; table p fd \<noteq> None\<rbrakk> \<Longrightarrow>
      valid (modify p fd ev ud) \<and> table (modify p fd ev ud) = (table p)(fd \<mapsto> (ev, ud)) \<and> room (modify p fd ev ud) = room p"
    and del: "\<lbrakk>valid p; 0 \<le> fd; table p fd \<noteq> None\<rbrakk> \<Longrightarrow>
      valid (del p fd) \<and> table (del p fd) = (table p)(fd := None) \<and> room (del p fd) = room p + 1"
begin

lemma start_listening:
  assumes "valid p" and "table p = Map.empty" and "0 < room p" and "0 \<le> lfd" and "sentinel \<notin> range ClientSlot"
  shows "valid (add p lfd ev sentinel)" and "room (add p lfd ev sentinel) = room p - 1"
    and "registered sentinel lfd (replicate n (-1)) (table (add p lfd ev sentinel))"
  using add [of p lfd ev sentinel] assms by (auto simp: registered_def)

lemma open_slot:
  fixes ev
  assumes "valid p" and "registered sentinel lfd fds (table p)" and "closed_slots fds \<le> room p"
    and "i < length fds" and "fds ! i = -1" and "0 \<le> fd" and "table p fd = None"
  defines "p' \<equiv> add p fd ev (ClientSlot i)"
  shows "valid p'" and "registered sentinel lfd (fds[i := fd]) (table p')" and "closed_slots (fds[i := fd]) \<le> room p'"
proof -
  have "-1 \<in> set (filter (\<lambda>fd. fd = -1) fds)"
    using nth_mem [OF assms(4)] assms(5) by simp
  then have "0 < closed_slots fds"
    unfolding closed_slots_def by (rule length_pos_if_in_set)
  then have "0 < room p"
    using assms(3) by simp
  then have a: "valid p'" "table p' = (table p)(fd \<mapsto> (ev, ClientSlot i))" "room p' = room p - 1"
    using add [OF assms(1,6,7)] by (simp_all add: p'_def)
  then show "valid p'"
    by simp
  show "closed_slots (fds[i := fd]) \<le> room p'"
    using closed_slots_update [OF assms(4), of fd] assms(3,5,6) a(3) \<open>0 < room p\<close> by (auto split: if_splits)
  show "registered sentinel lfd (fds[i := fd]) (table p')"
    using registered_open [OF assms(2,4-7)] by (simp add: a(2))
qed

lemma close_slot:
  assumes "valid p" and "registered sentinel lfd fds (table p)" and "closed_slots fds \<le> room p"
    and "i < length fds" and "fds ! i \<noteq> -1"
  defines "p' \<equiv> del p (fds ! i)"
  shows "valid p'" and "registered sentinel lfd (fds[i := -1]) (table p')" and "closed_slots (fds[i := -1]) \<le> room p'"
proof -
  obtain es where m: "table p (fds ! i) = Some (es, ClientSlot i)" "0 \<le> fds ! i"
    using registered_slot [OF assms(2,4,5)] registered_entry [OF assms(2)] by blast
  then have a: "valid p'" "table p' = (table p)(fds ! i := None)" "room p' = room p + 1"
    using del [OF assms(1) m(2)] by (simp_all add: p'_def)
  then show "valid p'"
    by simp
  show "closed_slots (fds[i := -1]) \<le> room p'"
    using closed_slots_update [OF assms(4), of "-1"] assms(3,5) a(3) by simp
  show "registered sentinel lfd (fds[i := -1]) (table p')"
    using registered_close [OF assms(2,4,5)] by (simp add: a(2))
qed

lemma watch_slot:
  fixes ev
  assumes "valid p" and "registered sentinel lfd fds (table p)" and "i < length fds" and "fds ! i \<noteq> -1"
  defines "p' \<equiv> modify p (fds ! i) ev (ClientSlot i)"
  shows "valid p'" and "registered sentinel lfd fds (table p')" and "room p' = room p"
proof -
  obtain es where m: "table p (fds ! i) = Some (es, ClientSlot i)" "0 \<le> fds ! i"
    using registered_slot [OF assms(2-4)] registered_entry [OF assms(2)] by blast
  then have a: "valid p'" "table p' = (table p)(fds ! i \<mapsto> (ev, ClientSlot i))" "room p' = room p"
    using modify [OF assms(1) m(2)] by (simp_all add: p'_def)
  then show "valid p'" "room p' = room p"
    by simp_all
  show "registered sentinel lfd fds (table p')"
    using registered_watch [OF assms(2-4)] by (simp add: a(2))
qed

end

interpretation rp: readiness poller_inv poller_map poller_room
    "\<lambda>p fd ev ud. snd (io_poller_add p fd ev ud)" "\<lambda>p fd ev ud. snd (io_poller_mod p fd ev ud)" "\<lambda>p fd. snd (io_poller_del p fd)"
proof unfold_locales
  fix p fd ev ud
  show "poller_inv (snd (io_poller_add p fd ev ud)) \<and> poller_map (snd (io_poller_add p fd ev ud)) = (poller_map p)(fd \<mapsto> (ev, ud)) \<and>
      poller_room (snd (io_poller_add p fd ev ud)) = poller_room p - 1"
    if "poller_inv p" "0 \<le> fd" "poller_map p fd = None" "0 < poller_room p"
    using poller_add_ok [OF that(1-3), of ev ud] that(4) by (auto split: prod.splits)
  show "poller_inv (snd (io_poller_mod p fd ev ud)) \<and> poller_map (snd (io_poller_mod p fd ev ud)) = (poller_map p)(fd \<mapsto> (ev, ud)) \<and>
      poller_room (snd (io_poller_mod p fd ev ud)) = poller_room p"
    if "poller_inv p" "0 \<le> fd" "poller_map p fd \<noteq> None"
    using poller_mod_ok [OF that(1,2), of ev ud] that(3) by (auto split: prod.splits)
  show "poller_inv (snd (io_poller_del p fd)) \<and> poller_map (snd (io_poller_del p fd)) = (poller_map p)(fd := None) \<and>
      poller_room (snd (io_poller_del p fd)) = poller_room p + 1"
    if "poller_inv p" "0 \<le> fd" "poller_map p fd \<noteq> None"
    using poller_del_ok [OF that(1,2)] that(3) by (auto split: prod.splits)
qed

text \<open>
  C38. The table of the poller is a map from descriptors to what is watched for them: a descriptor that
  is not in it can be added while there is a free entry, one that is in it can be changed and removed,
  and the other descriptors are not touched. Waiting reports only descriptors of the map, with their
  user data.
\<close>

theorem io_poller_map:
  assumes "poller_inv p" and "0 \<le> fd"
  shows "(poller_map p fd = None \<longrightarrow> (case io_poller_add p fd ev ud of (rc, p') \<Rightarrow> poller_inv p' \<and>
      (if poller_room p = 0 then rc = -1 \<and> p' = p
       else rc = 0 \<and> poller_map p' = (poller_map p)(fd \<mapsto> (ev, ud)) \<and> poller_room p' = poller_room p - 1))) \<and>
    (case io_poller_mod p fd ev ud of (rc, p') \<Rightarrow> poller_inv p' \<and> poller_room p' = poller_room p \<and>
      (if poller_map p fd = None then rc = -1 \<and> p' = p else rc = 0 \<and> poller_map p' = (poller_map p)(fd \<mapsto> (ev, ud)))) \<and>
    (case io_poller_del p fd of (rc, p') \<Rightarrow> poller_inv p' \<and> poller_map p' = (poller_map p)(fd := None) \<and>
      (if poller_map p fd = None then rc = -1 \<and> p' = p else rc = 0 \<and> poller_room p' = poller_room p + 1)) \<and>
    (\<forall>evs w'. io_poller_wait poll p n w = (Some evs, w') \<longrightarrow>
      (\<forall>x \<in> set evs. \<exists>es. poller_map p (ev_fd x) = Some (es, ev_userdata x)))"
  by (intro conjI impI allI ballI poller_add_ok poller_mod_ok poller_del_ok poller_wait_ok [where evs = evs for evs]) (use assms in auto)

theorem io_poller_map_witness:
  "\<exists>p'. io_poller_add \<lparr>ip_entries = replicate 2 poll_entry_free, ip_count = 0\<rparr> 5 IO_EVENT_READ LISTEN_SENTINEL = (0, p') \<and>
     poller_map p' 5 = Some (IO_EVENT_READ, LISTEN_SENTINEL) \<and> poller_map p' 6 = None"
proof -
  let ?p = "\<lparr>ip_entries = replicate 2 poll_entry_free, ip_count = 0\<rparr>"
  have p: "poller_inv ?p" "poller_map ?p 5 = None" "poller_map ?p 6 = None"
    by (simp_all add: poller_inv_def poller_map_def poll_entry_free_def find_entry_def eval_nat_numeral All_less_Suc)
  obtain rc p' where a: "io_poller_add ?p 5 IO_EVENT_READ LISTEN_SENTINEL = (rc, p')"
    by fastforce
  have "poller_room ?p \<noteq> 0"
    by (simp add: poller_room_def poll_entry_free_def)
  then have "rc = 0" "poller_map p' = (poller_map ?p)(5 \<mapsto> (IO_EVENT_READ, LISTEN_SENTINEL))"
    using conjunct1 [OF io_poller_map, OF p(1), of 5 IO_EVENT_READ LISTEN_SENTINEL] p(2) a by simp_all
  then show ?thesis
    using a p(3) by simp
qed

end
