(* ===== verification/Net_Server.thy ===== *)
theory Net_Server
  imports Net_Messages Io_Poller
begin

text \<open>
  The event loops of \<^verbatim>\<open>example/server/server.c\<close> and the life of a server. The main loop and the loops of the
  read workers run the same code on their own clients and poller, the \<open>EventLoop\<close>. What the outside
  world does during one iteration is an input: what \<^verbatim>\<open>poll\<close> and \<^verbatim>\<open>accept\<close> report, what can be read from each
  descriptor, what waits in the pipe of a worker, and the time. \<^verbatim>\<open>accept\<close> is a function of the descriptors
  that are in use. A connection is named by its slot.
\<close>

subsection \<open>State\<close>

definition MAX_CLIENTS :: nat where
  "MAX_CLIENTS = 256"

definition WORKER_MAX_CLIENTS :: nat where
  "WORKER_MAX_CLIENTS = 64"

record EventLoop =
  lp_srv :: GravelServer
  lp_clients :: "ClientConn list"
  lp_num_clients :: int
  lp_poller :: IOPoller

record LoopInput =
  li_poll :: poll_call
  li_accept :: "int set \<Rightarrow> int"
  li_read :: "int \<Rightarrow> bytes option"
  li_pipe :: "int list"
  li_now :: u64

fun free_slot_from :: "nat \<Rightarrow> ClientConn list \<Rightarrow> nat option" where
  "free_slot_from i [] = None"
| "free_slot_from i (c # cs) = (if cn_fd c = -1 then Some i else free_slot_from (Suc i) cs)"

text \<open>\<^verbatim>\<open>find_free_slot\<close> and \<^verbatim>\<open>worker_find_free_slot\<close>\<close>

definition find_free_slot :: "EventLoop \<Rightarrow> nat option" where
  "find_free_slot lp = free_slot_from 0 (lp_clients lp)"

definition set_client :: "nat \<Rightarrow> ClientConn \<Rightarrow> EventLoop \<Rightarrow> EventLoop" where
  "set_client i c lp = lp\<lparr>lp_clients := (lp_clients lp)[i := c]\<rparr>"

subsection \<open>One connection\<close>

text \<open>The way out of an error: the connection leaves the poller and its slot becomes free.\<close>

definition drop_client :: "nat \<Rightarrow> EventLoop \<Rightarrow> EventLoop option" where
  "drop_client i lp = do {
     let c = lp_clients lp ! i;
     let p = snd (io_poller_del (lp_poller lp) (cn_fd c));
     c \<leftarrow> client_close (sv_db (lp_srv lp)) c;
     Some ((set_client i c lp)\<lparr>lp_poller := p, lp_num_clients := lp_num_clients lp - 1\<rparr>)
   }"

definition watch_client :: "nat \<Rightarrow> EventLoop \<Rightarrow> EventLoop" where
  "watch_client i lp =
     (let c = lp_clients lp ! i;
          interest = (if client_has_pending_send c then IO_EVENT_READ OR IO_EVENT_WRITE else IO_EVENT_READ)
      in if cn_fd c \<ge> 0 then lp\<lparr>lp_poller := snd (io_poller_mod (lp_poller lp) (cn_fd c) interest (ClientSlot i))\<rparr> else lp)"

definition accept_client :: "int \<Rightarrow> EventLoop \<Rightarrow> World \<Rightarrow> EventLoop \<times> World" where
  "accept_client fd lp w =
     (if fd < 0 then (lp, w)
      else case find_free_slot lp of
        None \<Rightarrow> (lp, w)
      | Some i \<Rightarrow>
          let (c, w) = client_init fd w in
          ((set_client i c lp)\<lparr>lp_num_clients := lp_num_clients lp + 1,
             lp_poller := snd (io_poller_add (lp_poller lp) fd IO_EVENT_READ (ClientSlot i))\<rparr>, w))"

text \<open>
  \<open>send_pending\<close> flushes the queue when there is something in it, with or without the reset of the arena.
\<close>

definition send_pending :: "bool \<Rightarrow> ClientConn \<Rightarrow> World \<Rightarrow> int \<times> ClientConn \<times> World" where
  "send_pending raw c w =
     (if client_has_pending_send c then (if raw then client_flush_send_raw c w else client_flush_send c w) else (0, c, w))"

text \<open>A connection with a read in flight; the first component tells whether there was one.\<close>

definition resume_client :: "nat \<Rightarrow> EventLoop \<Rightarrow> World \<Rightarrow> (bool \<times> EventLoop \<times> World) option" where
  "resume_client i lp w =
     (let c = lp_clients lp ! i in
      if cn_fd c < 0 \<or> as_state (cn_async c) = CONN_IDLE then Some (False, lp, w)
      else do {
        (still_busy, srv, c, w) \<leftarrow> client_async_resume (lp_srv lp) c w;
        let lp = lp\<lparr>lp_srv := srv\<rparr>;
        let (wr_rc, c, w) = send_pending (still_busy \<noteq> 0) c w;
        if wr_rc < 0 then do { lp \<leftarrow> drop_client i (set_client i c lp); Some (True, lp, w) }
        else if still_busy \<noteq> 0 then Some (True, watch_client i (set_client i c lp), w)
        else do {
          (rc, srv, c, w) \<leftarrow> process_messages (lp_srv lp) c w;
          let lp = set_client i c (lp\<lparr>lp_srv := srv\<rparr>);
          if rc < 0 then do { lp \<leftarrow> drop_client i lp; Some (True, lp, w) }
          else Some (True, watch_client i lp, w)
        }
      })"

fun resume_clients :: "nat list \<Rightarrow> EventLoop \<Rightarrow> World \<Rightarrow> (bool \<times> EventLoop \<times> World) option" where
  "resume_clients [] lp w = Some (False, lp, w)"
| "resume_clients (i # is) lp w = do {
     (a, lp, w) \<leftarrow> resume_client i lp w;
     (b, lp, w) \<leftarrow> resume_clients is lp w;
     Some (a \<or> b, lp, w)
   }"

text \<open>A full receive buffer is doubled, up to a limit.\<close>

definition grow_recv :: "u64 \<Rightarrow> ClientConn \<Rightarrow> World \<Rightarrow> bool \<times> ClientConn \<times> World" where
  "grow_recv limit c w =
     (if of_nat (length (cn_recv_buf c)) \<ge> cn_recv_cap c then
        let new_cap = (if cn_recv_cap c * 2 > limit then limit else cn_recv_cap c * 2) in
        if new_cap \<le> cn_recv_cap c then (False, c, w)
        else
          let (ok, w) = ask w in
          if ok then (True, c\<lparr>cn_recv_cap := new_cap, cn_has_buf := True\<rparr>, w) else (False, c, w)
      else (True, c, w))"

text \<open>
  \<^verbatim>\<open>read\<close> gives at most what fits; an empty result is the end of the connection, and an error as well as
  a missing buffer end it, too.
\<close>

definition read_client :: "bytes option \<Rightarrow> ClientConn \<Rightarrow> ClientConn option" where
  "read_client input c =
     (case input of
        None \<Rightarrow> None
      | Some bs \<Rightarrow>
          let got = take (unat (cn_recv_cap c) - length (cn_recv_buf c)) bs in
          if got = [] \<or> \<not> cn_has_buf c then None else Some (c\<lparr>cn_recv_buf := cn_recv_buf c @ got\<rparr>))"

definition readable_events :: u32 where
  "readable_events = IO_EVENT_READ OR IO_EVENT_HUP OR IO_EVENT_ERROR"

text \<open>The reading half of an event. The first component tells whether the connection is still there.\<close>

definition serve_read :: "u64 \<Rightarrow> bytes option \<Rightarrow> nat \<Rightarrow> EventLoop \<Rightarrow> World \<Rightarrow> (bool \<times> EventLoop \<times> World) option" where
  "serve_read limit input i lp w = do {
     let (ok, c, w) = grow_recv limit (lp_clients lp ! i) w;
     (case (if ok then read_client input c else None) of
        None \<Rightarrow> do { lp \<leftarrow> drop_client i (set_client i c lp); Some (False, lp, w) }
      | Some c \<Rightarrow> do {
          (rc, srv, c, w) \<leftarrow> process_messages (lp_srv lp) c w;
          let lp = set_client i c (lp\<lparr>lp_srv := srv\<rparr>);
          if rc < 0 then do { lp \<leftarrow> drop_client i lp; Some (False, lp, w) }
          else Some (True, lp, w)
        })
   }"

definition serve_write :: "nat \<Rightarrow> EventLoop \<Rightarrow> World \<Rightarrow> (EventLoop \<times> World) option" where
  "serve_write i lp w = do {
     let (wr_rc, c, w) = send_pending False (lp_clients lp ! i) w;
     let lp = set_client i c lp;
     if wr_rc < 0 then do { lp \<leftarrow> drop_client i lp; Some (lp, w) }
     else Some (watch_client i lp, w)
   }"

definition serve_event :: "u64 \<Rightarrow> (int \<Rightarrow> bytes option) \<Rightarrow> nat \<Rightarrow> u32 \<Rightarrow> EventLoop \<Rightarrow> World \<Rightarrow> (EventLoop \<times> World) option" where
  "serve_event limit rd i events lp w =
     (let fd = cn_fd (lp_clients lp ! i) in
      if fd < 0 then Some (lp, w)
      else do {
        (alive, lp, w) \<leftarrow> (if events AND readable_events \<noteq> 0 then serve_read limit (rd fd) i lp w else Some (True, lp, w));
        if alive then serve_write i lp w else Some (lp, w)
      })"

subsection \<open>The main loop\<close>

text \<open>The configuration fields that the server reads.\<close>

record GravelServerConfig =
  gs_db_config :: GravelDBConfig
  gs_port :: int
  gs_backlog :: int
  gs_max_request_size :: u64
  gs_auto_checkpoint_interval_s :: int
  gs_readonly :: bool
  gs_num_read_workers :: int

record ReadWorker =
  rw_db :: GravelDB
  rw_loop :: EventLoop
  rw_notify_fd :: int
  rw_worker_id :: nat

record ServerState =
  ss_config :: GravelServerConfig
  ss_loop :: EventLoop
  ss_last_checkpoint_ms :: u64
  ss_checkpoint_interval_ms :: u32
  ss_listen_fd :: int
  ss_running :: bool
  ss_workers :: "ReadWorker list"
  ss_pipes :: "int list list"
  ss_rr_next :: nat

definition poll_flush :: "EventLoop \<Rightarrow> World \<Rightarrow> (EventLoop \<times> World) option" where
  "poll_flush lp w =
     (let srv = lp_srv lp in
      if \<not> sv_flush_in_flight srv then Some (lp, w)
      else do {
        (rc, st, db, w) \<leftarrow> graveldb_flush_poll (sv_async_flush srv) (sv_db srv) w;
        Some (lp\<lparr>lp_srv := srv\<lparr>sv_db := db, sv_async_flush := st, sv_flush_in_flight := (rc = GRAVELDB_AGAIN)\<rparr>\<rparr>, w)
      })"

definition auto_checkpoint :: "u64 \<Rightarrow> ServerState \<Rightarrow> World \<Rightarrow> (ServerState \<times> World) option" where
  "auto_checkpoint now ss w =
     (let lp = ss_loop ss; srv = lp_srv lp in
      if sv_readonly srv \<or> ss_checkpoint_interval_ms ss = 0 \<or> now - ss_last_checkpoint_ms ss < ucast (ss_checkpoint_interval_ms ss)
      then Some (ss, w)
      else do {
        (rc, db, w) \<leftarrow> graveldb_checkpoint (sv_db srv) w;
        Some (ss\<lparr>ss_loop := lp\<lparr>lp_srv := srv\<lparr>sv_db := db\<rparr>\<rparr>, ss_last_checkpoint_ms := now\<rparr>, w)
      })"

text \<open>Any other user data would be an address that is not a connection.\<close>

definition watched_fds :: "EventLoop \<Rightarrow> int set" where
  "watched_fds lp = set (map pe_fd (ip_entries (lp_poller lp)))"

fun server_events :: "LoopInput \<Rightarrow> u64 \<Rightarrow> IOEvent list \<Rightarrow> EventLoop \<Rightarrow> World \<Rightarrow> (EventLoop \<times> World) option" where
  "server_events inp limit [] lp w = Some (lp, w)"
| "server_events inp limit (ev # evs) lp w = do {
     (lp, w) \<leftarrow>
       (case ev_userdata ev of
          LISTEN_SENTINEL \<Rightarrow> Some (accept_client (li_accept inp (watched_fds lp)) lp w)
        | ClientSlot i \<Rightarrow> serve_event limit (li_read inp) i (ev_events ev) lp w
        | _ \<Rightarrow> None);
     server_events inp limit evs lp w
   }"

text \<open>
  One iteration of \<^verbatim>\<open>server_loop\<close>. The timeout of the poller depends on whether there is work in flight;
  it only delays \<^verbatim>\<open>poll\<close>.
\<close>

definition server_iteration :: "LoopInput \<Rightarrow> ServerState \<Rightarrow> World \<Rightarrow> (ServerState \<times> World) option" where
  "server_iteration inp ss w = do {
     (lp, w) \<leftarrow> poll_flush (ss_loop ss) w;
     (has_async, lp, w) \<leftarrow> resume_clients [0..<length (lp_clients lp)] lp w;
     let (evs, w) = io_poller_wait (li_poll inp) (lp_poller lp) (MAX_CLIENTS + 1) w;
     (ss, w) \<leftarrow> auto_checkpoint (li_now inp) (ss\<lparr>ss_loop := lp\<rparr>) w;
     (case evs of
        None \<Rightarrow> Some (ss, w)
      | Some evs \<Rightarrow> do {
          (lp, w) \<leftarrow> server_events inp (gs_max_request_size (ss_config ss)) evs (ss_loop ss) w;
          Some (ss\<lparr>ss_loop := lp\<rparr>, w)
        })
   }"

fun server_loop :: "LoopInput list \<Rightarrow> ServerState \<Rightarrow> World \<Rightarrow> (ServerState \<times> World) option" where
  "server_loop [] ss w = Some (ss, w)"
| "server_loop (inp # inps) ss w = do {
     (ss, w) \<leftarrow> server_iteration inp ss w;
     server_loop inps ss w
   }"

subsection \<open>Read workers\<close>

definition worker_srv :: "GravelDB \<Rightarrow> GravelServer" where
  "worker_srv db = \<lparr>sv_db = db, sv_readonly = True, sv_async_flush = None, sv_flush_in_flight = False\<rparr>"

text \<open>The descriptors that the accepting thread has put into the pipe; the sign of a descriptor is checked.\<close>

fun take_pipe :: "int list \<Rightarrow> EventLoop \<Rightarrow> World \<Rightarrow> EventLoop \<times> World" where
  "take_pipe [] lp w = (lp, w)"
| "take_pipe (fd # fds) lp w = (let (lp, w) = accept_client fd lp w in take_pipe fds lp w)"

fun worker_events :: "LoopInput \<Rightarrow> IOEvent list \<Rightarrow> EventLoop \<Rightarrow> World \<Rightarrow> (EventLoop \<times> World) option" where
  "worker_events inp [] lp w = Some (lp, w)"
| "worker_events inp (ev # evs) lp w = do {
     (lp, w) \<leftarrow>
       (case ev_userdata ev of
          NOTIFY_SENTINEL \<Rightarrow> Some (take_pipe (li_pipe inp) lp w)
        | ClientSlot i \<Rightarrow> serve_event (64 * 1024 * 1024) (li_read inp) i (ev_events ev) lp w
        | _ \<Rightarrow> None);
     worker_events inp evs lp w
   }"

definition worker_iteration :: "LoopInput \<Rightarrow> ReadWorker \<Rightarrow> World \<Rightarrow> (ReadWorker \<times> World) option" where
  "worker_iteration inp rw w = do {
     (has_async, lp, w) \<leftarrow> resume_clients [0..<length (lp_clients (rw_loop rw))] (rw_loop rw) w;
     let (evs, w) = io_poller_wait (li_poll inp) (lp_poller lp) (WORKER_MAX_CLIENTS + 1) w;
     (case evs of
        None \<Rightarrow> Some (rw\<lparr>rw_loop := lp\<rparr>, w)
      | Some evs \<Rightarrow> do {
          (lp, w) \<leftarrow> worker_events inp evs lp w;
          Some (rw\<lparr>rw_loop := lp\<rparr>, w)
        })
   }"

text \<open>When the loop ends the worker closes what is open.\<close>

fun close_clients :: "nat list \<Rightarrow> EventLoop \<Rightarrow> EventLoop option" where
  "close_clients [] lp = Some lp"
| "close_clients (i # is) lp =
     (let c = lp_clients lp ! i in
      if cn_fd c \<ge> 0 then do {
        let p = snd (io_poller_del (lp_poller lp) (cn_fd c));
        c \<leftarrow> client_close (sv_db (lp_srv lp)) c;
        close_clients is ((set_client i c lp)\<lparr>lp_poller := p\<rparr>)
      }
      else close_clients is lp)"

fun worker_run :: "LoopInput list \<Rightarrow> ReadWorker \<Rightarrow> World \<Rightarrow> (ReadWorker \<times> World) option" where
  "worker_run [] rw w = do {
     lp \<leftarrow> close_clients [0..<length (lp_clients (rw_loop rw))] (rw_loop rw);
     Some (rw\<lparr>rw_loop := lp\<rparr>, w)
   }"
| "worker_run (inp # inps) rw w = do {
     (rw, w) \<leftarrow> worker_iteration inp rw w;
     worker_run inps rw w
   }"

text \<open>The server that the handlers see is the worker's own, without a check of its allocation.\<close>

definition read_worker_loop :: "LoopInput list \<Rightarrow> ReadWorker \<Rightarrow> World \<Rightarrow> (ReadWorker \<times> World) option" where
  "read_worker_loop inps rw w =
     (let (ok, w) = ask w in
      if \<not> ok then None
      else worker_run inps (rw\<lparr>rw_loop := (rw_loop rw)\<lparr>lp_srv := worker_srv (rw_db rw)\<rparr>\<rparr>) w)"

text \<open>
  One connection that the accepting thread of the read-only mode takes: it goes to the workers in turn.
  A failing write to the pipe drops it. The counter is an \<^verbatim>\<open>int\<close>, and counting past its range is undefined.
\<close>

definition accept_readonly :: "int \<Rightarrow> ServerState \<Rightarrow> World \<Rightarrow> (ServerState \<times> World) option" where
  "accept_readonly fd ss w =
     (if fd < 0 then Some (ss, w)
      else if ss_rr_next ss = 2 ^ 31 - 1 then None
      else
        let target = ss_rr_next ss mod length (ss_workers ss); (ok, w) = ask w in
        Some (ss\<lparr>ss_rr_next := ss_rr_next ss + 1,
          ss_pipes := (if ok then (ss_pipes ss)[target := ss_pipes ss ! target @ [fd]] else ss_pipes ss)\<rparr>, w))"

definition process_fds :: "ServerState \<Rightarrow> int set" where
  "process_fds ss = watched_fds (ss_loop ss) \<union> set (concat (ss_pipes ss)) \<union> (\<Union>rw \<in> set (ss_workers ss). watched_fds (rw_loop rw))"

fun readonly_accept_events :: "IOEvent list \<Rightarrow> (int set \<Rightarrow> int) \<Rightarrow> ServerState \<Rightarrow> World \<Rightarrow> (ServerState \<times> World) option" where
  "readonly_accept_events [] acc ss w = Some (ss, w)"
| "readonly_accept_events (ev # evs) acc ss w = do {
     (ss, w) \<leftarrow> accept_readonly (acc (process_fds ss)) ss w;
     readonly_accept_events evs acc ss w
   }"

fun readonly_accept_loop :: "LoopInput list \<Rightarrow> ServerState \<Rightarrow> World \<Rightarrow> (ServerState \<times> World) option" where
  "readonly_accept_loop [] ss w = Some (ss, w)"
| "readonly_accept_loop (inp # inps) ss w = do {
     (ss, w) \<leftarrow>
       (case io_poller_wait (li_poll inp) (lp_poller (ss_loop ss)) 4 w of
          (None, w) \<Rightarrow> Some (ss, w)
        | (Some evs, w) \<Rightarrow> readonly_accept_events evs (li_accept inp) ss w);
     readonly_accept_loop inps ss w
   }"

subsection \<open>Creating, starting and stopping\<close>

text \<open>The checkpoint interval in milliseconds is computed with 32 bits; a read-only server has none.\<close>

definition server_init :: "GravelServerConfig \<Rightarrow> GravelDB \<Rightarrow> IOPoller \<Rightarrow> u64 \<Rightarrow> ServerState" where
  "server_init config db p now =
     (let interval_s = (if gs_auto_checkpoint_interval_s config > 0 then word_of_int (gs_auto_checkpoint_interval_s config) else 60) in
      \<lparr>ss_config = config,
       ss_loop = \<lparr>lp_srv = \<lparr>sv_db = db, sv_readonly = gs_readonly config, sv_async_flush = None, sv_flush_in_flight = False\<rparr>,
         lp_clients = replicate MAX_CLIENTS conn_free, lp_num_clients = 0, lp_poller = p\<rparr>,
       ss_last_checkpoint_ms = (if gs_readonly config then 0 else now),
       ss_checkpoint_interval_ms = (if gs_readonly config then 0 else interval_s * 1000),
       ss_listen_fd = -1, ss_running = False, ss_workers = [], ss_pipes = [], ss_rr_next = 0\<rparr>)"

definition gravel_server_create ::
  "GravelServerConfig \<Rightarrow> u64 option \<Rightarrow> u32 option \<Rightarrow> u64 \<Rightarrow> World \<Rightarrow> (graveldb_status \<times> ServerState option \<times> World) option" where
  "gravel_server_create config frsize phys now w =
     (let (ok, w) = ask w in
      if \<not> ok then Some (GRAVELDB_ERR_OOM, None, w)
      else
        case io_poller_create (int MAX_CLIENTS + 16) w of
          (None, w) \<Rightarrow> Some (GRAVELDB_ERR_OOM, None, w)
        | (Some p, w) \<Rightarrow> do {
            (rc, db, w) \<leftarrow> graveldb_open (gs_db_config config) frsize phys w;
            if rc \<noteq> GRAVELDB_OK then Some (rc, None, w)
            else do {
              db \<leftarrow> db;
              Some (GRAVELDB_OK, Some (server_init config db p now), w)
            }
          })"

text \<open>
  The allocations for the workers are not checked: without a table or a poller a NULL pointer is followed.
\<close>

fun start_workers :: "nat \<Rightarrow> (nat \<Rightarrow> int) \<Rightarrow> GravelDB \<Rightarrow> World \<Rightarrow> ((bool \<times> ReadWorker list) \<times> World) option" where
  "start_workers 0 notify_fd db w = Some ((True, []), w)"
| "start_workers (Suc n) notify_fd db w = do {
     ((ok, rws), w) \<leftarrow> start_workers n notify_fd db w;
     if \<not> ok then Some ((False, rws), w)
     else do {
       let (pipe_ok, w) = ask w;
       if \<not> pipe_ok then Some ((False, rws), w)
       else do {
         let (p, w) = io_poller_create (int WORKER_MAX_CLIENTS + 4) w;
         p \<leftarrow> p;
         let p = snd (io_poller_add p (notify_fd n) IO_EVENT_READ NOTIFY_SENTINEL);
         Some ((True, rws @ [\<lparr>rw_db = db, rw_loop = \<lparr>lp_srv = worker_srv db,
           lp_clients = replicate WORKER_MAX_CLIENTS conn_free, lp_num_clients = 0, lp_poller = p\<rparr>,
           rw_notify_fd = notify_fd n, rw_worker_id = n\<rparr>]), w)
       }
     }
   }"

definition gravel_server_start :: "int \<Rightarrow> (nat \<Rightarrow> int) \<Rightarrow> ServerState \<Rightarrow> World \<Rightarrow> (graveldb_status \<times> ServerState \<times> World) option" where
  "gravel_server_start listen_fd notify_fd ss w =
     (let ss = ss\<lparr>ss_listen_fd := listen_fd\<rparr> in
      if listen_fd < 0 then Some (GRAVELDB_ERR_IO, ss, w)
      else
        let (bound, w) = ask w in
        if \<not> bound then Some (GRAVELDB_ERR_IO, ss, w)
        else
          let (listening, w) = ask w in
          if \<not> listening then Some (GRAVELDB_ERR_IO, ss, w)
          else
            let lp = ss_loop ss;
                ss = ss\<lparr>ss_loop := lp\<lparr>lp_poller := snd (io_poller_add (lp_poller lp) listen_fd IO_EVENT_READ LISTEN_SENTINEL)\<rparr>, ss_running := True\<rparr>;
                nw = gs_num_read_workers (ss_config ss)
            in if sv_readonly (lp_srv lp) \<and> nw > 0 then do {
                 let (ok, w) = ask w;
                 _ \<leftarrow> (if ok then Some () else None);
                 let (ok, w) = ask w;
                 _ \<leftarrow> (if ok then Some () else None);
                 ((ok, rws), w) \<leftarrow> start_workers (nat nw) notify_fd (sv_db (lp_srv lp)) w;
                 Some (if ok then GRAVELDB_OK else GRAVELDB_ERR_IO, ss\<lparr>ss_workers := rws, ss_pipes := map (\<lambda>_. []) rws\<rparr>, w)
               }
               else Some (GRAVELDB_OK, ss, w))"

definition gravel_server_stop :: "ServerState \<Rightarrow> World \<Rightarrow> (ServerState \<times> World) option" where
  "gravel_server_stop ss w =
     (if \<not> ss_running ss then Some (ss, w)
      else do {
        lp \<leftarrow> close_clients [0..<length (lp_clients (ss_loop ss))] (ss_loop ss);
        let lp = (if ss_listen_fd ss \<ge> 0 then lp\<lparr>lp_poller := snd (io_poller_del (lp_poller lp) (ss_listen_fd ss))\<rparr> else lp);
        let ss = ss\<lparr>ss_running := False, ss_listen_fd := -1\<rparr>;
        let srv = lp_srv lp;
        if sv_readonly srv then Some (ss\<lparr>ss_loop := lp\<rparr>, w)
        else do {
          (rc, db, w) \<leftarrow> graveldb_checkpoint (sv_db srv) w;
          Some (ss\<lparr>ss_loop := lp\<lparr>lp_srv := srv\<lparr>sv_db := db\<rparr>\<rparr>\<rparr>, w)
        }
      })"

definition gravel_server_destroy :: "ServerState \<Rightarrow> World \<Rightarrow> World option" where
  "gravel_server_destroy ss w = do {
     (ss, w) \<leftarrow> gravel_server_stop ss w;
     graveldb_close (sv_db (lp_srv (ss_loop ss))) w
   }"

definition gravel_server_get_db :: "ServerState \<Rightarrow> GravelDB" where
  "gravel_server_get_db ss = sv_db (lp_srv (ss_loop ss))"

end
