(* ===== verification/Net_Loop.thy ===== *)
theory Net_Loop
  imports Net_Server
begin

text \<open>
  What the loops of \<^verbatim>\<open>example/server/server.c\<close> keep: a request changes neither the descriptor of its
  connection nor, in a read-only server with a frozen store, the server; and in every state that a
  server reaches, exactly the open connections are registered with the poller.
\<close>

subsection \<open>What a message changes\<close>

text \<open>A store that no read changes: the index is not being rehashed, and no bin is in a checkpoint.\<close>

definition frozen :: "GravelDB \<Rightarrow> bool" where
  "frozen db \<longleftrightarrow> rt_old_slots (db_index db) = None \<and> (\<forall>p s. db_bins db p = Some s \<longrightarrow> \<not> bn_in_checkpoint s)"

lemma index_get_frozen: "hash_index_get idx k = Some (r, idx') \<Longrightarrow> rt_old_slots idx = None \<Longrightarrow> idx' = idx"
  by (auto simp: hash_index_get_def rehash_step_idle split: if_splits option.splits)

lemma resolve_one_frozen:
  assumes "resolve_one i k wanted db out reads = Some (d, db', out', reads')" and "frozen db"
  shows "db' = db"
proof -
  obtain r idx where g: "hash_index_get (db_index db) k = Some (r, idx)"
    using assms(1) by (auto simp: resolve_one_def bind_eq_Some_conv)
  have db: "db\<lparr>db_index := idx\<rparr> = db"
    using index_get_frozen [OF g] assms(2) by (simp add: frozen_def)
  show ?thesis
  proof (cases r)
    case None
    then show ?thesis
      using assms(1) g db by (simp add: resolve_one_def)
  next
    case (Some de)
    then obtain p s where b: "get_bin db (fst de) = Some (p, s)"
      using assms(1) g db by (auto simp: resolve_one_def bind_eq_Some_conv split: prod.splits)
    moreover from this have "\<not> bn_in_checkpoint s"
      using assms(2) by (auto simp: frozen_def get_bin_def bind_eq_Some_conv)
    ultimately show ?thesis
      using assms(1) g db Some set_bin_same [OF b]
      by (auto simp: resolve_one_def bind_eq_Some_conv Let_def split: prod.splits if_splits)
  qed
qed

lemma resolve_all_frozen:
  "resolve_all i qs db out reads = Some (ds, db', out', reads') \<Longrightarrow> frozen db \<Longrightarrow> db' = db"
proof (induction qs arbitrary: i out reads ds)
  case (Cons q qs)
  obtain k wanted where q: "q = (k, wanted)"
    by (cases q)
  obtain d db1 out1 reads1 where 1: "resolve_one i k wanted db out reads = Some (d, db1, out1, reads1)"
    using Cons.prems(1) by (auto simp: q bind_eq_Some_conv)
  then have "db1 = db"
    by (rule resolve_one_frozen) (rule Cons.prems(2))
  then show ?case
    using Cons 1 by (auto simp: q bind_eq_Some_conv)
qed simp

lemma batch_get_submit_frozen:
  assumes "graveldb_batch_get_submit db qs w = Some (rc, st, out, dims, db', w')" and "frozen db"
  shows "db' = db"
proof (cases "qs = []")
  case True
  then show ?thesis
    using assms(1) by (simp add: graveldb_batch_get_submit_def)
next
  case False
  obtain ok w1 where a: "(if length qs \<le> 64 then (True, w) else ask w) = (ok, w1)"
    by fastforce
  show ?thesis
  proof (cases ok)
    case True
    then obtain ds db1 out1 reads where r: "resolve_all 0 qs db (replicate (length qs) None) [] = Some (ds, db1, out1, reads)"
      using assms(1) False a by (auto simp: graveldb_batch_get_submit_def Let_def bind_eq_Some_conv)
    then have "db1 = db"
      by (rule resolve_all_frozen) (rule assms(2))
    then show ?thesis
      using assms(1) False a True r
      by (simp add: graveldb_batch_get_submit_def Let_def split_beta bind_eq_Some_conv split: if_splits) auto
  next
    case False
    then show ?thesis
      using assms(1) \<open>qs \<noteq> []\<close> a by (simp add: graveldb_batch_get_submit_def Let_def)
  qed
qed

lemma chunk_submit_frozen:
  assumes "chunk_submit db a w = Some (busy, db', a', w')" and "frozen db"
  shows "db' = db"
proof -
  let ?qs = "map (\<lambda>k. (k, True)) (take (unat (min (as_count a - as_offset a) PULL_CHUNK_SIZE)) (drop (unat (as_offset a)) (as_feat_ids a)))"
  obtain rc st out dims db2 w2 where s: "graveldb_batch_get_submit db ?qs w = Some (rc, st, out, dims, db2, w2)"
    using assms(1) by (auto simp: chunk_submit_def bind_eq_Some_conv Let_def)
  then have "db' = db2"
    using assms(1) by (auto simp: chunk_submit_def bind_eq_Some_conv Let_def split: if_splits)
  then show ?thesis
    using batch_get_submit_frozen [OF s assms(2)] by simp
qed

lemma response_fd [simp]:
  "cn_fd (fst (response_begin c st w)) = cn_fd c" "cn_fd (fst (response_append c bs w)) = cn_fd c"
  "cn_fd (response_finish c) = cn_fd c" "cn_fd (fst (reply c st w)) = cn_fd c" "cn_fd (fst (stream_send_terminator c w)) = cn_fd c"
  "cn_fd (fst (snd (conn_alloc c n w))) = cn_fd c" "cn_fd (fst (snd (alloc_scratch c w))) = cn_fd c"
  "cn_fd (fst (snd (chunk_arena_new c w))) = cn_fd c" "cn_fd (fst (snd (stream_header c w))) = cn_fd c"
  by (simp_all add: response_begin_def chunk_arena_new_def response_append_def response_finish_def enqueue_def reply_def
      stream_send_terminator_def conn_alloc_def alloc_scratch_def stream_header_def split_beta Let_def split: option.splits)

lemma append_entries_fd: "append_entries i dims scratch c w = Some (c', w') \<Longrightarrow> cn_fd c' = cn_fd c"
proof (induction dims arbitrary: i c w)
  case (Cons dim dims)
  then show ?case
    by (auto simp: split_beta Let_def bind_eq_Some_conv split: if_splits dest!: Cons.IH)
qed simp

lemma append_chunk_fd: "append_chunk c w = Some (c', w') \<Longrightarrow> cn_fd c' = cn_fd c"
  by (auto simp: append_chunk_def bind_eq_Some_conv Let_def dest: append_entries_fd)

lemma alloc_fd:
  "snd (chunk_arena_new c w) = (c', w') \<Longrightarrow> cn_fd c' = cn_fd c" "snd (conn_alloc c n w) = (c', w') \<Longrightarrow> cn_fd c' = cn_fd c"
  "reply c st w = (c', w') \<Longrightarrow> cn_fd c' = cn_fd c" "stream_send_terminator c w = (c', w') \<Longrightarrow> cn_fd c' = cn_fd c"
  "snd (stream_header c w) = (c', w') \<Longrightarrow> cn_fd c' = cn_fd c"
  by (metis response_fd fst_conv)+

lemma build_chunk_fd: "build_chunk c w = Some (c', w') \<Longrightarrow> cn_fd c' = cn_fd c"
  by (auto simp: build_chunk_def stream_build_frame_def enqueue_def bind_eq_Some_conv Let_def split_beta split: option.splits if_splits
      dest!: alloc_fd)

text \<open>The result of a request: the same connection, and the same server when nothing may change.\<close>

definition serves :: "GravelServer \<Rightarrow> ClientConn \<Rightarrow> GravelServer \<Rightarrow> ClientConn \<Rightarrow> bool" where
  "serves srv c srv' c' \<longleftrightarrow> cn_fd c' = cn_fd c \<and> sv_readonly srv' = sv_readonly srv \<and>
     (sv_readonly srv \<and> frozen (sv_db srv) \<longrightarrow> srv' = srv)"

lemma servesI: "cn_fd c' = cn_fd c \<Longrightarrow> serves srv c srv c'"
  by (simp add: serves_def)

lemma serves_trans: "serves srv c srv' c' \<Longrightarrow> serves srv' c' srv2 c2 \<Longrightarrow> serves srv c srv2 c2"
  by (auto simp: serves_def)

lemma serves_chunk:
  assumes "chunk_submit (sv_db srv) a w = Some (busy, db, a', w')" and "cn_fd c' = cn_fd c"
  shows "serves srv c (srv\<lparr>sv_db := db\<rparr>) c'"
  using chunk_submit_frozen [OF assms(1)] assms(2) by (auto simp: serves_def)

lemma pull_submit_next_chunk_serves:
  "pull_submit_next_chunk srv c w = Some (rc, srv', c', w') \<Longrightarrow> serves srv c srv' c'"
proof (induction srv c w rule: pull_submit_next_chunk.induct)
  case (1 srv c w)
  show ?case
  proof (cases "as_offset (cn_async c) < as_count (cn_async c)")
    case False
    then show ?thesis
      using "1.prems" by (subst (asm) pull_submit_next_chunk.simps) (auto simp: Let_def intro: servesI)
  next
    case True
    then obtain busy db a' w1 where s: "chunk_submit (sv_db srv) (cn_async c) w = Some (busy, db, a', w1)"
      using "1.prems" by (subst (asm) pull_submit_next_chunk.simps) (auto simp: Let_def bind_eq_Some_conv)
    show ?thesis
    proof (cases busy)
      case True
      then show ?thesis
        using "1.prems" \<open>as_offset (cn_async c) < _\<close> s serves_chunk [OF s, of c']
        by (subst (asm) pull_submit_next_chunk.simps) (auto simp: Let_def serves_def)
    next
      case False
      then obtain c1 w2 where a: "append_chunk (c\<lparr>cn_async := a'\<rparr>) w1 = Some (c1, w2)"
          "pull_submit_next_chunk (srv\<lparr>sv_db := db\<rparr>) c1 w2 = Some (rc, srv', c', w')"
        using "1.prems" True s by (subst (asm) pull_submit_next_chunk.simps) (auto simp: Let_def bind_eq_Some_conv)
      have "serves (srv\<lparr>sv_db := db\<rparr>) c1 srv' c'"
        by (rule "1.IH" [OF refl _ s refl refl refl False a(1) refl a(2)]) (use True in simp)
      moreover have "serves srv c (srv\<lparr>sv_db := db\<rparr>) c1"
        using append_chunk_fd [OF a(1)] by (intro serves_chunk [OF s]) simp
      ultimately show ?thesis
        by (rule serves_trans [rotated])
    qed
  qed
qed

lemma stream_submit_next_chunk_serves:
  "stream_submit_next_chunk srv c w = Some (rc, srv', c', w') \<Longrightarrow> serves srv c srv' c'"
proof (induction srv c w rule: stream_submit_next_chunk.induct)
  case (1 srv c w)
  show ?case
  proof (cases "as_offset (cn_async c) < as_count (cn_async c)")
    case False
    then show ?thesis
      using "1.prems" by (subst (asm) stream_submit_next_chunk.simps) (auto simp: Let_def split_beta intro: servesI)
  next
    case True
    then obtain busy db a' w1 where s: "chunk_submit (sv_db srv) (cn_async c) w = Some (busy, db, a', w1)"
      using "1.prems" by (subst (asm) stream_submit_next_chunk.simps) (auto simp: Let_def bind_eq_Some_conv)
    show ?thesis
    proof (cases busy)
      case True
      then show ?thesis
        using "1.prems" \<open>as_offset (cn_async c) < _\<close> s serves_chunk [OF s, of c']
        by (subst (asm) stream_submit_next_chunk.simps) (auto simp: Let_def serves_def)
    next
      case False
      then obtain c1 w2 where a: "build_chunk (c\<lparr>cn_async := a'\<rparr>) w1 = Some (c1, w2)"
          "stream_submit_next_chunk (srv\<lparr>sv_db := db\<rparr>) c1 w2 = Some (rc, srv', c', w')"
        using "1.prems" True s by (subst (asm) stream_submit_next_chunk.simps) (auto simp: Let_def bind_eq_Some_conv)
      have "serves (srv\<lparr>sv_db := db\<rparr>) c1 srv' c'"
        by (rule "1.IH" [OF refl _ s refl refl refl False a(1) refl a(2)]) (use True in simp)
      moreover have "serves srv c (srv\<lparr>sv_db := db\<rparr>) c1"
        using build_chunk_fd [OF a(1)] by (intro serves_chunk [OF s]) simp
      ultimately show ?thesis
        by (rule serves_trans [rotated])
    qed
  qed
qed

lemma pull_resume_serves: "pull_resume srv c w = Some (rc, srv', c', w') \<Longrightarrow> serves srv c srv' c'"
  using append_chunk_fd pull_submit_next_chunk_serves
  by (fastforce simp: pull_resume_def bind_eq_Some_conv Let_def serves_def split: if_splits)

lemma stream_resume_serves: "stream_resume srv c w = Some (rc, srv', c', w') \<Longrightarrow> serves srv c srv' c'"
  using build_chunk_fd stream_submit_next_chunk_serves
  by (fastforce simp: stream_resume_def bind_eq_Some_conv Let_def serves_def split: if_splits)

lemma client_async_resume_serves: "client_async_resume srv c w = Some (rc, srv', c', w') \<Longrightarrow> serves srv c srv' c'"
  using pull_resume_serves stream_resume_serves
  by (auto simp: client_async_resume_def serves_def split: ConnAsyncState.splits)

lemma handle_pull_serves: "handle_pull srv c body len w = Some (srv', c', w') \<Longrightarrow> serves srv c srv' c'"
  by (auto simp: handle_pull_def serves_def bind_eq_Some_conv Let_def split_beta split: if_splits option.splits
      dest!: pull_submit_next_chunk_serves alloc_fd)

lemma handle_pull_stream_serves: "handle_pull_stream srv c body len w = Some (srv', c', w') \<Longrightarrow> serves srv c srv' c'"
  by (auto simp: handle_pull_stream_def serves_def bind_eq_Some_conv Let_def split_beta split: if_splits option.splits
      dest!: stream_submit_next_chunk_serves alloc_fd)

lemma push_items_readonly: "push_items srv items w = Some (srv', w') \<Longrightarrow> sv_readonly srv' = sv_readonly srv"
  by (auto simp: push_items_def bind_eq_Some_conv split: if_splits)

lemma handle_update_fd:
  "handle_push srv c body len w = Some (srv', c', w') \<Longrightarrow> cn_fd c' = cn_fd c \<and> sv_readonly srv' = sv_readonly srv"
  "handle_delete srv c body len w = Some (srv', c', w') \<Longrightarrow> cn_fd c' = cn_fd c \<and> sv_readonly srv' = sv_readonly srv"
  "handle_flush srv c w = Some (srv', c', w') \<Longrightarrow> cn_fd c' = cn_fd c \<and> sv_readonly srv' = sv_readonly srv"
  "handle_checkpoint srv c w = Some (srv', c', w') \<Longrightarrow> cn_fd c' = cn_fd c \<and> sv_readonly srv' = sv_readonly srv"
  by (auto simp: handle_push_def handle_delete_def handle_flush_def handle_checkpoint_def bind_eq_Some_conv Let_def split_beta
      split: if_splits dest!: push_items_readonly alloc_fd)

lemma handle_message_serves:
  assumes "handle_message srv c code body len w = Some (srv', c', w')"
  shows "serves srv c srv' c'"
proof -
  consider "handle_pull srv c body len w = Some (srv', c', w')" | "handle_pull_stream srv c body len w = Some (srv', c', w')"
    | "srv' = srv" "cn_fd c' = cn_fd c" | "\<not> sv_readonly srv" "cn_fd c' = cn_fd c" "sv_readonly srv' = sv_readonly srv"
    using assms handle_update_fd [of srv c]
    by (auto simp: handle_message_def handle_stats_def handle_ping_def bind_eq_Some_conv Let_def split_beta
        split: option.splits graveldb_msg_type.splits if_splits dest!: alloc_fd)
  then show ?thesis
    by cases (auto simp: serves_def dest: handle_pull_serves handle_pull_stream_serves)
qed

lemma process_message_serves: "process_message srv c w = Some (rc, srv', c', w') \<Longrightarrow> serves srv c srv' c'"
  by (auto simp: process_message_def serves_def Let_def bind_eq_Some_conv split: if_splits dest!: handle_message_serves)

lemma process_messages_serves:
  assumes "process_messages srv c w = Some (rc, srv', c', w')"
  shows "serves srv c srv' c'"
proof -
  have "case (rc, srv', c', w') of (rc, srv', c', w') \<Rightarrow> serves srv c srv' c'"
    using assms
  proof (rule process_messages.raw_induct [where P = "\<lambda>srv c w r. case r of (rc, srv', c', w') \<Rightarrow> serves srv c srv' c'", rotated])
    fix f srv c w r
    assume ih: "\<And>srv c w r. f srv c w = Some r \<Longrightarrow> case r of (rc, srv', c', w') \<Rightarrow> serves srv c srv' c'"
      and step: "process_message srv c w \<bind> (\<lambda>(rc, srv, c, w). if 0 < rc then f srv c w else Some (rc, srv, c, w)) = Some r"
    then obtain rc1 srv1 c1 w1 where p: "process_message srv c w = Some (rc1, srv1, c1, w1)"
        "(if 0 < rc1 then f srv1 c1 w1 else Some (rc1, srv1, c1, w1)) = Some r"
      by (auto simp: bind_eq_Some_conv)
    note s = process_message_serves [OF p(1)]
    show "case r of (rc, srv', c', w') \<Rightarrow> serves srv c srv' c'"
      using p(2) s ih [of srv1 c1 w1 r] serves_trans [OF s] by (auto split: if_splits)
  qed
  then show ?thesis
    by simp
qed

subsection \<open>The loops keep their connections registered\<close>

definition loop_fds :: "EventLoop \<Rightarrow> int list" where
  "loop_fds lp = map cn_fd (lp_clients lp)"

text \<open>
  Every open slot is watched under its own number, besides the listener nothing else is watched, there
  is room for as many descriptors as there are free slots, and the open slots are counted.
\<close>

definition loop_inv :: "userdata \<Rightarrow> int \<Rightarrow> EventLoop \<Rightarrow> bool" where
  "loop_inv sentinel lfd lp \<longleftrightarrow> poller_inv (lp_poller lp) \<and> registered sentinel lfd (loop_fds lp) (poller_map (lp_poller lp)) \<and>
     closed_slots (loop_fds lp) \<le> poller_room (lp_poller lp) \<and>
     lp_num_clients lp = int (length (lp_clients lp)) - int (closed_slots (loop_fds lp))"

text \<open>A step that opens no connection.\<close>

definition keeps :: "userdata \<Rightarrow> int \<Rightarrow> EventLoop \<Rightarrow> EventLoop \<Rightarrow> bool" where
  "keeps sentinel lfd lp lp' \<longleftrightarrow> loop_inv sentinel lfd lp' \<and> length (lp_clients lp') = length (lp_clients lp) \<and>
     dom (poller_map (lp_poller lp')) \<subseteq> dom (poller_map (lp_poller lp))"

lemma keeps_refl: "loop_inv sentinel lfd lp \<Longrightarrow> keeps sentinel lfd lp lp"
  by (simp add: keeps_def)

lemma keeps_trans:
  assumes "keeps sentinel lfd lp lp1" and "keeps sentinel lfd lp1 lp2"
  shows "keeps sentinel lfd lp lp2"
  unfolding keeps_def
proof (intro conjI impI)
  show "dom (poller_map (lp_poller lp2)) \<subseteq> dom (poller_map (lp_poller lp))"
    by (rule subset_trans [of _ "dom (poller_map (lp_poller lp1))"]) (use assms in \<open>simp_all add: keeps_def\<close>)
qed (use assms in \<open>simp_all add: keeps_def\<close>)

lemma keeps_inv: "keeps sentinel lfd lp lp' \<Longrightarrow> loop_inv sentinel lfd lp'"
  by (simp add: keeps_def)

lemma keeps_length: "keeps sentinel lfd lp lp' \<Longrightarrow> length (lp_clients lp') = length (lp_clients lp)"
  by (simp add: keeps_def)

lemma set_client_fields [simp]:
  "lp_srv (set_client i c lp) = lp_srv lp" "lp_poller (set_client i c lp) = lp_poller lp"
  "lp_num_clients (set_client i c lp) = lp_num_clients lp" "lp_clients (set_client i c lp) = (lp_clients lp)[i := c]"
  "loop_fds (set_client i c lp) = (loop_fds lp)[i := cn_fd c]"
  by (simp_all add: set_client_def loop_fds_def map_update)

lemma loop_fds_nth: "i < length (lp_clients lp) \<Longrightarrow> loop_fds lp ! i = cn_fd (lp_clients lp ! i)"
  by (simp add: loop_fds_def)

lemma length_loop_fds [simp]: "length (loop_fds lp) = length (lp_clients lp)"
  by (simp add: loop_fds_def)

lemma set_client_keeps:
  assumes "loop_inv sentinel lfd lp" and "serves (lp_srv lp) (lp_clients lp ! i) srv c" and "i < length (lp_clients lp)"
  shows "keeps sentinel lfd lp (set_client i c (lp\<lparr>lp_srv := srv\<rparr>))"
proof -
  have "(loop_fds lp)[i := cn_fd c] = loop_fds lp" "loop_fds (lp\<lparr>lp_srv := srv\<rparr>) = loop_fds lp"
    using assms(2,3) by (auto simp: serves_def loop_fds_def map_update [symmetric] intro: list_update_same_conv [THEN iffD2])
  then show ?thesis
    using assms by (simp add: keeps_def loop_inv_def serves_def)
qed

lemma set_client_same_keeps:
  assumes "loop_inv sentinel lfd lp" and "cn_fd c = cn_fd (lp_clients lp ! i)" and "i < length (lp_clients lp)"
  shows "keeps sentinel lfd lp (set_client i c lp)"
  using set_client_keeps [OF assms(1) servesI [OF assms(2)] assms(3)] by simp

lemma client_close_fd: "client_close db c = Some c' \<Longrightarrow> cn_fd c' = -1"
  by (auto simp: client_close_def bind_eq_Some_conv)

lemma drop_client_keeps:
  assumes "loop_inv sentinel lfd lp" and "drop_client i lp = Some lp'" and "i < length (lp_clients lp)" and "0 \<le> cn_fd (lp_clients lp ! i)"
  shows "keeps sentinel lfd lp lp'"
proof -
  obtain c where c: "client_close (sv_db (lp_srv lp)) (lp_clients lp ! i) = Some c"
      "lp' = (set_client i c lp)\<lparr>lp_poller := snd (io_poller_del (lp_poller lp) (cn_fd (lp_clients lp ! i))), lp_num_clients := lp_num_clients lp - 1\<rparr>"
    using assms(2) by (auto simp: drop_client_def Let_def bind_eq_Some_conv)
  have inv: "poller_inv (lp_poller lp)" "registered sentinel lfd (loop_fds lp) (poller_map (lp_poller lp))"
      "closed_slots (loop_fds lp) \<le> poller_room (lp_poller lp)"
    using assms(1) by (simp_all add: loop_inv_def)
  have i: "i < length (loop_fds lp)" "loop_fds lp ! i \<noteq> -1" "loop_fds lp ! i = cn_fd (lp_clients lp ! i)"
    using assms(3,4) loop_fds_nth by simp_all
  have fds: "loop_fds lp' = (loop_fds lp)[i := -1]"
    using client_close_fd [OF c(1)] by (simp add: c(2) loop_fds_def set_client_def map_update)
  note p = rp.close_slot [OF inv i(1,2), unfolded i(3)]
  have "poller_map (lp_poller lp') = (poller_map (lp_poller lp))(cn_fd (lp_clients lp ! i) := None)"
    using poller_del_ok [OF inv(1) assms(4)] by (auto simp: c(2) split: prod.splits)
  then have "dom (poller_map (lp_poller lp')) \<subseteq> dom (poller_map (lp_poller lp))"
    by auto
  then show ?thesis
    using p closed_slots_update [OF i(1), of "-1"] i(2) assms(1) fds by (simp add: keeps_def loop_inv_def c(2))
qed

lemma watch_client_keeps:
  assumes "loop_inv sentinel lfd lp" and "i < length (lp_clients lp)"
  shows "keeps sentinel lfd lp (watch_client i lp)"
proof (cases "0 \<le> cn_fd (lp_clients lp ! i)")
  case True
  define ev where "ev = (if client_has_pending_send (lp_clients lp ! i) then IO_EVENT_READ OR IO_EVENT_WRITE else IO_EVENT_READ)"
  have w: "watch_client i lp = lp\<lparr>lp_poller := snd (io_poller_mod (lp_poller lp) (cn_fd (lp_clients lp ! i)) ev (ClientSlot i))\<rparr>"
    using True by (simp add: watch_client_def ev_def Let_def)
  have inv: "poller_inv (lp_poller lp)" "registered sentinel lfd (loop_fds lp) (poller_map (lp_poller lp))"
    using assms(1) by (simp_all add: loop_inv_def)
  have i: "i < length (loop_fds lp)" "loop_fds lp ! i \<noteq> -1" "loop_fds lp ! i = cn_fd (lp_clients lp ! i)"
    using assms(2) True loop_fds_nth by simp_all
  note p = rp.watch_slot [OF inv i(1,2), unfolded i(3), of ev]
  have "poller_map (lp_poller lp) (cn_fd (lp_clients lp ! i)) \<noteq> None"
    using registered_slot [OF inv(2) i(1,2)] i(3) by auto
  then have "dom (poller_map (lp_poller (watch_client i lp))) \<subseteq> dom (poller_map (lp_poller lp))"
    using poller_mod_ok [OF inv(1) True, of ev "ClientSlot i"] by (auto simp: w split: prod.splits)
  moreover have "loop_fds (watch_client i lp) = loop_fds lp"
    by (simp add: w loop_fds_def)
  ultimately show ?thesis
    using p assms(1) by (simp add: keeps_def loop_inv_def w)
next
  case False
  then show ?thesis
    using assms(1) by (simp add: watch_client_def Let_def keeps_refl)
qed

lemma client_flush_send_raw_fd: "client_flush_send_raw c w = (rc, c', w') \<Longrightarrow> cn_fd c' = cn_fd c"
proof (induction c w rule: client_flush_send_raw.induct)
  case (1 c w)
  show ?case
    using "1.prems" by (subst (asm) client_flush_send_raw.simps) (auto simp: Let_def split: if_splits prod.splits wr_result.splits dest: "1.IH")
qed

lemma send_pending_fd: "send_pending raw c w = (rc, c', w') \<Longrightarrow> cn_fd c' = cn_fd c"
  by (auto simp: send_pending_def client_flush_send_def Let_def split: if_splits prod.splits dest: client_flush_send_raw_fd)

text \<open>Finishing an event: the connection is dropped after an error and watched otherwise.\<close>

lemma resume_client_keeps:
  assumes "loop_inv sentinel lfd lp" and "i < length (lp_clients lp)" and "resume_client i lp w = Some (b, lp', w')"
  shows "keeps sentinel lfd lp lp'"
proof (cases "cn_fd (lp_clients lp ! i) < 0 \<or> as_state (cn_async (lp_clients lp ! i)) = CONN_IDLE")
  case True
  then show ?thesis
    using assms(1,3) by (auto simp: resume_client_def Let_def intro: keeps_refl)
next
  case False
  obtain busy srv c1 w1 where r: "client_async_resume (lp_srv lp) (lp_clients lp ! i) w = Some (busy, srv, c1, w1)"
    using assms(3) False by (auto simp: resume_client_def Let_def bind_eq_Some_conv)
  obtain wr c2 w2 where p: "send_pending (busy \<noteq> 0) c1 w1 = (wr, c2, w2)"
    by (cases "send_pending (busy \<noteq> 0) c1 w1") auto
  let ?lp2 = "set_client i c2 (lp\<lparr>lp_srv := srv\<rparr>)"
  have s: "serves (lp_srv lp) (lp_clients lp ! i) srv c2"
    using client_async_resume_serves [OF r] send_pending_fd [OF p] by (simp add: serves_def)
  note k = set_client_keeps [OF assms(1) s assms(2)]
  have fd: "0 \<le> cn_fd (lp_clients ?lp2 ! i)" "i < length (lp_clients ?lp2)"
    using s False assms(2) by (simp_all add: serves_def)
  consider "wr < 0" "drop_client i ?lp2 = Some lp'" | "lp' = watch_client i ?lp2"
    | rc srv3 c3 w3 where "process_messages srv c2 w2 = Some (rc, srv3, c3, w3)"
        "if rc < 0 then drop_client i (set_client i c3 (?lp2\<lparr>lp_srv := srv3\<rparr>)) = Some lp'
         else lp' = watch_client i (set_client i c3 (?lp2\<lparr>lp_srv := srv3\<rparr>))"
    using assms(3) False r p
    by (auto simp: resume_client_def Let_def bind_eq_Some_conv set_client_def split: if_splits)
  then show ?thesis
  proof cases
    case 1
    then show ?thesis
      using drop_client_keeps [OF keeps_inv [OF k] _ fd(2,1)] keeps_trans [OF k] by blast
  next
    case 2
    then show ?thesis
      using watch_client_keeps [OF keeps_inv [OF k] fd(2)] keeps_trans [OF k] by blast
  next
    case 3
    have s3: "serves (lp_srv ?lp2) (lp_clients ?lp2 ! i) srv3 c3"
      using process_messages_serves [OF 3(1)] assms(2) by simp
    note k3 = set_client_keeps [OF keeps_inv [OF k] s3 fd(2)]
    have "0 \<le> cn_fd (lp_clients (set_client i c3 (?lp2\<lparr>lp_srv := srv3\<rparr>)) ! i)" "i < length (lp_clients (set_client i c3 (?lp2\<lparr>lp_srv := srv3\<rparr>)))"
      using s3 fd by (simp_all add: serves_def)
    then show ?thesis
      using 3(2) drop_client_keeps [OF keeps_inv [OF k3]] watch_client_keeps [OF keeps_inv [OF k3]] keeps_trans [OF k3] keeps_trans [OF k]
      by (metis (full_types))
  qed
qed

lemma resume_clients_keeps:
  "loop_inv sentinel lfd lp \<Longrightarrow> \<forall>i \<in> set is. i < length (lp_clients lp) \<Longrightarrow> resume_clients is lp w = Some (b, lp', w') \<Longrightarrow>
    keeps sentinel lfd lp lp'"
proof (induction "is" arbitrary: lp w b)
  case Nil
  then show ?case
    by (simp add: keeps_refl)
next
  case (Cons i "is")
  obtain a lp1 w1 b1 where r: "resume_client i lp w = Some (a, lp1, w1)" "resume_clients is lp1 w1 = Some (b1, lp', w')"
    using Cons.prems(3) by (auto simp: bind_eq_Some_conv)
  have k: "keeps sentinel lfd lp lp1"
    using resume_client_keeps [OF Cons.prems(1) _ r(1)] Cons.prems(2) by simp
  show ?case
    using Cons.IH [OF keeps_inv [OF k] _ r(2)] Cons.prems(2) keeps_length [OF k] keeps_trans [OF k] by simp
qed

lemma grow_recv_fd: "grow_recv limit c w = (ok, c', w') \<Longrightarrow> cn_fd c' = cn_fd c"
  by (auto simp: grow_recv_def Let_def split_beta split: if_splits)

lemma read_client_fd: "read_client input c = Some c' \<Longrightarrow> cn_fd c' = cn_fd c"
  by (auto simp: read_client_def Let_def split: option.splits if_splits)

lemma serve_read_keeps:
  assumes "loop_inv sentinel lfd lp" and "i < length (lp_clients lp)" and "0 \<le> cn_fd (lp_clients lp ! i)"
    and "serve_read limit input i lp w = Some (alive, lp', w')"
  shows "keeps sentinel lfd lp lp'" and "alive \<Longrightarrow> 0 \<le> cn_fd (lp_clients lp' ! i)"
proof -
  obtain ok c1 w1 where g: "grow_recv limit (lp_clients lp ! i) w = (ok, c1, w1)"
    by (cases "grow_recv limit (lp_clients lp ! i) w") auto
  note fd1 = grow_recv_fd [OF g]
  have "keeps sentinel lfd lp lp' \<and> (alive \<longrightarrow> 0 \<le> cn_fd (lp_clients lp' ! i))"
  proof (cases "if ok then read_client input c1 else None")
    case None
    note k = set_client_same_keeps [OF assms(1) fd1 assms(2)]
    have d: "drop_client i (set_client i c1 lp) = Some lp'" "\<not> alive"
      using assms(4) g None by (auto simp: serve_read_def Let_def bind_eq_Some_conv)
    have "keeps sentinel lfd (set_client i c1 lp) lp'"
      by (rule drop_client_keeps [OF keeps_inv [OF k] d(1)]) (use assms(2,3) fd1 in simp_all)
    then show ?thesis
      using keeps_trans [OF k] d(2) by simp
  next
    case (Some c2)
    obtain rc srv c3 w3 where p: "process_messages (lp_srv lp) c2 w1 = Some (rc, srv, c3, w3)"
        "if rc < 0 then drop_client i (set_client i c3 (lp\<lparr>lp_srv := srv\<rparr>)) = Some lp' \<and> \<not> alive
         else lp' = set_client i c3 (lp\<lparr>lp_srv := srv\<rparr>)"
      using assms(4) g Some by (auto simp: serve_read_def Let_def bind_eq_Some_conv split: if_splits)
    have "cn_fd c2 = cn_fd (lp_clients lp ! i)"
      using Some fd1 read_client_fd [of input c1 c2] by (auto split: if_splits)
    then have s: "serves (lp_srv lp) (lp_clients lp ! i) srv c3"
      using process_messages_serves [OF p(1)] by (simp add: serves_def)
    note k = set_client_keeps [OF assms(1) s assms(2)]
    have fd: "0 \<le> cn_fd (lp_clients (set_client i c3 (lp\<lparr>lp_srv := srv\<rparr>)) ! i)"
        "i < length (lp_clients (set_client i c3 (lp\<lparr>lp_srv := srv\<rparr>)))"
      using s assms(2,3) by (simp_all add: serves_def)
    show ?thesis
    proof (cases "rc < 0")
      case True
      then show ?thesis
        using p(2) drop_client_keeps [OF keeps_inv [OF k] _ fd(2,1)] keeps_trans [OF k] by simp
    next
      case False
      then show ?thesis
        using p(2) k fd(1) by simp
    qed
  qed
  then show "keeps sentinel lfd lp lp'" and "alive \<Longrightarrow> 0 \<le> cn_fd (lp_clients lp' ! i)"
    by auto
qed

lemma serve_write_keeps:
  assumes "loop_inv sentinel lfd lp" and "i < length (lp_clients lp)" and "0 \<le> cn_fd (lp_clients lp ! i)"
    and "serve_write i lp w = Some (lp', w')"
  shows "keeps sentinel lfd lp lp'"
proof -
  obtain wr c w1 where p: "send_pending False (lp_clients lp ! i) w = (wr, c, w1)"
    by (cases "send_pending False (lp_clients lp ! i) w") auto
  note k = set_client_same_keeps [OF assms(1) send_pending_fd [OF p] assms(2)]
  have fd: "i < length (lp_clients (set_client i c lp))" "0 \<le> cn_fd (lp_clients (set_client i c lp) ! i)"
    using send_pending_fd [OF p] assms(2,3) by simp_all
  have "if wr < 0 then drop_client i (set_client i c lp) = Some lp' else lp' = watch_client i (set_client i c lp)"
    using assms(4) p by (auto simp: serve_write_def Let_def bind_eq_Some_conv split: if_splits)
  then show ?thesis
    using drop_client_keeps [OF keeps_inv [OF k] _ fd] watch_client_keeps [OF keeps_inv [OF k] fd(1)] keeps_trans [OF k]
    by (auto split: if_splits)
qed

lemma serve_event_keeps:
  assumes "loop_inv sentinel lfd lp" and "i < length (lp_clients lp)" and "serve_event limit rd i ev lp w = Some (lp', w')"
  shows "keeps sentinel lfd lp lp'"
proof (cases "cn_fd (lp_clients lp ! i) < 0")
  case True
  then show ?thesis
    using assms(1,3) by (simp add: serve_event_def Let_def keeps_refl)
next
  case False
  obtain alive lp1 w1 where r:
      "(if ev AND readable_events \<noteq> 0 then serve_read limit (rd (cn_fd (lp_clients lp ! i))) i lp w else Some (True, lp, w)) = Some (alive, lp1, w1)"
      "if alive then serve_write i lp1 w1 = Some (lp', w') else lp' = lp1"
    using assms(3) False by (auto simp: serve_event_def Let_def bind_eq_Some_conv split: if_splits)
  have k: "keeps sentinel lfd lp lp1 \<and> (alive \<longrightarrow> 0 \<le> cn_fd (lp_clients lp1 ! i))"
  proof (cases "ev AND readable_events \<noteq> 0")
    case True
    then show ?thesis
      using serve_read_keeps [OF assms(1,2), of limit "rd (cn_fd (lp_clients lp ! i))" w alive lp1 w1] r(1)
        \<open>\<not> cn_fd _ < 0\<close> by simp
  next
    case False
    then show ?thesis
      using r(1) \<open>\<not> cn_fd _ < 0\<close> keeps_refl [OF assms(1)] by simp
  qed
  show ?thesis
  proof (cases alive)
    case True
    have "keeps sentinel lfd lp1 lp'"
      by (rule serve_write_keeps [of _ _ _ i]) (use k True r(2) assms(2) in \<open>simp_all add: keeps_def\<close>)
    then show ?thesis
      using k keeps_trans by blast
  qed (use k r(2) in simp)
qed

lemma free_slot_from_SomeD:
  "free_slot_from k cs = Some i \<Longrightarrow> k \<le> i \<and> i - k < length cs \<and> cn_fd (cs ! (i - k)) = -1"
proof (induction cs arbitrary: k)
  case (Cons c cs)
  show ?case
  proof (cases "cn_fd c = -1")
    case False
    then have "Suc k \<le> i \<and> i - Suc k < length cs \<and> cn_fd (cs ! (i - Suc k)) = -1"
      using Cons by simp
    moreover from this have "i - k = Suc (i - Suc k)"
      by arith
    ultimately show ?thesis
      by auto
  qed (use Cons.prems in simp)
qed simp

lemma client_init_fd: "client_init fd w = (c, w') \<Longrightarrow> cn_fd c = fd"
  by (auto simp: client_init_def Let_def split_beta)

text \<open>A new connection, with a descriptor that is not watched yet.\<close>

lemma accept_client_inv:
  assumes "loop_inv sentinel lfd lp" and "0 \<le> fd \<Longrightarrow> poller_map (lp_poller lp) fd = None" and "accept_client fd lp w = (lp', w')"
  shows "loop_inv sentinel lfd lp'" and "length (lp_clients lp') = length (lp_clients lp)" and "lp_srv lp' = lp_srv lp"
    and "dom (poller_map (lp_poller lp')) \<subseteq> insert fd (dom (poller_map (lp_poller lp)))"
proof -
  have "loop_inv sentinel lfd lp' \<and> length (lp_clients lp') = length (lp_clients lp) \<and> lp_srv lp' = lp_srv lp \<and>
    dom (poller_map (lp_poller lp')) \<subseteq> insert fd (dom (poller_map (lp_poller lp)))"
  proof (cases "fd < 0 \<or> find_free_slot lp = None")
    case True
    then show ?thesis
      using assms(1,3) by (auto simp: accept_client_def split: if_splits)
  next
    case False
    then obtain i where i: "find_free_slot lp = Some i"
      by auto
    then have f: "i < length (loop_fds lp)" "loop_fds lp ! i = -1"
      using free_slot_from_SomeD [of 0 "lp_clients lp" i] loop_fds_nth by (simp_all add: find_free_slot_def)
    obtain c w1 where c: "client_init fd w = (c, w1)"
      by (cases "client_init fd w")
    have lp': "lp' = (set_client i c lp)\<lparr>lp_num_clients := lp_num_clients lp + 1,
        lp_poller := snd (io_poller_add (lp_poller lp) fd IO_EVENT_READ (ClientSlot i))\<rparr>"
      using assms(3) False i c by (simp add: accept_client_def)
    have inv: "poller_inv (lp_poller lp)" "registered sentinel lfd (loop_fds lp) (poller_map (lp_poller lp))"
        "closed_slots (loop_fds lp) \<le> poller_room (lp_poller lp)"
      using assms(1) by (simp_all add: loop_inv_def)
    have fd: "0 \<le> fd" "poller_map (lp_poller lp) fd = None"
      using False assms(2) by simp_all
    note p = rp.open_slot [OF inv f fd, of IO_EVENT_READ]
    have fds: "loop_fds lp' = (loop_fds lp)[i := fd]"
      using client_init_fd [OF c] by (simp add: lp' loop_fds_def set_client_def map_update)
    have "dom (poller_map (lp_poller lp')) \<subseteq> insert fd (dom (poller_map (lp_poller lp)))"
      using poller_add_ok [OF inv(1) fd, of IO_EVENT_READ "ClientSlot i"] by (auto simp: lp' split: prod.splits if_splits)
    then show ?thesis
      using p closed_slots_update [OF f(1), of fd] f(2) fd(1) assms(1) fds by (simp add: loop_inv_def lp')
  qed
  then show "loop_inv sentinel lfd lp'" and "length (lp_clients lp') = length (lp_clients lp)" and "lp_srv lp' = lp_srv lp"
    and "dom (poller_map (lp_poller lp')) \<subseteq> insert fd (dom (poller_map (lp_poller lp)))"
    by simp_all
qed

lemma loop_inv_srv [simp]: "loop_inv sentinel lfd (lp\<lparr>lp_srv := srv\<rparr>) = loop_inv sentinel lfd lp"
  by (simp add: loop_inv_def loop_fds_def)

lemma wait_slot:
  assumes "loop_inv sentinel lfd lp" and "io_poller_wait poll (lp_poller lp) n w = (Some evs, w')" and "ev \<in> set evs"
  shows "ev_fd ev = lfd \<and> ev_userdata ev = sentinel \<or>
    (\<exists>i < length (lp_clients lp). ev_userdata ev = ClientSlot i \<and> cn_fd (lp_clients lp ! i) = ev_fd ev)"
proof -
  obtain es where "poller_map (lp_poller lp) (ev_fd ev) = Some (es, ev_userdata ev)"
    using poller_wait_ok [OF _ assms(2,3)] assms(1) by (auto simp: loop_inv_def)
  then show ?thesis
    using registered_entry [of sentinel lfd "loop_fds lp"] assms(1) loop_fds_nth by (fastforce simp: loop_inv_def)
qed

lemma not_watched: "0 \<le> fd \<Longrightarrow> fd \<notin> watched_fds lp \<Longrightarrow> poller_map (lp_poller lp) fd = None"
  by (simp add: poller_map_def watched_fds_def find_entry_def find_entry_from_None)

text \<open>\<^verbatim>\<open>accept\<close> never returns a descriptor that is in use.\<close>

definition accept_fresh :: "LoopInput \<Rightarrow> bool" where
  "accept_fresh inp \<longleftrightarrow> (\<forall>used. 0 \<le> li_accept inp used \<longrightarrow> li_accept inp used \<notin> used)"

lemma server_events_inv:
  "loop_inv LISTEN_SENTINEL lfd lp \<Longrightarrow> accept_fresh inp \<Longrightarrow> \<forall>ev \<in> set evs. \<forall>i. ev_userdata ev = ClientSlot i \<longrightarrow> i < length (lp_clients lp) \<Longrightarrow>
    server_events inp limit evs lp w = Some (lp', w') \<Longrightarrow> loop_inv LISTEN_SENTINEL lfd lp'"
proof (induction evs arbitrary: lp w)
  case (Cons ev evs)
  obtain lp1 w1 where r: "server_events inp limit evs lp1 w1 = Some (lp', w')"
      "ev_userdata ev = LISTEN_SENTINEL \<and> accept_client (li_accept inp (watched_fds lp)) lp w = (lp1, w1) \<or>
       (\<exists>i. ev_userdata ev = ClientSlot i \<and> serve_event limit (li_read inp) i (ev_events ev) lp w = Some (lp1, w1))"
    using Cons.prems(4) by (auto simp: bind_eq_Some_conv split: userdata.splits)
  have "loop_inv LISTEN_SENTINEL lfd lp1 \<and> length (lp_clients lp1) = length (lp_clients lp)"
    using r(2)
  proof (elim disjE exE conjE)
    assume a: "accept_client (li_accept inp (watched_fds lp)) lp w = (lp1, w1)"
    have "poller_map (lp_poller lp) (li_accept inp (watched_fds lp)) = None" if "0 \<le> li_accept inp (watched_fds lp)"
      using not_watched [OF that] Cons.prems(2) that by (simp add: accept_fresh_def)
    then show ?thesis
      using accept_client_inv [OF Cons.prems(1) _ a] by blast
  next
    fix i
    assume i: "ev_userdata ev = ClientSlot i" "serve_event limit (li_read inp) i (ev_events ev) lp w = Some (lp1, w1)"
    have "keeps LISTEN_SENTINEL lfd lp lp1"
      by (rule serve_event_keeps [OF Cons.prems(1) _ i(2)]) (use Cons.prems(3) i(1) in simp)
    then show ?thesis
      by (simp add: keeps_def)
  qed
  then show ?case
    using Cons.IH [OF _ Cons.prems(2) _ r(1)] Cons.prems(3) by simp
qed simp

lemma server_iteration_inv:
  assumes "loop_inv LISTEN_SENTINEL lfd (ss_loop ss)" and "accept_fresh inp" and "server_iteration inp ss w = Some (ss', w')"
  shows "loop_inv LISTEN_SENTINEL lfd (ss_loop ss')"
proof -
  obtain lp1 w1 where f: "poll_flush (ss_loop ss) w = Some (lp1, w1)"
    using assms(3) by (auto simp: server_iteration_def bind_eq_Some_conv)
  then obtain b lp2 w2 where r: "resume_clients [0..<length (lp_clients lp1)] lp1 w1 = Some (b, lp2, w2)"
    using assms(3) by (auto simp: server_iteration_def bind_eq_Some_conv)
  obtain evs w3 where e: "io_poller_wait (li_poll inp) (lp_poller lp2) (MAX_CLIENTS + 1) w2 = (evs, w3)"
    by (cases "io_poller_wait (li_poll inp) (lp_poller lp2) (MAX_CLIENTS + 1) w2")
  obtain ss4 w4 where c: "auto_checkpoint (li_now inp) (ss\<lparr>ss_loop := lp2\<rparr>) w3 = Some (ss4, w4)"
    using assms(3) f r e by (auto simp: server_iteration_def bind_eq_Some_conv Let_def)
  have "loop_inv LISTEN_SENTINEL lfd lp1"
    using f assms(1) by (auto simp: poll_flush_def Let_def bind_eq_Some_conv split: if_splits)
  then have i2: "loop_inv LISTEN_SENTINEL lfd lp2"
    using resume_clients_keeps [OF _ _ r] keeps_inv by fastforce
  have i4: "loop_inv LISTEN_SENTINEL lfd (ss_loop ss4)" "lp_clients (ss_loop ss4) = lp_clients lp2"
    using c i2 by (auto simp: auto_checkpoint_def Let_def bind_eq_Some_conv split: if_splits)
  show ?thesis
  proof (cases evs)
    case None
    then show ?thesis
      using assms(3) f r e c i4 by (simp add: server_iteration_def)
  next
    case (Some es)
    then obtain lp5 w5 where s: "server_events inp (gs_max_request_size (ss_config ss4)) es (ss_loop ss4) w4 = Some (lp5, w5)" "ss' = ss4\<lparr>ss_loop := lp5\<rparr>"
      using assms(3) f r e c by (auto simp: server_iteration_def bind_eq_Some_conv)
    have "\<forall>ev \<in> set es. \<forall>i. ev_userdata ev = ClientSlot i \<longrightarrow> i < length (lp_clients (ss_loop ss4))"
      using wait_slot [OF i2] e Some i4(2) by fastforce
    then show ?thesis
      using server_events_inv [OF i4(1) assms(2) _ s(1)] s(2) by simp
  qed
qed

text \<open>The states of a server that runs its own loop.\<close>

inductive runs :: "int \<Rightarrow> ServerState \<Rightarrow> World \<Rightarrow> bool" for lfd where
  started: "io_poller_create (int MAX_CLIENTS + 16) w0 = (Some p, w1) \<Longrightarrow>
    gravel_server_start lfd notify_fd (server_init config db p now) w = Some (GRAVELDB_OK, ss, w') \<Longrightarrow> runs lfd ss w'"
| iterated: "runs lfd ss w \<Longrightarrow> accept_fresh inp \<Longrightarrow> server_iteration inp ss w = Some (ss', w') \<Longrightarrow> runs lfd ss' w'"

lemma closed_slots_free: "closed_slots (replicate n (-1)) = n"
  by (simp add: closed_slots_def filter_replicate)

lemma server_start_inv:
  assumes "io_poller_create (int MAX_CLIENTS + 16) w0 = (Some p, w1)"
    and "gravel_server_start lfd notify_fd (server_init config db p now) w = Some (GRAVELDB_OK, ss, w')"
  shows "loop_inv LISTEN_SENTINEL lfd (ss_loop ss)"
proof -
  let ?lp = "ss_loop (server_init config db p now)"
  have l: "0 \<le> lfd" "ss_loop ss = ?lp\<lparr>lp_poller := snd (io_poller_add p lfd IO_EVENT_READ LISTEN_SENTINEL)\<rparr>"
    using assms(2) by (auto simp: gravel_server_start_def server_init_def Let_def bind_eq_Some_conv split: prod.splits if_splits)
  have p: "poller_inv p" "poller_map p = Map.empty" "poller_room p = MAX_CLIENTS + 16"
    using poller_create_ok [OF assms(1)] by (simp_all add: MAX_CLIENTS_def)
  then have room: "0 < poller_room p"
    by simp
  have sent: "LISTEN_SENTINEL \<notin> range ClientSlot"
    by auto
  note a = rp.start_listening(1,2) [OF p(1,2) room l(1) sent, where ev = IO_EVENT_READ]
    rp.start_listening(3) [OF p(1,2) room l(1) sent, where ev = IO_EVENT_READ and n = MAX_CLIENTS]
  have "loop_fds (ss_loop ss) = replicate MAX_CLIENTS (-1)"
    by (simp add: l(2) loop_fds_def server_init_def conn_free_def Let_def)
  then show ?thesis
    using a p(3) by (simp add: loop_inv_def l(2) closed_slots_free server_init_def Let_def)
qed

lemma resume_clients_idle:
  "\<forall>i \<in> set is. cn_fd (lp_clients lp ! i) < 0 \<Longrightarrow> resume_clients is lp w = Some (False, lp, w)"
  by (induction "is") (simp_all add: resume_client_def)

text \<open>A server in which one client has connected.\<close>

definition demo_config :: GravelServerConfig where
  "demo_config = \<lparr>gs_db_config = \<lparr>cf_data_dir = None, cf_dims = None, cf_num_dims = 0, cf_buffer_size = 0, cf_index_capacity = 0,
       cf_entry_align = 0, cf_page_size = 0, cf_auto_create_bins = True, cf_overlay_budget = 0\<rparr>,
     gs_port = 0, gs_backlog = 0, gs_max_request_size = 0, gs_auto_checkpoint_interval_s = 60, gs_readonly = True, gs_num_read_workers = 0\<rparr>"

definition demo_input :: LoopInput where
  "demo_input = \<lparr>li_poll = (\<lambda>fds. PollReady [no_revents\<lparr>rv_in := True\<rparr>]), li_accept = (\<lambda>used. if 7 \<in> used then -1 else 7),
     li_read = (\<lambda>fd. None), li_pipe = [], li_now = 0\<rparr>"

lemma replicate_less: "replicate 272 x = x # replicate 271 x" "replicate 256 y = y # replicate 255 y"
  using replicate_Suc [of 271 x] replicate_Suc [of 255 y] by simp_all

lemma demo_run: "\<exists>ss w. runs 3 ss w \<and> cn_fd (lp_clients (ss_loop ss) ! 0) = 7"
proof -
  let ?w = "demo_world {}"
  let ?p = "\<lparr>ip_entries = replicate 272 poll_entry_free, ip_count = 0\<rparr>"
  have p: "\<exists>w1. io_poller_create (int MAX_CLIENTS + 16) ?w = (Some ?p, w1)"
    by (simp add: io_poller_create_def demo_world_def ask_def MAX_CLIENTS_def)
  let ?e = "\<lparr>pe_fd = 3, pe_events = IO_EVENT_READ, pe_userdata = LISTEN_SENTINEL\<rparr>"
  let ?p1 = "\<lparr>ip_entries = ?e # replicate 271 poll_entry_free, ip_count = 1\<rparr>"
  let ?lp = "(ss_loop (server_init demo_config demo_db ?p 0))\<lparr>lp_poller := ?p1\<rparr>"
  have a: "io_poller_add ?p 3 IO_EVENT_READ LISTEN_SENTINEL = (0, ?p1)"
    by (simp add: io_poller_add_def find_entry_def replicate_less poll_entry_free_def)
  obtain ss w1 where s: "gravel_server_start 3 (\<lambda>i. 4) (server_init demo_config demo_db ?p 0) ?w = Some (GRAVELDB_OK, ss, w1)"
      "ss_loop ss = ?lp" "all_ok w1"
    using a by (simp add: gravel_server_start_def server_init_def demo_config_def demo_world_def ask_def all_ok_def Let_def)
  have r: "resume_clients [0..<256] ?lp w = Some (False, ?lp, w)" for w
    by (rule resume_clients_idle) (simp add: server_init_def conn_free_def MAX_CLIENTS_def Let_def)
  have e: "poll_entries ?p1 = [?e]"
    by (simp add: poll_entries_def poll_entry_free_def)
  obtain w2 where w: "io_poller_wait (li_poll demo_input) ?p1 (MAX_CLIENTS + 1) w1 = (Some [event_of ?e (no_revents\<lparr>rv_in := True\<rparr>)], w2)"
    using s(3) by (simp add: io_poller_wait_def e demo_input_def MAX_CLIENTS_def ask_def all_ok_def no_revents_def Let_def)
  obtain lp' w' where c: "accept_client 7 ?lp w2 = (lp', w')" "cn_fd (lp_clients lp' ! 0) = 7"
    by (simp add: accept_client_def find_free_slot_def server_init_def MAX_CLIENTS_def replicate_less conn_free_def client_init_def
        set_client_def ask_def Let_def)
  have "7 \<notin> watched_fds ?lp"
    by (simp add: watched_fds_def poll_entry_free_def)
  then have "\<exists>ss'. server_iteration demo_input ss w1 = Some (ss', w') \<and> ss_loop ss' = lp'"
    using s(2) r w c(1)
    by (simp add: server_iteration_def poll_flush_def auto_checkpoint_def server_init_def demo_config_def demo_input_def event_of_def
        MAX_CLIENTS_def Let_def)
  moreover have "accept_fresh demo_input"
    by (simp add: accept_fresh_def demo_input_def)
  moreover have "runs 3 ss w1"
    using p s(1) by (auto intro: runs.started)
  ultimately show ?thesis
    using c(2) by (blast intro: runs.iterated)
qed

text \<open>
  C16. In every state that a server reaches, whatever the clients send and the sockets do, each open
  connection is watched by the poller under the number of its slot, no descriptor of a closed connection
  is watched, there is always room to watch one more connection while a slot is free, and the
  connections are counted. So what \<^verbatim>\<open>io_poller_wait\<close> reports is the listener or the connection that has
  the descriptor.
\<close>

theorem server_loop_registered:
  assumes "runs lfd ss w"
  shows "loop_inv LISTEN_SENTINEL lfd (ss_loop ss) \<and>
    (\<forall>poll n w evs w' ev. io_poller_wait poll (lp_poller (ss_loop ss)) n w = (Some evs, w') \<and> ev \<in> set evs \<longrightarrow>
       ev_fd ev = lfd \<and> ev_userdata ev = LISTEN_SENTINEL \<or>
       (\<exists>i < length (lp_clients (ss_loop ss)). ev_userdata ev = ClientSlot i \<and> cn_fd (lp_clients (ss_loop ss) ! i) = ev_fd ev))"
proof -
  have "loop_inv LISTEN_SENTINEL lfd (ss_loop ss)"
    using assms by induction (auto intro: server_start_inv server_iteration_inv)
  then show ?thesis
    using wait_slot by blast
qed

theorem server_loop_registered_witness:
  "\<exists>ss w. runs 3 ss w \<and> cn_fd (lp_clients (ss_loop ss) ! 0) = 7 \<and> loop_inv LISTEN_SENTINEL 3 (ss_loop ss)"
  using demo_run server_loop_registered by blast

end
