(* ===== verification/Net_Readonly.thy ===== *)
theory Net_Readonly
  imports Net_Loop Net_Pull
begin

text \<open>
  The read workers of \<^verbatim>\<open>example/server/server.c\<close> share one store without locks, because "the DB is frozen".
  Here is when that holds: never while the index is being rehashed, since every lookup migrates a part
  of it, and always when the index is not being rehashed and no bin is in a checkpoint.
\<close>

subsection \<open>A worker leaves a frozen store alone\<close>

lemma drop_client_srv: "drop_client i lp = Some lp' \<Longrightarrow> lp_srv lp' = lp_srv lp"
  by (auto simp: drop_client_def Let_def bind_eq_Some_conv)

lemma watch_client_srv [simp]: "lp_srv (watch_client i lp) = lp_srv lp"
  by (simp add: watch_client_def Let_def)

lemma accept_client_srv: "accept_client fd lp w = (lp', w') \<Longrightarrow> lp_srv lp' = lp_srv lp"
  by (auto simp: accept_client_def split: if_splits option.splits prod.splits)

lemma take_pipe_srv: "take_pipe fds lp w = (lp', w') \<Longrightarrow> lp_srv lp' = lp_srv lp"
  by (induction fds arbitrary: lp w) (auto split: prod.splits dest!: accept_client_srv)

lemma close_clients_srv: "close_clients is lp = Some lp' \<Longrightarrow> lp_srv lp' = lp_srv lp"
  by (induction "is" arbitrary: lp) (auto simp: Let_def bind_eq_Some_conv split: if_splits)

text \<open>A server that only reads, on a store that no read changes.\<close>

definition reads_only :: "GravelServer \<Rightarrow> bool" where
  "reads_only srv \<longleftrightarrow> sv_readonly srv \<and> frozen (sv_db srv)"

lemma serves_same: "serves srv c srv' c' \<Longrightarrow> reads_only srv \<Longrightarrow> srv' = srv"
  by (simp add: serves_def reads_only_def)

lemma resume_client_srv:
  assumes "resume_client i lp w = Some (b, lp', w')" and "reads_only (lp_srv lp)"
  shows "lp_srv lp' = lp_srv lp"
proof (cases "cn_fd (lp_clients lp ! i) < 0 \<or> as_state (cn_async (lp_clients lp ! i)) = CONN_IDLE")
  case True
  then show ?thesis
    using assms(1) by (auto simp: resume_client_def Let_def)
next
  case False
  obtain busy srv c1 w1 where r: "client_async_resume (lp_srv lp) (lp_clients lp ! i) w = Some (busy, srv, c1, w1)"
    using assms(1) False by (auto simp: resume_client_def Let_def bind_eq_Some_conv)
  obtain wr c2 w2 where p: "send_pending (busy \<noteq> 0) c1 w1 = (wr, c2, w2)"
    by (cases "send_pending (busy \<noteq> 0) c1 w1") auto
  have "srv = lp_srv lp"
    using serves_same [OF client_async_resume_serves [OF r] assms(2)] .
  then show ?thesis
    using assms(1) False r p serves_same [OF process_messages_serves assms(2)]
    by (auto simp: resume_client_def Let_def bind_eq_Some_conv split: if_splits dest!: drop_client_srv)
qed

lemma resume_clients_srv:
  "resume_clients is lp w = Some (b, lp', w') \<Longrightarrow> reads_only (lp_srv lp) \<Longrightarrow> lp_srv lp' = lp_srv lp"
proof (induction "is" arbitrary: lp w b)
  case (Cons i "is")
  then show ?case
    using resume_client_srv by (fastforce simp: bind_eq_Some_conv)
qed simp

lemma serve_event_srv:
  assumes "serve_event limit rd i ev lp w = Some (lp', w')" and "reads_only (lp_srv lp)"
  shows "lp_srv lp' = lp_srv lp"
proof -
  have r: "lp_srv lp1 = lp_srv lp" if "serve_read limit input i lp w = Some (alive, lp1, w1)" for input alive lp1 w1
    using that assms(2) serves_same [OF process_messages_serves _]
    by (auto simp: serve_read_def Let_def bind_eq_Some_conv split: prod.splits option.splits if_splits dest!: drop_client_srv)
  have "lp_srv lp' = lp_srv lp1" if "serve_write i lp1 w1 = Some (lp', w')" for lp1 w1
    using that by (auto simp: serve_write_def Let_def bind_eq_Some_conv split: prod.splits if_splits dest!: drop_client_srv)
  then show ?thesis
    using assms(1) r by (auto simp: serve_event_def Let_def bind_eq_Some_conv split: if_splits)
qed

lemma worker_events_srv:
  "worker_events inp evs lp w = Some (lp', w') \<Longrightarrow> reads_only (lp_srv lp) \<Longrightarrow> lp_srv lp' = lp_srv lp"
proof (induction evs arbitrary: lp w)
  case (Cons ev evs)
  obtain lp1 w1 where r: "worker_events inp evs lp1 w1 = Some (lp', w')"
      "take_pipe (li_pipe inp) lp w = (lp1, w1) \<or>
       (\<exists>i. serve_event (64 * 1024 * 1024) (li_read inp) i (ev_events ev) lp w = Some (lp1, w1))"
    using Cons.prems(1) by (auto simp: bind_eq_Some_conv split: userdata.splits)
  then have "lp_srv lp1 = lp_srv lp"
    using take_pipe_srv serve_event_srv Cons.prems(2) by blast
  then show ?case
    using Cons.IH [OF r(1)] Cons.prems(2) by simp
qed simp

lemma worker_iteration_srv:
  assumes "worker_iteration inp rw w = Some (rw', w')" and "reads_only (lp_srv (rw_loop rw))"
  shows "lp_srv (rw_loop rw') = lp_srv (rw_loop rw)"
proof -
  obtain b lp1 w1 where r: "resume_clients [0..<length (lp_clients (rw_loop rw))] (rw_loop rw) w = Some (b, lp1, w1)"
    using assms(1) by (auto simp: worker_iteration_def bind_eq_Some_conv)
  note s = resume_clients_srv [OF r assms(2)]
  show ?thesis
    using assms r s worker_events_srv [of inp _ lp1]
    by (auto simp: worker_iteration_def bind_eq_Some_conv Let_def split: prod.splits option.splits)
qed

lemma worker_run_srv:
  "worker_run inps rw w = Some (rw', w') \<Longrightarrow> reads_only (lp_srv (rw_loop rw)) \<Longrightarrow> lp_srv (rw_loop rw') = lp_srv (rw_loop rw)"
proof (induction inps arbitrary: rw w)
  case Nil
  then show ?case
    by (auto simp: bind_eq_Some_conv close_clients_srv)
next
  case (Cons inp inps)
  then show ?case
    using worker_iteration_srv by (fastforce simp: bind_eq_Some_conv)
qed

text \<open>
  C17. Whatever its clients send, a read worker leaves the shared store unchanged through all of its
  life, provided that the index was not being rehashed and no bin was in a checkpoint when it started.
  Then the workers need no locks.
\<close>

theorem read_worker_frozen:
  assumes "frozen (rw_db rw)" and "read_worker_loop inps rw w = Some (rw', w')"
  shows "lp_srv (rw_loop rw') = worker_srv (rw_db rw)"
  using assms worker_run_srv [of inps "rw\<lparr>rw_loop := (rw_loop rw)\<lparr>lp_srv := worker_srv (rw_db rw)\<rparr>\<rparr>"]
  by (auto simp: read_worker_loop_def Let_def split_beta reads_only_def worker_srv_def split: if_splits)

lemma demo_db_frozen: "frozen demo_db"
  by (simp add: frozen_def demo_db_def demo_store_def demo_index_ok demo_bin_def bin_zero_def)

lemma flush_raw_async: "client_flush_send_raw c w = (rc, c', w') \<Longrightarrow> cn_async c' = cn_async c"
proof (induction c w rule: client_flush_send_raw.induct)
  case (1 c w)
  then show ?case
    using "1.prems" by (subst (asm) client_flush_send_raw.simps) (auto simp: Let_def split: if_splits prod.splits wr_result.splits dest: "1.IH")
qed

lemma send_pending_async: "send_pending raw c w = (rc, c', w') \<Longrightarrow> cn_async c' = cn_async c"
  by (auto simp: send_pending_def client_flush_send_def Let_def split: if_splits prod.splits dest: flush_raw_async)

text \<open>Closing a connection that is not in the middle of a read.\<close>

lemma client_close_idle: "as_state (cn_async c) = CONN_IDLE \<Longrightarrow> \<exists>c'. client_close db c = Some c' \<and> cn_fd c' = -1"
  by (simp add: client_close_def)

lemma serve_write_idle:
  assumes "lp_clients lp = [c]" and "as_state (cn_async c) = CONN_IDLE"
  shows "\<exists>lp' w' c'. serve_write 0 lp w = Some (lp', w') \<and> lp_clients lp' = [c'] \<and> (cn_fd c' < 0 \<or> as_state (cn_async c') = CONN_IDLE)"
proof -
  obtain rc c1 w1 where s: "send_pending False c w = (rc, c1, w1)"
    by (cases "send_pending False c w") auto
  then have "as_state (cn_async c1) = CONN_IDLE"
    using send_pending_async assms(2) by metis
  then show ?thesis
    using s assms(1) client_close_idle [of c1 "sv_db (lp_srv lp)"]
    by (auto simp: serve_write_def drop_client_def set_client_def watch_client_def Let_def)
qed

text \<open>A worker with one connection, on which a pull arrives.\<close>

definition pull_conn :: ClientConn where
  "pull_conn = conn_free\<lparr>cn_fd := 7, cn_has_buf := True, cn_recv_cap := READ_BUF_SIZE\<rparr>"

definition pull_loop :: EventLoop where
  "pull_loop = \<lparr>lp_srv = worker_srv demo_db, lp_clients = [pull_conn], lp_num_clients = 1,
     lp_poller = \<lparr>ip_entries = [\<lparr>pe_fd = 7, pe_events = IO_EVENT_READ, pe_userdata = ClientSlot 0\<rparr>], ip_count = 1\<rparr>\<rparr>"

definition pull_worker :: ReadWorker where
  "pull_worker = \<lparr>rw_db = demo_db, rw_loop = pull_loop, rw_notify_fd = 4, rw_worker_id = 0\<rparr>"

definition pull_input :: LoopInput where
  "pull_input = demo_input\<lparr>li_read := (\<lambda>fd. Some (request_bytes GRAVELDB_MSG_PULL (ids_body [7, 8])))\<rparr>"

lemma pull_read:
  assumes ok: "all_ok w"
  shows "\<exists>lp' w' c'. serve_read (64 * 1024 * 1024) (li_read pull_input 7) 0 pull_loop w = Some (True, lp', w') \<and>
    lp_clients lp' = [c'] \<and> as_state (cn_async c') = CONN_IDLE"
proof -
  let ?bs = "request_bytes GRAVELDB_MSG_PULL (ids_body [7, 8])"
  have l: "0 < length ?bs" "length ?bs \<le> 16777216"
    by (simp_all add: request_bytes_def)
  have g: "grow_recv (64 * 1024 * 1024) pull_conn w = (True, pull_conn, w)"
    by (simp add: grow_recv_def pull_conn_def conn_free_def READ_BUF_SIZE_def)
  have r: "read_client (li_read pull_input 7) pull_conn = Some (pull_conn\<lparr>cn_recv_buf := ?bs\<rparr>)"
    using l by (auto simp: read_client_def pull_input_def pull_conn_def conn_free_def READ_BUF_SIZE_def Let_def)
  obtain c' w' where "process_messages (worker_srv demo_db) (pull_conn\<lparr>cn_recv_buf := ?bs\<rparr>) w = Some (0, worker_srv demo_db, c', w')"
      "as_state (cn_async c') = CONN_IDLE"
  proof -
    have "store_readable (sv_db (worker_srv demo_db))" "length [7, 8 :: u64] \<le> 65536"
        "\<forall>k \<in> set [7, 8]. slot_fits (answer (sv_db (worker_srv demo_db)) (k, True))"
        "as_state (cn_async (pull_conn\<lparr>cn_recv_buf := ?bs\<rparr>)) = CONN_IDLE"
      using demo_db_ok(1) demo_fits by (simp_all add: worker_srv_def pull_conn_def conn_free_def async_zero_def)
    from serve_pull [OF this(1) ok this(2,3) _ this(4)] show thesis
      using that by auto
  qed
  then show ?thesis
    using g r by (simp add: serve_read_def pull_loop_def set_client_def Let_def)
qed

lemma pull_iteration:
  assumes "all_ok w"
  shows "\<exists>rw' w' c'. worker_iteration pull_input pull_worker w = Some (rw', w') \<and> lp_clients (rw_loop rw') = [c'] \<and>
    (cn_fd c' < 0 \<or> as_state (cn_async c') = CONN_IDLE)"
proof -
  let ?e = "\<lparr>pe_fd = 7, pe_events = IO_EVENT_READ, pe_userdata = ClientSlot 0\<rparr>"
  have rs: "resume_clients [0..<length (lp_clients pull_loop)] pull_loop w = Some (False, pull_loop, w)"
    by (simp add: resume_client_def pull_loop_def pull_conn_def conn_free_def async_zero_def)
  obtain w1 where p: "io_poller_wait (li_poll pull_input) (lp_poller pull_loop) (WORKER_MAX_CLIENTS + 1) w =
      (Some [event_of ?e (no_revents\<lparr>rv_in := True\<rparr>)], w1)" "all_ok w1"
    using assms by (simp add: io_poller_wait_def poll_entries_def pull_loop_def pull_input_def demo_input_def ask_def all_ok_def
        no_revents_def Let_def)
  obtain lp1 w2 c1 where r: "serve_read (64 * 1024 * 1024) (li_read pull_input 7) 0 pull_loop w1 = Some (True, lp1, w2)"
      "lp_clients lp1 = [c1]" "as_state (cn_async c1) = CONN_IDLE"
    using pull_read [OF p(2)] by blast
  obtain lp2 w3 c2 where s: "serve_write 0 lp1 w2 = Some (lp2, w3)" "lp_clients lp2 = [c2]" "cn_fd c2 < 0 \<or> as_state (cn_async c2) = CONN_IDLE"
    using serve_write_idle [OF r(2,3)] by blast
  have "cn_fd (lp_clients pull_loop ! 0) = 7" "event_of ?e (no_revents\<lparr>rv_in := True\<rparr>) = \<lparr>ev_fd = 7, ev_events = IO_EVENT_READ, ev_userdata = ClientSlot 0\<rparr>"
    "IO_EVENT_READ AND readable_events \<noteq> 0"
    by (simp_all add: pull_loop_def pull_conn_def event_of_def no_revents_def readable_events_def) code_simp
  then have "worker_events pull_input [event_of ?e (no_revents\<lparr>rv_in := True\<rparr>)] pull_loop w1 = Some (lp2, w3)"
    using r(1) s(1) by (simp add: serve_event_def)
  then show ?thesis
    using rs p(1) s(2,3) by (simp add: worker_iteration_def pull_worker_def Let_def del: worker_events.simps)
qed

lemma pull_run: "\<exists>rw' w'. read_worker_loop [pull_input] pull_worker (demo_world {}) = Some (rw', w')"
proof -
  obtain w1 where w: "ask (demo_world {}) = (True, w1)" "all_ok w1"
    using demo_world_ok(2) by (auto simp: ask_def all_ok_def demo_world_def)
  obtain rw' w' c' where i: "worker_iteration pull_input pull_worker w1 = Some (rw', w')" "lp_clients (rw_loop rw') = [c']"
      "cn_fd c' < 0 \<or> as_state (cn_async c') = CONN_IDLE"
    using pull_iteration [OF w(2)] by blast
  have "\<exists>lp. close_clients [0..<length (lp_clients (rw_loop rw'))] (rw_loop rw') = Some lp"
    using i(2,3) client_close_idle [of c' "sv_db (lp_srv (rw_loop rw'))"] by (auto simp: Let_def)
  moreover have "pull_worker\<lparr>rw_loop := (rw_loop pull_worker)\<lparr>lp_srv := worker_srv (rw_db pull_worker)\<rparr>\<rparr> = pull_worker"
    by (simp add: pull_worker_def pull_loop_def)
  ultimately show ?thesis
    using w(1) i(1) by (auto simp: read_worker_loop_def)
qed

theorem read_worker_frozen_witness:
  "\<exists>rw' w'. read_worker_loop [pull_input] pull_worker (demo_world {}) = Some (rw', w') \<and>
     lp_srv (rw_loop rw') = worker_srv demo_db"
proof -
  obtain rw' w' where r: "read_worker_loop [pull_input] pull_worker (demo_world {}) = Some (rw', w')"
    using pull_run by blast
  moreover have "lp_srv (rw_loop rw') = worker_srv (rw_db pull_worker)"
    by (rule read_worker_frozen [OF _ r]) (simp add: demo_db_frozen pull_worker_def)
  ultimately show ?thesis
    by (simp add: pull_worker_def)
qed

subsection \<open>A lookup during a rehash writes\<close>

lemma migrate_cursor:
  "rt_migrate occ key hash clear msk oc slots old cursor migrated = Some (slots', old', cursor') \<Longrightarrow>
     cursor \<le> cursor' \<and> (cursor < oc \<and> migrated < RT_BATCH \<longrightarrow> cursor < cursor')"
proof (induction occ key hash clear msk oc slots old cursor migrated rule: rt_migrate.induct)
  case (1 occ key hash clear msk oc slots old cursor migrated)
  show ?case
  proof (cases "cursor < oc \<and> migrated < RT_BATCH")
    case True
    then have "cursor < cursor + 1"
      using unat_succ_less [of cursor oc] by (simp add: word_less_nat_alt)
    moreover have "cursor + 1 \<le> cursor'"
      using "1.prems" True "1.IH" by (subst (asm) rt_migrate.simps) (auto simp: Let_def split: if_splits option.splits)
    ultimately have "cursor < cursor'"
      by (rule order_less_le_trans)
    then show ?thesis
      by simp
  next
    case False
    then show ?thesis
      using "1.prems" by (subst (asm) rt_migrate.simps) auto
  qed
qed

text \<open>What is left to migrate.\<close>

definition to_migrate :: "HashIndex \<Rightarrow> nat" where
  "to_migrate idx = (if rt_old_slots idx = None then 0 else Suc (unat (rt_old_capacity idx) - unat (rt_rehash_cursor idx)))"

lemma rehash_step_less:
  assumes "rehash_step idx = Some idx'" and "rt_old_slots idx \<noteq> None"
  shows "to_migrate idx' < to_migrate idx"
proof -
  obtain old slots' old' cursor' where m: "rt_old_slots idx = Some old"
      "rt_migrate hs_occ hs_feat_id hash64 hs_clear (rt_mask idx) (rt_old_capacity idx) (rt_slots idx) old (rt_rehash_cursor idx) 0 =
        Some (slots', old', cursor')"
      "rt_old_slots idx' = None \<or> rt_old_capacity idx' = rt_old_capacity idx \<and> rt_rehash_cursor idx' = cursor' \<and> cursor' < rt_old_capacity idx"
    using assms by (auto simp: rehash_step_def rt_step_def split: option.splits if_splits)
  have "rt_rehash_cursor idx < cursor'" if "cursor' < rt_old_capacity idx"
    using migrate_cursor [OF m(2)] that by (auto simp: RT_BATCH_def)
  then show ?thesis
    using m(1,3) by (auto simp: to_migrate_def word_less_nat_alt)
qed

lemma hash_index_get_less:
  assumes "hash_index_get idx k = Some (r, idx')"
  shows "to_migrate idx' \<le> to_migrate idx" and "k \<noteq> 0 \<Longrightarrow> rt_old_slots idx \<noteq> None \<Longrightarrow> to_migrate idx' < to_migrate idx"
proof -
  have s: "idx' = idx \<or> rehash_step idx = Some idx'" "k \<noteq> 0 \<Longrightarrow> rehash_step idx = Some idx'"
    using assms by (auto simp: hash_index_get_def split: if_splits option.splits)
  show "k \<noteq> 0 \<Longrightarrow> rt_old_slots idx \<noteq> None \<Longrightarrow> to_migrate idx' < to_migrate idx"
    using s(2) rehash_step_less by blast
  show "to_migrate idx' \<le> to_migrate idx"
    using s(1) rehash_step_less [of idx idx'] rehash_step_idle [of idx] by (cases "rt_old_slots idx = None") auto
qed

lemma set_bin_index [simp]: "db_index (set_bin p s db) = db_index db"
  by (simp add: set_bin_def)

lemma resolve_one_index:
  assumes "resolve_one i k wanted db out reads = Some (d, db', out', reads')"
  shows "\<exists>r. hash_index_get (db_index db) k = Some (r, db_index db')"
proof -
  obtain r idx where g: "hash_index_get (db_index db) k = Some (r, idx)"
    using assms by (auto simp: resolve_one_def bind_eq_Some_conv Let_def)
  have "db_index db' = idx"
  proof (cases r)
    case None
    then show ?thesis
      using assms g by (auto simp: resolve_one_def Let_def)
  next
    case (Some de)
    obtain dx ex where de: "r = Some (dx, ex)"
      using Some by (cases de) auto
    obtain p s where b: "get_bin (db\<lparr>db_index := idx\<rparr>) dx = Some (p, s)"
      using assms g de by (auto simp: resolve_one_def bind_eq_Some_conv Let_def)
    show ?thesis
    proof (cases wanted)
      case False
      then show ?thesis
        using assms g de b by (auto simp: resolve_one_def Let_def)
    next
      case True
      obtain hit s' where h: "(if bn_in_checkpoint s
          then map_option (\<lambda>(c, ob). (c, s\<lparr>bn_overlay := ob\<rparr>)) (overlay_contains (bn_overlay s) ex) else Some (False, s)) = Some (hit, s')"
        using assms g de b True by (auto simp: resolve_one_def bind_eq_Some_conv Let_def)
      show ?thesis
      proof (cases hit)
        case True
        then show ?thesis
          using assms g de b \<open>wanted\<close> h by (auto simp: resolve_one_def bind_eq_Some_conv Let_def)
      next
        case False
        then show ?thesis
          using assms g de b \<open>wanted\<close> h
          by (simp add: resolve_one_def bind_eq_Some_conv Let_def split: if_splits) auto
      qed
    qed
  qed
  then show ?thesis
    using g by blast
qed

lemma resolve_all_index:
  "resolve_all i qs db out reads = Some (ds, db', out', reads') \<Longrightarrow> to_migrate (db_index db') \<le> to_migrate (db_index db) \<and>
    (rt_old_slots (db_index db) \<noteq> None \<and> (\<exists>k wanted. (k, wanted) \<in> set qs \<and> k \<noteq> 0) \<longrightarrow> to_migrate (db_index db') < to_migrate (db_index db))"
proof (induction qs arbitrary: i db out reads ds)
  case (Cons q qs)
  obtain k wanted where q: "q = (k, wanted)"
    by (cases q)
  obtain d db1 out1 reads1 ds1 where 1: "resolve_one i k wanted db out reads = Some (d, db1, out1, reads1)"
      "resolve_all (Suc i) qs db1 out1 reads1 = Some (ds1, db', out', reads')"
    using Cons.prems by (auto simp: q bind_eq_Some_conv)
  obtain r where g: "hash_index_get (db_index db) k = Some (r, db_index db1)"
    using resolve_one_index [OF 1(1)] by blast
  note le = hash_index_get_less [OF g]
  have "to_migrate (db_index db1) = to_migrate (db_index db) \<Longrightarrow> rt_old_slots (db_index db) \<noteq> None \<Longrightarrow> rt_old_slots (db_index db1) \<noteq> None"
    by (auto simp: to_migrate_def split: if_splits)
  then show ?case
    using Cons.IH [OF 1(2)] le by (cases "k = 0") (auto simp: q)
qed simp

text \<open>
  C18. While the index is being rehashed, a batch of reads writes to the store: every lookup migrates a
  part of the old table. Nothing finishes a rehash but the lookups and updates themselves, so a store
  whose keys were just loaded can be in this state when the read workers start to share it.
\<close>

theorem batch_get_writes_during_rehash:
  assumes "rt_old_slots (db_index db) \<noteq> None" and "(k, wanted) \<in> set qs" and "k \<noteq> 0"
    and "graveldb_batch_get_submit db qs w = Some (rc, st, out, dims, db', w')" and "dims \<noteq> []"
  shows "to_migrate (db_index db') < to_migrate (db_index db) \<and> db' \<noteq> db"
proof -
  obtain out1 reads ds where "resolve_all 0 qs db (replicate (length qs) None) [] = Some (ds, db', out1, reads)"
    using assms(4,5) by (auto simp: graveldb_batch_get_submit_def bind_eq_Some_conv Let_def split_beta split: if_splits)
  then have "to_migrate (db_index db') < to_migrate (db_index db)"
    using resolve_all_index assms(1-3) by blast
  then show ?thesis
    by auto
qed

text \<open>An index into which 24 ids were put, of which the last started a rehash.\<close>

lemma rehashing_index:
  "\<exists>idx idx'. put_all (map of_nat [6..<30]) (the (snd (the (hash_index_init True 32)))) = Some idx \<and>
     rt_old_slots idx \<noteq> None \<and> hash_index_get idx 24 = Some (None, idx')"
proof -
  have "case put_all (map of_nat [6..<30]) (the (snd (the (hash_index_init True 32)))) of
      Some idx \<Rightarrow> rt_old_slots idx \<noteq> None \<and> map_option fst (hash_index_get idx 24) = Some None | None \<Rightarrow> False"
    by code_simp
  then show ?thesis
    by (auto split: option.splits)
qed

theorem batch_get_writes_during_rehash_witness:
  "\<exists>idx db'. put_all (map of_nat [6..<30]) (the (snd (the (hash_index_init True 32)))) = Some idx \<and>
     graveldb_batch_get_submit (demo_db\<lparr>db_index := idx\<rparr>) [(24, True)] (demo_world {}) =
       Some (GRAVELDB_OK, None, [None], [0], db', demo_world {}) \<and> db' \<noteq> demo_db\<lparr>db_index := idx\<rparr>"
proof -
  obtain idx idx' where i: "put_all (map of_nat [6..<30]) (the (snd (the (hash_index_init True 32)))) = Some idx"
      "rt_old_slots idx \<noteq> None" "hash_index_get idx 24 = Some (None, idx')"
    using rehashing_index by blast
  have g: "graveldb_batch_get_submit (demo_db\<lparr>db_index := idx\<rparr>) [(24, True)] (demo_world {}) =
      Some (GRAVELDB_OK, None, [None], [0], demo_db\<lparr>db_index := idx'\<rparr>, demo_world {})"
    using i(3) by (simp add: graveldb_batch_get_submit_def resolve_one_def Let_def)
  have "demo_db\<lparr>db_index := idx'\<rparr> \<noteq> demo_db\<lparr>db_index := idx\<rparr>"
    by (rule conjunct2 [OF batch_get_writes_during_rehash [OF _ _ _ g, of 24 True]]) (use i(2) in simp_all)
  then show ?thesis
    using i(1) g by blast
qed

end
