(* ===== verification/Spec2Isabelle.thy ===== *)
theory Spec2Isabelle
  imports Hash_Index Wire Key_BTree Dirty_Tracker Dim_Registry Slab_Serve Overlay Bin_Contract Ckpt_Meta Engine_Get Ckpt_Sched Ckpt_Import Net_Pull Net_Readonly
begin

text \<open>
  A verification library for GravelDB, an embedded store for embedding vectors written in C, and for the
  network server and client that come with it. Paths are relative to \<^verbatim>\<open>src/\<close>.

  \<^bold>\<open>The program.\<close> A feature is a 64-bit id with a vector of floats. Vectors of one dimension share a
  bin (\<^verbatim>\<open>src/dimbin.c\<close>): a data file of fixed-size entries on pages, a key file, a buffer of dirty pages in
  an open-addressing page map, and a B-tree of keys that were not written yet (\<^verbatim>\<open>src/key_btree.h\<close>). The
  registry (\<^verbatim>\<open>src/dim_registry.c\<close>) finds the bin of a dimension and the feature index (\<^verbatim>\<open>src/hash_index.c\<close>) the
  bin and entry of an id. During a checkpoint writes go to an overlay (\<^verbatim>\<open>src/overlay.c\<close>) while the pages
  that a radix tree has recorded as dirty (\<^verbatim>\<open>src/dirty_tracker.c\<close>) are dumped to delta files
  (\<^verbatim>\<open>src/checkpoint.c\<close>). Page buffers come from slabs (\<^verbatim>\<open>src/slab_alloc.c\<close>). The store (\<^verbatim>\<open>src/graveldb.c\<close>) puts
  these together. The server (\<^verbatim>\<open>example/server/\<close>) offers it over sockets, the client (\<^verbatim>\<open>example/client/\<close>) calls
  it.

  \<^bold>\<open>Theories and code.\<close> Records, datatypes and operations keep the names of the C code.
  \<^item> \<open>Gravel_Prelude\<close>: integer types, status codes, conventions and shared facts.
  \<^item> \<open>Open_Addressing\<close>, \<open>Probe_Deletion\<close>, \<open>Rehash\<close>: linear probing, back-shift deletion and incremental
    rehash, as the locales \<open>oa_table\<close> and \<open>kv_table\<close>; \<open>Hash_Index\<close>, \<open>Overlay\<close>, \<open>Dim_Registry\<close> and \<open>Page_Map\<close>
    interpret them on the four tables of the program.
  \<^item> \<open>Hash_Index\<close>: \<^verbatim>\<open>hash_index.c\<close>. \<open>Overlay\<close>: \<^verbatim>\<open>overlay.c\<close>. \<open>Dim_Registry\<close>: \<^verbatim>\<open>dim_registry.c\<close>.
    \<open>Dirty_Tracker\<close>: \<^verbatim>\<open>dirty_tracker.c\<close>. \<open>Key_BTree\<close>: \<^verbatim>\<open>key_btree.h\<close>. \<open>Slab_Alloc\<close> and \<open>Slab_Serve\<close>:
    \<^verbatim>\<open>slab_alloc.c\<close>. \<open>Wire\<close>: \<^verbatim>\<open>wire.h\<close> and the checksum.
  \<^item> \<open>File_Io\<close>, \<open>File_System\<close>: files as bytes, the outcomes of system calls, and \<^verbatim>\<open>io_uring_flush.c\<close> built
    without liburing.
  \<^item> \<open>Page_Map\<close>, \<open>Dim_Bin\<close> and, with the lemmas, \<open>Bin_Keys\<close>, \<open>Bin_Flush\<close>, \<open>Bin_Init\<close>, \<open>Bin_Put\<close>,
    \<open>Bin_Contract\<close>: \<^verbatim>\<open>dimbin.c\<close>.
  \<^item> \<open>Engine\<close>, \<open>Engine_Flush\<close>, \<open>Engine_Get\<close>: \<^verbatim>\<open>graveldb.c\<close>.
  \<^item> \<open>Ckpt_Files\<close>, \<open>Ckpt_Delta\<close>, \<open>Ckpt_Meta\<close>, \<open>Ckpt_Progress\<close>, \<open>Ckpt_Sched\<close>, \<open>Ckpt_Export\<close>, \<open>Ckpt_Import\<close>:
    \<^verbatim>\<open>checkpoint.c\<close> and the stepwise checkpoint of \<^verbatim>\<open>graveldb.c\<close>.
  \<^item> \<open>Net_Arena\<close>, \<open>Net_Conn\<close>, \<open>Net_Handlers\<close>, \<open>Net_Messages\<close>, \<open>Net_Server\<close>, \<open>Net_Loop\<close>, \<open>Net_Readonly\<close>:
    \<^verbatim>\<open>server.c\<close>, from the memory of a request to the event loops. \<open>Io_Poller\<close>: \<^verbatim>\<open>io_poller.c\<close> built on
    \<^verbatim>\<open>poll\<close>, with the locale \<open>readiness\<close> for what the loops rely on. \<open>Net_Client\<close>: \<^verbatim>\<open>client.c\<close>.
    \<open>Net_Pull\<close>: server and client together.

  \<^bold>\<open>State and effects.\<close> State is passed explicitly. A \<open>World\<close> supplies the outcome of every allocation and
  system call, arbitrary and consumed in order, so a theorem without a hypothesis on the world covers
  every failure; \<open>all_ok\<close> is the hypothesis that nothing fails. Status codes are values. \<open>None\<close> is a call
  that does not return, because a loop does not end or memory is misused. Unsigned C integers are words,
  and wrap. What is called but not part of the program is a parameter: \<^verbatim>\<open>poll\<close>, \<^verbatim>\<open>accept\<close>, what a socket
  delivers, the clock.

  \<^bold>\<open>Loops and fuel.\<close> Most loops are structural or have a termination proof. A probe loop has as much fuel as
  the table has slots: after that many steps it has seen every slot, and running out is the endless C
  loop; that it does not happen is part of the table theorems. Finishing a rehash has one unit per slot of
  the old table. \<open>poll_loop\<close>, \<open>broadcast\<close> and \<open>process_messages\<close> may run for ever and are partial functions.

  \<^bold>\<open>What is shown.\<close>
  \<^item> The tables refine finite maps through growth, incremental rehash and deletion, and their operations
    return, for ids that are not hidden by a rehash in progress. The exact condition under which a lookup
    misses a stored id is shown, and which ids a rehash cuts off. The same for the overlay, the registry
    and the key buffer, which also collects its keys in order.
  \<^item> The tracker records exactly the marked pages and lists them in order. The allocator hands out
    disjoint objects; but its destructor releases only half of the pools, and a request of more than 64 KiB
    fails as long as a pool can be created for it.
  \<^item> Outside a checkpoint, without failing calls, and with room in the write buffer for the pages of a
    batch (or when these pages are complete in the file or still empty), a bin returns the bytes last put,
    before and after a flush that writes in runs and chunks; batches equal single writes. Two ways in which
    bytes are lost are shown as well: a page that is neither buffered nor complete in the file is cleared by
    a write, and a flush forgets pages that it could not write.
  \<^item> A batched read of a store in which no table is being rehashed answers every request like a single
    read would; but an entry that has a page to itself without filling it is read from the wrong place.
  \<^item> Delta files restore the dumped pages; replacing the metadata is atomic at every point of failure; the
    dumping phase of a checkpoint ends after a known number of steps.
  \<^item> Headers survive encoding and decoding, and the checksum detects every change of one byte.
  \<^item> What a client pulls, plain or streaming, is what the store holds, over the bytes on the wire. A send
    queue is first in, first out whatever the socket does. In every state that a server reaches, exactly
    its open connections are watched. Read workers leave a frozen store alone, and a store that is being
    rehashed is not frozen. A crafted message keeps the server busy for ever, and a client that skips a
    feature misreads the rest.

  \<^bold>\<open>Not modelled.\<close> The liburing, epoll and kqueue builds, which hand the work to a library or the kernel.
  The interleaving of the server's threads: each is modelled by itself. Directories, modification times
  and durability beyond the order of writes. Functions that only free memory or close files. The server
  program \<^verbatim>\<open>example/server/main.c\<close>, the replica and minimal examples, the Go and Rust bindings, benchmarks
  and tests: demonstrations and measurements that call the modelled interface, or code of another runtime.
\<close>

end
